(* ===== verification/Prelude.thy ===== *)
theory Prelude
  imports Complex_Main "HOL-Library.Word" "HOL-Library.AList"
begin

text \<open>
  Shared vocabulary of the development: how a Python value, a Python dictionary, the
  standard library's text and number helpers and the machine widths of the wire are read
  in HOL, with the generic lemmas every component uses.

  \<^item> A Python float is an exact rational: a decimal literal is the decimal it is written
    as and arithmetic is exact. Rounding of float arithmetic, infinities and NaN are outside
    the model except where a wire format produces them (\<open>pyfloat\<close>).
  \<^item> A dictionary is an association list in insertion order with distinct keys:
    \<open>d[k] = v\<close> is \<^const>\<open>AList.update\<close> (in place, or appended), \<open>del d[k]\<close> and
    \<open>d.pop(k, None)\<close> are \<^const>\<open>AList.delete\<close>, \<open>d.get(k)\<close> is \<^const>\<open>map_of\<close>.
  \<^item> Text is ASCII: a Python \<open>str\<close> is a \<^typ>\<open>string\<close> of characters below 128.
\<close>

unbundle bit_operations_syntax

named_theorems codec_simps \<open>byte and word packing\<close>
named_theorems dict_simps \<open>dictionaries as association lists\<close>

type_synonym u8 = "8 word"
type_synonym u16 = "16 word"

section \<open>Python values\<close>

datatype pyval = VNone | VBool bool | VInt int | VFloat rat | VStr string

text \<open>\<open>isinstance(x, (int, float)) and not isinstance(x, bool)\<close>, with the number.\<close>

fun number_of :: "pyval \<Rightarrow> rat option" where
  "number_of (VInt n) = Some (of_int n)"
| "number_of (VFloat q) = Some q"
| "number_of _ = None"

text \<open>\<open>==\<close>: numbers compare by value and a bool is the number 0 or 1.\<close>

fun num_or_bool :: "pyval \<Rightarrow> rat option" where
  "num_or_bool (VInt n) = Some (of_int n)"
| "num_or_bool (VFloat q) = Some q"
| "num_or_bool (VBool b) = Some (if b then 1 else 0)"
| "num_or_bool _ = None"

definition py_eq :: "pyval \<Rightarrow> pyval \<Rightarrow> bool" where
  "py_eq a b = (case (num_or_bool a, num_or_bool b) of
      (Some x, Some y) \<Rightarrow> x = y
    | _ \<Rightarrow> a = b)"

text \<open>\<open>bool(x)\<close>: what \<open>x or default\<close> and \<open>if x\<close> test.\<close>

fun truthy :: "pyval \<Rightarrow> bool" where
  "truthy VNone = False"
| "truthy (VBool b) = b"
| "truthy (VInt n) = (n \<noteq> 0)"
| "truthy (VFloat q) = (q \<noteq> 0)"
| "truthy (VStr s) = (s \<noteq> [])"

text \<open>A parsed JSON document, an object in the order of its keys.\<close>

datatype json = Leaf pyval | ListE "json list" | DictE "(string \<times> json) list"

text \<open>Python's \<open>round\<close> to an integer (ties to even) and \<open>int\<close> (towards zero).\<close>

definition py_round :: "rat \<Rightarrow> int" where
  "py_round q =
     (let f = \<lfloor>q\<rfloor>; d = q - of_int f
      in if d < 1/2 then f else if 1/2 < d then f + 1 else if even f then f else f + 1)"

definition py_trunc :: "rat \<Rightarrow> int" where
  "py_trunc q = (if 0 \<le> q then \<lfloor>q\<rfloor> else \<lceil>q\<rceil>)"

text \<open>\<open>10.0 ** e\<close>, and \<open>round(x, n)\<close>: \<open>n\<close> decimals, tens and hundreds for a negative \<open>n\<close>.\<close>

definition ten_pow :: "int \<Rightarrow> rat" where
  "ten_pow e = (if 0 \<le> e then 10 ^ nat e else 1 / 10 ^ nat (- e))"

definition py_round_dec :: "rat \<Rightarrow> int \<Rightarrow> rat" where
  "py_round_dec q n = of_int (py_round (q * ten_pow n)) / ten_pow n"

section \<open>Text\<close>

definition lower_char :: "char \<Rightarrow> char" where
  "lower_char c = (let n = of_char c :: nat in if 65 \<le> n \<and> n \<le> 90 then char_of (n + 32) else c)"

definition py_lower :: "string \<Rightarrow> string" where
  "py_lower s = map lower_char s"

lemma lower_char_idem [simp]: "lower_char (lower_char c) = lower_char c"
proof (cases "65 \<le> (of_char c :: nat) \<and> (of_char c :: nat) \<le> 90")
  case True
  have "(of_char (char_of ((of_char c :: nat) + 32) :: char) :: nat) = of_char c + 32"
    using True by simp
  with True show ?thesis by (simp add: lower_char_def Let_def)
next
  case False
  then have "lower_char c = c" unfolding lower_char_def Let_def by (rule if_not_P)
  then show ?thesis by simp
qed

lemma py_lower_idem [simp]: "py_lower (py_lower s) = py_lower s"
  by (simp add: py_lower_def)

definition is_space :: "char \<Rightarrow> bool" where
  "is_space c = (let n = of_char c :: nat in n = 32 \<or> (9 \<le> n \<and> n \<le> 13) \<or> (28 \<le> n \<and> n \<le> 31))"

definition py_lstrip :: "string \<Rightarrow> string" where
  "py_lstrip s = dropWhile is_space s"

definition py_strip :: "string \<Rightarrow> string" where
  "py_strip s = rev (py_lstrip (rev (py_lstrip s)))"

lemma py_strip_clean:
  assumes "s \<noteq> []" "\<not> is_space (hd s)" "\<not> is_space (last s)"
  shows "py_strip s = s"
proof -
  from assms have l: "py_lstrip s = s" by (cases s) (auto simp: py_lstrip_def)
  from assms have "py_lstrip (rev s) = rev s"
    by (cases "rev s") (auto simp: py_lstrip_def last_rev hd_rev [symmetric])
  with l show ?thesis by (simp add: py_strip_def)
qed

definition starts_with :: "string \<Rightarrow> string \<Rightarrow> bool" where
  "starts_with p s = (take (length p) s = p)"

lemma starts_with_append: "starts_with p s \<Longrightarrow> \<exists>r. s = p @ r"
  unfolding starts_with_def by (metis append_take_drop_id)

text \<open>Where a pattern's \<open>$\<close> matches: at the end, or before a last newline.\<close>

definition pat_end :: "string \<Rightarrow> string" where
  "pat_end s = (if s \<noteq> [] \<and> last s = CHR 0x0A then butlast s else s)"

text \<open>\<open><\<close> on text.\<close>

fun text_less :: "string \<Rightarrow> string \<Rightarrow> bool" where
  "text_less [] ys = (ys \<noteq> [])"
| "text_less (x # xs) [] = False"
| "text_less (x # xs) (y # ys) = (if x = y then text_less xs ys else (of_char x :: nat) < of_char y)"

definition is_digit :: "char \<Rightarrow> bool" where
  "is_digit c = (let n = of_char c :: nat in 48 \<le> n \<and> n \<le> 57)"

definition digit_val :: "char \<Rightarrow> int" where
  "digit_val c = of_char c - 48"

definition digits_val :: "string \<Rightarrow> int" where
  "digits_val ds = foldl (\<lambda>a c. 10 * a + digit_val c) 0 ds"

text \<open>
  \<open>float(s)\<close> on stripped decimal text: sign, digits, fraction, exponent.
  Python's further spellings (\<open>inf\<close>, \<open>nan\<close>, \<open>1_000\<close>) are outside the model and
  read as text that is not a number.
\<close>

definition split_sign :: "string \<Rightarrow> rat \<times> string" where
  "split_sign s = (case s of [] \<Rightarrow> (1, [])
     | c # r \<Rightarrow> if c = CHR ''-'' then (-1, r) else if c = CHR ''+'' then (1, r) else (1, s))"

definition parse_exponent :: "string \<Rightarrow> int option" where
  "parse_exponent s = (case s of [] \<Rightarrow> Some 0
     | c # r \<Rightarrow>
        if c = CHR ''e'' \<or> c = CHR ''E''
        then (let (sg, ds) = split_sign r
              in if ds \<noteq> [] \<and> list_all is_digit ds
                 then Some (if sg < 0 then - digits_val ds else digits_val ds) else None)
        else None)"

definition py_float_of_string :: "string \<Rightarrow> rat option" where
  "py_float_of_string txt =
     (let (sg, s) = split_sign (py_strip txt);
          ip = takeWhile is_digit s; r1 = dropWhile is_digit s;
          fp = (case r1 of [] \<Rightarrow> [] | c # r \<Rightarrow> if c = CHR ''.'' then takeWhile is_digit r else []);
          r2 = (case r1 of [] \<Rightarrow> [] | c # r \<Rightarrow> if c = CHR ''.'' then dropWhile is_digit r else r1)
      in if ip = [] \<and> fp = [] then None
         else map_option (\<lambda>e. sg * (of_int (digits_val (ip @ fp)) / 10 ^ length fp) * ten_pow e)
                (parse_exponent r2))"

text \<open>\<open>str(n)\<close> of an integer, and \<open>int(x)\<close> of a value (None: it raises).\<close>

fun nat_str :: "nat \<Rightarrow> string" where
  "nat_str n = (if n < 10 then [char_of (48 + n)] else nat_str (n div 10) @ [char_of (48 + n mod 10)])"

declare nat_str.simps [simp del]

definition int_str :: "int \<Rightarrow> string" where
  "int_str n = (if n < 0 then CHR ''-'' # nat_str (nat (- n)) else nat_str (nat n))"

definition py_int_of_string :: "string \<Rightarrow> int option" where
  "py_int_of_string txt =
     (let (sg, ds) = split_sign (py_strip txt)
      in if ds \<noteq> [] \<and> list_all is_digit ds then Some (if sg < 0 then - digits_val ds else digits_val ds) else None)"

fun py_int :: "pyval \<Rightarrow> int option" where
  "py_int VNone = None"
| "py_int (VBool b) = Some (if b then 1 else 0)"
| "py_int (VInt n) = Some n"
| "py_int (VFloat q) = Some (py_trunc q)"
| "py_int (VStr s) = py_int_of_string s"

text \<open>\<open>f'{n:X}'\<close> and hexadecimal text read back.\<close>

definition hex_digit :: "nat \<Rightarrow> char" where
  "hex_digit n = (if n < 10 then char_of (48 + n) else char_of (55 + n))"

definition hex_val :: "char \<Rightarrow> nat option" where
  "hex_val c = (let n = of_char c :: nat
     in if 48 \<le> n \<and> n \<le> 57 then Some (n - 48)
        else if 65 \<le> n \<and> n \<le> 70 then Some (n - 55)
        else if 97 \<le> n \<and> n \<le> 102 then Some (n - 87) else None)"

fun hex_str :: "nat \<Rightarrow> string" where
  "hex_str n = (if n < 16 then [hex_digit n] else hex_str (n div 16) @ [hex_digit (n mod 16)])"

declare hex_str.simps [simp del]

definition is_hex :: "char \<Rightarrow> bool" where
  "is_hex c = (hex_val c \<noteq> None)"

definition hex_nat :: "string \<Rightarrow> nat" where
  "hex_nat s = foldl (\<lambda>a c. 16 * a + the (hex_val c)) 0 s"

lemma hex_val_digit [simp]: "n < 16 \<Longrightarrow> hex_val (hex_digit n) = Some n"
  by (auto simp: hex_val_def hex_digit_def Let_def)

lemma is_hex_digit [simp]: "n < 16 \<Longrightarrow> is_hex (hex_digit n)"
  by (simp add: is_hex_def)

lemma hex_nat_snoc: "hex_nat (s @ [c]) = 16 * hex_nat s + the (hex_val c)"
  by (simp add: hex_nat_def)

lemma hex_nat_str [simp]: "hex_nat (hex_str n) = n"
proof (induction n rule: hex_str.induct)
  case (1 n)
  show ?case
  proof (cases "n < 16")
    case True
    then show ?thesis by (simp add: hex_str.simps [of n]) (simp add: hex_nat_def)
  next
    case False
    with 1 show ?thesis by (simp add: hex_str.simps [of n] hex_nat_snoc)
  qed
qed

lemma hex_str_hex: "list_all is_hex (hex_str n) \<and> hex_str n \<noteq> []"
proof (induction n rule: hex_str.induct)
  case (1 n)
  then show ?case by (cases "n < 16") (simp_all add: hex_str.simps [of n])
qed

section \<open>Computations that raise\<close>

definition ebind :: "'e + 'a \<Rightarrow> ('a \<Rightarrow> 'e + 'b) \<Rightarrow> 'e + 'b" where
  "ebind r f = (case r of Inl e \<Rightarrow> Inl e | Inr v \<Rightarrow> f v)"

lemma ebind_simps [simp]: "ebind (Inl e) f = Inl e" "ebind (Inr v) f = f v"
  by (simp_all add: ebind_def)

lemma ebind_Inr: "ebind r f = Inr y \<longleftrightarrow> (\<exists>v. r = Inr v \<and> f v = Inr y)"
  by (cases r) simp_all

text \<open>A loop over a list whose step may raise; the results in order.\<close>

fun emap :: "('a \<Rightarrow> 'e + 'b) \<Rightarrow> 'a list \<Rightarrow> 'e + 'b list" where
  "emap f [] = Inr []"
| "emap f (x # xs) = ebind (f x) (\<lambda>y. ebind (emap f xs) (\<lambda>ys. Inr (y # ys)))"

lemma emap_Inr: "emap f xs = Inr ys \<longleftrightarrow> list_all2 (\<lambda>x y. f x = Inr y) xs ys"
  by (induction xs arbitrary: ys) (auto simp: ebind_Inr list_all2_Cons1)

section \<open>Dictionaries\<close>

type_synonym ('k, 'v) dict = "('k \<times> 'v) list"

abbreviation dict_get :: "('k, 'v) dict \<Rightarrow> 'k \<Rightarrow> 'v option" where
  "dict_get d k \<equiv> map_of d k"

abbreviation dict_set :: "'k \<Rightarrow> 'v \<Rightarrow> ('k, 'v) dict \<Rightarrow> ('k, 'v) dict" where
  "dict_set \<equiv> AList.update"

abbreviation dict_del :: "'k \<Rightarrow> ('k, 'v) dict \<Rightarrow> ('k, 'v) dict" where
  "dict_del \<equiv> AList.delete"

abbreviation dict_ok :: "('k, 'v) dict \<Rightarrow> bool" where
  "dict_ok d \<equiv> distinct (map fst d)"

lemma dict_get_set [dict_simps]: "dict_get (dict_set k v d) k' = (if k' = k then Some v else dict_get d k')"
  by (simp add: update_conv')

lemma dict_get_del [dict_simps]: "dict_get (dict_del k d) k' = (if k' = k then None else dict_get d k')"
  by (simp add: delete_conv')

lemma dict_ok_set [dict_simps]: "dict_ok d \<Longrightarrow> dict_ok (dict_set k v d)"
  by (rule distinct_update)

lemma dict_ok_del [dict_simps]: "dict_ok d \<Longrightarrow> dict_ok (dict_del k d)"
  by (rule distinct_delete)

lemma dict_keys_set [dict_simps]: "fst ` set (dict_set k v d) = insert k (fst ` set d)"
  by (simp add: dom_update)

lemma dict_get_in: "dict_get d k = Some v \<Longrightarrow> (k, v) \<in> set d"
  by (rule map_of_SomeD)

lemma dict_in_get: "dict_ok d \<Longrightarrow> (k, v) \<in> set d \<longleftrightarrow> dict_get d k = Some v"
  by (rule map_of_eq_Some_iff [symmetric])

lemma dict_filter_ok [dict_simps]: "dict_ok d \<Longrightarrow> dict_ok (filter P d)"
  by (induction d) auto

lemma dict_get_filter:
  "dict_ok d \<Longrightarrow> dict_get (filter P d) k =
     (case dict_get d k of None \<Rightarrow> None | Some v \<Rightarrow> if P (k, v) then Some v else None)"
  by (induction d) (auto simp: map_of_eq_None_iff split: option.splits)

lemma dict_get_map: "dict_get (map (\<lambda>(k, v). (k, f v)) d) k = map_option f (dict_get d k)"
  by (induction d) auto

section \<open>Sums over a dictionary\<close>

definition dict_sum :: "('v \<Rightarrow> 'a::comm_monoid_add) \<Rightarrow> ('k, 'v) dict \<Rightarrow> 'a" where
  "dict_sum f d = sum_list (map (\<lambda>p. f (snd p)) d)"

lemma dict_sum_simps [simp]: "dict_sum f [] = 0" "dict_sum f (p # d) = f (snd p) + dict_sum f d"
  by (simp_all add: dict_sum_def)

lemma dict_sum_set_new: "dict_get d k = None \<Longrightarrow> dict_sum f (dict_set k v d) = dict_sum f d + f v"
  by (induction d) (auto simp: ac_simps)

lemma dict_sum_set: "dict_get d k = Some v \<Longrightarrow> dict_sum f (dict_set k v' d) + f v = dict_sum f d + f v'"
  by (induction d) (auto simp: ac_simps split: if_splits)

lemma dict_sum_del: "dict_ok d \<Longrightarrow> dict_get d k = Some v \<Longrightarrow> dict_sum f (dict_del k d) + f v = dict_sum f d"
proof (induction d)
  case (Cons p d)
  show ?case
  proof (cases "fst p = k")
    case True
    with Cons.prems have "dict_del k d = d" by (auto simp: delete_id)
    with True Cons.prems show ?thesis by (auto simp: ac_simps)
  next
    case False
    then have "dict_sum f (dict_del k d) + f v = dict_sum f d" using Cons by (cases p) auto
    then show ?thesis using False by (simp add: add.assoc)
  qed
qed simp

lemma dict_sum_member: "dict_get d k = Some v \<Longrightarrow> \<exists>r. dict_sum f d = f v + r"
proof (induction d)
  case (Cons p d)
  show ?case
  proof (cases "fst p = k")
    case True
    then show ?thesis using Cons.prems by (cases p) auto
  next
    case False
    then obtain r where "dict_sum f d = f v + r" using Cons by (cases p) auto
    then have "dict_sum f (p # d) = f v + (f (snd p) + r)" by (simp add: add.left_commute)
    then show ?thesis by blast
  qed
qed simp

section \<open>Slices and lists\<close>

definition py_slice :: "nat \<Rightarrow> nat \<Rightarrow> 'a list \<Rightarrow> 'a list" where
  "py_slice i j xs = drop i (take j xs)"

lemma length_py_slice [simp]: "length (py_slice i j xs) = min j (length xs) - i"
  by (simp add: py_slice_def)

text \<open>\<open>dict.fromkeys\<close>: the elements in the order of their first appearance.\<close>

definition first_seen :: "'a list \<Rightarrow> 'a list" where
  "first_seen xs = rev (remdups (rev xs))"

lemma first_seen_snoc: "first_seen (xs @ [x]) = (if x \<in> set xs then first_seen xs else first_seen xs @ [x])"
  by (simp add: first_seen_def)

lemma set_first_seen [simp]: "set (first_seen xs) = set xs"
  by (simp add: first_seen_def)

section \<open>Bits of Python integers\<close>

lemma mask_and_int [codec_simps]: "(x :: int) AND (2 ^ n - 1) = take_bit n x"
  by (simp add: take_bit_eq_mask mask_eq_exp_minus_1)

lemma uint_word_of_int_16 [simp]: "uint (word_of_int x :: u16) = take_bit 16 x"
  by (simp add: uint_word_of_int take_bit_eq_mod)

section \<open>Bytes as integers\<close>

text \<open>\<open>int.from_bytes\<close>.\<close>

definition from_little :: "u8 list \<Rightarrow> int" where
  "from_little data = foldr (\<lambda>b v. 256 * v + uint b) data 0"

definition from_big :: "u8 list \<Rightarrow> int" where
  "from_big data = foldl (\<lambda>v b. 256 * v + uint b) 0 data"

lemma from_big_rev: "from_big data = from_little (rev data)"
  by (simp add: from_big_def from_little_def foldr_conv_foldl)

lemma from_little_simps [simp]: "from_little [] = 0" "from_little (b # bs) = 256 * from_little bs + uint b"
  by (simp_all add: from_little_def)

lemma bit_byte_push: "bit (256 * v + uint (b :: u8)) n \<longleftrightarrow> (if n < 8 then bit b n else bit v (n - 8))"
proof -
  have e: "256 * v = push_bit 8 v" by (simp add: push_bit_eq_mult)
  have d: "\<not> bit (push_bit 8 v) k \<or> \<not> bit (uint b) k" for k
    using bit_imp_le_length [of b k] by (auto simp: bit_simps)
  have "push_bit 8 v + uint b = push_bit 8 v OR uint b"
    by (rule disjunctive_add) (use d in blast)
  then show ?thesis
    unfolding e using bit_imp_le_length [of b n] by (auto simp: bit_simps)
qed

lemma bit_from_little: "bit (from_little data) n \<longleftrightarrow> n < 8 * length data \<and> bit (data ! (n div 8)) (n mod 8)"
proof (induction data arbitrary: n)
  case (Cons b bs)
  show ?case
  proof (cases "n < 8")
    case True
    then show ?thesis by (simp add: bit_byte_push)
  next
    case False
    then obtain m where "n = m + 8" by (metis add.commute le_Suc_ex not_less)
    then show ?thesis using Cons.IH [of m] by (simp add: bit_byte_push)
  qed
qed simp

lemma bit_from_big:
  "bit (from_big data) n \<longleftrightarrow> n < 8 * length data \<and> bit (data ! (length data - 1 - n div 8)) (n mod 8)"
  by (auto simp: from_big_rev bit_from_little rev_nth less_mult_imp_div_less mult.commute)

end
