(* ===== verification/RegisterCodec.thy ===== *)
theory RegisterCodec
  imports Prelude
begin

text \<open>
  Engineering values and 16-bit Modbus registers: \<open>multibus/register_parser.py\<close>
  (\<open>RegisterParser\<close>, registers to values) and \<open>multibus/encoder.py\<close>
  (\<open>RegisterEncoder\<close>, values to registers). A register is a \<^typ>\<open>u16\<close>: the
  mask \<open>& 0xffff\<close> both classes apply at their boundary is the type. The two sides meet in
  the locale \<open>word_layout\<close>: the encoder's wire order is undone by the parser's
  canonical order, so every integer type round-trips under all four orderings.
\<close>

section \<open>IEEE 754 patterns\<close>

text \<open>
  What \<open>struct.unpack\<close> makes of a bit pattern with \<open>m\<close> mantissa bits and an exponent
  field of \<open>w\<close> bits (\<open>'>f'\<close>: 8 and 23, \<open>'>d'\<close>: 11 and 52).
\<close>

datatype pyfloat = Finite rat | PosInf | NegInf | NotANumber

definition two_pow :: "int \<Rightarrow> rat" where
  "two_pow e = (if 0 \<le> e then 2 ^ nat e else 1 / 2 ^ nat (- e))"

definition ieee_decode :: "nat \<Rightarrow> nat \<Rightarrow> int \<Rightarrow> pyfloat" where
  "ieee_decode w m u =
     (let neg = bit u (w + m);
          ex = take_bit w (drop_bit m u);
          f = take_bit m u;
          bias = 2 ^ (w - 1) - 1;
          sg = (if neg then -1 else 1)
      in if ex = 2 ^ w - 1
         then (if f \<noteq> 0 then NotANumber else if neg then NegInf else PosInf)
         else if ex = 0 then Finite (sg * of_int f * two_pow (1 - bias - int m))
         else Finite (sg * of_int (2 ^ m + f) * two_pow (ex - bias - int m)))"

fun finite_value :: "pyfloat \<Rightarrow> rat option" where
  "finite_value (Finite q) = Some q"
| "finite_value _ = None"

section \<open>The parser (register_parser.py)\<close>

definition REGISTER_COUNTS :: "(string, nat) dict" where
  "REGISTER_COUNTS =
     [(''float'', 2), (''float32'', 2), (''int32'', 2), (''uint32'', 2),
      (''int16'', 1), (''uint16'', 1), (''short'', 1),
      (''int64'', 4), (''long64'', 4), (''uint64'', 4), (''double'', 4),
      (''sm16'', 1), (''sm32'', 2)]"

definition ORDER_MAP :: "(string, bool \<times> bool) dict" where
  "ORDER_MAP =
     [(''big'', (False, False)), (''abcd'', (False, False)), (''be'', (False, False)),
      (''bigendian'', (False, False)),
      (''little'', (False, True)), (''cdab'', (False, True)), (''wordswap'', (False, True)),
      (''badc'', (True, False)), (''byteswap'', (True, False)),
      (''dcba'', (True, True))]"

text \<open>\<open>resolve_order\<close>: (byteswap within a word, word swap); an unknown name is big-endian.\<close>

definition resolve_order :: "string \<Rightarrow> bool \<times> bool" where
  "resolve_order byte_order =
     (let s = (if byte_order = [] then ''big'' else byte_order);
          key = filter (\<lambda>c. c \<noteq> CHR ''-'' \<and> c \<noteq> CHR ''_'' \<and> c \<noteq> CHR '' '') (py_lower s)
      in case dict_get ORDER_MAP key of Some o' \<Rightarrow> o' | None \<Rightarrow> (False, False))"

definition swap_bytes :: "u16 \<Rightarrow> u16" where
  "swap_bytes r = push_bit 8 (r AND 0xFF) OR (drop_bit 8 r AND 0xFF)"

text \<open>\<open>_canon\<close>: wire registers to canonical big-endian, high word first.\<close>

definition canon :: "bool \<times> bool \<Rightarrow> u16 list \<Rightarrow> u16 list" where
  "canon ord regs =
     (let regs = (if fst ord then map swap_bytes regs else regs)
      in if snd ord then rev regs else regs)"

definition first_number :: "string \<Rightarrow> nat option" where
  "first_number s =
     (let ds = takeWhile is_digit (dropWhile (\<lambda>c. \<not> is_digit c) s)
      in if ds = [] then None else Some (nat (digits_val ds)))"

definition get_register_count :: "string \<Rightarrow> nat" where
  "get_register_count data_type =
     (let dt = py_lower data_type
      in if starts_with ''string'' dt
         then (case first_number dt of Some n \<Rightarrow> n | None \<Rightarrow> 1)
         else (case dict_get REGISTER_COUNTS dt of Some n \<Rightarrow> n | None \<Rightarrow> 2))"

definition reg_bytes :: "u16 \<Rightarrow> nat list" where
  "reg_bytes r = [unat (drop_bit 8 r), unat (r AND 0xFF)]"

definition parse_string :: "u16 list \<Rightarrow> string option" where
  "parse_string registers =
     (let b = concat (map reg_bytes registers);
          s = py_strip (map char_of (filter (\<lambda>c. 32 \<le> c \<and> c < 127) b))
      in if s = [] then None else Some s)"

definition NOT_IMPLEMENTED :: "(string, int) dict" where
  "NOT_IMPLEMENTED =
     [(''int16'', -32768), (''short'', -32768), (''uint16'', 65535),
      (''int32'', -2147483648), (''uint32'', 4294967295),
      (''int64'', - (2 ^ 63)), (''long64'', - (2 ^ 63)), (''uint64'', 2 ^ 64 - 1)]"

text \<open>A register's \<open>nan\<close> declaration: a plain value (None, True, a number) or a list.\<close>

datatype nan_spec = NanValue pyval | NanList "pyval list"

definition nan_declared :: "nan_spec \<Rightarrow> bool" where
  "nan_declared n = (n \<noteq> NanValue VNone \<and> n \<noteq> NanValue (VBool False))"

definition is_sentinel :: "pyval \<Rightarrow> string \<Rightarrow> nan_spec \<Rightarrow> bool" where
  "is_sentinel value data_type nan =
     (case nan of
        NanList vs \<Rightarrow> list_ex (py_eq value) vs
      | NanValue (VBool True) \<Rightarrow>
          (case dict_get NOT_IMPLEMENTED data_type of
             None \<Rightarrow> False | Some s \<Rightarrow> py_eq value (VInt s))
      | NanValue v \<Rightarrow> number_of v \<noteq> None \<and> py_eq value v)"

text \<open>Two and four canonical registers read as one unsigned number (\<open>struct.pack('>HH')\<close>).\<close>

definition cat2 :: "u16 list \<Rightarrow> int" where
  "cat2 r = push_bit 16 (uint (r ! 0)) OR uint (r ! 1)"

definition cat4 :: "u16 list \<Rightarrow> int" where
  "cat4 r = push_bit 48 (uint (r ! 0)) OR push_bit 32 (uint (r ! 1))
            OR push_bit 16 (uint (r ! 2)) OR uint (r ! 3)"

definition parse_float :: "bool \<times> bool \<Rightarrow> u16 list \<Rightarrow> rat option" where
  "parse_float ord regs =
     (if length regs < 2 then None
      else finite_value (ieee_decode 8 23 (cat2 (canon ord (take 2 regs)))))"

definition parse_double :: "bool \<times> bool \<Rightarrow> u16 list \<Rightarrow> rat option" where
  "parse_double ord regs =
     (if length regs < 4 then None
      else finite_value (ieee_decode 11 52 (cat4 (canon ord (take 4 regs)))))"

definition parse_int32 :: "bool \<times> bool \<Rightarrow> u16 list \<Rightarrow> int option" where
  "parse_int32 ord regs =
     (if length regs < 2 then None else Some (signed_take_bit 31 (cat2 (canon ord (take 2 regs)))))"

definition parse_uint32 :: "bool \<times> bool \<Rightarrow> u16 list \<Rightarrow> int option" where
  "parse_uint32 ord regs =
     (if length regs < 2 then None else Some (cat2 (canon ord (take 2 regs))))"

definition parse_int16 :: "bool \<times> bool \<Rightarrow> u16 list \<Rightarrow> int option" where
  "parse_int16 ord regs =
     (if length regs < 1 then None
      else (let value = uint (canon ord (take 1 regs) ! 0)
            in Some (if 32768 \<le> value then value - 65536 else value)))"

definition parse_uint16 :: "bool \<times> bool \<Rightarrow> u16 list \<Rightarrow> int option" where
  "parse_uint16 ord regs =
     (if length regs < 1 then None else Some (uint (canon ord (take 1 regs) ! 0)))"

definition parse_sm16 :: "bool \<times> bool \<Rightarrow> u16 list \<Rightarrow> int option" where
  "parse_sm16 ord regs =
     (if length regs < 1 then None
      else (let raw = uint (canon ord (take 1 regs) ! 0); mag = raw AND 0x7FFF
            in Some (if raw AND 0x8000 \<noteq> 0 then - mag else mag)))"

definition parse_sm32 :: "bool \<times> bool \<Rightarrow> u16 list \<Rightarrow> int option" where
  "parse_sm32 ord regs =
     (if length regs < 2 then None
      else (let raw = cat2 (canon ord (take 2 regs)); mag = raw AND 0x7FFFFFFF
            in Some (if raw AND 0x80000000 \<noteq> 0 then - mag else mag)))"

definition parse_int64 :: "bool \<times> bool \<Rightarrow> u16 list \<Rightarrow> int option" where
  "parse_int64 ord regs =
     (if length regs < 4 then None else Some (signed_take_bit 63 (cat4 (canon ord (take 4 regs)))))"

definition parse_uint64 :: "bool \<times> bool \<Rightarrow> u16 list \<Rightarrow> int option" where
  "parse_uint64 ord regs =
     (if length regs < 4 then None else Some (cat4 (canon ord (take 4 regs))))"

text \<open>
  \<open>parse_value\<close>. None is "missing": no registers, too few of them, a NaN or infinite
  float, or the declared not-available value.
\<close>

definition parse_number :: "bool \<times> bool \<Rightarrow> u16 list \<Rightarrow> string \<Rightarrow> pyval option" where
  "parse_number ord regs dt =
     (if dt = ''float'' \<or> dt = ''float32'' then map_option VFloat (parse_float ord regs)
      else if dt = ''double'' then map_option VFloat (parse_double ord regs)
      else if dt = ''int32'' then map_option VInt (parse_int32 ord regs)
      else if dt = ''uint32'' then map_option VInt (parse_uint32 ord regs)
      else if dt = ''int16'' \<or> dt = ''short'' then map_option VInt (parse_int16 ord regs)
      else if dt = ''uint16'' then map_option VInt (parse_uint16 ord regs)
      else if dt = ''int64'' \<or> dt = ''long64'' then map_option VInt (parse_int64 ord regs)
      else if dt = ''uint64'' then map_option VInt (parse_uint64 ord regs)
      else if dt = ''sm16'' then map_option VInt (parse_sm16 ord regs)
      else if dt = ''sm32'' then map_option VInt (parse_sm32 ord regs)
      else map_option VFloat (parse_float ord regs))"

definition parse_value :: "bool \<times> bool \<Rightarrow> u16 list \<Rightarrow> string \<Rightarrow> nan_spec \<Rightarrow> pyval option" where
  "parse_value ord registers data_type nan =
     (if registers = [] then None
      else (let dt = py_lower data_type
            in if starts_with ''string'' dt then map_option VStr (parse_string registers)
               else (case parse_number ord registers dt of
                       None \<Rightarrow> None
                     | Some val \<Rightarrow>
                         if nan_declared nan \<and> is_sentinel val dt nan then None else Some val)))"

section \<open>The encoder (encoder.py)\<close>

definition INT_RANGES :: "(string, int \<times> int) dict" where
  "INT_RANGES =
     [(''int16'', (-32768, 32767)), (''short'', (-32768, 32767)),
      (''uint16'', (0, 65535)),
      (''int32'', (- (2 ^ 31), 2 ^ 31 - 1)), (''uint32'', (0, 2 ^ 32 - 1)),
      (''int64'', (- (2 ^ 63), 2 ^ 63 - 1)), (''long64'', (- (2 ^ 63), 2 ^ 63 - 1)),
      (''uint64'', (0, 2 ^ 64 - 1)),
      (''sm16'', (-32767, 32767)),
      (''sm32'', (- (2 ^ 31 - 1), 2 ^ 31 - 1))]"

definition range_or_default :: "string \<Rightarrow> int \<times> int" where
  "range_or_default dt =
     (case dict_get INT_RANGES dt of Some r \<Rightarrow> r | None \<Rightarrow> (- (2 ^ 31), 2 ^ 31 - 1))"

text \<open>\<open>int_range\<close>: the raw integers a type can carry, None for the float types.\<close>

definition int_range :: "string \<Rightarrow> (int \<times> int) option" where
  "int_range data_type =
     (let dt = py_lower (if data_type = [] then ''uint16'' else data_type)
      in if dt = ''float'' \<or> dt = ''float32'' \<or> dt = ''double'' then None
         else Some (range_or_default dt))"

text \<open>\<open>_apply_order\<close>: canonical registers to the wire layout.\<close>

definition apply_order :: "bool \<times> bool \<Rightarrow> u16 list \<Rightarrow> u16 list" where
  "apply_order ord regs =
     (let regs = (if fst ord then map swap_bytes regs else regs)
      in if snd ord then rev regs else regs)"

definition split32 :: "bool \<times> bool \<Rightarrow> int \<Rightarrow> u16 list" where
  "split32 ord u = apply_order ord [word_of_int (drop_bit 16 u), word_of_int u]"

definition split64 :: "bool \<times> bool \<Rightarrow> int \<Rightarrow> u16 list" where
  "split64 ord u = apply_order ord
     [word_of_int (drop_bit 48 u), word_of_int (drop_bit 32 u), word_of_int (drop_bit 16 u), word_of_int u]"

text \<open>The integer part of \<open>encode\<close>: clamp to the type, then pack; an unknown type raises.\<close>

datatype encode_error = UnsupportedType | NotANumberValue | FloatOverflow

definition clamp_raw :: "string \<Rightarrow> int \<Rightarrow> int" where
  "clamp_raw dt raw =
     (let (lo, hi) = range_or_default dt
      in if raw < lo \<or> hi < raw then max lo (min hi raw) else raw)"

definition encode_int :: "bool \<times> bool \<Rightarrow> int \<Rightarrow> string \<Rightarrow> encode_error + u16 list" where
  "encode_int ord raw0 dt =
     (let raw = clamp_raw dt raw0
      in if dt = ''int16'' \<or> dt = ''short'' \<or> dt = ''uint16''
         then Inr (apply_order ord [word_of_int raw])
         else if dt = ''int32'' \<or> dt = ''uint32'' then Inr (split32 ord (take_bit 32 raw))
         else if dt = ''int64'' \<or> dt = ''long64'' \<or> dt = ''uint64'' then Inr (split64 ord (take_bit 64 raw))
         else if dt = ''sm16''
         then Inr (apply_order ord [word_of_int (if raw < 0 then 0x8000 OR - raw else raw)])
         else if dt = ''sm32''
         then Inr (split32 ord (take_bit 32 (if raw < 0 then 0x80000000 OR - raw else raw)))
         else Inl UnsupportedType)"

text \<open>
  \<open>struct.pack('>f')\<close> and \<open>'>d'\<close>: round the magnitude to the nearest pattern, ties to
  even; a magnitude past the largest finite pattern raises OverflowError.
\<close>

fun nat_log2 :: "nat \<Rightarrow> nat" where
  "nat_log2 n = (if n < 2 then 0 else Suc (nat_log2 (n div 2)))"

declare nat_log2.simps [simp del]

definition floor_log2 :: "rat \<Rightarrow> int" where
  "floor_log2 a =
     (let (p, q) = quotient_of a;
          k = int (nat_log2 (nat p)) - int (nat_log2 (nat q))
      in if two_pow k \<le> a then k else k - 1)"

definition ieee_encode :: "nat \<Rightarrow> nat \<Rightarrow> rat \<Rightarrow> int option" where
  "ieee_encode w m v =
     (if v = 0 then Some 0
      else (let bias = 2 ^ (w - 1) - 1;
                e = max (floor_log2 \<bar>v\<bar>) (1 - bias);
                q = py_round (\<bar>v\<bar> / two_pow (e - int m));
                bits = q + (e + bias - 1) * 2 ^ m
            in if (2 ^ w - 1) * 2 ^ m \<le> bits then None
               else Some (bits + (if v < 0 then 2 ^ (w + m) else 0))))"

definition enc_float :: "bool \<times> bool \<Rightarrow> rat \<Rightarrow> encode_error + u16 list" where
  "enc_float ord v =
     (case ieee_encode 8 23 v of None \<Rightarrow> Inl FloatOverflow | Some u \<Rightarrow> Inr (split32 ord u))"

definition enc_double :: "bool \<times> bool \<Rightarrow> rat \<Rightarrow> encode_error + u16 list" where
  "enc_double ord v =
     (case ieee_encode 11 52 v of None \<Rightarrow> Inl FloatOverflow | Some u \<Rightarrow> Inr (split64 ord u))"

text \<open>\<open>float(value)\<close>; text that is no number, or None, raises.\<close>

definition to_float :: "pyval \<Rightarrow> encode_error + rat" where
  "to_float v =
     (case num_or_bool v of Some q \<Rightarrow> Inr q
      | None \<Rightarrow> (case v of VStr s \<Rightarrow> (case py_float_of_string s of Some q \<Rightarrow> Inr q | None \<Rightarrow> Inl NotANumberValue)
                          | _ \<Rightarrow> Inl NotANumberValue))"

text \<open>\<open>encode\<close>: raw = (value - offset) * scale, the inverse of raw / scale + offset.\<close>

definition encode :: "bool \<times> bool \<Rightarrow> pyval \<Rightarrow> string \<Rightarrow> rat \<Rightarrow> rat \<Rightarrow> encode_error + u16 list" where
  "encode ord value0 data_type scale offset =
     (let dt = py_lower data_type;
          value = (if offset \<noteq> 0
                   then (case number_of value0 of Some q \<Rightarrow> VFloat (q - offset) | None \<Rightarrow> value0)
                   else value0)
      in if dt = ''float'' \<or> dt = ''float32''
         then (case to_float value of Inl e \<Rightarrow> Inl e | Inr q \<Rightarrow> enc_float ord (q * scale))
         else if dt = ''double''
         then (case to_float value of Inl e \<Rightarrow> Inl e | Inr q \<Rightarrow> enc_double ord (q * scale))
         else (case value of
                 VInt n \<Rightarrow>
                   encode_int ord
                     (if scale = of_int \<lfloor>scale\<rfloor> then n * \<lfloor>scale\<rfloor> else py_round (of_int n * scale)) dt
               | _ \<Rightarrow> (case to_float value of
                          Inl e \<Rightarrow> Inl e
                        | Inr q \<Rightarrow> encode_int ord (py_round (q * scale)) dt)))"

definition SENTINELS :: "(string, int) dict" where
  "SENTINELS =
     [(''int16'', -0x8000), (''short'', -0x8000), (''uint16'', 0xFFFF),
      (''int32'', -0x80000000), (''uint32'', 0xFFFFFFFF),
      (''int64'', -0x8000000000000000), (''long64'', -0x8000000000000000),
      (''uint64'', 0xFFFFFFFFFFFFFFFF),
      (''sm16'', -0x7FFF), (''sm32'', -0x7FFFFFFF)]"

fun pair_bytes :: "nat list \<Rightarrow> u16 list" where
  "pair_bytes (hi # lo # bs) = (push_bit 8 (of_nat hi) OR of_nat lo) # pair_bytes bs"
| "pair_bytes _ = []"

text \<open>\<open>encode_string\<close>: two characters to a register, NUL-padded, never swapped.\<close>

definition encode_string :: "string \<Rightarrow> nat \<Rightarrow> u16 list" where
  "encode_string txt length_regs =
     (let raw = take (length_regs * 2) (map of_char txt)
      in pair_bytes (raw @ replicate (length_regs * 2 - length raw) 0))"

text \<open>\<open>sentinel_words\<close>: the registers that say "no value"; the float sentinel is the quiet NaN.\<close>

definition sentinel_words :: "bool \<times> bool \<Rightarrow> string \<Rightarrow> int \<Rightarrow> encode_error + u16 list" where
  "sentinel_words ord data_type len =
     (let dt = py_lower data_type
      in if dt = ''float'' \<or> dt = ''float32'' then Inr (split32 ord 0x7FC00000)
         else if dt = ''double'' then Inr (split64 ord 0x7FF8000000000000)
         else if dt = ''string'' then Inr (encode_string [] (nat (max 1 len)))
         else (let raw = (case dict_get SENTINELS dt of Some r \<Rightarrow> r | None \<Rightarrow> -0x80000000)
               in if dt = ''sm16'' \<or> dt = ''sm32'' then encode ord (VInt raw) dt 1 0
                  else if dt = ''int16'' \<or> dt = ''short'' \<or> dt = ''uint16''
                  then Inr (apply_order ord [word_of_int raw])
                  else if dt = ''int64'' \<or> dt = ''long64'' \<or> dt = ''uint64''
                  then Inr (split64 ord (take_bit 64 raw))
                  else Inr (split32 ord (take_bit 32 raw))))"

section \<open>The wire layout as an interface\<close>

text \<open>
  The encoder writes registers in the order the parser undoes. All a numeric type needs
  of that order is that the parser's canonical form of the wire registers is what the
  encoder split, whatever the four orderings do.
\<close>

locale word_layout =
  fixes wire :: "'w list \<Rightarrow> 'w list"
    and canonical :: "'w list \<Rightarrow> 'w list"
  assumes canonical_wire: "canonical (wire ws) = ws"
    and length_wire: "length (wire ws) = length ws"

locale word_codec = word_layout wire canonical
  for wire :: "'w list \<Rightarrow> 'w list" and canonical :: "'w list \<Rightarrow> 'w list" +
  fixes split :: "int \<Rightarrow> 'w list"
    and join :: "'w list \<Rightarrow> int"
    and width :: nat
    and count :: nat
  assumes join_split: "join (split u) = take_bit width u"
    and length_split: "length (split u) = count"
begin

lemma length_on_wire: "length (wire (split u)) = count"
  by (simp add: length_wire length_split)

lemma read_back: "join (canonical (take count (wire (split u)))) = take_bit width u"
  by (simp add: length_on_wire canonical_wire join_split)

lemma read_signed:
  assumes "width = Suc k"
  shows "signed_take_bit k (join (canonical (take count (wire (split u))))) = signed_take_bit k u"
  using assms by (simp add: read_back signed_take_bit_take_bit)

end

lemma swap_bytes_involution [simp]: "swap_bytes (swap_bytes r) = r"
proof -
  have m: "(0xFF :: u16) = mask 8"
    by (simp add: mask_eq_exp_minus_1)
  show ?thesis
    unfolding swap_bytes_def m by (rule bit_eqI) (auto simp: bit_simps)
qed

lemma swap_bytes_twice [simp]: "swap_bytes \<circ> swap_bytes = id"
  by (rule ext) simp

interpretation layout: word_layout "apply_order ord" "canon ord" for ord
  by unfold_locales (auto simp: apply_order_def canon_def Let_def rev_map)

lemma cat2_split [codec_simps]: "cat2 [word_of_int (drop_bit 16 u), word_of_int u] = take_bit 32 u"
  by (rule bit_eqI) (auto simp: cat2_def bit_simps)

lemma cat4_split [codec_simps]:
  "cat4 [word_of_int (drop_bit 48 u), word_of_int (drop_bit 32 u), word_of_int (drop_bit 16 u), word_of_int u]
   = take_bit 64 u"
proof (rule bit_eqI)
  fix n :: nat
  consider "n < 16" | "16 \<le> n" "n < 32" | "32 \<le> n" "n < 48" | "48 \<le> n" by linarith
  then show "bit (cat4 [word_of_int (drop_bit 48 u), word_of_int (drop_bit 32 u),
      word_of_int (drop_bit 16 u), word_of_int u]) n = bit (take_bit 64 u) n"
    by cases (auto simp: cat4_def bit_simps)
qed

interpretation one_word: word_codec "apply_order ord" "canon ord" "\<lambda>u. [word_of_int u :: u16]"
    "\<lambda>r. uint (r ! 0)" 16 1 for ord
  by unfold_locales simp_all

interpretation two_words: word_codec "apply_order ord" "canon ord"
    "\<lambda>u. [word_of_int (drop_bit 16 u), word_of_int u :: u16]" cat2 32 2 for ord
  by unfold_locales (simp_all add: codec_simps)

interpretation four_words: word_codec "apply_order ord" "canon ord"
    "\<lambda>u. [word_of_int (drop_bit 48 u), word_of_int (drop_bit 32 u), word_of_int (drop_bit 16 u), word_of_int u :: u16]"
    cat4 64 4 for ord
  by unfold_locales (simp_all add: codec_simps)

section \<open>Round trips and ranges\<close>

definition int_types :: "string list" where
  "int_types = [''int16'', ''short'', ''uint16'', ''int32'', ''uint32'', ''int64'', ''long64'', ''uint64'',
                ''sm16'', ''sm32'']"

lemma py_lower_types [simp]: "dt \<in> set int_types \<Longrightarrow> py_lower dt = dt"
  by (auto simp: int_types_def py_lower_def lower_char_def Let_def)

lemma no_sentinel [simp]: "\<not> nan_declared (NanValue VNone)"
  by (simp add: nan_declared_def)

lemma apply_order_neq_Nil [simp]: "apply_order ord ws = [] \<longleftrightarrow> ws = []"
  using layout.length_wire [of ord ws] by (cases ws) auto

lemma take_bit_of_range: "0 \<le> u \<Longrightarrow> u < 2 ^ n \<Longrightarrow> take_bit n (u :: int) = u"
  by (simp add: take_bit_int_eq_self)

lemma signed_take_bit_of_range: "- (2 ^ n) \<le> u \<Longrightarrow> u < 2 ^ n \<Longrightarrow> signed_take_bit n (u :: int) = u"
  by (rule signed_take_bit_int_eq_self) auto

lemma clamp_raw_in_range: "fst (range_or_default dt) \<le> raw \<Longrightarrow> raw \<le> snd (range_or_default dt) \<Longrightarrow> clamp_raw dt raw = raw"
  by (cases "range_or_default dt") (simp add: clamp_raw_def)

lemma wrap16:
  assumes "-32768 \<le> (r :: int)" "r \<le> 32767"
  shows "(if 32768 \<le> take_bit 16 r then take_bit 16 r - 65536 else take_bit 16 r) = r"
proof (cases "0 \<le> r")
  case True
  with assms show ?thesis by (simp add: take_bit_int_eq_self)
next
  case False
  have "take_bit 16 r = (r + 65536) mod 65536" by (simp add: take_bit_eq_mod)
  also have "\<dots> = r + 65536" using False assms by (intro mod_pos_pos_trivial) auto
  finally show ?thesis using False assms by simp
qed

lemma sm_word:
  fixes raw :: int
  assumes "- (2 ^ k) < raw" "raw < 2 ^ k"
  defines "u \<equiv> (if raw < 0 then 2 ^ k OR - raw else raw)"
  shows "(if u AND 2 ^ k \<noteq> 0 then - (u AND (2 ^ k - 1)) else u AND (2 ^ k - 1)) = raw"
proof (cases "raw < 0")
  case True
  have "take_bit k ((2 ^ k :: int) OR - raw) = take_bit k (- raw)"
    by (rule bit_eqI) (auto simp: bit_simps)
  moreover have "bit ((2 ^ k :: int) OR - raw) k"
    by (simp add: bit_simps)
  ultimately show ?thesis
    using True assms by (simp add: u_def codec_simps and_exp_eq_0_iff_not_bit take_bit_int_eq_self)
next
  case False
  then have t: "take_bit k raw = raw" using assms by (simp add: take_bit_int_eq_self)
  then have "\<not> bit raw k" by (metis bit_take_bit_iff order_less_irrefl)
  with False t show ?thesis by (simp add: u_def codec_simps and_exp_eq_0_iff_not_bit)
qed

lemma sm16_word:
  assumes "- 32767 \<le> (raw :: int)" "raw \<le> 32767"
  shows "(if (if raw < 0 then 32768 OR - raw else raw) AND 32768 \<noteq> 0
    then - ((if raw < 0 then 32768 OR - raw else raw) AND 32767)
    else (if raw < 0 then 32768 OR - raw else raw) AND 32767) = raw"
  using sm_word [of 15 raw] assms by (cases "raw < 0") (simp_all split: if_splits)

lemma sm32_word:
  assumes "- 2147483647 \<le> (raw :: int)" "raw \<le> 2147483647"
  shows "(if (if raw < 0 then 2147483648 OR - raw else raw) AND 2147483648 \<noteq> 0
    then - ((if raw < 0 then 2147483648 OR - raw else raw) AND 2147483647)
    else (if raw < 0 then 2147483648 OR - raw else raw) AND 2147483647) = raw"
  using sm_word [of 31 raw] assms by (cases "raw < 0") (simp_all split: if_splits)

lemma canon_apply [simp]: "canon ord (apply_order ord ws) = ws"
  by (rule layout.canonical_wire)

lemma length_apply [simp]: "length (apply_order ord ws) = length ws"
  by (rule layout.length_wire)

lemma parse_wire [codec_simps]:
  "parse_int16 ord (apply_order ord [word_of_int u]) =
     Some (if 32768 \<le> take_bit 16 u then take_bit 16 u - 65536 else take_bit 16 u)"
  "parse_uint16 ord (apply_order ord [word_of_int u]) = Some (take_bit 16 u)"
  "parse_sm16 ord (apply_order ord [word_of_int u]) =
     Some (if take_bit 16 u AND 0x8000 \<noteq> 0 then - (take_bit 16 u AND 0x7FFF) else take_bit 16 u AND 0x7FFF)"
  "parse_int32 ord (split32 ord u) = Some (signed_take_bit 31 u)"
  "parse_uint32 ord (split32 ord u) = Some (take_bit 32 u)"
  "parse_sm32 ord (split32 ord u) =
     Some (if take_bit 32 u AND 0x80000000 \<noteq> 0 then - (take_bit 32 u AND 0x7FFFFFFF) else take_bit 32 u AND 0x7FFFFFFF)"
  "parse_int64 ord (split64 ord u) = Some (signed_take_bit 63 u)"
  "parse_uint64 ord (split64 ord u) = Some (take_bit 64 u)"
  by (simp_all add: parse_int16_def parse_uint16_def parse_sm16_def parse_int32_def parse_uint32_def
    parse_sm32_def parse_int64_def parse_uint64_def split32_def split64_def codec_simps Let_def
    signed_take_bit_take_bit)

lemma split_nonempty [simp]: "split32 ord u \<noteq> []" "split64 ord u \<noteq> []"
  "length (split32 ord u) = 2" "length (split64 ord u) = 4"
  by (simp_all add: split32_def split64_def)


lemma clamp_raw_bounds:
  assumes "dt \<in> set int_types"
  shows "fst (range_or_default dt) \<le> clamp_raw dt raw" "clamp_raw dt raw \<le> snd (range_or_default dt)"
proof -
  from assms have "fst (range_or_default dt) \<le> snd (range_or_default dt)"
    by (auto simp: int_types_def range_or_default_def INT_RANGES_def)
  then show "fst (range_or_default dt) \<le> clamp_raw dt raw" "clamp_raw dt raw \<le> snd (range_or_default dt)"
    by (cases "range_or_default dt"; simp add: clamp_raw_def)+
qed

lemma clamp_raw_idem: "dt \<in> set int_types \<Longrightarrow> clamp_raw dt (clamp_raw dt raw) = clamp_raw dt raw"
  by (intro clamp_raw_in_range clamp_raw_bounds)

lemma encode_int_clamped: "dt \<in> set int_types \<Longrightarrow> encode_int ord (clamp_raw dt raw) dt = encode_int ord raw dt"
  by (simp add: encode_int_def clamp_raw_idem)

lemma int_types_cases [consumes 1, case_names int16 short uint16 int32 uint32 int64 long64 uint64 sm16 sm32]:
  assumes "dt \<in> set int_types"
  obtains "dt = ''int16''" | "dt = ''short''" | "dt = ''uint16''" | "dt = ''int32''" | "dt = ''uint32''"
    | "dt = ''int64''" | "dt = ''long64''" | "dt = ''uint64''" | "dt = ''sm16''" | "dt = ''sm32''"
proof -
  from assms have "dt = ''int16'' \<or> dt = ''short'' \<or> dt = ''uint16'' \<or> dt = ''int32'' \<or> dt = ''uint32''
    \<or> dt = ''int64'' \<or> dt = ''long64'' \<or> dt = ''uint64'' \<or> dt = ''sm16'' \<or> dt = ''sm32''"
    by (simp only: int_types_def list.set insert_iff empty_iff simp_thms)
  then show thesis
    by (elim disjE) (erule that)+
qed

lemma int_round_trip:
  assumes "dt \<in> set int_types" and "fst (range_or_default dt) \<le> raw" and "raw \<le> snd (range_or_default dt)"
  shows "\<exists>ws. encode_int ord raw dt = Inr ws \<and> length ws = get_register_count dt
    \<and> parse_value ord ws dt (NanValue VNone) = Some (VInt raw)"
proof -
  note simps = encode_int_def Let_def parse_value_def parse_number_def starts_with_def
    get_register_count_def REGISTER_COUNTS_def codec_simps
    take_bit_of_range signed_take_bit_of_range signed_take_bit_take_bit
  note facts = assms(2,3) [unfolded range_or_default_def INT_RANGES_def]
    py_lower_types [OF assms(1)] clamp_raw_in_range [OF assms(2,3)]
  from assms(1) show ?thesis
  proof (cases rule: int_types_cases)
    case int16 with facts wrap16 [of raw] show ?thesis by (simp add: simps)
  next case short with facts wrap16 [of raw] show ?thesis by (simp add: simps)
  next case uint16 with facts show ?thesis by (simp add: simps)
  next case int32 with facts show ?thesis by (simp add: simps)
  next case uint32 with facts show ?thesis by (simp add: simps)
  next case int64 with facts show ?thesis by (simp add: simps)
  next case long64 with facts show ?thesis by (simp add: simps)
  next case uint64 with facts show ?thesis by (simp add: simps)
  next case sm16 with facts sm16_word [of raw] show ?thesis by (cases "raw < 0") (simp_all add: simps split: if_splits)
  next case sm32 with facts sm32_word [of raw] show ?thesis by (cases "raw < 0") (simp_all add: simps split: if_splits)
  qed
qed

text \<open>
  C14 (roundtrip): For every integer type and every byte order, what the encoder writes for a
  raw value has the number of registers the parser expects and reads back as that value,
  saturated to the type's range when it lies outside.
\<close>

theorem encode_parse_saturates:
  assumes "dt \<in> set int_types"
  shows "\<exists>ws. encode_int (resolve_order bo) raw dt = Inr ws \<and> length ws = get_register_count dt
    \<and> parse_value (resolve_order bo) ws dt (NanValue VNone)
      = Some (VInt (max (fst (range_or_default dt)) (min (snd (range_or_default dt)) raw)))"
proof -
  have eq: "clamp_raw dt raw = max (fst (range_or_default dt)) (min (snd (range_or_default dt)) raw)"
    using clamp_raw_bounds [OF assms, of raw] by (cases "range_or_default dt") (auto simp: clamp_raw_def)
  show ?thesis
    using int_round_trip [OF assms clamp_raw_bounds [OF assms, of raw], of "resolve_order bo"]
    unfolding encode_int_clamped [OF assms] unfolding eq .
qed

theorem encode_parse_saturates_witness:
  "\<exists>ws. encode_int (resolve_order ''cdab'') (-70000) ''int32'' = Inr ws
    \<and> parse_value (resolve_order ''cdab'') ws ''int32'' (NanValue VNone) = Some (VInt (-70000))"
  using encode_parse_saturates [of "''int32''" "''cdab''" "-70000"]
  by (auto simp: int_types_def range_or_default_def INT_RANGES_def)

section \<open>Strings\<close>

lemma reg_bytes_pair: "hi < 256 \<Longrightarrow> lo < 256 \<Longrightarrow> reg_bytes (push_bit 8 (of_nat hi) OR of_nat lo) = [hi, lo]"
proof -
  assume "hi < 256" "lo < 256"
  then have h: "take_bit 8 hi = hi" and l: "take_bit 8 lo = lo" by (simp_all add: take_bit_nat_eq_self)
  have hb: "n < 8" if "bit hi n" for n using that by (subst (asm) h [symmetric]) (simp add: bit_simps)
  have lb: "n < 8" if "bit lo n" for n using that by (subst (asm) l [symmetric]) (simp add: bit_simps)
  have m: "(0xFF :: u16) = mask 8"
    by (simp add: mask_eq_exp_minus_1)
  have "drop_bit 8 (push_bit 8 (of_nat hi) OR of_nat lo :: u16) = of_nat hi"
    by (rule bit_eqI) (auto simp: bit_simps dest: hb lb)
  moreover have "(push_bit 8 (of_nat hi) OR of_nat lo :: u16) AND 0xFF = of_nat lo"
    unfolding m by (rule bit_eqI) (auto simp: bit_simps dest: hb lb)
  ultimately show ?thesis using \<open>hi < 256\<close> \<open>lo < 256\<close>
    by (simp add: reg_bytes_def unat_of_nat)
qed

lemma bytes_of_pairs: "\<forall>b \<in> set bs. b < 256 \<Longrightarrow> even (length bs) \<Longrightarrow> concat (map reg_bytes (pair_bytes bs)) = bs"
  by (induction bs rule: pair_bytes.induct) (auto simp: reg_bytes_pair)

lemma length_pair_bytes: "length (pair_bytes bs) = length bs div 2"
  by (induction bs rule: pair_bytes.induct) auto

definition printable :: "string \<Rightarrow> bool" where
  "printable s = list_all (\<lambda>c. 32 \<le> (of_char c :: nat) \<and> (of_char c :: nat) < 127) s"

definition trimmed :: "string \<Rightarrow> bool" where
  "trimmed s = (s \<noteq> [] \<and> \<not> is_space (hd s) \<and> \<not> is_space (last s))"

lemma strip_trimmed: "trimmed s \<Longrightarrow> py_strip s = s"
  by (simp add: trimmed_def py_strip_def py_lstrip_def dropWhile_eq_self_iff [THEN iffD2] hd_rev)

lemma bytes_of_text:
  assumes "printable s" "length s \<le> 2 * n"
  shows "concat (map reg_bytes (encode_string s n)) = map of_char s @ replicate (2 * n - length s) 0"
proof -
  have "\<forall>b \<in> set (map of_char s @ replicate (2 * n - length s) (0 :: nat)). b < 256"
    using assms(1) by (auto simp: printable_def list_all_iff)
  moreover have "take (n * 2) (map of_char s) = (map of_char s :: nat list)"
    using assms(2) by simp
  ultimately show ?thesis
    using assms(2) by (simp add: encode_string_def Let_def bytes_of_pairs mult.commute)
qed

text \<open>
  Printable text that does not begin or end with a space and fits the
  registers is read back exactly; padding and the byte order leave it alone.
\<close>

theorem string_round_trip:
  assumes "printable s" and "trimmed s" and "length s \<le> 2 * n"
  shows "length (encode_string s n) = n \<and> parse_string (encode_string s n) = Some s"
proof
  show "length (encode_string s n) = n"
    using assms(3) by (simp add: encode_string_def length_pair_bytes mult.commute)
  have "filter (\<lambda>c. 32 \<le> c \<and> c < 127) (map of_char s @ replicate (2 * n - length s) (0 :: nat)) = map of_char s"
    using assms(1) by (auto simp: printable_def list_all_iff filter_empty_conv intro!: filter_True)
  then show "parse_string (encode_string s n) = Some s"
    using assms(2) strip_trimmed [OF assms(2)]
    by (simp add: parse_string_def bytes_of_text [OF assms(1,3)] trimmed_def comp_def)
qed

theorem string_round_trip_witness: "parse_string (encode_string ''EM24 v1'' 5) = Some ''EM24 v1''"
  using string_round_trip [of "''EM24 v1''" 5] by (simp add: printable_def trimmed_def is_space_def Let_def)

definition standard_types :: "string list" where
  "standard_types = [''int16'', ''short'', ''uint16'', ''int32'', ''uint32'', ''int64'', ''long64'', ''uint64'',
                     ''float'', ''float32'', ''double'']"

text \<open>
  The "no value" registers of every standard type, floats included, are read as
  missing by a parser told to look for the sentinel: absence never turns into a reading.
\<close>

theorem sentinel_reads_missing:
  assumes "dt \<in> set standard_types"
  shows "\<exists>ws. sentinel_words ord dt len = Inr ws \<and> ws \<noteq> []
    \<and> parse_value ord ws dt (NanValue (VBool True)) = None"
proof -
  have low: "py_lower dt = dt"
    using assms by (auto simp: standard_types_def py_lower_def lower_char_def Let_def)
  from assms have "dt = ''int16'' \<or> dt = ''short'' \<or> dt = ''uint16'' \<or> dt = ''int32'' \<or> dt = ''uint32''
    \<or> dt = ''int64'' \<or> dt = ''long64'' \<or> dt = ''uint64'' \<or> dt = ''float'' \<or> dt = ''float32'' \<or> dt = ''double''"
    by (simp only: standard_types_def list.set insert_iff empty_iff simp_thms)
  then show ?thesis
    using low
    by (elim disjE) (simp_all add: sentinel_words_def SENTINELS_def parse_value_def parse_number_def
      starts_with_def parse_int16_def parse_uint16_def parse_int32_def parse_uint32_def parse_int64_def
      parse_uint64_def cat2_def cat4_def is_sentinel_def NOT_IMPLEMENTED_def nan_declared_def py_eq_def
      parse_float_def parse_double_def split32_def split64_def ieee_decode_def Let_def)
qed

theorem sentinel_reads_missing_witness:
  "\<exists>ws. sentinel_words (True, False) ''int32'' 1 = Inr ws \<and> ws \<noteq> []
    \<and> parse_value (True, False) ws ''int32'' (NanValue (VBool True)) = None"
  by (rule sentinel_reads_missing) (simp add: standard_types_def)

section \<open>Float patterns\<close>

lemma two_pow_powi: "two_pow e = 2 powi e"
  by (simp add: two_pow_def power_int_def field_simps power_one_over)

lemma two_pow_pos [simp]: "0 < two_pow e"
  by (simp add: two_pow_powi)

lemma two_pow_neq [simp]: "two_pow e \<noteq> 0"
  using two_pow_pos [of e] by linarith

lemma two_pow_add: "two_pow (a + b) = two_pow a * two_pow b"
  by (simp add: two_pow_powi power_int_add)

lemma two_pow_nat: "two_pow (int n) = 2 ^ n"
  by (simp add: two_pow_def)

lemma two_pow_less: "two_pow a < two_pow b \<longleftrightarrow> a < b"
  unfolding two_pow_powi by (meson less_le_not_le linorder_not_le one_le_numeral one_less_numeral_iff power_int_increasing power_int_strict_increasing semiring_norm(76))

lemma nat_log2_bounds: "0 < n \<Longrightarrow> 2 ^ nat_log2 n \<le> n \<and> n < 2 ^ Suc (nat_log2 n)"
proof (induction n rule: nat_log2.induct)
  case (1 n)
  show ?case
  proof (cases "n < 2")
    case True
    with "1.prems" show ?thesis by (simp add: nat_log2.simps [of n])
  next
    case False
    with "1.IH" have "2 ^ nat_log2 (n div 2) \<le> n div 2 \<and> n div 2 < 2 ^ Suc (nat_log2 (n div 2))" by simp
    with False show ?thesis by (simp add: nat_log2.simps [of n]) linarith
  qed
qed

lemma nat_log2_rat:
  assumes "0 < n"
  shows "two_pow (int (nat_log2 n)) \<le> of_nat n" "of_nat n < two_pow (int (nat_log2 n) + 1)"
proof -
  have e: "two_pow (int (nat_log2 n)) = of_nat (2 ^ nat_log2 n)"
    "two_pow (int (nat_log2 n) + 1) = of_nat (2 ^ Suc (nat_log2 n))"
    unfolding two_pow_add two_pow_nat by (simp_all add: two_pow_def)
  show "two_pow (int (nat_log2 n)) \<le> of_nat n" "of_nat n < two_pow (int (nat_log2 n) + 1)"
    unfolding e of_nat_le_iff of_nat_less_iff using nat_log2_bounds [OF assms] by simp_all
qed

lemma floor_log2_bounds:
  assumes "0 < a"
  shows "two_pow (floor_log2 a) \<le> a \<and> a < two_pow (floor_log2 a + 1)"
proof -
  obtain p q where pq: "quotient_of a = (p, q)" by (cases "quotient_of a")
  have q: "0 < q" and a: "a = of_int p / of_int q"
    using pq quotient_of_denom_pos quotient_of_div by auto
  with assms have p: "0 < p" by (simp add: zero_less_divide_iff)
  define lp lq where "lp = int (nat_log2 (nat p))" and "lq = int (nat_log2 (nat q))"
  have P: "two_pow lp \<le> of_int p" "of_int p < two_pow (lp + 1)"
    and Q: "two_pow lq \<le> of_int q" "of_int q < two_pow (lq + 1)"
    using nat_log2_rat [of "nat p"] nat_log2_rat [of "nat q"] p q by (simp_all add: lp_def lq_def)
  have "of_int p < two_pow (lp - lq + 1) * of_int q"
  proof -
    have "two_pow (lp + 1) = two_pow (lp - lq + 1) * two_pow lq"
      by (simp add: two_pow_add [symmetric])
    also have "\<dots> \<le> two_pow (lp - lq + 1) * of_int q" using Q(1) by simp
    finally show ?thesis using P(2) by simp
  qed
  moreover have "two_pow (lp - lq - 1) * of_int q < of_int p"
  proof -
    have "two_pow (lp - lq - 1) * of_int q < two_pow (lp - lq - 1) * two_pow (lq + 1)" using Q(2) by simp
    also have "\<dots> = two_pow lp" by (simp add: two_pow_add [symmetric])
    finally show ?thesis using P(1) by simp
  qed
  ultimately have "a < two_pow (lp - lq + 1)" "two_pow (lp - lq - 1) \<le> a"
    using q by (simp_all add: a pos_divide_less_eq pos_le_divide_eq)
  then show ?thesis
    by (simp add: floor_log2_def pq lp_def lq_def Let_def)
qed

lemma floor_log2_unique:
  assumes "two_pow k \<le> a" "a < two_pow (k + 1)"
  shows "floor_log2 a = k"
proof -
  have "0 < a" using assms(1) two_pow_pos [of k] by linarith
  note b = floor_log2_bounds [OF this]
  have "two_pow k < two_pow (floor_log2 a + 1)" "two_pow (floor_log2 a) < two_pow (k + 1)"
    using assms b by linarith+
  then show ?thesis by (simp add: two_pow_less)
qed

lemma floor_log2_below:
  assumes "0 < a" "a < two_pow k"
  shows "floor_log2 a < k"
proof -
  have "two_pow (floor_log2 a) < two_pow k"
    using floor_log2_bounds [OF assms(1)] assms(2) by linarith
  then show ?thesis by (simp add: two_pow_less)
qed

lemma py_round_of_int [simp]: "py_round (of_int n) = n"
  by (simp add: py_round_def)

text \<open>A finite positive pattern is the encoding of the value it decodes to.\<close>

lemma ieee_encode_decode_pos:
  assumes w: "2 \<le> w" and u: "0 < u" "u < (2 ^ w - 1) * 2 ^ m"
  obtains q where "ieee_decode w m u = Finite q" "0 < q" "ieee_encode w m q = Some u"
proof -
  define f ex bias where "f = take_bit m u" and "ex = take_bit w (drop_bit m u)" and "bias = (2 ^ (w - 1) - 1 :: int)"
  have "u div 2 ^ m * 2 ^ m \<le> u" by (simp add: minus_mod_eq_div_mult [symmetric])
  then have "u div 2 ^ m * 2 ^ m < (2 ^ w - 1) * 2 ^ m" using u(2) by linarith
  then have dr: "drop_bit m u < 2 ^ w - 1" "0 \<le> drop_bit m u"
    using u(1) by (simp_all add: drop_bit_eq_div mult_less_cancel_right pos_imp_zdiv_nonneg_iff)
  then have ex: "ex = drop_bit m u" "0 \<le> ex" "ex < 2 ^ w - 1"
    by (simp_all add: ex_def take_bit_int_eq_self)
  have ub: "u = f + ex * 2 ^ m"
    using mod_div_mult_eq [of u "2 ^ m"] by (simp add: f_def ex(1) take_bit_eq_mod drop_bit_eq_div)
  have f: "0 \<le> f" "f < 2 ^ m" by (simp_all add: f_def)
  have nb: "\<not> bit u (w + m)"
  proof -
    have "bit u (w + m) = bit ex w" by (simp add: ex(1) bit_drop_bit_eq add.commute)
    also have "\<dots> = False" by (simp add: ex_def bit_take_bit_iff)
    finally show ?thesis by simp
  qed
  define mant e where "mant = (if ex = 0 then f else 2 ^ m + f)" and "e = (if ex = 0 then 1 - bias else ex - bias)"
  have dec: "ieee_decode w m u = Finite (of_int mant * two_pow (e - int m))"
    using nb ex(3) by (simp add: ieee_decode_def Let_def mant_def e_def f_def [symmetric] ex_def [symmetric] bias_def)
  have mpos: "0 < mant" using f u(1) ub by (auto simp: mant_def)
  have e_eq: "max (floor_log2 (of_int mant * two_pow (e - int m))) (1 - bias) = e"
  proof (cases "ex = 0")
    case True
    have "rat_of_int mant < rat_of_int (2 ^ m)"
      using True f(2) by (simp add: mant_def del: of_int_power)
    then have "of_int mant * two_pow (e - int m) < two_pow (int m) * two_pow (e - int m)"
      by (simp add: two_pow_nat)
    also have "\<dots> = two_pow (1 - bias)" using True by (simp add: e_def two_pow_add [symmetric])
    finally show ?thesis
      using floor_log2_below [of "of_int mant * two_pow (e - int m)" "1 - bias"] mpos True by (simp add: e_def)
  next
    case False
    have lo: "two_pow (int m) * two_pow (e - int m) \<le> of_int mant * two_pow (e - int m)"
      using False f(1) by (simp add: mant_def two_pow_nat)
    have "rat_of_int mant < rat_of_int (2 ^ (m + 1))"
      using False f(2) by (simp add: mant_def del: of_int_power)
    then have "of_int mant * two_pow (e - int m) < two_pow (int (m + 1)) * two_pow (e - int m)"
      by (simp only: two_pow_nat of_int_power of_int_numeral) simp
    then have "of_int mant * two_pow (e - int m) < two_pow (int m + 1) * two_pow (e - int m)"
      by (simp only: of_nat_add of_nat_1)
    with lo have "floor_log2 (of_int mant * two_pow (e - int m)) = e"
      by (intro floor_log2_unique) (simp_all add: two_pow_add [symmetric] add.commute)
    then show ?thesis using False ex(2) by (simp add: e_def)
  qed
  have bits: "mant + (e + bias - 1) * 2 ^ m = u"
    by (simp add: mant_def e_def ub algebra_simps)
  define x where "x = of_int mant * two_pow (e - int m)"
  have x: "0 < x" "x / two_pow (e - int m) = of_int mant" "x \<noteq> 0"
    using mpos by (simp_all add: x_def)
  have "ieee_encode w m x = Some u"
    unfolding ieee_encode_def Let_def bias_def [symmetric]
    using x e_eq [folded x_def] bits u(2) by simp
  with dec x(1) show thesis using that by (simp add: x_def)
qed

lemma ieee_decode_take:
  "ieee_decode w m u = (let v = take_bit (w + m) u in
     if bit u (w + m) then (case ieee_decode w m v of Finite q \<Rightarrow> Finite (- q) | PosInf \<Rightarrow> NegInf | x \<Rightarrow> x)
     else ieee_decode w m v)"
proof -
  have "take_bit w (drop_bit m (take_bit (w + m) u)) = take_bit w (drop_bit m u)"
    by (simp add: drop_bit_take_bit)
  moreover have "take_bit m (take_bit (w + m) u) = take_bit m u" by simp
  ultimately show ?thesis
    by (simp add: ieee_decode_def Let_def bit_take_bit_iff) (simp add: algebra_simps)
qed

lemma ieee_decode_finite_below:
  assumes "ieee_decode w m v = Finite q" "0 \<le> v" "v < 2 ^ (w + m)"
  shows "v < (2 ^ w - 1) * 2 ^ m"
proof -
  have "drop_bit m v < 2 ^ w" "0 \<le> drop_bit m v"
  proof -
    have "v div 2 ^ m * 2 ^ m \<le> v" by (simp add: minus_mod_eq_div_mult [symmetric])
    moreover have "v < 2 ^ w * 2 ^ m" using assms(3) by (simp add: power_add)
    ultimately have "v div 2 ^ m * 2 ^ m < 2 ^ w * 2 ^ m" by linarith
    then show "drop_bit m v < 2 ^ w" "0 \<le> drop_bit m v"
      using assms(2) by (simp_all add: drop_bit_eq_div mult_less_cancel_right pos_imp_zdiv_nonneg_iff)
  qed
  then have "take_bit w (drop_bit m v) = drop_bit m v" by (simp add: take_bit_int_eq_self)
  then have "drop_bit m v \<noteq> 2 ^ w - 1"
    using assms(1) by (auto simp: ieee_decode_def Let_def split: if_splits)
  with \<open>drop_bit m v < 2 ^ w\<close> have "v div 2 ^ m \<le> 2 ^ w - 2" by (simp add: drop_bit_eq_div)
  then have "v div 2 ^ m * 2 ^ m \<le> (2 ^ w - 2) * 2 ^ m" by (simp add: mult_right_mono)
  moreover have "v = v mod 2 ^ m + v div 2 ^ m * 2 ^ m" by (simp add: mod_div_mult_eq)
  moreover have "v mod 2 ^ m < 2 ^ m" by simp
  ultimately have "v < 2 ^ m + (2 ^ w - 2) * 2 ^ m" by linarith
  then show ?thesis by (simp add: algebra_simps)
qed

lemma ieee_encode_decode:
  assumes w: "2 \<le> w" and u: "0 \<le> u" "u < 2 ^ (w + m + 1)" and fin: "ieee_decode w m u = Finite q" "q \<noteq> 0"
  shows "ieee_encode w m q = Some u"
proof -
  define v where "v = take_bit (w + m) u"
  have v: "0 \<le> v" "v < 2 ^ (w + m)" by (simp_all add: v_def)
  have uv: "u = v + (if bit u (w + m) then 2 ^ (w + m) else 0)"
  proof -
    have "take_bit (Suc (w + m)) u = u" using u by (simp add: take_bit_int_eq_self)
    moreover have "take_bit (Suc (w + m)) u = 2 ^ (w + m) * of_bool (bit u (w + m)) + v"
      by (simp only: take_bit_Suc_from_most v_def)
    ultimately show ?thesis by (cases "bit u (w + m)") simp_all
  qed
  obtain r where r: "ieee_decode w m v = Finite r" "q = (if bit u (w + m) then - r else r)"
    using fin(1) by (auto simp: ieee_decode_take [of w m u] v_def [symmetric] Let_def split: if_splits pyfloat.splits)
  have "v \<noteq> 0"
    using r fin(2) by (auto simp: ieee_decode_def Let_def split: if_splits)
  with ieee_encode_decode_pos [OF w _ ieee_decode_finite_below [OF r(1) v]] v(1) r(1)
  have "0 < r" "ieee_encode w m r = Some v" by (force)+
  then show ?thesis
    using uv r(2) by (auto simp: ieee_encode_def Let_def split: if_splits)
qed

lemma cat2_take_bit: "take_bit 32 (cat2 [h, l]) = cat2 [h, l]"
  by (rule bit_eqI) (auto simp: cat2_def bit_simps dest: bit_imp_le_length)

lemma cat2_range: "0 \<le> cat2 [h, l]" "cat2 [h, l] < 2 ^ 32"
  by (metis cat2_take_bit take_bit_nonnegative, metis cat2_take_bit take_bit_int_less_exp)

lemma split_cat2: "[word_of_int (drop_bit 16 (cat2 [h, l])), word_of_int (cat2 [h, l])] = [h, l]"
proof -
  have "\<not> bit l (16 + n)" for n using bit_imp_le_length [of l "16 + n"] by auto
  then show ?thesis by (auto intro!: bit_eqI simp: cat2_def bit_simps)
qed

lemma apply_canon [simp]: "apply_order ord (canon ord ws) = ws"
  by (auto simp: apply_order_def canon_def Let_def rev_map)

text \<open>
  A finite non-zero float reading, re-encoded for a consumer with the same
  byte order and no scale, gives the very registers it was read from.
\<close>

theorem float_reserves_registers:
  assumes "parse_value ord [a, b] ''float'' (NanValue VNone) = Some (VFloat v)" and "v \<noteq> 0"
  shows "encode ord (VFloat v) ''float'' 1 0 = Inr [a, b]"
proof -
  obtain h l where hl: "canon ord [a, b] = [h, l]"
    using layout.length_wire [of ord "[a, b]"] by (cases "fst ord"; cases "snd ord") (auto simp: canon_def Let_def)
  from assms(1) have "ieee_decode 8 23 (cat2 [h, l]) = Finite v"
    by (auto simp: parse_value_def parse_number_def parse_float_def Let_def hl starts_with_def py_lower_def lower_char_def
      split: option.splits if_splits elim!: finite_value.elims)
  then have "ieee_encode 8 23 v = Some (cat2 [h, l])"
    using ieee_encode_decode [of 8 "cat2 [h, l]" 23 v] cat2_range assms(2) by simp
  moreover have "split32 ord (cat2 [h, l]) = [a, b]"
    using split_cat2 [of h l] by (simp only: split32_def) (simp flip: hl)
  ultimately show ?thesis
    by (simp add: encode_def Let_def to_float_def enc_float_def py_lower_def lower_char_def)
qed

theorem float_reserves_registers_witness:
  "encode (resolve_order ''big'') (VFloat (-230.5)) ''float'' 1 0 = Inr [0xC366, 0x8000]"
  by (rule float_reserves_registers) (simp_all add: parse_value_def parse_number_def parse_float_def
    starts_with_def py_lower_def lower_char_def resolve_order_def ORDER_MAP_def canon_def cat2_def ieee_decode_def Let_def two_pow_def)

end
