(* ===== verification/CounterFilter.thy ===== *)
theory CounterFilter
  imports Prelude
begin

text \<open>
  The guards of cumulative counters (\<open>multibus/counter_filter.py\<close>):
  \<open>MonotonicFilter\<close> rejects a regression or an implausible jump until it is confirmed,
  \<open>DailyCounterFilter\<close> holds a day's maximum until the midnight reset. A filter is a state
  and a \<open>feed\<close> that returns the value to publish, or None to hold the last one; the
  locale \<open>value_filter\<close> states what the correction pipeline relies on.
\<close>

section \<open>MonotonicFilter\<close>

record mono_filter =
  reset_confirm :: int
  noise :: rat
  last_good :: "rat option"
  regressions :: int
  reset_first :: "rat option"
  just_reset :: bool

definition mono_init :: "int \<Rightarrow> rat \<Rightarrow> mono_filter" where
  "mono_init confirm nz =
     \<lparr> reset_confirm = max 1 confirm, noise = \<bar>nz\<bar>, last_good = None, regressions = 0,
       reset_first = None, just_reset = False \<rparr>"

text \<open>The confirming reads reached \<open>reset_confirm\<close>: adopt the value, else hold.\<close>

definition settle :: "mono_filter \<Rightarrow> rat \<Rightarrow> pyval \<Rightarrow> pyval option \<times> mono_filter" where
  "settle f v value =
     (if reset_confirm f \<le> regressions f
      then (Some value, f\<lparr>last_good := Some v, regressions := 0, reset_first := None, just_reset := True\<rparr>)
      else (None, f))"

definition feed_jump :: "mono_filter \<Rightarrow> rat \<Rightarrow> pyval \<Rightarrow> pyval option \<times> mono_filter" where
  "feed_jump f v value =
     (let climbing = (regressions f \<noteq> 0 \<and>
            (case reset_first f of None \<Rightarrow> False | Some r \<Rightarrow> r - noise f \<le> v))
      in settle (f\<lparr>regressions := (if climbing then regressions f + 1 else 1), reset_first := Some v\<rparr>) v value)"

definition feed_drop :: "mono_filter \<Rightarrow> rat \<Rightarrow> rat \<Rightarrow> pyval \<Rightarrow> pyval option \<times> mono_filter" where
  "feed_drop f l v value =
     settle
       (case reset_first f of
          None \<Rightarrow> f\<lparr>reset_first := Some v, regressions := 1\<rparr>
        | Some r \<Rightarrow>
            if regressions f = 0 then f\<lparr>reset_first := Some v, regressions := 1\<rparr>
            else (let spread = v - r; allowed = max (noise f) (5 / 100 * (l - r))
                  in if - noise f \<le> spread \<and> spread \<le> allowed
                     then f\<lparr>regressions := regressions f + 1\<rparr>
                     else f\<lparr>reset_first := Some v, regressions := 1\<rparr>))
       v value"

definition feed_grow :: "mono_filter \<Rightarrow> rat \<Rightarrow> rat \<Rightarrow> pyval \<Rightarrow> pyval option \<times> mono_filter" where
  "feed_grow f l v value =
     (Some value, f\<lparr>last_good := Some (if l < v then v else l), regressions := 0, reset_first := None\<rparr>)"

definition mono_feed :: "mono_filter \<Rightarrow> pyval \<Rightarrow> pyval option \<times> mono_filter" where
  "mono_feed f0 value =
     (let f = f0\<lparr>just_reset := False\<rparr>
      in case number_of value of
           None \<Rightarrow> (Some value, f)
         | Some v \<Rightarrow>
             (case last_good f of
                None \<Rightarrow> (Some value, f\<lparr>last_good := Some v\<rparr>)
              | Some l \<Rightarrow>
                  if l - noise f \<le> v
                  then (if 0 < l \<and> l * (3/2) + noise f < v then feed_jump f v value
                        else feed_grow f l v value)
                  else feed_drop f l v value))"

section \<open>DailyCounterFilter\<close>

record daily_filter =
  reset_below :: rat
  day_max :: "rat option"
  day_reset :: bool

definition daily_init :: "rat \<Rightarrow> daily_filter" where
  "daily_init below = \<lparr> reset_below = min (max below 0) 1, day_max = None, day_reset = False \<rparr>"

definition daily_feed :: "daily_filter \<Rightarrow> pyval \<Rightarrow> pyval option \<times> daily_filter" where
  "daily_feed f0 value =
     (let f = f0\<lparr>day_reset := False\<rparr>
      in case number_of value of
           None \<Rightarrow> (Some value, f)
         | Some v \<Rightarrow>
             (case day_max f of
                None \<Rightarrow> (Some value, f\<lparr>day_max := Some v\<rparr>)
              | Some m \<Rightarrow>
                  if m \<le> v then (Some value, f\<lparr>day_max := Some v\<rparr>)
                  else if v \<le> m * reset_below f
                       then (Some value, f\<lparr>day_max := Some v, day_reset := True\<rparr>)
                       else (None, f)))"

section \<open>The interface of a value filter\<close>

text \<open>
  What a poller may assume of the filter it owns: it publishes the value it was fed or
  nothing, a value that is no number passes through without touching the baseline, and the
  baseline (\<open>level\<close>) only ever takes a value that was published.
\<close>

fun feed_all :: "('f \<Rightarrow> pyval \<Rightarrow> pyval option \<times> 'f) \<Rightarrow> 'f \<Rightarrow> pyval list \<Rightarrow> pyval option list \<times> 'f" where
  "feed_all feed f [] = ([], f)"
| "feed_all feed f (v # vs) =
     (fst (feed f v) # fst (feed_all feed (snd (feed f v)) vs), snd (feed_all feed (snd (feed f v)) vs))"

lemma feed_all_length [simp]: "length (fst (feed_all feed f vs)) = length vs"
  by (induction vs arbitrary: f) auto

lemma feed_all_append:
  "feed_all feed f (us @ vs) =
     (fst (feed_all feed f us) @ fst (feed_all feed (snd (feed_all feed f us)) vs),
      snd (feed_all feed (snd (feed_all feed f us)) vs))"
  by (induction us arbitrary: f) auto

locale value_filter =
  fixes feed :: "'f \<Rightarrow> pyval \<Rightarrow> pyval option \<times> 'f"
    and level :: "'f \<Rightarrow> rat option"
  assumes feed_output: "feed f v = (Some w, f') \<Longrightarrow> w = v"
    and feed_other: "number_of v = None \<Longrightarrow> fst (feed f v) = Some v \<and> level (snd (feed f v)) = level f"
    and feed_level: "number_of v = Some q \<Longrightarrow> level (snd (feed f v)) \<noteq> level f \<Longrightarrow>
          level (snd (feed f v)) = Some q \<and> fst (feed f v) = Some v"
begin

lemma output_or_hold: "fst (feed f v) = None \<or> fst (feed f v) = Some v"
  using feed_output [of f v] by (cases "feed f v"; cases "fst (feed f v)") auto

lemma held_keeps_level: "fst (feed f v) = None \<Longrightarrow> level (snd (feed f v)) = level f"
  using feed_other [of v f] feed_level [of v _ f] by (cases "number_of v") auto

lemma all_outputs:
  "i < length vs \<Longrightarrow> fst (feed_all feed f vs) ! i = None \<or> fst (feed_all feed f vs) ! i = Some (vs ! i)"
proof (induction vs arbitrary: f i)
  case (Cons v vs)
  then show ?case using output_or_hold [of f v] by (cases i) auto
qed simp

lemma all_level:
  "level (snd (feed_all feed f vs)) = level f \<or>
   (\<exists>q. level (snd (feed_all feed f vs)) = Some q \<and>
        (\<exists>v. number_of v = Some q \<and> Some v \<in> set (fst (feed_all feed f vs))))"
proof (induction vs arbitrary: f)
  case (Cons v vs)
  show ?case
  proof (cases "level (snd (feed f v)) = level f")
    case True
    with Cons.IH [of "snd (feed f v)"] show ?thesis by auto
  next
    case False
    then obtain q where "number_of v = Some q" "level (snd (feed f v)) = Some q" "fst (feed f v) = Some v"
      using feed_other [of v f] feed_level [of v _ f] by (cases "number_of v") auto
    with Cons.IH [of "snd (feed f v)"] show ?thesis by auto
  qed
qed simp

end

lemmas mono_feed_simps = mono_feed_def feed_jump_def feed_drop_def feed_grow_def settle_def Let_def

interpretation mono: value_filter mono_feed last_good
  by unfold_locales (auto simp: mono_feed_simps split: option.splits if_splits)

interpretation daily: value_filter daily_feed day_max
  by unfold_locales (auto simp: daily_feed_def Let_def split: option.splits if_splits)

section \<open>A reset needs its confirming reads\<close>

text \<open>The consecutive held numeric reads at the end of a run (text and bools do not count).\<close>

definition held_run :: "mono_filter \<Rightarrow> pyval list \<Rightarrow> nat" where
  "held_run f vs =
     length (takeWhile (\<lambda>vo. snd vo = None)
       (rev (filter (\<lambda>vo. number_of (fst vo) \<noteq> None) (zip vs (fst (feed_all mono_feed f vs))))))"

lemma held_run_snoc:
  "held_run f (vs @ [v]) =
     (if number_of v = None then held_run f vs
      else if fst (mono_feed (snd (feed_all mono_feed f vs)) v) = None then Suc (held_run f vs) else 0)"
  by (simp add: held_run_def feed_all_append)

lemma mono_feed_confirm: "reset_confirm (snd (mono_feed f v)) = reset_confirm f"
  by (auto simp: mono_feed_simps split: option.splits)

lemma mono_feed_all_confirm: "reset_confirm (snd (feed_all mono_feed f vs)) = reset_confirm f"
  by (induction vs arbitrary: f) (simp_all add: mono_feed_confirm)

text \<open>The count of suspicious reads: one more per held read, cleared by any published number.\<close>

lemma mono_feed_regressions:
  "0 \<le> regressions f \<Longrightarrow> 1 \<le> reset_confirm f \<Longrightarrow>
   0 \<le> regressions (snd (mono_feed f v))
   \<and> (number_of v = None \<longrightarrow> regressions (snd (mono_feed f v)) = regressions f)
   \<and> (fst (mono_feed f v) = None \<longrightarrow> regressions (snd (mono_feed f v)) \<le> regressions f + 1)
   \<and> (just_reset (snd (mono_feed f v)) \<longrightarrow> number_of v \<noteq> None \<and> reset_confirm f \<le> regressions f + 1)"
  by (auto simp: mono_feed_simps split: option.splits)

lemma mono_feed_published:
  "number_of v = Some q \<Longrightarrow> fst (mono_feed f v) \<noteq> None \<Longrightarrow> last_good f \<noteq> None \<Longrightarrow>
   regressions (snd (mono_feed f v)) = 0"
  by (auto simp: mono_feed_simps split: option.splits if_splits)

lemma mono_feed_seeded: "last_good f \<noteq> None \<Longrightarrow> last_good (snd (mono_feed f v)) \<noteq> None"
  by (auto simp: mono_feed_simps split: option.splits if_splits)

definition mono_inv :: "mono_filter \<Rightarrow> bool" where
  "mono_inv f = (0 \<le> regressions f \<and> 1 \<le> reset_confirm f \<and> 0 \<le> noise f \<and> (last_good f = None \<longrightarrow> regressions f = 0))"

lemma mono_inv_init: "mono_inv (mono_init k nz)"
  by (simp add: mono_inv_def mono_init_def)

lemma mono_inv_feed: "mono_inv f \<Longrightarrow> mono_inv (snd (mono_feed f v))"
  by (auto simp: mono_inv_def mono_feed_simps split: option.splits if_splits)

lemma mono_inv_feed_all: "mono_inv f \<Longrightarrow> mono_inv (snd (feed_all mono_feed f vs))"
  by (induction vs arbitrary: f) (simp_all add: mono_inv_feed)

lemma regressions_held:
  "mono_inv f \<Longrightarrow> regressions f = 0 \<Longrightarrow> regressions (snd (feed_all mono_feed f vs)) \<le> int (held_run f vs)"
proof (induction vs rule: rev_induct)
  case (snoc v vs)
  let ?g = "snd (feed_all mono_feed f vs)"
  have inv: "mono_inv ?g" using snoc.prems(1) by (rule mono_inv_feed_all)
  have step: "0 \<le> regressions ?g" "1 \<le> reset_confirm ?g" using inv by (simp_all add: mono_inv_def)
  show ?case
  proof (cases "number_of v")
    case None
    then show ?thesis using snoc mono_feed_regressions [OF step, of v] by (simp add: held_run_snoc feed_all_append)
  next
    case (Some q)
    have "fst (mono_feed ?g v) \<noteq> None \<Longrightarrow> regressions (snd (mono_feed ?g v)) = 0"
      using inv Some mono_feed_published [OF Some, of ?g]
      by (cases "last_good ?g") (auto simp: mono_inv_def mono_feed_simps)
    then show ?thesis
      using Some snoc mono_feed_regressions [OF step, of v] by (auto simp: held_run_snoc feed_all_append)
  qed
qed simp



lemma jump_step:
  assumes "mono_inv f" "last_good f = Some l" "0 < l" "l * (3/2) + noise f < x"
    and "regressions f + 1 < reset_confirm f" "regressions f = 0 \<or> (\<exists>r. reset_first f = Some r \<and> r \<le> x)"
  shows "mono_feed f (VFloat x) = (None, f\<lparr>just_reset := False, regressions := regressions f + 1, reset_first := Some x\<rparr>)"
proof -
  have "l - noise f \<le> x" using assms(1,3,4) by (simp add: mono_inv_def)
  then show ?thesis using assms by (auto simp: mono_feed_simps mono_inv_def)
qed

lemma jump_adopt:
  assumes "mono_inv f" "last_good f = Some l" "0 < l" "l * (3/2) + noise f < x"
    and "regressions f + 1 = reset_confirm f" "regressions f = 0 \<or> (\<exists>r. reset_first f = Some r \<and> r \<le> x)"
  shows "mono_feed f (VFloat x) = (Some (VFloat x),
    f\<lparr>just_reset := True, regressions := 0, reset_first := None, last_good := Some x\<rparr>)"
proof -
  have "l - noise f \<le> x" using assms(1,3,4) by (simp add: mono_inv_def)
  then show ?thesis using assms by (auto simp: mono_feed_simps mono_inv_def)
qed

lemma climb:
  "mono_inv f \<Longrightarrow> last_good f = Some l \<Longrightarrow> 0 < l \<Longrightarrow> list_all (\<lambda>x. l * (3/2) + noise f < x) xs \<Longrightarrow> sorted xs \<Longrightarrow>
   xs \<noteq> [] \<Longrightarrow> regressions f + int (length xs) = reset_confirm f \<Longrightarrow>
   regressions f = 0 \<or> (\<exists>r. reset_first f = Some r \<and> r \<le> hd xs) \<Longrightarrow>
   last (fst (feed_all mono_feed f (map VFloat xs))) = Some (VFloat (last xs)) \<and>
   last_good (snd (feed_all mono_feed f (map VFloat xs))) = Some (last xs)"
proof (induction xs arbitrary: f)
  case (Cons x xs)
  show ?case
  proof (cases "xs = []")
    case True
    then show ?thesis using Cons.prems jump_adopt [of f l x] by simp
  next
    case False
    then have lt: "regressions f + 1 < reset_confirm f" using Cons.prems(7) by (cases xs) auto
    let ?g = "f\<lparr>just_reset := False, regressions := regressions f + 1, reset_first := Some x\<rparr>"
    have step: "mono_feed f (VFloat x) = (None, ?g)"
      using Cons.prems lt by (intro jump_step) auto
    have "mono_inv ?g" using mono_inv_feed [OF Cons.prems(1), of "VFloat x"] step by simp
    moreover have "x \<le> hd xs" using Cons.prems(5) False by (cases xs) auto
    moreover have "list_all (\<lambda>y. l * (3/2) + noise ?g < y) xs" using Cons.prems(4) by simp
    ultimately have "last (fst (feed_all mono_feed ?g (map VFloat xs))) = Some (VFloat (last xs)) \<and>
      last_good (snd (feed_all mono_feed ?g (map VFloat xs))) = Some (last xs)"
      using Cons.prems False by (intro Cons.IH) auto
    moreover have "fst (feed_all mono_feed ?g (map VFloat xs)) \<noteq> []"
      using False feed_all_length [of mono_feed ?g "map VFloat xs"] by force
    ultimately show ?thesis using False by (simp add: step)
  qed
qed simp

text \<open>
  A counter that keeps climbing past the plausible band is adopted: from a
  quiet filter with baseline \<open>l\<close>, \<open>reset_confirm\<close> ascending reads, each above
  \<open>1.5 * l + noise\<close>, leave the last of them as the new, published baseline.
\<close>

theorem climbing_counter_adopted:
  assumes "last_good f = Some l" and "0 < l" and "0 \<le> noise f" and "regressions f = 0" and "1 \<le> reset_confirm f"
    and "list_all (\<lambda>x. l * (3/2) + noise f < x) xs" and "sorted xs" and "int (length xs) = reset_confirm f"
  shows "last (fst (feed_all mono_feed f (map VFloat xs))) = Some (VFloat (last xs)) \<and>
         last_good (snd (feed_all mono_feed f (map VFloat xs))) = Some (last xs)"
  using assms by (intro climb) (auto simp: mono_inv_def)

theorem climbing_counter_adopted_witness:
  "last_good (snd (feed_all mono_feed ((mono_init 3 0)\<lparr>last_good := Some 100\<rparr>) (map VFloat [210, 440, 920]))) = Some 920"
  using climbing_counter_adopted [of "(mono_init 3 0)\<lparr>last_good := Some 100\<rparr>" 100 "[210, 440, 920]"]
  by (simp add: mono_init_def)

section \<open>The day counter\<close>

lemma daily_feed_cases:
  assumes "number_of v = Some q"
  shows "fst (daily_feed f v) = None \<and> (\<exists>m. day_max f = Some m \<and> q < m \<and> m * reset_below f < q \<and> day_max (snd (daily_feed f v)) = Some m)
    \<or> fst (daily_feed f v) = Some v \<and> day_max (snd (daily_feed f v)) = Some q
      \<and> (day_max f = None \<or> (\<exists>m. day_max f = Some m \<and> (m \<le> q \<or> q \<le> m * reset_below f)))"
  using assms by (auto simp: daily_feed_def Let_def split: option.splits)

fun published :: "pyval option list \<Rightarrow> rat list" where
  "published [] = []"
| "published (x # xs) = (case x of None \<Rightarrow> published xs
     | Some v \<Rightarrow> (case number_of v of None \<Rightarrow> published xs | Some q \<Rightarrow> q # published xs))"

fun resets :: "daily_filter \<Rightarrow> pyval list \<Rightarrow> nat" where
  "resets f [] = 0"
| "resets f (v # vs) = (if day_reset (snd (daily_feed f v)) then 1 else 0) + resets (snd (daily_feed f v)) vs"

text \<open>
  While no midnight reset is adopted, the published day totals never go down
  (what Home Assistant's \<open>total_increasing\<close> needs), whatever the source reports.
\<close>

theorem day_total_never_falls:
  assumes "resets f vs = 0"
  shows "sorted ((case day_max f of None \<Rightarrow> [] | Some m \<Rightarrow> [m]) @ published (fst (feed_all daily_feed f vs)))"
  using assms
proof (induction vs arbitrary: f)
  case (Cons v vs)
  have nr: "\<not> day_reset (snd (daily_feed f v))" "resets (snd (daily_feed f v)) vs = 0"
    using Cons.prems by (auto split: if_splits)
  note IH = Cons.IH [OF nr(2)]
  show ?case
    using IH nr(1) by (auto simp: daily_feed_def Let_def split: option.splits if_splits)
qed (simp split: option.splits)

theorem day_total_never_falls_witness:
  "sorted (published (fst (feed_all daily_feed (daily_init (1/50)) [VFloat 272, VFloat 199, VFloat 137, VFloat 273])))"
  using day_total_never_falls [of "daily_init (1/50)" "[VFloat 272, VFloat 199, VFloat 137, VFloat 273]"]
  by (simp add: daily_init_def daily_feed_def)

end
