(* ===== verification/ValueDecode.thy ===== *)
theory ValueDecode
  imports RegisterCodec CounterFilter
begin

text \<open>
  The one correction pipeline from a raw wire value to the published value
  (\<open>multibus/value_decode.py\<close>): sentinel, enum and bits, scale factor, scale and offset,
  then the counter filters of \<open>CounterFilter\<close>. It is the inverse of the encoder of
  \<open>RegisterCodec\<close>.
\<close>

section \<open>Status registers\<close>

text \<open>\<open>_int_keys\<close>: a JSON map's keys as integers, what is no integer dropped.\<close>

fun int_keys :: "(pyval, string) dict \<Rightarrow> (int, string) dict" where
  "int_keys m = foldl (\<lambda>out (k, v). case py_int k of None \<Rightarrow> out | Some n \<Rightarrow> dict_set n v out) [] m"

text \<open>\<open>_extract\<close>; a negative shift raises ValueError, which the caller turns into None.\<close>

definition extract_field :: "pyval \<Rightarrow> int option \<Rightarrow> int \<Rightarrow> int option" where
  "extract_field raw msk shft =
     (case py_int raw of
        None \<Rightarrow> None
      | Some v0 \<Rightarrow>
          (let v = (case msk of None \<Rightarrow> v0 | Some k \<Rightarrow> v0 AND k)
           in if shft = 0 then Some v else if shft < 0 then None else Some (drop_bit (nat shft) v)))"

definition decode_enum :: "pyval \<Rightarrow> (pyval, string) dict \<Rightarrow> int option \<Rightarrow> int \<Rightarrow> string option \<Rightarrow> string option" where
  "decode_enum value labels msk shft unknown =
     (case extract_field value msk shft of
        None \<Rightarrow> None
      | Some code \<Rightarrow>
          (case dict_get (int_keys labels) code of
             Some label \<Rightarrow> Some label
           | None \<Rightarrow> (case unknown of Some u \<Rightarrow> Some u | None \<Rightarrow> Some (''unknown ('' @ int_str code @ '')''))))"

fun join_with :: "string \<Rightarrow> string list \<Rightarrow> string" where
  "join_with glue [] = []"
| "join_with glue [x] = x"
| "join_with glue (x # xs) = x @ glue @ join_with glue xs"

text \<open>\<open>1 << bit\<close> with a negative bit position raises ValueError out of \<open>decode_bits\<close>.\<close>

datatype decode_exn = NegativeShiftCount

definition decode_bits :: "pyval \<Rightarrow> (pyval, string) dict \<Rightarrow> string \<Rightarrow> string \<Rightarrow> decode_exn + string option" where
  "decode_bits value bnames glue none_label =
     (case py_int value of
        None \<Rightarrow> Inr None
      | Some v \<Rightarrow>
          (let names = int_keys bnames; positions = sort (map fst names)
           in if list_ex (\<lambda>b. b < 0) positions then Inl NegativeShiftCount
              else (let active = map (\<lambda>b. the (dict_get names b)) (filter (\<lambda>b. v AND push_bit (nat b) 1 \<noteq> 0) positions)
                    in Inr (Some (if active = [] then none_label else join_with glue active)))))"

section \<open>A register row and the pipeline\<close>

text \<open>The declarations of a register the pipeline reads.\<close>

record row =
  data_type :: string
  nan :: nan_spec
  enum_map :: "(pyval, string) dict"
  bit_map :: "(pyval, string) dict"
  bitmask :: "int option"
  shift :: int
  scale :: rat
  scale_from :: string
  offset :: rat
  monotonic :: bool
  daily :: bool

definition plain_row :: "string \<Rightarrow> row" where
  "plain_row dt = \<lparr> data_type = dt, nan = NanValue VNone, enum_map = [], bit_map = [], bitmask = None,
     shift = 0, scale = 1, scale_from = [], offset = 0, monotonic = False, daily = False \<rparr>"

definition decode_register :: "pyval \<Rightarrow> row \<Rightarrow> decode_exn + pyval option" where
  "decode_register value r =
     (if value = VNone then Inr None
      else if enum_map r \<noteq> []
           then Inr (map_option VStr (decode_enum value (enum_map r) (bitmask r) (shift r) None))
      else if bit_map r \<noteq> []
           then (case decode_bits value (bit_map r) '', '' [] of
                   Inl e \<Rightarrow> Inl e | Inr t \<Rightarrow> Inr (map_option VStr t))
      else Inr (Some value))"

definition is_textual :: "row \<Rightarrow> bool" where
  "is_textual r = (enum_map r \<noteq> [] \<or> bit_map r \<noteq> [])"

text \<open>\<open>is_sentinel_value\<close>: the parser's test, on the lower-cased type.\<close>

definition is_sentinel_value :: "pyval \<Rightarrow> string \<Rightarrow> nan_spec \<Rightarrow> bool" where
  "is_sentinel_value value dt n = is_sentinel value (py_lower dt) n"

datatype stage = Sentinel | DecodeFailed | SfMissing | FilterDrop | FilterHold

text \<open>\<open>math.log10\<close> of a power of ten, None for any other number.\<close>

fun pow10_log :: "nat \<Rightarrow> nat option" where
  "pow10_log n = (if n = 1 then Some 0
     else if n \<noteq> 0 \<and> n mod 10 = 0 then map_option Suc (pow10_log (n div 10)) else None)"

declare pow10_log.simps [simp del]

definition log10_exact :: "rat \<Rightarrow> int option" where
  "log10_exact q =
     (let (n, d) = quotient_of \<bar>q\<bar>
      in if d = 1 then map_option int (pow10_log (nat n))
         else if n = 1 then map_option (\<lambda>k. - int k) (pow10_log (nat d))
         else None)"

text \<open>
  Stage 3, on a number: the dynamic scale factor, the fixed scale, one rounding and the
  offset. The dynamic factor's value is the exponent of the referenced sibling; None when
  that sibling has no usable exponent.
\<close>

definition scale_factor :: "row \<Rightarrow> (string, pyval) dict \<Rightarrow> int option option" where
  "scale_factor r siblings =
     (if scale_from r = [] then Some None
      else (case dict_get siblings (scale_from r) of
              None \<Rightarrow> None
            | Some sv \<Rightarrow>
                (case number_of sv of
                   None \<Rightarrow> None
                 | Some sf \<Rightarrow> if 10 < \<bar>sf\<bar> then None else Some (Some (py_trunc sf)))))"

definition engineer :: "row \<Rightarrow> int option \<Rightarrow> pyval \<Rightarrow> rat \<Rightarrow> pyval" where
  "engineer r sf value q =
     (let (v1, dec1) = (case sf of
              None \<Rightarrow> (value, None)
            | Some e \<Rightarrow> (VFloat (q * ten_pow e), if e < 0 then Some (- e) else None));
          sc = (if scale r = 0 then 1 else scale r);
          num = (\<lambda>v. case number_of v of Some x \<Rightarrow> x | None \<Rightarrow> 0);
          (v2, dec2) = (if sc \<noteq> 1
              then (VFloat (num v1 / sc),
                    case dec1 of None \<Rightarrow> None
                      | Some d \<Rightarrow> (case log10_exact sc of Some lg \<Rightarrow> Some (d + lg) | None \<Rightarrow> None))
              else (v1, dec1));
          v3 = (case dec2 of None \<Rightarrow> v2 | Some d \<Rightarrow> VFloat (py_round_dec (num v2) d))
      in if offset r \<noteq> 0 then VFloat (num v3 + offset r) else v3)"

text \<open>Stages 4 and 5: the filters the caller owns, with their next states.\<close>

type_synonym filters = "mono_filter option \<times> daily_filter option"

definition run_filters :: "row \<Rightarrow> filters \<Rightarrow> pyval \<Rightarrow> pyval option \<times> stage option \<times> filters" where
  "run_filters r fs v =
     (let (cf, df) = fs;
          (o1, s1, cf1) = (case cf of
              Some f \<Rightarrow> if monotonic r
                        then (let (w, f') = mono_feed f v
                              in (w, if w = None then Some FilterDrop else None, Some f'))
                        else (Some v, None, cf)
            | None \<Rightarrow> (Some v, None, cf))
      in case o1 of
           None \<Rightarrow> (None, s1, cf1, df)
         | Some v1 \<Rightarrow>
             (case df of
                Some g \<Rightarrow> if daily r
                          then (let (w, g') = daily_feed g v1
                                in (w, if w = None then Some FilterHold else None, cf1, Some g'))
                          else (Some v1, None, cf1, df)
              | None \<Rightarrow> (Some v1, None, cf1, df)))"

definition apply_corrections ::
    "pyval \<Rightarrow> row \<Rightarrow> (string, pyval) dict \<Rightarrow> filters \<Rightarrow> decode_exn + (pyval option \<times> stage option \<times> filters)" where
  "apply_corrections value r siblings fs =
     (if value = VNone then Inr (None, None, fs)
      else if nan_declared (nan r) \<and> number_of value \<noteq> None
              \<and> is_sentinel_value value (if data_type r = [] then ''float'' else data_type r) (nan r)
           then Inr (None, Some Sentinel, fs)
      else if is_textual r
           then (case decode_register value r of
                   Inl e \<Rightarrow> Inl e
                 | Inr d \<Rightarrow> Inr (d, if d = None then Some DecodeFailed else None, fs))
      else (case number_of value of
              None \<Rightarrow> Inr (run_filters r fs value)
            | Some q \<Rightarrow>
                (case scale_factor r siblings of
                   None \<Rightarrow> Inr (None, Some SfMissing, fs)
                 | Some sf \<Rightarrow> Inr (run_filters r fs (engineer r sf value q)))))"

section \<open>The pipeline as the inverse of the encoder\<close>

lemma py_round_error: "\<bar>of_int (py_round x) - x\<bar> \<le> 1/2"
  unfolding py_round_def Let_def by (auto simp: abs_if field_simps) linarith+

lemma py_round_between: "of_int n - 1/2 < x \<Longrightarrow> x < of_int n + 1/2 \<Longrightarrow> py_round x = n"
proof -
  assume x: "of_int n - 1/2 < x" "x < of_int n + 1/2"
  have "\<bar>of_int (py_round x) - x\<bar> \<le> 1/2" by (rule py_round_error)
  with x have "\<bar>of_int (py_round x) - of_int n :: rat\<bar> < 1" by linarith
  then have "\<bar>py_round x - n\<bar> < 1" by linarith
  then show ?thesis by simp
qed

text \<open>A row that only scales: no sentinel, no labels, no dynamic factor.\<close>

definition scaled_row :: "row \<Rightarrow> bool" where
  "scaled_row r = (\<not> nan_declared (nan r) \<and> \<not> is_textual r \<and> scale_from r = [] \<and> scale r \<noteq> 0)"

lemma scaled_engineer:
  "scaled_row r \<Longrightarrow> number_of (engineer r None (VInt raw) (of_int raw)) = Some (of_int raw / scale r + offset r)"
  by (simp add: scaled_row_def engineer_def Let_def)

lemma scaled_corrections:
  "scaled_row r \<Longrightarrow> apply_corrections (VInt raw) r siblings (None, None)
     = Inr (Some (engineer r None (VInt raw) (of_int raw)), None, (None, None))"
  by (simp add: scaled_row_def apply_corrections_def scale_factor_def run_filters_def Let_def)

lemma encode_number:
  assumes "dt \<in> set int_types" "number_of v = Some q"
  shows "encode ord v dt s o' = encode_int ord (py_round ((q - o') * s)) dt"
proof -
  have nf: "dt \<noteq> ''float''" "dt \<noteq> ''float32''" "dt \<noteq> ''double''"
    using assms(1) by (auto simp: int_types_def)
  show ?thesis
  proof (cases v)
    case (VInt n)
    have "py_round (of_int n * s) = n * \<lfloor>s\<rfloor>" if "s = of_int \<lfloor>s\<rfloor>"
      using that by (metis of_int_mult py_round_of_int)
    then show ?thesis
      using VInt assms nf by (auto simp: encode_def Let_def to_float_def)
  next
    case (VFloat x)
    then show ?thesis using assms nf by (simp add: encode_def Let_def to_float_def)
  qed (use assms in simp_all)
qed

text \<open>
  Writing back the engineering value a register was read as puts the very
  raw value on the wire, for every integer type, scale, offset and byte order.
\<close>

theorem encode_inverts_corrections:
  assumes "dt \<in> set int_types" and "\<not> nan_declared (nan r)" and "\<not> is_textual r" and "scale_from r = []" and "scale r \<noteq> 0"
  shows "\<exists>v. apply_corrections (VInt raw) r siblings (None, None) = Inr (Some v, None, (None, None))
    \<and> encode ord v dt (scale r) (offset r) = encode_int ord raw dt"
proof -
  have r: "scaled_row r" using assms(2-) by (simp add: scaled_row_def)
  have "(of_int raw / scale r + offset r - offset r) * scale r = of_int raw"
    using assms(5) by simp
  then show ?thesis
    using encode_number [OF assms(1) scaled_engineer [OF r]] scaled_corrections [OF r] by simp
qed

theorem encode_inverts_corrections_witness:
  "\<exists>v. apply_corrections (VInt (-5794)) ((plain_row ''int32'')\<lparr>scale := 10, offset := -40\<rparr>) [] (None, None)
      = Inr (Some v, None, (None, None))
    \<and> encode (False, True) v ''int32'' 10 (-40) = encode_int (False, True) (-5794) ''int32''"
  using encode_inverts_corrections [of "''int32''" "(plain_row ''int32'')\<lparr>scale := 10, offset := -40\<rparr>" "-5794"]
  by (simp add: int_types_def plain_row_def is_textual_def)

text \<open>
  A setpoint whose rounded raw value fits the type is read back, through the
  registers and the corrections, within half a raw step of what was asked.
\<close>

theorem write_read_back_error:
  assumes "dt \<in> set int_types" and "\<not> nan_declared (nan r)" and "\<not> is_textual r" and "scale_from r = []" and "scale r \<noteq> 0"
    and "fst (range_or_default dt) \<le> py_round ((q - offset r) * scale r)"
    and "py_round ((q - offset r) * scale r) \<le> snd (range_or_default dt)"
  shows "\<exists>ws raw v x. encode ord (VFloat q) dt (scale r) (offset r) = Inr ws
    \<and> parse_value ord ws dt (NanValue VNone) = Some raw
    \<and> apply_corrections raw r siblings (None, None) = Inr (Some v, None, (None, None))
    \<and> number_of v = Some x \<and> \<bar>x - q\<bar> \<le> 1 / (2 * \<bar>scale r\<bar>)"
proof -
  define n where "n = py_round ((q - offset r) * scale r)"
  have r: "scaled_row r" using assms(2-5) by (simp add: scaled_row_def)
  obtain ws where ws: "encode_int ord n dt = Inr ws" "parse_value ord ws dt (NanValue VNone) = Some (VInt n)"
    using int_round_trip [OF assms(1,6,7), of ord] unfolding n_def by blast
  let ?x = "of_int n / scale r + offset r"
  have "(?x - q) * scale r = of_int n - (q - offset r) * scale r"
    using assms(5) by (simp add: field_simps)
  with py_round_error [of "(q - offset r) * scale r"] have "\<bar>?x - q\<bar> * \<bar>scale r\<bar> \<le> 1/2"
    by (simp add: abs_mult [symmetric] n_def)
  then have "\<bar>?x - q\<bar> \<le> 1 / (2 * \<bar>scale r\<bar>)"
    using assms(5) by (simp add: pos_le_divide_eq)
  then show ?thesis
    using ws encode_number [OF assms(1), of "VFloat q" q ord "scale r" "offset r", folded n_def]
      scaled_corrections [OF r] scaled_engineer [OF r, of n] by auto
qed

theorem write_read_back_error_witness:
  "\<exists>ws raw v x. encode (False, False) (VFloat (50.04)) ''uint16'' 10 0 = Inr ws
    \<and> parse_value (False, False) ws ''uint16'' (NanValue VNone) = Some raw
    \<and> apply_corrections raw ((plain_row ''uint16'')\<lparr>scale := 10\<rparr>) [] (None, None) = Inr (Some v, None, (None, None))
    \<and> number_of v = Some x \<and> \<bar>x - 50.04\<bar> \<le> 1 / 20"
proof -
  let ?r = "(plain_row ''uint16'')\<lparr>scale := 10\<rparr>"
  have "py_round ((50.04 - offset ?r) * scale ?r) = 500"
    by (rule py_round_between) (simp_all add: plain_row_def)
  then show ?thesis
    using write_read_back_error [of "''uint16''" ?r "50.04" "(False, False)" "[]"]
    by (simp add: int_types_def plain_row_def is_textual_def range_or_default_def INT_RANGES_def)
qed

section \<open>Absence\<close>

text \<open>
  A reading the pipeline calls missing because of its sentinel, its scale factor
  or its labels publishes nothing and leaves the counter filters as they were.
\<close>

theorem missing_touches_no_filter:
  assumes "apply_corrections value r siblings fs = Inr (out, Some st, fs')"
    and "st = Sentinel \<or> st = SfMissing \<or> st = DecodeFailed"
  shows "out = None \<and> fs' = fs"
  using assms
  by (auto simp: apply_corrections_def run_filters_def Let_def
      split: if_splits option.splits sum.splits prod.splits)

theorem missing_touches_no_filter_witness:
  "apply_corrections (VInt 230) ((plain_row ''int16'')\<lparr>scale_from := ''V_SF'', monotonic := True\<rparr>) [] (Some (mono_init 3 0), None)
     = Inr (None, Some SfMissing, (Some (mono_init 3 0), None))
   \<and> (None :: pyval option) = None \<and> (Some (mono_init 3 0), None :: daily_filter option) = (Some (mono_init 3 0), None)"
  using missing_touches_no_filter [of "VInt 230" "(plain_row ''int16'')\<lparr>scale_from := ''V_SF'', monotonic := True\<rparr>" "[]"
      "(Some (mono_init 3 0), None)" None SfMissing "(Some (mono_init 3 0), None)"]
  by (simp add: apply_corrections_def plain_row_def is_textual_def scale_factor_def)

section \<open>Dynamic scale factors\<close>

lemma ten_pow_add: "ten_pow (a + b) = ten_pow a * ten_pow b"
proof -
  have "ten_pow e = 10 powi e" for e
    by (simp add: ten_pow_def power_int_def power_one_over)
  then show ?thesis by (simp add: power_int_add)
qed

lemma ten_pow_pos [simp]: "0 < ten_pow e"
  by (simp add: ten_pow_def)

lemma round_exact: "x * ten_pow d = of_int n \<Longrightarrow> py_round_dec x d = x"
  using ten_pow_pos [of d]
  by (metis less_irrefl nonzero_mult_div_cancel_right py_round_dec_def py_round_of_int)

lemma pow10_log_Some: "pow10_log n = Some k \<Longrightarrow> n = 10 ^ k"
proof (induction n arbitrary: k rule: pow10_log.induct)
  case (1 n)
  show ?case
  proof (cases "n = 1")
    case True
    with "1.prems" show ?thesis by (simp add: pow10_log.simps [of "Suc 0"])
  next
    case False
    with "1.prems" obtain j where "n \<noteq> 0 \<and> n mod 10 = 0" "pow10_log (n div 10) = Some j" "k = Suc j"
      by (auto simp: pow10_log.simps [of n] split: if_splits)
    with "1.IH" [OF False this(1) this(2)] show ?thesis by auto
  qed
qed

lemma log10_exact_Some:
  assumes "log10_exact q = Some k" "q \<noteq> 0"
  shows "\<bar>q\<bar> = ten_pow k"
proof -
  obtain n d where nd: "quotient_of \<bar>q\<bar> = (n, d)" by (cases "quotient_of \<bar>q\<bar>")
  then have d: "0 < d" and q: "\<bar>q\<bar> = of_int n / of_int d"
    using quotient_of_denom_pos quotient_of_div by auto
  with assms(2) have n: "0 < n" by (metis zero_less_abs_iff zero_less_divide_iff of_int_0_less_iff not_less_iff_gr_or_eq)
  have p: "of_int m = (10 :: rat) ^ j" if "pow10_log (nat m) = Some j" "0 < m" for m j
    using pow10_log_Some [OF that(1)] that(2) by (metis int_nat_eq of_int_of_nat_eq of_int_power of_int_numeral of_nat_numeral of_nat_power order_less_le)
  show ?thesis
    using assms(1) nd n d p [of n] p [of d]
    by (auto simp: log10_exact_def q ten_pow_def split: if_splits)
qed

text \<open>
  An integer register with a dynamic scale factor and, on top, a
  power-of-ten scale is published as exactly raw x 10^SF / scale + offset: the rounding
  that settles the value never drops a digit of it.
\<close>

theorem dynamic_scale_exact:
  assumes "scale_factor r siblings = Some (Some e)" and "scale r = 1 \<or> scale r \<noteq> 0 \<and> log10_exact (scale r) \<noteq> None"
  shows "number_of (engineer r (Some e) (VInt raw) (of_int raw)) = Some (of_int raw * ten_pow e / scale r + offset r)"
proof -
  have int: "\<exists>n. of_int raw * ten_pow e / scale r * ten_pow (- e + lg) = of_int n"
    if "log10_exact (scale r) = Some lg" "scale r \<noteq> 0" for lg
  proof -
    have s: "\<bar>scale r\<bar> = ten_pow lg" using log10_exact_Some that by blast
    have "ten_pow e * ten_pow (- e + lg) = ten_pow lg" by (simp add: ten_pow_add [symmetric])
    then have "of_int raw * ten_pow e / scale r * ten_pow (- e + lg) = of_int raw * (\<bar>scale r\<bar> / scale r)"
      using s by (simp add: field_simps)
    also have "\<dots> = of_int (if scale r < 0 then - raw else raw)"
      using that(2) by (simp add: abs_if)
    finally show ?thesis by blast
  qed
  have int1: "of_int raw * ten_pow e * ten_pow (- e) = of_int raw"
    by (simp add: mult.assoc ten_pow_add [symmetric] ten_pow_def)
  show ?thesis
  proof (cases "scale r = 1")
    case True
    then show ?thesis using round_exact [OF int1] by (simp add: engineer_def Let_def)
  next
    case False
    with assms(2) obtain lg where lg: "log10_exact (scale r) = Some lg" "scale r \<noteq> 0" by auto
    with int obtain n where "of_int raw * ten_pow e / scale r * ten_pow (- e + lg) = of_int n" by blast
    from round_exact [OF this] False lg show ?thesis by (simp add: engineer_def Let_def)
  qed
qed

theorem dynamic_scale_exact_witness:
  "number_of (engineer ((plain_row ''int16'')\<lparr>scale_from := ''PF_SF'', scale := 100\<rparr>) (Some (-2)) (VInt 9999) 9999)
     = Some (0.9999)"
  using dynamic_scale_exact [of "(plain_row ''int16'')\<lparr>scale_from := ''PF_SF'', scale := 100\<rparr>" "[(''PF_SF'', VInt (-2))]" "-2" 9999]
  by (simp add: plain_row_def scale_factor_def py_trunc_def log10_exact_def pow10_log.simps ten_pow_def)

end
