(* ===== verification/ByteStream.thy ===== *)
theory ByteStream
  imports Prelude "HOL-Library.Sublist"
begin

text \<open>
  What the listeners' frame splitters share. A splitter looks at the head of its buffer and
  waits, takes a frame or drops junk; its loop repeats that until it waits. The locale
  \<open>stream_splitter\<close> states a splitter by its decision and its loop equation, and proves
  that no byte is invented, reordered or lost; \<open>chunk_free_splitter\<close> adds that the decision
  survives more bytes, and proves that the frames do not depend on the chunks the serial
  layer delivers. \<open>RtuTap\<close> and \<open>SeplosFrames\<close> interpret them.
\<close>

datatype cut = Wait | Take nat | Skip nat

type_synonym 'b split = "'b list list \<times> 'b list \<times> nat"

definition took :: "'b list \<Rightarrow> 'b split \<Rightarrow> 'b split" where
  "took f s = (f # fst s, fst (snd s), snd (snd s))"

definition skipped :: "nat \<Rightarrow> 'b split \<Rightarrow> 'b split" where
  "skipped n s = (fst s, fst (snd s), n + snd (snd s))"

definition after :: "'b split \<Rightarrow> ('b list \<Rightarrow> 'b split) \<Rightarrow> 'b split" where
  "after s k = (let t = k (fst (snd s)) in (fst s @ fst t, fst (snd t), snd (snd s) + snd (snd t)))"

lemma after_took [simp]: "after (took f s) k = took f (after s k)"
  by (simp add: after_def took_def Let_def)

lemma after_skipped [simp]: "after (skipped n s) k = skipped n (after s k)"
  by (simp add: after_def skipped_def Let_def)

lemma after_wait [simp]: "after ([], b, 0) k = k b"
  by (simp add: after_def Let_def)

locale stream_splitter =
  fixes decide :: "'b list \<Rightarrow> cut"
    and cut_up :: "'b list \<Rightarrow> 'b split"
    and good :: "'b list \<Rightarrow> bool"
  assumes progress: "decide b = Take n \<or> decide b = Skip n \<Longrightarrow> 0 < n \<and> n \<le> length b"
    and good_take: "decide b = Take n \<Longrightarrow> good (take n b)"
    and cut_eq: "cut_up b = (case decide b of
          Wait \<Rightarrow> ([], b, 0)
        | Take n \<Rightarrow> took (take n b) (cut_up (drop n b))
        | Skip n \<Rightarrow> skipped n (cut_up (drop n b)))"
begin

lemma cut_induct [case_names step]:
  assumes "\<And>b. (\<And>n. decide b = Take n \<or> decide b = Skip n \<Longrightarrow> P (drop n b)) \<Longrightarrow> P b"
  shows "P b"
proof (induction b rule: measure_induct_rule [of length])
  case (less b)
  show ?case
  proof (rule assms)
    fix n assume "decide b = Take n \<or> decide b = Skip n"
    then have "length (drop n b) < length b" using progress [of b n] by auto
    then show "P (drop n b)" by (rule less)
  qed
qed

lemma frames_good: "f \<in> set (fst (cut_up b)) \<Longrightarrow> good f"
proof (induction b rule: cut_induct)
  case (step b)
  then show ?case
    by (cases "decide b") (auto simp: cut_eq [of b] took_def skipped_def good_take)
qed

lemma bytes_conserved:
  "length b = sum_list (map length (fst (cut_up b))) + length (fst (snd (cut_up b))) + snd (snd (cut_up b))"
proof (induction b rule: cut_induct)
  case (step b)
  show ?case
  proof (cases "decide b")
    case (Take n)
    then show ?thesis using step [of n] progress [of b n] by (auto simp: cut_eq [of b] took_def)
  next
    case (Skip n)
    then show ?thesis using step [of n] progress [of b n] by (auto simp: cut_eq [of b] skipped_def)
  qed (simp add: cut_eq [of b])
qed

lemma bytes_in_order: "subseq (concat (fst (cut_up b)) @ fst (snd (cut_up b))) b"
proof (induction b rule: cut_induct)
  case (step b)
  show ?case
  proof (cases "decide b")
    case (Take n)
    then have "subseq (take n b @ concat (fst (cut_up (drop n b))) @ fst (snd (cut_up (drop n b)))) (take n b @ drop n b)"
      using step [of n] by (simp only: subseq_append_iff simp_thms) (metis append_take_drop_id list_emb_append_mono subseq_order.order_refl)
    with Take show ?thesis by (simp add: cut_eq [of b] took_def)
  next
    case (Skip n)
    then have "subseq (concat (fst (cut_up (drop n b))) @ fst (snd (cut_up (drop n b)))) (take n b @ drop n b)"
      using step [of n] by (meson subseq_drop_many)
    with Skip show ?thesis by (simp add: cut_eq [of b] skipped_def)
  qed (simp add: cut_eq [of b])
qed

lemma rests_waiting: "decide (fst (snd (cut_up b))) = Wait"
proof (induction b rule: cut_induct)
  case (step b)
  then show ?case by (cases "decide b") (auto simp: cut_eq [of b] took_def skipped_def)
qed

end

locale chunk_free_splitter = stream_splitter +
  assumes stable: "decide b \<noteq> Wait \<Longrightarrow> decide (b @ c) = decide b"
begin

lemma cut_append: "cut_up (b @ c) = after (cut_up b) (\<lambda>rest. cut_up (rest @ c))"
proof (induction b rule: cut_induct)
  case (step b)
  show ?case
  proof (cases "decide b")
    case (Take n)
    then have "n \<le> length b" using progress by blast
    moreover have "decide (b @ c) = Take n" using Take stable [of b c] by simp
    ultimately show ?thesis using Take step [of n] by (simp add: cut_eq [of b] cut_eq [of "b @ c"])
  next
    case (Skip n)
    then have "n \<le> length b" using progress by blast
    moreover have "decide (b @ c) = Skip n" using Skip stable [of b c] by simp
    ultimately show ?thesis using Skip step [of n] by (simp add: cut_eq [of b] cut_eq [of "b @ c"])
  qed (simp add: cut_eq [of b])
qed

end

end
