(* ===== verification/RegisterKeys.thy ===== *)
theory RegisterKeys
  imports Prelude
begin

text \<open>
  The tables a Modbus register lives in and the key its value has in the live store
  (\<open>normalize_register_type\<close> and \<open>store_key\<close> of \<open>multibus/config.py\<close>): the same address
  exists in four tables, and the store keeps them apart by an offset above the 16-bit
  address space.
\<close>

definition INPUT_ALIASES :: "string list" where
  "INPUT_ALIASES = [''input'', ''inputregister'', ''inputregisters'', ''ir'', ''fc4'', ''4'']"

definition COIL_ALIASES :: "string list" where
  "COIL_ALIASES = [''coil'', ''coils'', ''fc1'', ''fc5'', ''1'']"

definition DISCRETE_ALIASES :: "string list" where
  "DISCRETE_ALIASES = [''discrete'', ''discreteinput'', ''discreteinputs'', ''di'', ''fc2'', ''2'']"

definition normalize_register_type :: "string \<Rightarrow> string" where
  "normalize_register_type v =
     (let s = filter (\<lambda>c. c \<noteq> CHR '' '' \<and> c \<noteq> CHR ''_'' \<and> c \<noteq> CHR ''-'') (py_lower (py_strip v))
      in if s \<in> set COIL_ALIASES then ''coil''
         else if s \<in> set DISCRETE_ALIASES then ''discrete''
         else if s \<in> set INPUT_ALIASES then ''input''
         else ''holding'')"

definition key_offset :: "(string, int) dict" where
  "key_offset = [(''holding'', 0), (''input'', 100000), (''coil'', 200000), (''discrete'', 300000)]"

definition store_key :: "int \<Rightarrow> string \<Rightarrow> int" where
  "store_key address register_type =
     address + (case dict_get key_offset (normalize_register_type register_type) of
                  Some o' \<Rightarrow> o' | None \<Rightarrow> 0)"

lemma register_tables:
  "normalize_register_type v \<in> {''holding'', ''input'', ''coil'', ''discrete''}"
  by (simp add: normalize_register_type_def Let_def)

text \<open>
  Two registers with 16-bit addresses share a live-store key only when they
  are the same address of the same table: coil 0, discrete 0, input 0 and holding 0 never
  overwrite one another.
\<close>

theorem store_keys_apart:
  assumes "0 \<le> a" "a < 65536" "0 \<le> b" "b < 65536" "store_key a s = store_key b t"
  shows "a = b \<and> normalize_register_type s = normalize_register_type t"
  using assms register_tables [of s] register_tables [of t]
  by (auto simp: store_key_def key_offset_def)

theorem store_keys_apart_witness: "store_key 65535 ''Holding-Register'' \<noteq> store_key 0 ''FC 1''"
proof -
  have "normalize_register_type ''Holding-Register'' \<noteq> normalize_register_type ''FC 1''" by code_simp
  then show ?thesis using store_keys_apart [of 65535 0 "''Holding-Register''" "''FC 1''"] by fastforce
qed

end
