(* ===== verification/RtuTap.thy ===== *)
theory RtuTap
  imports ValueDecode ByteStream RegisterKeys
begin

text \<open>
  The receive-only Modbus RTU listener (\<open>multibus/rtu_tap.py\<close>): the CRC, the frame splitter
  \<open>RtuFramer\<close>, the port's reader \<open>TapReader\<close> (which pairs a response with the request it
  answers, learns what an unasked block means, and hands windows to devices and observers)
  and the per-unit client \<open>RtuTapClient\<close>. Times are seconds on the monotonic clock.
\<close>

section \<open>CRC-16\<close>

definition crc_shift :: "u16 \<Rightarrow> u16" where
  "crc_shift c = (if bit c 0 then drop_bit 1 c XOR 0xA001 else drop_bit 1 c)"

definition crc_byte :: "u16 \<Rightarrow> u8 \<Rightarrow> u16" where
  "crc_byte c b = (crc_shift ^^ 8) (c XOR ucast b)"

definition crc16 :: "u8 list \<Rightarrow> u16" where
  "crc16 data = foldl crc_byte 0xFFFF data"

definition frame_crc_ok :: "u8 list \<Rightarrow> bool" where
  "frame_crc_ok frame =
     (4 \<le> length frame \<and>
      crc16 (take (length frame - 2) frame) =
        ucast (frame ! (length frame - 2)) OR push_bit 8 (ucast (frame ! (length frame - 1))))"

lemma frame_crc_ok_length: "frame_crc_ok f \<Longrightarrow> 4 \<le> length f"
  by (simp add: frame_crc_ok_def)

section \<open>The frame splitter\<close>

definition rtu_candidates :: "u8 list \<Rightarrow> nat list" where
  "rtu_candidates b =
     (let fc = unat (b ! 1);
          resp = (if 2 < length b then [5 + unat (b ! 2)] else []);
          out = (if bit (b ! 1) 7 then [5]
                 else if fc \<in> {1, 2, 3, 4} then 8 # resp
                 else if fc \<in> {5, 6} then [8]
                 else if fc \<in> {15, 16} then 8 # (if 6 < length b then [9 + unat (b ! 6)] else [])
                 else 8 # resp)
      in sort (remdups (filter (\<lambda>n. 4 \<le> n \<and> n \<le> 260) out)))"

definition rtu_match :: "u8 list \<Rightarrow> nat option" where
  "rtu_match b = find (\<lambda>n. n \<le> length b \<and> frame_crc_ok (take n b)) (rtu_candidates b)"

lemma rtu_match_bounds: "rtu_match b = Some n \<Longrightarrow> 4 \<le> n \<and> n \<le> length b \<and> frame_crc_ok (take n b)"
proof -
  assume "rtu_match b = Some n"
  then have n: "n \<le> length b" "frame_crc_ok (take n b)"
    unfolding rtu_match_def by (auto simp: find_Some_iff)
  then show ?thesis using frame_crc_ok_length [OF n(2)] by simp
qed

text \<open>\<open>_extract\<close>: frames at the buffer's head, the bytes kept, the bytes dropped.\<close>

function rtu_extract :: "bool \<Rightarrow> u8 list \<Rightarrow> u8 split" where
  "rtu_extract final b =
     (if length b < 4 then ([], b, 0)
      else case rtu_match b of
             Some n \<Rightarrow> took (take n b) (rtu_extract final (drop n b))
           | None \<Rightarrow>
               if foldr max (rtu_candidates b) 0 \<le> length b \<or> final
               then skipped 1 (rtu_extract final (drop 1 b))
               else ([], b, 0))"
  by pat_completeness auto
termination
  by (relation "measure (\<lambda>(_, b). length b)") (auto dest!: rtu_match_bounds)

declare rtu_extract.simps [simp del]

record rtu_framer =
  rtu_buf :: "u8 list"
  rtu_dropped :: nat

definition rtu_feed :: "u8 list \<Rightarrow> rtu_framer \<Rightarrow> u8 list list \<times> rtu_framer" where
  "rtu_feed data f =
     (let (fs, rest, d) = rtu_extract False (rtu_buf f @ data)
      in (fs, \<lparr>rtu_buf = rest, rtu_dropped = rtu_dropped f + d\<rparr>))"

definition rtu_flush :: "rtu_framer \<Rightarrow> u8 list list \<times> rtu_framer" where
  "rtu_flush f =
     (let (fs, rest, d) = rtu_extract True (rtu_buf f)
      in (fs, \<lparr>rtu_buf = rest, rtu_dropped = rtu_dropped f + d\<rparr>))"

fun rtu_feed_all :: "u8 list list \<Rightarrow> rtu_framer \<Rightarrow> u8 list list \<times> rtu_framer" where
  "rtu_feed_all [] f = ([], f)"
| "rtu_feed_all (chunk # chunks) f =
     (let (fs, f1) = rtu_feed chunk f; (gs, f2) = rtu_feed_all chunks f1 in (fs @ gs, f2))"

section \<open>What the CRC detects\<close>

lemma xor_left_inj: "(a :: 'a :: len word) XOR c = b XOR c \<Longrightarrow> a = b"
  by (metis xor.right_neutral xor.assoc xor_self_eq)

lemma crc_shift_top: "bit (crc_shift c) 15 \<longleftrightarrow> bit c 0"
  using bit_imp_le_length [of c 16] by (auto simp: crc_shift_def bit_simps)

lemma crc_shift_inj: "crc_shift a = crc_shift b \<Longrightarrow> a = b"
proof -
  assume e: "crc_shift a = crc_shift b"
  have low: "bit a 0 \<longleftrightarrow> bit b 0" using e crc_shift_top by metis
  with e have s: "drop_bit 1 a = drop_bit 1 b"
    by (auto simp: crc_shift_def split: if_splits dest: xor_left_inj)
  show "a = b"
  proof (rule bit_word_eqI)
    fix n assume "n < LENGTH(16)"
    show "bit a n \<longleftrightarrow> bit b n"
    proof (cases n)
      case (Suc m)
      then show ?thesis using arg_cong [OF s, of "\<lambda>w. bit w m"] by (simp add: bit_drop_bit_eq)
    qed (use low in simp)
  qed
qed

lemma crc_shifts_inj: "(crc_shift ^^ k) a = (crc_shift ^^ k) b \<Longrightarrow> a = b"
  by (induction k) (auto dest: crc_shift_inj)

lemma crc_byte_inj_state: "crc_byte a x = crc_byte b x \<Longrightarrow> a = b"
  unfolding crc_byte_def by (drule crc_shifts_inj) (rule xor_left_inj)

lemma crc_byte_inj_byte: "crc_byte c x = crc_byte c y \<Longrightarrow> x = y"
proof -
  assume "crc_byte c x = crc_byte c y"
  then have "ucast x XOR c = (ucast y :: u16) XOR c"
    unfolding crc_byte_def by (metis crc_shifts_inj xor.commute)
  then have e: "(ucast x :: u16) = ucast y" by (rule xor_left_inj)
  show "x = y"
  proof (rule bit_word_eqI)
    fix n assume "n < LENGTH(8)"
    then show "bit x n \<longleftrightarrow> bit y n"
      using arg_cong [OF e, of "\<lambda>w. bit w n"] by (simp add: bit_simps)
  qed
qed

lemma crc_fold_inj: "foldl crc_byte a bs = foldl crc_byte b bs \<Longrightarrow> a = b"
  by (induction bs arbitrary: a b) (auto dest: crc_byte_inj_state)

lemma crc16_one_byte: "i < length d \<Longrightarrow> crc16 (d[i := x]) = crc16 d \<Longrightarrow> x = d ! i"
proof -
  assume i: "i < length d" and e: "crc16 (d[i := x]) = crc16 d"
  have a: "d[i := x] = take i d @ x # drop (Suc i) d" using i by (simp add: upd_conv_take_nth_drop)
  have b: "d = take i d @ d ! i # drop (Suc i) d" using i by (simp add: id_take_nth_drop)
  let ?c = "foldl crc_byte 0xFFFF (take i d)"
  have "foldl crc_byte (crc_byte ?c x) (drop (Suc i) d) = foldl crc_byte (crc_byte ?c (d ! i)) (drop (Suc i) d)"
    using e a b unfolding crc16_def by (metis foldl_append foldl_Cons)
  then show "x = d ! i" using crc_fold_inj crc_byte_inj_byte by blast
qed

lemma crc_shifts8:
  "(crc_shift ^^ 8) c = crc_shift (crc_shift (crc_shift (crc_shift (crc_shift (crc_shift (crc_shift (crc_shift c)))))))"
  by (simp add: numeral_eq_Suc)

lemmas crc_eval = crc16_def crc_byte_def crc_shifts8 crc_shift_def

text \<open>
  The CRC catches every corrupted byte. Of two frames that differ in one byte,
  body or trailer, at most one passes the check.
\<close>

theorem crc_catches_one_byte:
  assumes "frame_crc_ok f" "frame_crc_ok (f[i := x])" "i < length f"
  shows "x = f ! i"
proof -
  let ?n = "length f - 2" and ?g = "f[i := x]"
  let ?t = "\<lambda>h :: u8 list. ucast (h ! ?n) OR push_bit 8 (ucast (h ! (length f - 1))) :: u16"
  from assms(1) have len: "4 \<le> length f" and f: "crc16 (take ?n f) = ?t f" by (simp_all add: frame_crc_ok_def)
  from assms(2) have g: "crc16 (take ?n ?g) = ?t ?g" by (simp add: frame_crc_ok_def)
  show ?thesis
  proof (cases "i < ?n")
    case True
    then have "crc16 ((take ?n f)[i := x]) = crc16 (take ?n f)"
      using f g by (simp add: take_update_swap)
    with True show ?thesis using crc16_one_byte [of i "take ?n f" x] by simp
  next
    case False
    with assms(3) len have i: "i = ?n \<or> i = length f - 1" by linarith
    have "take ?n ?g = take ?n f" using False by simp
    with f g have t: "?t ?g = ?t f" by simp
    have bits: "bit (?t h) m \<longleftrightarrow> (if m < 8 then bit (h ! ?n) m else bit (h ! (length f - 1)) (m - 8))" if "m < 16" for h m
      using that bit_imp_le_length [of "h ! ?n" m] by (auto simp: bit_simps)
    show ?thesis
    proof (rule bit_word_eqI)
      fix m assume m: "m < LENGTH(8)"
      have lo: "bit (?g ! ?n) m = bit (f ! ?n) m"
        using arg_cong [OF t, of "\<lambda>w. bit w m"] m bits [of m] by simp
      have hi: "bit (?g ! (length f - 1)) m = bit (f ! (length f - 1)) m"
        using arg_cong [OF t, of "\<lambda>w. bit w (m + 8)"] m bits [of "m + 8"] by simp
      show "bit x m = bit (f ! i) m"
        using i lo hi assms(3) len by auto
    qed
  qed
qed

theorem crc_catches_one_byte_witness:
  "frame_crc_ok [1, 3, 0, 0, 0, 2, 0xC4, 0x0B] \<and> \<not> frame_crc_ok ([1, 3, 0, 0, 0, 2, 0xC4, 0x0B][3 := 4])"
proof -
  have "frame_crc_ok [1, 3, 0, 0, 0, 2, 0xC4, 0x0B]" by (simp add: frame_crc_ok_def crc_eval)
  then show ?thesis using crc_catches_one_byte [of "[1, 3, 0, 0, 0, 2, 0xC4, 0x0B]" 3 4] by auto
qed

section \<open>The splitter's contract\<close>

definition rtu_decide :: "bool \<Rightarrow> u8 list \<Rightarrow> cut" where
  "rtu_decide final b =
     (if length b < 4 then Wait
      else case rtu_match b of
             Some n \<Rightarrow> Take n
           | None \<Rightarrow> if foldr max (rtu_candidates b) 0 \<le> length b \<or> final then Skip 1 else Wait)"

lemma rtu_extract_decide:
  "rtu_extract final b = (case rtu_decide final b of
       Wait \<Rightarrow> ([], b, 0)
     | Take n \<Rightarrow> took (take n b) (rtu_extract final (drop n b))
     | Skip n \<Rightarrow> skipped n (rtu_extract final (drop n b)))"
  by (subst rtu_extract.simps) (simp add: rtu_decide_def split: option.split)

lemma rtu_decide_progress:
  "rtu_decide final b = Take n \<or> rtu_decide final b = Skip n \<Longrightarrow> 0 < n \<and> n \<le> length b"
  using rtu_match_bounds [of b n] by (auto simp: rtu_decide_def split: if_splits option.splits)

lemma rtu_decide_take: "rtu_decide final b = Take n \<Longrightarrow> frame_crc_ok (take n b)"
  using rtu_match_bounds [of b n] by (auto simp: rtu_decide_def split: if_splits option.splits)

lemma nth_grow: "n < length b \<Longrightarrow> (b @ c) ! n = b ! n"
  by (simp add: nth_append)

lemma rtu_candidates_grow:
  assumes "4 \<le> length b" "7 \<le> length b \<or> \<not> (\<not> bit (b ! 1) 7 \<and> unat (b ! 1) \<in> {15, 16})"
  shows "rtu_candidates (b @ c) = rtu_candidates b"
  using assms by (auto simp: rtu_candidates_def Let_def nth_grow)

lemma rtu_short_write_waits:
  assumes "4 \<le> length b" "length b < 7" "\<not> bit (b ! 1) 7" "unat (b ! 1) \<in> {15, 16}"
  shows "rtu_decide False b = Wait"
proof -
  have "rtu_candidates b = [8]" using assms by (auto simp: rtu_candidates_def Let_def)
  then show ?thesis using assms by (simp add: rtu_decide_def rtu_match_def)
qed

lemma foldr_max_ge: "n \<in> set ns \<Longrightarrow> n \<le> foldr max ns (0 :: nat)"
  by (induction ns) (auto simp: le_max_iff_disj)

lemma find_upto:
  assumes "find (\<lambda>n. n \<le> k \<and> Q n) ns = Some n" "sorted ns" "k \<le> k'"
  shows "find (\<lambda>n. n \<le> k' \<and> Q n) ns = Some n"
  using assms
proof (induction ns)
  case (Cons a ns)
  show ?case
  proof (cases "a \<le> k \<and> Q a")
    case False
    with Cons.prems have n: "find (\<lambda>n. n \<le> k \<and> Q n) ns = Some n" by simp
    then have "n \<in> set ns" "n \<le> k" by (auto simp: find_Some_iff)
    with Cons.prems False have "\<not> (a \<le> k' \<and> Q a)" by (auto intro: order_trans)
    with Cons n show ?thesis by auto
  qed (use Cons.prems in auto)
qed simp

lemma rtu_decide_stable:
  assumes "rtu_decide False b \<noteq> Wait"
  shows "rtu_decide False (b @ c) = rtu_decide False b"
proof -
  from assms have len: "4 \<le> length b" by (auto simp: rtu_decide_def split: if_splits)
  have "7 \<le> length b \<or> \<not> (\<not> bit (b ! 1) 7 \<and> unat (b ! 1) \<in> {15, 16})"
    using assms rtu_short_write_waits [OF len] by force
  then have cands: "rtu_candidates (b @ c) = rtu_candidates b" by (rule rtu_candidates_grow [OF len])
  have q: "n \<le> length b \<Longrightarrow> frame_crc_ok (take n (b @ c)) = frame_crc_ok (take n b)" for n by simp
  show ?thesis
  proof (cases "rtu_match b")
    case (Some n)
    then have f: "find (\<lambda>n. n \<le> length b \<and> frame_crc_ok (take n (b @ c))) (rtu_candidates b) = Some n"
      unfolding rtu_match_def using q by (simp cong: conj_cong)
    have "rtu_match (b @ c) = Some n"
      unfolding rtu_match_def cands
      by (rule find_upto [OF f]) (simp_all add: rtu_candidates_def Let_def)
    with Some len show ?thesis by (simp add: rtu_decide_def)
  next
    case None
    with assms have m: "foldr max (rtu_candidates b) 0 \<le> length b"
      by (auto simp: rtu_decide_def split: if_splits)
    then have "\<forall>n \<in> set (rtu_candidates b). n \<le> length b" using foldr_max_ge le_trans by blast
    with None have "rtu_match (b @ c) = None"
      unfolding rtu_match_def cands using q by (auto simp: find_None_iff)
    with None len m show ?thesis by (simp add: rtu_decide_def cands)
  qed
qed

interpretation rtu_tail: stream_splitter "rtu_decide final" "rtu_extract final" frame_crc_ok for final
  by unfold_locales (use rtu_decide_progress rtu_decide_take rtu_extract_decide in auto)

interpretation rtu_head: chunk_free_splitter "rtu_decide False" "rtu_extract False" frame_crc_ok
  by unfold_locales (rule rtu_decide_stable)

text \<open>
  The splitter emits only frames with a good CRC, in the order of the wire,
  and accounts for every byte: what it is fed is the frames, the bytes it keeps and the bytes
  it counts as dropped, on data and on silence.
\<close>

theorem rtu_bytes_accounted:
  assumes "rtu_feed data f = (fs, f')"
  shows "(\<forall>g \<in> set fs. frame_crc_ok g) \<and> subseq (concat fs @ rtu_buf f') (rtu_buf f @ data) \<and>
    length (rtu_buf f) + length data + rtu_dropped f =
      sum_list (map length fs) + length (rtu_buf f') + rtu_dropped f'"
proof -
  obtain gs r d where e: "rtu_extract False (rtu_buf f @ data) = (gs, r, d)" by (metis prod_cases3)
  then show ?thesis
    using assms rtu_tail.frames_good [of _ False "rtu_buf f @ data"] rtu_tail.bytes_in_order [of False "rtu_buf f @ data"]
      rtu_tail.bytes_conserved [of "rtu_buf f @ data" False]
    by (auto simp: rtu_feed_def)
qed

theorem rtu_bytes_accounted_witness:
  "\<exists>fs f'. rtu_feed [0xFF, 1, 3] \<lparr>rtu_buf = [7], rtu_dropped = 2\<rparr> = (fs, f') \<and>
     6 = sum_list (map length fs) + length (rtu_buf f') + rtu_dropped f'"
proof -
  obtain fs f' where e: "rtu_feed [0xFF, 1, 3] \<lparr>rtu_buf = [7], rtu_dropped = 2\<rparr> = (fs, f')"
    by (cases "rtu_feed [0xFF, 1, 3] \<lparr>rtu_buf = [7], rtu_dropped = 2\<rparr>")
  then show ?thesis using rtu_bytes_accounted [OF e] by auto
qed

text \<open>
  C30 (equivalence): How the serial layer cuts the stream into chunks does not matter. Feeding
  the chunks one by one gives the very frames, buffer and drop count of feeding them at once,
  so a frame split across reads, or ten frames in one read, are found all the same.
\<close>

theorem rtu_chunks_do_not_matter:
  assumes "rtu_decide False (rtu_buf f) = Wait"
  shows "rtu_feed_all chunks f = rtu_feed (concat chunks) f"
  using assms
proof (induction chunks arbitrary: f)
  case Nil
  then have "rtu_extract False (rtu_buf f) = ([], rtu_buf f, 0)" by (simp add: rtu_extract_decide)
  then show ?case by (simp add: rtu_feed_def)
next
  case (Cons c cs)
  obtain fs r d where e: "rtu_extract False (rtu_buf f @ c) = (fs, r, d)" by (metis prod_cases3)
  define g where "g = \<lparr>rtu_buf = r, rtu_dropped = rtu_dropped f + d\<rparr>"
  have now: "rtu_feed c f = (fs, g)" using e by (simp add: rtu_feed_def g_def)
  have "rtu_decide False (rtu_buf g) = Wait"
    using rtu_tail.rests_waiting [of False "rtu_buf f @ c"] e by (simp add: g_def)
  then have "rtu_feed_all cs g = rtu_feed (concat cs) g" by (rule Cons.IH)
  moreover have "rtu_extract False (rtu_buf f @ c @ concat cs) = after (fs, r, d) (\<lambda>rest. rtu_extract False (rest @ concat cs))"
    using rtu_head.cut_append [of "rtu_buf f @ c" "concat cs"] e by simp
  ultimately show ?case
    using now by (simp add: rtu_feed_def g_def after_def Let_def split: prod.splits)
qed

theorem rtu_chunks_do_not_matter_witness:
  "rtu_feed_all [[0xFF, 1, 3, 0], [0, 0, 2], [0xC4, 0x0B, 1]] \<lparr>rtu_buf = [], rtu_dropped = 0\<rparr>
     = rtu_feed [0xFF, 1, 3, 0, 0, 0, 2, 0xC4, 0x0B, 1] \<lparr>rtu_buf = [], rtu_dropped = 0\<rparr>"
  using rtu_chunks_do_not_matter [of "\<lparr>rtu_buf = [], rtu_dropped = 0\<rparr>" "[[0xFF, 1, 3, 0], [0, 0, 2], [0xC4, 0x0B, 1]]"]
  by (simp add: rtu_decide_def)

section \<open>The port's reader\<close>

definition RESPONSE_WINDOW_S :: rat where "RESPONSE_WINDOW_S = 1"
definition ALL_UNITS :: int where "ALL_UNITS = -1"

datatype note_kind = NExc | NRequest | NResponse | NInferred | NOrphan | NWrite | NOther

text \<open>
  What the reader does to the outside: a window of words or bits to a client or observer,
  and a frame heard by whoever watches the whole bus. Clients and observers are numbers.
\<close>

datatype tap_out =
    Window nat int "u16 list" string
  | Coils nat int "int list" string
  | Heard nat int int note_kind

record tap_reader =
  tap_net :: bool
  tap_running :: bool
  tap_port_open :: bool
  tap_clients :: "(int, nat) dict"
  tap_observers :: "(int, nat list) dict"
  tap_pending :: "(int, int \<times> int \<times> int \<times> rat) dict"
  tap_shape :: "(int \<times> int, int option) dict"
  tap_inferred :: nat
  tap_frames :: nat
  tap_last_frame :: "rat option"
  tap_crc_errors :: nat
  tap_orphans :: nat
  tap_exceptions :: nat
  tap_writes_seen :: nat
  tap_last_w :: "(int \<times> int \<times> int) option"
  tap_last_w_t :: rat
  tap_recent :: "(int \<times> int \<times> note_kind) list"

definition tap_init :: "bool \<Rightarrow> tap_reader" where
  "tap_init net = \<lparr> tap_net = net, tap_running = False, tap_port_open = False, tap_clients = [],
     tap_observers = [], tap_pending = [], tap_shape = [], tap_inferred = 0, tap_frames = 0,
     tap_last_frame = None, tap_crc_errors = 0, tap_orphans = 0, tap_exceptions = 0,
     tap_writes_seen = 0, tap_last_w = None, tap_last_w_t = 0, tap_recent = [] \<rparr>"

section \<open>Who is attached\<close>

text \<open>
  \<open>_start_locked\<close> and \<open>_stop_locked\<close>; \<open>opens\<close> is whether the serial port could be opened
  now. The thread runs either way and opens the port again later.
\<close>

definition tap_start :: "bool \<Rightarrow> tap_reader \<Rightarrow> bool \<times> tap_reader" where
  "tap_start opens s =
     (if tap_net s then (True, s\<lparr>tap_running := True, tap_port_open := True\<rparr>)
      else (opens, s\<lparr>tap_running := True, tap_port_open := opens\<rparr>))"

definition tap_stop :: "tap_reader \<Rightarrow> tap_reader" where
  "tap_stop s = s\<lparr>tap_running := False, tap_port_open := False\<rparr>"

definition tap_register :: "bool \<Rightarrow> int \<Rightarrow> nat \<Rightarrow> tap_reader \<Rightarrow> bool \<times> tap_reader" where
  "tap_register opens unit client s0 =
     (let s = s0\<lparr>tap_clients := dict_set unit client (tap_clients s0)\<rparr>
      in if \<not> tap_running s then tap_start opens s else (tap_port_open s, s))"

definition tap_unregister :: "int \<Rightarrow> tap_reader \<Rightarrow> tap_reader" where
  "tap_unregister unit s0 =
     (let s = s0\<lparr>tap_clients := dict_del unit (tap_clients s0)\<rparr>
      in if tap_clients s = [] \<and> tap_observers s = [] then tap_stop s else s)"

definition observers_of :: "int \<Rightarrow> tap_reader \<Rightarrow> nat list" where
  "observers_of unit s = (case dict_get (tap_observers s) unit of Some l \<Rightarrow> l | None \<Rightarrow> [])"

definition tap_observe :: "bool \<Rightarrow> int \<Rightarrow> nat \<Rightarrow> tap_reader \<Rightarrow> bool \<times> tap_reader" where
  "tap_observe opens unit observer s0 =
     (let s = s0\<lparr>tap_observers := dict_set unit (observers_of unit s0 @ [observer]) (tap_observers s0)\<rparr>
      in if \<not> tap_running s then tap_start opens s else (tap_net s \<or> tap_port_open s, s))"

definition tap_unobserve :: "int \<Rightarrow> nat \<Rightarrow> tap_reader \<Rightarrow> tap_reader" where
  "tap_unobserve unit observer s0 =
     (let l = remove1 observer (observers_of unit s0);
          s = (if l = [] then s0\<lparr>tap_observers := dict_del unit (tap_observers s0)\<rparr>
               else s0\<lparr>tap_observers := dict_set unit l (tap_observers s0)\<rparr>)
      in if tap_clients s = [] \<and> tap_observers s = [] \<and> tap_running s then tap_stop s else s)"

section \<open>Classifying a frame\<close>

definition be16 :: "u8 list \<Rightarrow> nat \<Rightarrow> u16" where
  "be16 b i = push_bit 8 (ucast (b ! i)) OR ucast (b ! (i + 1))"

definition words_at :: "u8 list \<Rightarrow> nat \<Rightarrow> nat \<Rightarrow> u16 list" where
  "words_at b i count = map (\<lambda>k. be16 b (i + 2 * k)) [0 ..< count]"

definition bits_at :: "u8 list \<Rightarrow> nat \<Rightarrow> nat \<Rightarrow> int list" where
  "bits_at b i count = map (\<lambda>k. of_bool (bit (b ! (i + k div 8)) (k mod 8))) [0 ..< count]"

definition FC_TABLE :: "(int, string) dict" where
  "FC_TABLE = [(1, ''coil''), (5, ''coil''), (15, ''coil''), (2, ''discrete''),
               (3, ''holding''), (6, ''holding''), (16, ''holding''), (4, ''input'')]"

definition table_or :: "string \<Rightarrow> int \<Rightarrow> string" where
  "table_or dflt fc = (case dict_get FC_TABLE fc of Some t \<Rightarrow> t | None \<Rightarrow> dflt)"

definition keep_last :: "nat \<Rightarrow> 'a list \<Rightarrow> 'a list" where
  "keep_last n xs = drop (length xs - n) xs"

definition tap_note :: "int \<Rightarrow> int \<Rightarrow> note_kind \<Rightarrow> tap_reader \<Rightarrow> tap_out list \<times> tap_reader" where
  "tap_note unit fc kind s =
     (map (\<lambda>w. Heard w unit fc kind) (observers_of ALL_UNITS s),
      s\<lparr>tap_recent := keep_last 200 (tap_recent s @ [(unit, fc, kind)])\<rparr>)"

definition tap_dispatch :: "int \<Rightarrow> int \<Rightarrow> u16 list \<Rightarrow> int \<Rightarrow> tap_reader \<Rightarrow> tap_out list" where
  "tap_dispatch unit addr words fc s =
     map (\<lambda>c. Window c addr words (table_or ''holding'' fc))
       ((case dict_get (tap_clients s) unit of Some c \<Rightarrow> [c] | None \<Rightarrow> []) @ observers_of unit s)"

definition tap_dispatch_bits :: "int \<Rightarrow> int \<Rightarrow> int list \<Rightarrow> int \<Rightarrow> tap_reader \<Rightarrow> tap_out list" where
  "tap_dispatch_bits unit addr bits fc s =
     (case dict_get (tap_clients s) unit of
        Some c \<Rightarrow> [Coils c addr bits (table_or ''coil'' fc)] | None \<Rightarrow> [])"

text \<open>The first address seen for a shape wins; a conflicting one poisons it for good.\<close>

definition tap_learn :: "int \<times> int \<Rightarrow> int \<Rightarrow> tap_reader \<Rightarrow> tap_reader" where
  "tap_learn key addr s =
     s\<lparr>tap_shape := dict_set key
         (case dict_get (tap_shape s) key of
            None \<Rightarrow> Some addr
          | Some v \<Rightarrow> if v \<noteq> Some addr then None else Some addr) (tap_shape s)\<rparr>"

definition byte_count :: "u8 list \<Rightarrow> int" where
  "byte_count frame = (if 2 < length frame - 2 then uint (frame ! 2) else -1)"

text \<open>The request a response answers: same function code, the size it asked for, within the window.\<close>

definition paired :: "int \<Rightarrow> int \<Rightarrow> u8 list \<Rightarrow> rat \<Rightarrow> (int \<Rightarrow> int) \<Rightarrow> tap_reader \<Rightarrow> (int \<times> int) option" where
  "paired unit fc frame now expected s =
     (case dict_get (tap_pending s) unit of
        None \<Rightarrow> None
      | Some (pfc, addr, count, t) \<Rightarrow>
          if pfc = fc \<and> int (length frame) = 5 + byte_count frame \<and> byte_count frame = expected count
             \<and> now - t \<le> RESPONSE_WINDOW_S
          then Some (addr, count) else None)"

definition tap_request :: "int \<Rightarrow> int \<Rightarrow> u8 list \<Rightarrow> rat \<Rightarrow> tap_reader \<Rightarrow> tap_out list \<times> tap_reader" where
  "tap_request unit fc frame now s =
     tap_note unit fc NRequest
       (s\<lparr>tap_pending := dict_set unit (fc, uint (be16 frame 2), uint (be16 frame 4), now) (tap_pending s)\<rparr>)"

definition tap_orphan :: "int \<Rightarrow> int \<Rightarrow> tap_reader \<Rightarrow> tap_out list \<times> tap_reader" where
  "tap_orphan unit fc s = tap_note unit fc NOrphan (s\<lparr>tap_orphans := tap_orphans s + 1\<rparr>)"

definition tap_bits_frame :: "int \<Rightarrow> int \<Rightarrow> u8 list \<Rightarrow> rat \<Rightarrow> tap_reader \<Rightarrow> tap_out list \<times> tap_reader" where
  "tap_bits_frame unit fc frame now s =
     (if length frame = 8 then tap_request unit fc frame now s
      else (let nbytes = byte_count frame
            in case paired unit fc frame now (\<lambda>count. (count + 7) div 8) s of
                 Some (addr, count) \<Rightarrow>
                   (let s1 = tap_learn (fc, nbytes) addr (s\<lparr>tap_pending := dict_del unit (tap_pending s)\<rparr>);
                        (heard, s2) = tap_note unit fc NResponse s1
                    in (heard @ tap_dispatch_bits unit addr (bits_at frame 3 (nat count)) fc s2, s2))
               | None \<Rightarrow>
                   (case (if int (length frame) = 5 + nbytes \<and> 0 < nbytes
                          then (case dict_get (tap_shape s) (fc, nbytes) of Some v \<Rightarrow> v | None \<Rightarrow> None) else None) of
                      Some addr \<Rightarrow>
                        (let (heard, s2) = tap_note unit fc NInferred (s\<lparr>tap_inferred := tap_inferred s + 1\<rparr>)
                         in (heard @ tap_dispatch_bits unit addr (bits_at frame 3 (nat (nbytes * 8))) fc s2, s2))
                    | None \<Rightarrow> tap_orphan unit fc s)))"

definition tap_words_frame :: "int \<Rightarrow> int \<Rightarrow> u8 list \<Rightarrow> rat \<Rightarrow> tap_reader \<Rightarrow> tap_out list \<times> tap_reader" where
  "tap_words_frame unit fc frame now s =
     (if length frame = 8 then tap_request unit fc frame now s
      else (let nbytes = byte_count frame
            in case paired unit fc frame now (\<lambda>count. 2 * count) s of
                 Some (addr, count) \<Rightarrow>
                   (let s1 = tap_learn (fc, nbytes) addr (s\<lparr>tap_pending := dict_del unit (tap_pending s)\<rparr>);
                        (heard, s2) = tap_note unit fc NResponse s1
                    in (heard @ tap_dispatch unit addr (words_at frame 3 (nat count)) fc s2, s2))
               | None \<Rightarrow>
                   (case (if int (length frame) = 5 + nbytes \<and> 0 < nbytes \<and> even nbytes
                          then (case dict_get (tap_shape s) (fc, nbytes) of Some v \<Rightarrow> v | None \<Rightarrow> None) else None) of
                      Some addr \<Rightarrow>
                        (let (heard, s2) = tap_note unit fc NInferred (s\<lparr>tap_inferred := tap_inferred s + 1\<rparr>)
                         in (heard @ tap_dispatch unit addr (words_at frame 3 (nat (nbytes div 2))) fc s2, s2))
                    | None \<Rightarrow> tap_orphan unit fc s)))"

text \<open>A single write: request and echo look alike, the second within half a second is the echo.\<close>

definition tap_write_frame :: "int \<Rightarrow> int \<Rightarrow> u8 list \<Rightarrow> rat \<Rightarrow> tap_reader \<Rightarrow> tap_out list \<times> tap_reader" where
  "tap_write_frame unit fc frame now s =
     (let addr = uint (be16 frame 2); value = be16 frame 4; key = (unit, addr, uint value)
      in if tap_last_w s = Some key \<and> now - tap_last_w_t s < 1/2 then ([], s)
         else (let (heard, s2) = tap_note unit fc NWrite
                     (s\<lparr>tap_last_w := Some key, tap_last_w_t := now, tap_writes_seen := tap_writes_seen s + 1\<rparr>)
               in (heard @ tap_dispatch unit addr [value] fc s2, s2)))"

definition tap_multi_frame :: "int \<Rightarrow> int \<Rightarrow> u8 list \<Rightarrow> tap_reader \<Rightarrow> tap_out list \<times> tap_reader" where
  "tap_multi_frame unit fc frame s =
     (let addr = uint (be16 frame 2); count = uint (be16 frame 4)
      in if uint (frame ! 6) = 2 * count
         then (let (heard, s2) = tap_note unit fc NWrite (s\<lparr>tap_writes_seen := tap_writes_seen s + 1\<rparr>)
               in (heard @ tap_dispatch unit addr (words_at frame 7 (nat count)) fc s2, s2))
         else ([], s))"

definition tap_on_frame :: "u8 list \<Rightarrow> rat \<Rightarrow> tap_reader \<Rightarrow> tap_out list \<times> tap_reader" where
  "tap_on_frame frame now s0 =
     (if \<not> frame_crc_ok frame then ([], s0\<lparr>tap_crc_errors := tap_crc_errors s0 + 1\<rparr>)
      else
        (let s = s0\<lparr>tap_frames := tap_frames s0 + 1, tap_last_frame := Some now\<rparr>;
             unit = uint (frame ! 0); fc = uint (frame ! 1)
         in if bit fc 7
            then tap_note unit (fc AND 0x7F) NExc (s\<lparr>tap_exceptions := tap_exceptions s + 1\<rparr>)
            else if fc \<in> {1, 2} then tap_bits_frame unit fc frame now s
            else if fc \<in> {3, 4} then tap_words_frame unit fc frame now s
            else if fc = 6 \<and> length frame = 8 then tap_write_frame unit fc frame now s
            else if fc = 16 \<and> 9 \<le> length frame \<and> int (length frame) = 9 + uint (frame ! 6)
                 then tap_multi_frame unit fc frame s
            else tap_note unit fc NOther s))"

fun tap_frames_in :: "(u8 list \<times> rat) list \<Rightarrow> tap_reader \<Rightarrow> tap_out list \<times> tap_reader" where
  "tap_frames_in [] s = ([], s)"
| "tap_frames_in ((frame, now) # rest) s =
     (let (o1, s1) = tap_on_frame frame now s; (o2, s2) = tap_frames_in rest s1 in (o1 @ o2, s2))"

section \<open>Every window is explained\<close>

lemma tap_note_out: "fst (tap_note unit fc kind s) = map (\<lambda>w. Heard w unit fc kind) (observers_of ALL_UNITS s)"
  by (simp add: tap_note_def)

lemma tap_note_keeps [simp]:
  "tap_clients (snd (tap_note unit fc kind s)) = tap_clients s"
  "tap_observers (snd (tap_note unit fc kind s)) = tap_observers s"
  "tap_pending (snd (tap_note unit fc kind s)) = tap_pending s"
  "tap_shape (snd (tap_note unit fc kind s)) = tap_shape s"
  "tap_running (snd (tap_note unit fc kind s)) = tap_running s"
  "tap_port_open (snd (tap_note unit fc kind s)) = tap_port_open s"
  "tap_last_w (snd (tap_note unit fc kind s)) = tap_last_w s"
  "tap_last_w_t (snd (tap_note unit fc kind s)) = tap_last_w_t s"
  by (simp_all add: tap_note_def)

lemma observers_of_cong: "tap_observers s = tap_observers t \<Longrightarrow> observers_of u s = observers_of u t"
  by (simp add: observers_of_def)

definition hears :: "tap_reader \<Rightarrow> int \<Rightarrow> nat \<Rightarrow> bool" where
  "hears s u c = (dict_get (tap_clients s) u = Some c \<or> c \<in> set (observers_of u s))"

lemma dispatch_iff:
  "Window c addr words table \<in> set (tap_dispatch unit addr' words' fc s) \<longleftrightarrow>
     addr = addr' \<and> words = words' \<and> table = table_or ''holding'' fc \<and> hears s unit c"
  by (auto simp: tap_dispatch_def hears_def split: option.splits)

lemma no_window_note [simp]: "Window c a w t \<notin> set (fst (tap_note unit fc kind s))"
  by (auto simp: tap_note_out)

lemma no_window_bits [simp]: "Window c a w t \<notin> set (tap_dispatch_bits unit addr bits fc s)"
  by (auto simp: tap_dispatch_bits_def split: option.splits)

lemma hears_keeps:
  "tap_clients s = tap_clients t \<Longrightarrow> tap_observers s = tap_observers t \<Longrightarrow> hears s u c = hears t u c"
  by (simp add: hears_def observers_of_def)

lemma bits_frame_no_window: "Window c a w t \<notin> set (fst (tap_bits_frame unit fc frame now s))"
  by (auto simp: tap_bits_frame_def tap_request_def tap_orphan_def Let_def case_prod_beta split: option.splits)

lemma words_frame_window:
  assumes "Window c addr words table \<in> set (fst (tap_words_frame unit fc frame now s))"
  shows "hears s unit c \<and> table = table_or ''holding'' fc \<and> length frame \<noteq> 8 \<and>
    words = words_at frame 3 (length words) \<and> byte_count frame = 2 * int (length words) \<and>
    int (length frame) = 5 + byte_count frame \<and>
    ((\<exists>t. dict_get (tap_pending s) unit = Some (fc, addr, int (length words), t) \<and> now - t \<le> RESPONSE_WINDOW_S)
     \<or> dict_get (tap_shape s) (fc, byte_count frame) = Some (Some addr))"
proof -
  have len: "length frame \<noteq> 8"
    using assms by (auto simp: tap_words_frame_def tap_request_def)
  have bc: "-1 \<le> byte_count frame" using order_trans [OF _ uint_nonnegative, of "-1 :: int" "frame ! 2"] by (simp add: byte_count_def)
  show ?thesis
  proof (cases "paired unit fc frame now (\<lambda>count. 2 * count) s")
    case (Some p)
    obtain a count where p: "p = (a, count)" by (cases p)
    obtain t where pend: "dict_get (tap_pending s) unit = Some (fc, a, count, t)" "now - t \<le> RESPONSE_WINDOW_S"
      "int (length frame) = 5 + byte_count frame" "byte_count frame = 2 * count"
      using Some p by (auto simp: paired_def split: option.splits if_splits prod.splits)
    have w: "addr = a" "words = words_at frame 3 (nat count)" "table = table_or ''holding'' fc"
      and h: "hears (snd (tap_note unit fc NResponse
           (tap_learn (fc, byte_count frame) a (s\<lparr>tap_pending := dict_del unit (tap_pending s)\<rparr>)))) unit c"
      using assms len Some p by (auto simp: tap_words_frame_def Let_def case_prod_beta dispatch_iff)
    have "hears s unit c" using h by (simp add: hears_def observers_of_def tap_learn_def)
    moreover have "int (length words) = count" using w pend bc by (simp add: words_at_def)
    ultimately show ?thesis using w pend len by (auto simp: words_at_def)
  next
    case None
    then obtain a where sh: "int (length frame) = 5 + byte_count frame" "0 < byte_count frame" "even (byte_count frame)"
        "dict_get (tap_shape s) (fc, byte_count frame) = Some (Some a)"
      and w: "addr = a" "words = words_at frame 3 (nat (byte_count frame div 2))" "table = table_or ''holding'' fc"
      and h: "hears (snd (tap_note unit fc NInferred (s\<lparr>tap_inferred := tap_inferred s + 1\<rparr>))) unit c"
      using assms len
      by (auto simp: tap_words_frame_def tap_orphan_def Let_def case_prod_beta dispatch_iff split: option.splits if_splits)
    have "hears s unit c" using h by (simp add: hears_def observers_of_def)
    then show ?thesis using w sh len by (auto simp: words_at_def)
  qed
qed


definition asked_reader :: tap_reader where
  "asked_reader = (tap_init True)\<lparr>tap_clients := [(2, 5)], tap_pending := [(2, (4, 0x2000, 1, 9/10))]\<rparr>"


section \<open>What the shape map knows\<close>

text \<open>The exchange a frame completes: the shape and the address it was asked at.\<close>

definition completes :: "u8 list \<Rightarrow> rat \<Rightarrow> tap_reader \<Rightarrow> ((int \<times> int) \<times> int) list" where
  "completes frame now s =
     (let u = uint (frame ! 0); fc = uint (frame ! 1)
      in if frame_crc_ok frame \<and> fc \<in> {1, 2, 3, 4} \<and> length frame \<noteq> 8
         then (case paired u fc frame now (if fc \<in> {1, 2} then (\<lambda>n. (n + 7) div 8) else (\<lambda>n. 2 * n)) s of
                 Some (addr, _) \<Rightarrow> [((fc, byte_count frame), addr)] | None \<Rightarrow> [])
         else [])"

fun taught :: "(u8 list \<times> rat) list \<Rightarrow> tap_reader \<Rightarrow> ((int \<times> int) \<times> int) list" where
  "taught [] s = []"
| "taught ((frame, now) # rest) s = completes frame now s @ taught rest (snd (tap_on_frame frame now s))"

definition learn :: "(int \<times> int) \<times> int \<Rightarrow> tap_reader \<Rightarrow> tap_reader" where
  "learn e s = tap_learn (fst e) (snd e) s"

lemma shape_request [simp]: "tap_shape (snd (tap_request u fc frame now s)) = tap_shape s"
  by (simp add: tap_request_def)

lemma shape_orphan [simp]: "tap_shape (snd (tap_orphan u fc s)) = tap_shape s"
  by (simp add: tap_orphan_def)

lemma not_high_fc: "(fc :: int) \<in> {1, 2, 3, 4} \<Longrightarrow> \<not> bit fc 7"
  by (auto simp: bit_iff_odd)

lemma shape_bits_frame:
  "tap_shape (snd (tap_bits_frame u fc frame now s)) =
     (if length frame = 8 then tap_shape s
      else case paired u fc frame now (\<lambda>n. (n + 7) div 8) s of
             Some (addr, _) \<Rightarrow> tap_shape (tap_learn (fc, byte_count frame) addr s)
           | None \<Rightarrow> tap_shape s)"
  by (auto simp: tap_bits_frame_def Let_def case_prod_beta tap_learn_def split: option.splits)

lemma shape_words_frame:
  "tap_shape (snd (tap_words_frame u fc frame now s)) =
     (if length frame = 8 then tap_shape s
      else case paired u fc frame now (\<lambda>n. 2 * n) s of
             Some (addr, _) \<Rightarrow> tap_shape (tap_learn (fc, byte_count frame) addr s)
           | None \<Rightarrow> tap_shape s)"
  by (auto simp: tap_words_frame_def Let_def case_prod_beta tap_learn_def split: option.splits)

lemma paired_cong: "tap_pending s = tap_pending t \<Longrightarrow> paired u fc frame now f s = paired u fc frame now f t"
  by (simp add: paired_def)

lemma shape_on_frame:
  "tap_shape (snd (tap_on_frame frame now s)) = tap_shape (foldr learn (completes frame now s) s)"
proof (cases "frame_crc_ok frame")
  case True
  define s' where "s' = s\<lparr>tap_frames := tap_frames s + 1, tap_last_frame := Some now\<rparr>"
  let ?u = "uint (frame ! 0)" and ?fc = "uint (frame ! 1)"
  have p: "paired u fc frame now f s' = paired u fc frame now f s" for u fc f by (rule paired_cong) (simp add: s'_def)
  have l: "tap_shape (tap_learn k a s') = tap_shape (tap_learn k a s)" for k a by (simp add: tap_learn_def s'_def)
  have sh: "tap_shape s' = tap_shape s" by (simp add: s'_def)
  consider "?fc \<in> {1, 2}" | "?fc \<in> {3, 4}" | "?fc \<notin> {1, 2, 3, 4}" by blast
  then show ?thesis
  proof cases
    case 1
    then have "tap_on_frame frame now s = tap_bits_frame ?u ?fc frame now s'"
      using True not_high_fc [of ?fc] by (auto simp: tap_on_frame_def Let_def s'_def)
    then show ?thesis
      using 1 True by (auto simp: shape_bits_frame completes_def learn_def p l sh split: option.splits)
  next
    case 2
    then have "tap_on_frame frame now s = tap_words_frame ?u ?fc frame now s'"
      using True not_high_fc [of ?fc] by (auto simp: tap_on_frame_def Let_def s'_def)
    then show ?thesis
      using 2 True by (auto simp: shape_words_frame completes_def learn_def p l sh split: option.splits)
  next
    case 3
    then have "completes frame now s = []" by (simp add: completes_def)
    moreover have "tap_shape (snd (tap_on_frame frame now s)) = tap_shape s"
      using True 3 by (auto simp: tap_on_frame_def Let_def tap_write_frame_def tap_multi_frame_def case_prod_beta)
    ultimately show ?thesis by simp
  qed
qed (simp add: tap_on_frame_def completes_def)

text \<open>What the map says of a shape, given every exchange of that shape.\<close>

definition verdict :: "int set \<Rightarrow> int option option" where
  "verdict A = (if A = {} then None else if \<exists>a. A = {a} then Some (Some (the_elem A)) else Some None)"

definition unanimous :: "((int \<times> int) \<times> int) set \<Rightarrow> (int \<times> int) \<Rightarrow> int option option" where
  "unanimous exs key = verdict {a. (key, a) \<in> exs}"

lemma verdict_insert:
  "verdict (insert a A) = Some (case verdict A of None \<Rightarrow> Some a | Some v \<Rightarrow> if v \<noteq> Some a then None else Some a)"
proof -
  consider "A = {}" | x where "A = {x}" | x y where "x \<in> A" "y \<in> A" "x \<noteq> y" by blast
  then show ?thesis
  proof cases
    case (2 x)
    have "(\<exists>y. insert a {x} = {y}) \<longleftrightarrow> a = x" by auto
    then show ?thesis using 2 by (simp add: verdict_def)
  next
    case (3 x y)
    then have "\<not> (\<exists>z. A = {z})" "\<not> (\<exists>z. insert a A = {z})" "A \<noteq> {}" by auto
    then show ?thesis by (simp add: verdict_def)
  qed (simp add: verdict_def)
qed

lemma verdict_some: "verdict A = Some (Some a) \<longleftrightarrow> A = {a}"
  by (auto simp: verdict_def)

definition agrees :: "((int \<times> int), int option) dict \<Rightarrow> ((int \<times> int) \<times> int) set \<Rightarrow> bool" where
  "agrees shp exs = (\<forall>key. dict_get shp key = unanimous exs key)"

lemma agrees_learn: "agrees (tap_shape s) exs \<Longrightarrow> agrees (tap_shape (learn (k, a) s)) (insert (k, a) exs)"
  unfolding agrees_def
proof
  fix key
  assume a: "\<forall>key. dict_get (tap_shape s) key = unanimous exs key"
  have "{x. (key, x) \<in> insert (k, a) exs} = (if key = k then insert a {x. (k, x) \<in> exs} else {x. (key, x) \<in> exs})"
    by auto
  then have "unanimous (insert (k, a) exs) key =
      (if key = k then verdict (insert a {x. (k, x) \<in> exs}) else unanimous exs key)"
    by (simp add: unanimous_def)
  moreover have "dict_get (tap_shape (learn (k, a) s)) key =
      (if key = k then Some (case dict_get (tap_shape s) k of None \<Rightarrow> Some a
          | Some v \<Rightarrow> if v \<noteq> Some a then None else Some a) else dict_get (tap_shape s) key)"
    by (simp add: learn_def tap_learn_def dict_simps)
  ultimately show "dict_get (tap_shape (learn (k, a) s)) key = unanimous (insert (k, a) exs) key"
    using a by (simp only: verdict_insert unanimous_def)
qed

lemma agrees_frames:
  "agrees (tap_shape s) exs \<Longrightarrow> agrees (tap_shape (snd (tap_frames_in fs s))) (set (taught fs s) \<union> exs)"
proof (induction fs arbitrary: s exs)
  case (Cons f rest)
  obtain frame now where f: "f = (frame, now)" by (cases f)
  let ?s = "snd (tap_on_frame frame now s)"
  have one: "completes frame now s = [] \<or> (\<exists>k a. completes frame now s = [(k, a)])"
    by (auto simp: completes_def Let_def split: option.splits)
  then have "agrees (tap_shape ?s) (set (completes frame now s) \<union> exs)"
    using Cons.prems agrees_learn by (auto simp: shape_on_frame)
  from Cons.IH [OF this] show ?case
    by (simp add: f case_prod_beta Un_assoc Un_commute Un_left_commute)
qed simp

text \<open>
  The reader never guesses an address. After any traffic the shape map holds
  an address for a block shape exactly when at least one exchange of that shape was paired
  and all of them were asked at that address; two addresses poison the shape for good.
\<close>

theorem shape_is_unanimous:
  "dict_get (tap_shape (snd (tap_frames_in fs (tap_init net)))) key = Some (Some a) \<longleftrightarrow>
     (key, a) \<in> set (taught fs (tap_init net)) \<and> (\<forall>b. (key, b) \<in> set (taught fs (tap_init net)) \<longrightarrow> b = a)"
proof -
  have "agrees (tap_shape (snd (tap_frames_in fs (tap_init net)))) (set (taught fs (tap_init net)) \<union> {})"
    by (rule agrees_frames) (simp add: agrees_def tap_init_def unanimous_def verdict_def)
  then have e: "dict_get (tap_shape (snd (tap_frames_in fs (tap_init net)))) key = verdict {a. (key, a) \<in> set (taught fs (tap_init net))}"
    unfolding agrees_def unanimous_def Un_empty_right by blast
  show ?thesis unfolding e verdict_some by blast
qed

definition read_exchange :: "(u8 list \<times> rat) list" where
  "read_exchange = [([2, 4, 0x20, 0, 0, 1, 0x3A, 0x39], 0), ([2, 4, 2, 0x12, 0x34, 0xF0, 0x47], 1/10)]"

lemma read_exchange_crc:
  "frame_crc_ok [2, 4, 0x20, 0, 0, 1, 0x3A, 0x39]" "frame_crc_ok [2, 4, 2, 0x12, 0x34, 0xF0, 0x47]"
  by (simp_all add: frame_crc_ok_def crc_eval)

lemma read_exchange_taught: "taught read_exchange (tap_init True) = [((4, 2), 0x2000)]"
  by (simp add: read_exchange_def completes_def read_exchange_crc tap_on_frame_def tap_words_frame_def
      tap_request_def tap_note_def tap_init_def paired_def byte_count_def be16_def RESPONSE_WINDOW_S_def Let_def)

theorem shape_is_unanimous_witness:
  "dict_get (tap_shape (snd (tap_frames_in read_exchange (tap_init True)))) (4, 2) = Some (Some 0x2000)"
  using shape_is_unanimous [of read_exchange True "(4, 2)" "0x2000"] by (simp add: read_exchange_taught)

section \<open>Write echoes and short coil windows\<close>

text \<open>
  A single write is handed on once. The same frame again within half a
  second (the slave's echo) changes nothing and reaches nobody; later it is a new write.
\<close>

theorem write_echo_dropped:
  assumes "frame_crc_ok frame" "frame ! 1 = 6" "length frame = 8"
    and "tap_last_w s \<noteq> Some (uint (frame ! 0), uint (be16 frame 2), uint (be16 frame 4))"
  shows "tap_writes_seen (snd (tap_on_frame frame t1 s)) = tap_writes_seen s + 1
    \<and> (if t2 - t1 < 1/2
       then fst (tap_on_frame frame t2 (snd (tap_on_frame frame t1 s))) = []
         \<and> tap_writes_seen (snd (tap_on_frame frame t2 (snd (tap_on_frame frame t1 s)))) = tap_writes_seen s + 1
       else tap_writes_seen (snd (tap_on_frame frame t2 (snd (tap_on_frame frame t1 s)))) = tap_writes_seen s + 2)"
proof -
  have fc: "tap_on_frame frame t r = tap_write_frame (uint (frame ! 0)) 6 frame t
      (r\<lparr>tap_frames := tap_frames r + 1, tap_last_frame := Some t\<rparr>)" for t r
    using assms(1-3) by (simp add: tap_on_frame_def Let_def)
  show ?thesis
    unfolding fc using assms(4) by (simp add: tap_write_frame_def tap_note_def Let_def)
qed

definition write_frame :: "u8 list" where "write_frame = [1, 6, 0, 5, 0, 7, 0xD8, 9]"

theorem write_echo_dropped_witness:
  "fst (tap_on_frame write_frame (1/10) (snd (tap_on_frame write_frame 0 (tap_init True)))) = []"
proof -
  have "frame_crc_ok write_frame" by (simp add: write_frame_def frame_crc_ok_def crc_eval)
  then show ?thesis
    using write_echo_dropped [of write_frame "tap_init True" 0 "1/10"]
    by (simp add: tap_init_def) (simp add: write_frame_def)
qed

text \<open>
  A coil or discrete window of 17 to 24 points is never delivered. Its
  answer carries three data bytes, so it is eight bytes long and is read as a request: nothing
  reaches the unit's device, and the answer's data bytes replace the pending request.
\<close>

theorem three_byte_coil_answer_read_as_request:
  assumes "frame_crc_ok frame" "length frame = 8" "frame ! 1 \<in> {1, 2}" "frame ! 2 = 3"
  shows "(\<forall>c addr bits table. Coils c addr bits table \<notin> set (fst (tap_on_frame frame now s)))
    \<and> dict_get (tap_pending (snd (tap_on_frame frame now s))) (uint (frame ! 0)) =
        Some (uint (frame ! 1), 0x300 + uint (frame ! 3), uint (be16 frame 4), now)"
proof -
  have fc: "uint (frame ! 1) = 1 \<or> uint (frame ! 1) = 2" using assms(3) by auto
  have "be16 frame 2 = 0x300 OR ucast (frame ! 3)" by (simp add: be16_def assms(4))
  also have "\<dots> = 0x300 + ucast (frame ! 3)"
  proof (rule disjunctive_add [symmetric])
    fix n
    show "\<not> bit (0x300 :: u16) n \<or> \<not> bit (ucast (frame ! 3) :: u16) n"
      using bit_imp_le_length [of "frame ! 3" n] by (cases "n < 8") (auto simp: bit_simps less_Suc_eq numeral_eq_Suc)
  qed
  finally have "uint (be16 frame 2) = 0x300 + uint (frame ! 3)"
    using uint_lt2p [of "frame ! 3"] by (simp add: uint_word_ariths unsigned_ucast_eq take_bit_int_eq_self mod_pos_pos_trivial)
  then show ?thesis
    using assms(1,2) fc
    by (auto simp: tap_on_frame_def Let_def tap_bits_frame_def tap_request_def tap_note_def dict_simps)
qed

theorem three_byte_coil_answer_read_as_request_witness:
  "\<forall>bits table. Coils 5 0 bits table \<notin> set (fst (tap_on_frame [1, 1, 3, 0xFF, 0, 1, 0xCD, 0xBE] (1/10)
     ((tap_init True)\<lparr>tap_clients := [(1, 5)], tap_pending := [(1, (1, 0, 20, 0))]\<rparr>)))"
proof -
  have "frame_crc_ok [1, 1, 3, 0xFF, 0, 1, 0xCD, 0xBE]" by (simp add: frame_crc_ok_def crc_eval)
  then show ?thesis using three_byte_coil_answer_read_as_request [of "[1, 1, 3, 0xFF, 0, 1, 0xCD, 0xBE]"] by simp
qed

section \<open>The port is open while somebody listens\<close>

inductive tap_reachable :: "bool \<Rightarrow> tap_reader \<Rightarrow> bool" for net where
  start: "tap_reachable net (tap_init net)"
| register: "tap_reachable net s \<Longrightarrow> tap_reachable net (snd (tap_register opens u c s))"
| unregister: "tap_reachable net s \<Longrightarrow> tap_reachable net (tap_unregister u s)"
| observe: "tap_reachable net s \<Longrightarrow> tap_reachable net (snd (tap_observe opens u c s))"
| unobserve: "tap_reachable net s \<Longrightarrow> tap_reachable net (tap_unobserve u c s)"
| frame: "tap_reachable net s \<Longrightarrow> tap_reachable net (snd (tap_on_frame f now s))"

definition attached :: "tap_reader \<Rightarrow> bool" where
  "attached s = (tap_clients s \<noteq> [] \<or> tap_observers s \<noteq> [])"

definition no_empty :: "(int, nat list) dict \<Rightarrow> bool" where
  "no_empty d = ([] \<notin> snd ` set d)"

lemma no_empty_small [simp]: "no_empty []" "no_empty [(u, l)] \<longleftrightarrow> l \<noteq> []"
  by (auto simp: no_empty_def)

definition tap_inv :: "tap_reader \<Rightarrow> bool" where
  "tap_inv s = ((tap_running s \<longleftrightarrow> attached s) \<and> (tap_port_open s \<longrightarrow> tap_running s)
     \<and> no_empty (tap_observers s))"

lemma update_nonempty [simp]: "dict_set k v d \<noteq> []"
  by (cases d) auto

definition attachment :: "tap_reader \<Rightarrow> (int, nat) dict \<times> (int, nat list) dict \<times> bool \<times> bool" where
  "attachment s = (tap_clients s, tap_observers s, tap_running s, tap_port_open s)"

lemma attachment_note [simp]: "attachment (snd (tap_note u fc k s)) = attachment s"
  by (simp add: attachment_def)

lemma attachment_learn [simp]: "attachment (tap_learn k a s) = attachment s"
  by (simp add: attachment_def tap_learn_def)

lemma attachment_update [simp]:
  "attachment (s\<lparr>tap_pending := p\<rparr>) = attachment s" "attachment (s\<lparr>tap_inferred := n\<rparr>) = attachment s"
  "attachment (s\<lparr>tap_orphans := n\<rparr>) = attachment s" "attachment (s\<lparr>tap_exceptions := n\<rparr>) = attachment s"
  "attachment (s\<lparr>tap_frames := n, tap_last_frame := q\<rparr>) = attachment s"
  "attachment (s\<lparr>tap_crc_errors := n\<rparr>) = attachment s" "attachment (s\<lparr>tap_writes_seen := n\<rparr>) = attachment s"
  "attachment (s\<lparr>tap_last_w := w, tap_last_w_t := t\<rparr>) = attachment s"
  by (simp_all add: attachment_def)

lemma attachment_bits: "attachment (snd (tap_bits_frame u fc frame now s)) = attachment s"
  by (simp add: tap_bits_frame_def tap_request_def tap_orphan_def Let_def case_prod_beta split: option.split)

lemma attachment_words: "attachment (snd (tap_words_frame u fc frame now s)) = attachment s"
  by (simp add: tap_words_frame_def tap_request_def tap_orphan_def Let_def case_prod_beta split: option.split)

lemma attachment_writes:
  "attachment (snd (tap_write_frame u fc frame now s)) = attachment s"
  "attachment (snd (tap_multi_frame u fc frame s)) = attachment s"
  by (simp_all add: tap_write_frame_def tap_multi_frame_def Let_def case_prod_beta)

lemma frame_keeps_attachment: "attachment (snd (tap_on_frame f now s)) = attachment s"
  by (simp add: tap_on_frame_def Let_def attachment_bits attachment_words attachment_writes)

lemma values_set: "snd ` set (dict_set k v d) \<subseteq> insert v (snd ` set d)"
  by (induction d) auto

lemma values_del: "snd ` set (dict_del k d) \<subseteq> snd ` set d"
  by (auto simp: AList.delete_eq)

lemma no_empty_set: "no_empty d \<Longrightarrow> l \<noteq> [] \<Longrightarrow> no_empty (dict_set u l d)"
  unfolding no_empty_def using values_set [of u l d] by blast

lemma no_empty_del: "no_empty d \<Longrightarrow> no_empty (dict_del u d)"
  unfolding no_empty_def using values_del [of u d] by blast

lemma tap_inv_reachable: "tap_reachable net s \<Longrightarrow> tap_inv s"
proof (induction rule: tap_reachable.induct)
  case start
  show ?case by (simp add: tap_inv_def attached_def tap_init_def no_empty_def)
next
  case (register s opens u c)
  then show ?case by (simp add: tap_inv_def attached_def tap_register_def tap_start_def Let_def)
next
  case (unregister s u)
  then show ?case by (simp add: tap_inv_def attached_def tap_unregister_def tap_stop_def Let_def)
next
  case (observe s opens u c)
  then show ?case by (simp add: tap_inv_def attached_def tap_observe_def tap_start_def Let_def no_empty_set)
next
  case (unobserve s u c)
  then show ?case
    by (simp add: tap_inv_def attached_def tap_unobserve_def tap_stop_def Let_def no_empty_set no_empty_del)
      (auto simp: observers_of_def)
next
  case (frame s f now)
  then show ?case
    using frame_keeps_attachment [of f now s] by (auto simp: tap_inv_def attached_def attachment_def)
qed

text \<open>
  The reader runs exactly while somebody is attached. However devices and
  observers come and go and whatever the bus carries, the port's thread runs if and only if
  a device or an observer is registered, and the port is open only then.
\<close>

theorem runs_while_attached:
  assumes "tap_reachable net s"
  shows "(tap_running s \<longleftrightarrow> tap_clients s \<noteq> [] \<or> tap_observers s \<noteq> []) \<and> (tap_port_open s \<longrightarrow> tap_running s)"
  using tap_inv_reachable [OF assms] unfolding tap_inv_def attached_def by blast

theorem runs_while_attached_witness:
  "\<not> tap_port_open (tap_unobserve 3 9 (snd (tap_observe True 3 9 (tap_init False))))"
proof -
  have "tap_reachable False (tap_unobserve 3 9 (snd (tap_observe True 3 9 (tap_init False))))"
    by (intro tap_reachable.intros)
  then show ?thesis
    using runs_while_attached by (fastforce simp: tap_unobserve_def tap_observe_def tap_start_def tap_stop_def tap_init_def observers_of_def)
qed

end
