(* ===== verification/TapClient.thy ===== *)
theory TapClient
  imports RtuTap
begin

text \<open>
  The client of one observed unit (\<open>RtuTapClient\<close> of \<open>multibus/rtu_tap.py\<close>): the windows
  and bits the reader of \<open>RtuTap\<close> hands it are cut into its rows, parsed and corrected by
  the pipeline of \<open>ValueDecode\<close> and published under their live-store keys.
\<close>

section \<open>The observed unit's client\<close>

record map_row = row +
  reg_address :: int
  reg_type :: string
  reg_name :: string
  reg_mask :: "int option"

definition table_of :: "map_row \<Rightarrow> string" where
  "table_of r = normalize_register_type (reg_type r)"

definition row_key :: "map_row \<Rightarrow> int" where
  "row_key r = store_key (reg_address r) (reg_type r)"

definition row_of :: "map_row \<Rightarrow> row" where
  "row_of r = row.truncate r"

record tap_client =
  cl_registers :: "map_row list"
  cl_order :: "bool \<times> bool"
  cl_callback :: bool
  cl_windows :: nat
  cl_mismatch :: "(string \<times> string \<times> int) option"
  cl_updates :: nat
  cl_last_rx :: "rat option"
  cl_siblings :: "(string, pyval) dict"
  cl_filters :: "(int, mono_filter) dict"

type_synonym store_update = "(int, pyval) dict"

text \<open>
  \<open>_ingest_window\<close> imports \<open>CounterFilter\<close> from \<open>counter_filter.py\<close> the first time a
  monotonic row needs a filter; that module defines no such name, and the import raises.
\<close>

datatype ingest_error = ImportFails | DecodeRaises decode_exn

definition reg_hit :: "int \<Rightarrow> int \<Rightarrow> map_row \<Rightarrow> bool" where
  "reg_hit addr end' r = (addr \<le> reg_address r \<and> reg_address r < end')"

definition type_or_uint16 :: "map_row \<Rightarrow> string" where
  "type_or_uint16 r = (if data_type r = [] then ''uint16'' else data_type r)"

definition in_window :: "int \<Rightarrow> u16 list \<Rightarrow> map_row \<Rightarrow> u16 list option" where
  "in_window addr words r =
     (let n = get_register_count (type_or_uint16 r)
      in if addr \<le> reg_address r \<and> reg_address r + int n \<le> addr + int (length words)
         then Some (py_slice (nat (reg_address r - addr)) (nat (reg_address r - addr) + n) words)
         else None)"

definition learn_sibling :: "int \<Rightarrow> u16 list \<Rightarrow> map_row \<Rightarrow> (string, pyval) dict \<Rightarrow> (string, pyval) dict" where
  "learn_sibling addr words r sib =
     (case in_window addr words r of
        Some [w] \<Rightarrow> if get_register_count (type_or_uint16 r) = 1 then dict_set (reg_name r) (VInt (uint w)) sib else sib
      | _ \<Rightarrow> sib)"

definition ingest_row :: "map_row \<Rightarrow> u16 list \<Rightarrow> tap_client \<Rightarrow> (ingest_error + pyval option) \<times> tap_client" where
  "ingest_row r raw c =
     (case parse_value (cl_order c) raw (type_or_uint16 r) (nan r) of
        None \<Rightarrow> (Inr None, c)
      | Some v \<Rightarrow>
          (let cf = (if monotonic r then dict_get (cl_filters c) (row_key r) else None)
           in if monotonic r \<and> cf = None then (Inl ImportFails, c)
              else case apply_corrections v (row_of r) (cl_siblings c) (cf, None) of
                     Inl e \<Rightarrow> (Inl (DecodeRaises e), c)
                   | Inr (o', _, cf', _) \<Rightarrow>
                       (Inr o', case cf' of Some f \<Rightarrow> c\<lparr>cl_filters := dict_set (row_key r) f (cl_filters c)\<rparr> | None \<Rightarrow> c)))"

fun ingest_rows :: "(map_row \<times> u16 list) list \<Rightarrow> store_update \<Rightarrow> tap_client \<Rightarrow> (ingest_error + store_update) \<times> tap_client" where
  "ingest_rows [] data c = (Inr data, c)"
| "ingest_rows ((r, raw) # rest) data c =
     (case ingest_row r raw c of
        (Inl e, c') \<Rightarrow> (Inl e, c')
      | (Inr None, c') \<Rightarrow> ingest_rows rest data c'
      | (Inr (Some v), c') \<Rightarrow> ingest_rows rest (dict_set (row_key r) v data) c')"

text \<open>What is published (None: nothing), and the client after it; an exception ends in the reader's log.\<close>

definition publish :: "(ingest_error + store_update) \<times> tap_client \<Rightarrow> store_update option \<times> tap_client" where
  "publish res =
     (case res of
        (Inl e, c) \<Rightarrow> (None, c)
      | (Inr data, c) \<Rightarrow>
          if data \<noteq> [] \<and> cl_callback c then (Some data, c\<lparr>cl_updates := cl_updates c + length data\<rparr>)
          else (None, c))"

definition window_rows :: "int \<Rightarrow> u16 list \<Rightarrow> string \<Rightarrow> map_row list \<Rightarrow> (map_row \<times> u16 list) list" where
  "window_rows addr words table rows =
     concat (map (\<lambda>r. case in_window addr words r of Some raw \<Rightarrow> [(r, raw)] | None \<Rightarrow> [])
       (filter (\<lambda>r. table_of r = table) rows))"

definition note_mismatch :: "int \<Rightarrow> u16 list \<Rightarrow> string \<Rightarrow> tap_client \<Rightarrow> (string \<times> string \<times> int) option" where
  "note_mismatch addr words table c =
     (let end' = addr + int (length words);
          regs = filter (\<lambda>r. table_of r = table) (cl_registers c);
          other = filter (\<lambda>r. table_of r \<in> {''holding'', ''input''} \<and> table_of r \<noteq> table) (cl_registers c)
      in if \<not> list_ex (reg_hit addr end') regs
         then (case find (reg_hit addr end') other of
                 Some r \<Rightarrow> Some (table, table_of r, addr) | None \<Rightarrow> cl_mismatch c)
         else cl_mismatch c)"

definition ingest_window :: "int \<Rightarrow> u16 list \<Rightarrow> rat \<Rightarrow> string \<Rightarrow> tap_client \<Rightarrow> store_update option \<times> tap_client" where
  "ingest_window addr words now table c =
     (let c1 = c\<lparr>cl_windows := cl_windows c + 1, cl_last_rx := Some now, cl_mismatch := note_mismatch addr words table c\<rparr>;
          c2 = c1\<lparr>cl_siblings := fold (learn_sibling addr words)
                   (filter (\<lambda>r. table_of r = table) (cl_registers c1)) (cl_siblings c1)\<rparr>
      in publish (ingest_rows (window_rows addr words table (cl_registers c)) [] c2))"

text \<open>Coils and discretes, in bit addresses: one bit, or sixteen packed low bit first.\<close>

definition coil_width :: "map_row \<Rightarrow> int" where
  "coil_width r = (if reg_mask r = Some 1 then 1 else if py_lower (data_type r) = ''uint16'' then 16 else 1)"

definition coil_raw :: "int \<Rightarrow> int list \<Rightarrow> map_row \<Rightarrow> int" where
  "coil_raw addr bits r =
     (let off = nat (reg_address r - addr);
          take' = nat (min (coil_width r) (addr + int (length bits) - reg_address r))
      in (\<Sum>i \<leftarrow> [0 ..< take']. push_bit i (bits ! (off + i))))"

fun ingest_coil_rows :: "int \<Rightarrow> int list \<Rightarrow> map_row list \<Rightarrow> store_update \<Rightarrow> tap_client \<Rightarrow> (ingest_error + store_update) \<times> tap_client" where
  "ingest_coil_rows addr bits [] data c = (Inr data, c)"
| "ingest_coil_rows addr bits (r # rest) data c =
     (if \<not> reg_hit addr (addr + int (length bits)) r then ingest_coil_rows addr bits rest data c
      else case apply_corrections (VInt (coil_raw addr bits r)) (row_of r) (cl_siblings c) (None, None) of
             Inl e \<Rightarrow> (Inl (DecodeRaises e), c)
           | Inr (None, _) \<Rightarrow> ingest_coil_rows addr bits rest data c
           | Inr (Some v, _) \<Rightarrow> ingest_coil_rows addr bits rest (dict_set (row_key r) v data) c)"

definition ingest_coils :: "int \<Rightarrow> int list \<Rightarrow> rat \<Rightarrow> string \<Rightarrow> tap_client \<Rightarrow> store_update option \<times> tap_client" where
  "ingest_coils addr bits now table c =
     publish (ingest_coil_rows addr bits (filter (\<lambda>r. table_of r = table) (cl_registers c)) []
       (c\<lparr>cl_windows := cl_windows c + 1, cl_last_rx := Some now\<rparr>))"

text \<open>\<open>data_health\<close>, with the port's error and the client's registration.\<close>

datatype health = Down string | Stale | Fine

definition tap_data_health :: "string \<Rightarrow> bool \<Rightarrow> rat option \<Rightarrow> rat \<Rightarrow> rat \<Rightarrow> tap_client \<Rightarrow> health" where
  "tap_data_health open_error port_up stale_after threshold now c =
     (if open_error \<noteq> [] \<or> \<not> port_up then Down (if open_error \<noteq> [] then open_error else ''not attached'')
      else (let bound = (case stale_after of Some b \<Rightarrow> if b \<noteq> 0 then b else threshold | None \<Rightarrow> threshold)
            in case cl_last_rx c of
                 None \<Rightarrow> Stale
               | Some t \<Rightarrow> if max 1 bound < now - t then Stale else Fine))"

section \<open>What a window publishes\<close>

lemma ingest_row_siblings: "cl_siblings (snd (ingest_row r raw c)) = cl_siblings c
   \<and> cl_order (snd (ingest_row r raw c)) = cl_order c"
  by (auto simp: ingest_row_def Let_def split: option.splits sum.splits)

lemma ingest_rows_keys:
  "ingest_rows rows data c = (Inr data', c') \<Longrightarrow>
     fst ` set data' \<subseteq> fst ` set data \<union> row_key ` fst ` set rows"
proof (induction rows arbitrary: data c)
  case (Cons p rest)
  obtain r raw where p: "p = (r, raw)" by (cases p)
  obtain o1 c1 where row: "ingest_row r raw c = (Inr o1, c1)"
    using Cons.prems p by (cases "ingest_row r raw c") (auto split: sum.splits)
  show ?case
  proof (cases o1)
    case None
    then show ?thesis using Cons.IH [of data c1] Cons.prems p row by auto
  next
    case (Some v)
    then have "ingest_rows rest (dict_set (row_key r) v data) c1 = (Inr data', c')"
      using Cons.prems p row by simp
    from Cons.IH [OF this] show ?thesis by (auto simp: p dict_keys_set)
  qed
qed simp

text \<open>
  A window publishes only what it holds. Every key published belongs to a row of
  the table the function code reads whose registers lie wholly inside the window.
\<close>

theorem window_publishes_inside:
  assumes "ingest_window addr words now table c = (Some data, c')" "key \<in> fst ` set data"
  shows "\<exists>r \<in> set (cl_registers c). row_key r = key \<and> table_of r = table \<and> addr \<le> reg_address r \<and>
    reg_address r + int (get_register_count (type_or_uint16 r)) \<le> addr + int (length words)"
proof -
  let ?rows = "window_rows addr words table (cl_registers c)"
  have "key \<in> row_key ` fst ` set ?rows"
    using assms by (auto simp: ingest_window_def publish_def Let_def dest!: ingest_rows_keys split: prod.splits sum.splits if_splits)
  then show ?thesis
    by (force simp: window_rows_def in_window_def Let_def split: if_splits)
qed

definition soc_map_row :: map_row where
  "soc_map_row = row.extend (plain_row ''uint16'')
     \<lparr>reg_address = 0x2001, reg_type = ''input'', reg_name = ''soc'', reg_mask = None\<rparr>"

definition soc_client :: tap_client where
  "soc_client = \<lparr>cl_registers = [soc_map_row], cl_order = (False, False), cl_callback = True, cl_windows = 0,
     cl_mismatch = None, cl_updates = 0, cl_last_rx = None, cl_siblings = [], cl_filters = []\<rparr>"

lemma soc_window_ingested:
  "fst (ingest_window 0x2000 [0, 875] 5 ''input'' soc_client) = Some [(108193, VInt 875)]"
  by code_simp

theorem window_publishes_inside_witness:
  "\<exists>r \<in> set (cl_registers soc_client). row_key r = 108193 \<and> table_of r = ''input''"
proof -
  obtain c' where "ingest_window 0x2000 [0, 875] 5 ''input'' soc_client = (Some [(108193, VInt 875)], c')"
    using soc_window_ingested by (metis prod.collapse)
  from window_publishes_inside [OF this, of 108193] show ?thesis by auto
qed

text \<open>Rows of the window, in order, up to the first monotonic one that decodes.\<close>

lemma ingest_rows_stop:
  assumes "(r, raw) \<in> set rows" "monotonic r" "dict_get (cl_filters c) (row_key r) = None"
    and "parse_value (cl_order c) raw (type_or_uint16 r) (nan r) \<noteq> None"
    and "cl_filters c = []"
  shows "\<exists>e c'. ingest_rows rows data c = (Inl e, c')"
  using assms
proof (induction rows arbitrary: data c)
  case (Cons p rest)
  obtain q qraw where p: "p = (q, qraw)" by (cases p)
  obtain res c1 where row: "ingest_row q qraw c = (res, c1)" by (cases "ingest_row q qraw c")
  show ?case
  proof (cases res)
    case (Inl e)
    then show ?thesis using p row by simp
  next
    case (Inr o1)
    have nf: "cl_filters c1 = []" and od: "cl_order c1 = cl_order c"
      using row Inr Cons.prems(5)
      by (auto simp: ingest_row_def Let_def apply_corrections_def run_filters_def case_prod_beta
          split: option.splits sum.splits if_splits)
    have "(r, raw) \<noteq> p"
    proof
      assume "(r, raw) = p"
      then have "ingest_row q qraw c = (Inl ImportFails, c)"
        using p Cons.prems by (auto simp: ingest_row_def split: option.splits)
      then show False using row Inr by simp
    qed
    then have "(r, raw) \<in> set rest" using Cons.prems(1) by auto
    then have "\<exists>e c'. ingest_rows rest d c1 = (Inl e, c')" for d
      using Cons.IH [of c1 d] Cons.prems nf od by auto
    then show ?thesis using p row Inr by (cases o1) auto
  qed
qed simp

text \<open>
  A monotonic row on a listened bus takes its whole window down. The code asks
  \<open>counter_filter.py\<close> for a name that module does not define, so as soon as a window holds
  a monotonic row with a value, ingesting raises and none of the window's rows is published.
\<close>

theorem monotonic_row_loses_window:
  assumes "cl_filters c = []" "(r, raw) \<in> set (window_rows addr words table (cl_registers c))" "monotonic r"
    and "parse_value (cl_order c) raw (type_or_uint16 r) (nan r) \<noteq> None"
  shows "fst (ingest_window addr words now table c) = None"
proof -
  let ?c = "c\<lparr>cl_windows := cl_windows c + 1, cl_last_rx := Some now, cl_mismatch := note_mismatch addr words table c,
      cl_siblings := fold (learn_sibling addr words) (filter (\<lambda>r. table_of r = table) (cl_registers c)) (cl_siblings c)\<rparr>"
  have "\<exists>e c'. ingest_rows (window_rows addr words table (cl_registers c)) [] ?c = (Inl e, c')"
    by (rule ingest_rows_stop [OF assms(2,3)]) (use assms in simp_all)
  then show ?thesis by (auto simp: ingest_window_def publish_def Let_def)
qed

theorem monotonic_row_loses_window_witness:
  "fst (ingest_window 0x2000 [0, 875] 5 ''input'' (soc_client\<lparr>cl_registers := [soc_map_row\<lparr>monotonic := True\<rparr>]\<rparr>)) = None"
proof (rule monotonic_row_loses_window)
  let ?r = "soc_map_row\<lparr>monotonic := True\<rparr>"
  show "(?r, [875]) \<in> set (window_rows 0x2000 [0, 875] ''input'' (cl_registers (soc_client\<lparr>cl_registers := [?r]\<rparr>)))"
    by code_simp
  show "parse_value (cl_order (soc_client\<lparr>cl_registers := [?r]\<rparr>)) [875] (type_or_uint16 ?r) (nan ?r) \<noteq> None"
    by code_simp
qed (simp_all add: soc_client_def)

end
