(* ===== verification/SeplosFrames.thy ===== *)
theory SeplosFrames
  imports ByteStream
begin

text \<open>
  Frames of the Seplos V2 battery protocol (\<open>multibus/seplos_v2.py\<close>): the checksums, the
  read-only encoder, \<open>parse\<close> and the stream splitter \<open>Framer\<close>. A frame is ASCII on the wire:
  \<open>~\<close>, upper-case hexadecimal, carriage return.
\<close>

section \<open>Hexadecimal bytes\<close>

definition hex_char :: "nat \<Rightarrow> u8" where
  "hex_char n = of_nat (if n < 10 then 48 + n else 55 + n)"

definition unhex :: "u8 \<Rightarrow> nat option" where
  "unhex c = (let n = unat c
     in if 48 \<le> n \<and> n \<le> 57 then Some (n - 48)
        else if 65 \<le> n \<and> n \<le> 70 then Some (n - 55)
        else if 97 \<le> n \<and> n \<le> 102 then Some (n - 87) else None)"

definition hex2 :: "nat \<Rightarrow> u8 list" where
  "hex2 n = [hex_char (n div 16 mod 16), hex_char (n mod 16)]"

definition hex4 :: "nat \<Rightarrow> u8 list" where
  "hex4 n = hex2 (n div 256) @ hex2 (n mod 256)"

definition to_hex :: "u8 list \<Rightarrow> u8 list" where
  "to_hex b = concat (map (\<lambda>x. hex2 (unat x)) b)"

definition hex_value :: "u8 list \<Rightarrow> nat" where
  "hex_value cs = foldl (\<lambda>a c. 16 * a + the (unhex c)) 0 cs"

fun from_hex :: "u8 list \<Rightarrow> u8 list" where
  "from_hex (a # b # cs) = of_nat (16 * the (unhex a) + the (unhex b)) # from_hex cs"
| "from_hex _ = []"

section \<open>Checksums and the encoder\<close>

definition SOI :: u8 where "SOI = 0x7E"
definition EOI :: u8 where "EOI = 0x0D"
definition VER :: nat where "VER = 0x20"
definition CID1_BATTERY :: nat where "CID1_BATTERY = 0x46"
definition CMD_TELEMETRY :: nat where "CMD_TELEMETRY = 0x42"
definition CMD_ALARMS :: nat where "CMD_ALARMS = 0x44"
definition CMD_SYSTEM_PARAMS :: nat where "CMD_SYSTEM_PARAMS = 0x47"
definition CMD_MANUFACTURER :: nat where "CMD_MANUFACTURER = 0x51"
definition CMD_PARALLEL_SUMMARY :: nat where "CMD_PARALLEL_SUMMARY = 0x5A"
definition MAX_LENID :: nat where "MAX_LENID = 0x0FFF"

definition MAX_FRAME :: nat where "MAX_FRAME = 1 + 12 + MAX_LENID + 4 + 1"

definition READ_COMMANDS :: "nat list" where
  "READ_COMMANDS = [CMD_TELEMETRY, CMD_ALARMS, CMD_SYSTEM_PARAMS, CMD_MANUFACTURER]"

datatype encode_refusal = CommandNotAllowed | AddressRange | LengthRange

definition lchksum :: "nat \<Rightarrow> nat option" where
  "lchksum lenid =
     (if MAX_LENID < lenid then None
      else (let s = lenid mod 16 + lenid div 16 mod 16 + lenid div 256 mod 16
            in Some (nat ((- int s) mod 16))))"

definition length_field :: "nat \<Rightarrow> nat option" where
  "length_field lenid = map_option (\<lambda>c. 4096 * c + lenid) (lchksum lenid)"

definition chksum :: "u8 list \<Rightarrow> nat" where
  "chksum body = nat ((- int (sum_list (map unat body))) mod 65536)"

definition seplos_encode :: "int \<Rightarrow> nat \<Rightarrow> u8 list \<Rightarrow> encode_refusal + u8 list" where
  "seplos_encode adr cid2 info =
     (if cid2 \<notin> set READ_COMMANDS then Inl CommandNotAllowed
      else if adr < 0 \<or> 0xFF < adr then Inl AddressRange
      else (let info_hex = to_hex info
            in case length_field (length info_hex) of
                 None \<Rightarrow> Inl LengthRange
               | Some l \<Rightarrow>
                   (let body = concat (map hex2 [VER, nat adr, CID1_BATTERY, cid2]) @ hex4 l @ info_hex
                    in Inr ([SOI] @ body @ hex4 (chksum body) @ [EOI]))))"

definition seplos_request :: "int \<Rightarrow> nat \<Rightarrow> encode_refusal + u8 list" where
  "seplos_request adr cid2 =
     seplos_encode adr cid2 (if cid2 = CMD_MANUFACTURER then [] else [word_of_int adr])"

section \<open>Parsing a frame\<close>

datatype frame_error = FormatError | LengthError | LengthChecksumError | ChecksumError

record seplos_frame =
  fr_ver :: nat
  fr_adr :: nat
  fr_cid1 :: nat
  fr_cid2 :: nat
  fr_info :: "u8 list"
  fr_raw :: "u8 list"

definition is_request :: "seplos_frame \<Rightarrow> bool" where
  "is_request f = (0x40 \<le> fr_cid2 f \<and> fr_cid2 f \<le> 0x7F)"

definition body_of :: "u8 list \<Rightarrow> u8 list" where
  "body_of raw = tl (butlast raw)"

definition seplos_parse :: "u8 list \<Rightarrow> frame_error + seplos_frame" where
  "seplos_parse raw =
     (if length raw < 18 \<or> hd raw \<noteq> SOI \<or> last raw \<noteq> EOI then Inl FormatError
      else
        (let body = body_of raw
         in if \<not> list_all (\<lambda>c. unhex c \<noteq> None) body then Inl FormatError
            else
              (let hd6 = from_hex (take 12 body);
                   len = 256 * unat (hd6 ! 4) + unat (hd6 ! 5);
                   lenid = len mod 4096;
                   n = length body - 4
               in if length body \<noteq> 12 + lenid + 4 then Inl LengthError
                  else if Some (len div 4096) \<noteq> lchksum lenid then Inl LengthChecksumError
                  else if odd lenid then Inl LengthError
                  else if chksum (take n body) \<noteq> hex_value (drop n body) then Inl ChecksumError
                  else Inr \<lparr> fr_ver = unat (hd6 ! 0), fr_adr = unat (hd6 ! 1), fr_cid1 = unat (hd6 ! 2),
                             fr_cid2 = unat (hd6 ! 3), fr_info = from_hex (py_slice 12 (12 + lenid) body),
                             fr_raw = raw \<rparr>)))"

section \<open>The stream splitter\<close>

text \<open>\<open>b.find(x, start)\<close>.\<close>

definition find_byte :: "u8 \<Rightarrow> nat \<Rightarrow> u8 list \<Rightarrow> nat option" where
  "find_byte x start b =
     (let n = start + length (takeWhile (\<lambda>c. c \<noteq> x) (drop start b))
      in if n < length b then Some n else None)"

lemma find_byte_Some: "find_byte x start b = Some n \<Longrightarrow> start \<le> n \<and> n < length b \<and> b ! n = x"
proof -
  assume a: "find_byte x start b = Some n"
  then have n: "n = start + length (takeWhile (\<lambda>c. c \<noteq> x) (drop start b))" "n < length b"
    by (auto simp: find_byte_def Let_def split: if_splits)
  then have "length (takeWhile (\<lambda>c. c \<noteq> x) (drop start b)) < length (drop start b)" by simp
  from nth_length_takeWhile [OF this] show ?thesis using n by simp
qed

function seplos_extract :: "nat \<Rightarrow> u8 list \<Rightarrow> u8 split" where
  "seplos_extract max_frame b =
     (if b = [] then ([], b, 0)
      else case find_byte SOI 0 b of
             None \<Rightarrow> ([], [], length b)
           | Some (Suc s) \<Rightarrow> skipped (Suc s) (seplos_extract max_frame (drop (Suc s) b))
           | Some 0 \<Rightarrow>
               (case (find_byte EOI 1 b, find_byte SOI 1 b) of
                  (None, None) \<Rightarrow>
                    if max_frame < length b then skipped 1 (seplos_extract max_frame (drop 1 b)) else ([], b, 0)
                | (None, Some n) \<Rightarrow> skipped n (seplos_extract max_frame (drop n b))
                | (Some e, None) \<Rightarrow> took (take (e + 1) b) (seplos_extract max_frame (drop (e + 1) b))
                | (Some e, Some n) \<Rightarrow>
                    if n < e then skipped n (seplos_extract max_frame (drop n b))
                    else took (take (e + 1) b) (seplos_extract max_frame (drop (e + 1) b))))"
  by pat_completeness auto
termination
  by (relation "measure (\<lambda>(_, b). length b)") (auto dest!: find_byte_Some find_byte_Some [OF sym])

declare seplos_extract.simps [simp del]

record seplos_framer =
  sf_buf :: "u8 list"
  sf_max :: nat
  sf_dropped :: nat

definition seplos_feed :: "u8 list \<Rightarrow> seplos_framer \<Rightarrow> u8 list list \<times> seplos_framer" where
  "seplos_feed data f =
     (let (fs, rest, d) = seplos_extract (sf_max f) (sf_buf f @ data)
      in (fs, f\<lparr>sf_buf := rest, sf_dropped := sf_dropped f + d\<rparr>))"

section \<open>Hexadecimal round trips\<close>

lemma unhex_char [simp]: "n < 16 \<Longrightarrow> unhex (hex_char n) = Some n"
proof -
  assume "n < 16"
  then have "n \<in> {0, 1, 2, 3, 4, 5, 6, 7, 8, 9, 10, 11, 12, 13, 14, 15}" by (auto simp: numeral_eq_Suc less_Suc_eq)
  then show ?thesis by (elim insertE emptyE) (simp_all add: unhex_def hex_char_def)
qed

lemma length_hex [simp]: "length (hex2 n) = 2" "length (hex4 n) = 4" "length (to_hex b) = 2 * length b"
  by (simp_all add: hex2_def hex4_def to_hex_def length_concat o_def sum_list_triv)

lemma hex_all: "list_all (\<lambda>c. unhex c \<noteq> None) (hex2 n)" "list_all (\<lambda>c. unhex c \<noteq> None) (hex4 n)"
    "list_all (\<lambda>c. unhex c \<noteq> None) (to_hex b)"
  by (simp_all add: hex2_def hex4_def to_hex_def list_all_iff)

lemma unat_u8 [simp]: "unat (x :: u8) < 256"
  by (rule order_less_le_trans [OF unsigned_less]) simp

lemma hex_value4 [simp]: "n < 65536 \<Longrightarrow> hex_value (hex4 n) = n"
proof -
  assume "n < 65536"
  define q r where "q = n div 256" and "r = n mod 256"
  have n: "n = 256 * q + r" and r: "r < 256" by (simp_all add: q_def r_def)
  then have q: "q < 256" using \<open>n < 65536\<close> by linarith
  have h: "hex_value (hex2 q @ hex2 r) =
      16 * (16 * (16 * (q div 16 mod 16) + q mod 16) + r div 16 mod 16) + r mod 16"
    by (simp add: hex_value_def hex2_def)
  have "q div 16 mod 16 = q div 16" "r div 16 mod 16 = r div 16"
    using q r by (simp_all add: less_mult_imp_div_less)
  then have "hex_value (hex2 q @ hex2 r) = 256 * (16 * (q div 16) + q mod 16) + (16 * (r div 16) + r mod 16)"
    unfolding h by simp
  then show ?thesis unfolding hex4_def q_def [symmetric] r_def [symmetric] using n by simp
qed

lemma from_hex_hex2 [simp]: "n < 256 \<Longrightarrow> from_hex (hex2 n @ cs) = of_nat n # from_hex cs"
  by (simp add: hex2_def less_mult_imp_div_less)

lemma from_hex_to_hex [simp]: "from_hex (to_hex b) = b"
proof (induction b)
  case (Cons x b)
  then show ?case by (simp add: to_hex_def)
qed (simp add: to_hex_def)

lemma from_hex_hex4 [simp]: "n < 65536 \<Longrightarrow> from_hex (hex4 n @ cs) = of_nat (n div 256) # of_nat (n mod 256) # from_hex cs"
  by (simp add: hex4_def less_mult_imp_div_less)

lemma lchksum_range: "lchksum l = Some c \<Longrightarrow> c < 16 \<and> l \<le> 0xFFF"
  by (auto simp: lchksum_def Let_def MAX_LENID_def nat_less_iff split: if_splits)

lemma chksum_range [simp]: "chksum b < 65536"
  by (simp add: chksum_def nat_less_iff)

lemma lchksum_some: "l \<le> 0xFFF \<Longrightarrow> \<exists>c. lchksum l = Some c \<and> c < 16"
  by (simp add: lchksum_def Let_def MAX_LENID_def nat_less_iff)

text \<open>What \<open>encode\<close> puts on the wire, piece by piece.\<close>

definition wire_body :: "nat \<Rightarrow> nat \<Rightarrow> u8 list \<Rightarrow> u8 list" where
  "wire_body adr cid2 info =
     concat (map hex2 [VER, adr, CID1_BATTERY, cid2])
     @ hex4 (4096 * the (lchksum (2 * length info)) + 2 * length info) @ to_hex info"

lemma seplos_encode_iff:
  "seplos_encode adr cid2 info = Inr raw \<longleftrightarrow>
     cid2 \<in> set READ_COMMANDS \<and> 0 \<le> adr \<and> adr \<le> 255 \<and> 2 * length info \<le> 0xFFF \<and>
     raw = [SOI] @ wire_body (nat adr) cid2 info @ hex4 (chksum (wire_body (nat adr) cid2 info)) @ [EOI]"
proof (cases "2 * length info \<le> 0xFFF")
  case True
  then obtain c where "lchksum (2 * length info) = Some c" using lchksum_some by blast
  then show ?thesis using True
    by (auto simp: seplos_encode_def length_field_def wire_body_def Let_def)
next
  case False
  then have "lchksum (2 * length info) = None" by (simp add: lchksum_def MAX_LENID_def)
  then show ?thesis using False by (auto simp: seplos_encode_def length_field_def Let_def)
qed

lemma wire_body_hex: "list_all (\<lambda>c. unhex c \<noteq> None) (wire_body adr cid2 info)"
  using hex_all by (simp add: wire_body_def)

lemma length_wire_body: "length (wire_body adr cid2 info) = 12 + 2 * length info"
  by (simp add: wire_body_def)

lemma wire_body_head:
  assumes "adr < 256" "cid2 < 256" "2 * length info \<le> 0xFFF"
  defines "l \<equiv> 4096 * the (lchksum (2 * length info)) + 2 * length info"
  shows "from_hex (take 12 (wire_body adr cid2 info)) = map of_nat [VER, adr, CID1_BATTERY, cid2, l div 256, l mod 256]"
    and "drop 12 (wire_body adr cid2 info) = to_hex info"
    and "l < 65536"
proof -
  have w: "wire_body adr cid2 info = (hex2 VER @ hex2 adr @ hex2 CID1_BATTERY @ hex2 cid2 @ hex4 l) @ to_hex info"
    by (simp add: wire_body_def l_def)
  have len: "length (hex2 VER @ hex2 adr @ hex2 CID1_BATTERY @ hex2 cid2 @ hex4 l) = 12" by simp
  obtain c where "lchksum (2 * length info) = Some c" "c < 16" using lchksum_some assms(3) by blast
  then show l: "l < 65536" using assms(3) by (simp add: l_def)
  have "take 12 (wire_body adr cid2 info) = hex2 VER @ hex2 adr @ hex2 CID1_BATTERY @ hex2 cid2 @ hex4 l @ []"
    unfolding w using len by (simp add: append_eq_conv_conj)
  then show "from_hex (take 12 (wire_body adr cid2 info)) = map of_nat [VER, adr, CID1_BATTERY, cid2, l div 256, l mod 256]"
    using assms(1,2) l by (simp add: VER_def CID1_BATTERY_def from_hex_hex4 [of l "[]", simplified])
  show "drop 12 (wire_body adr cid2 info) = to_hex info"
    unfolding w using len by (metis append_eq_conv_conj)
qed

lemma encoded_body [simp]: "body_of ([SOI] @ b @ t @ [EOI]) = b @ t"
  by (simp add: body_of_def butlast_append)

definition wire_frame :: "nat \<Rightarrow> nat \<Rightarrow> u8 list \<Rightarrow> u8 list" where
  "wire_frame adr cid2 info = [SOI] @ wire_body adr cid2 info @ hex4 (chksum (wire_body adr cid2 info)) @ [EOI]"

lemma parse_wire_frame:
  assumes ad: "adr < 256" and cd: "cid2 < 256" and len: "2 * length info \<le> 0xFFF"
  shows "seplos_parse (wire_frame adr cid2 info) =
    Inr \<lparr>fr_ver = 0x20, fr_adr = adr, fr_cid1 = 0x46, fr_cid2 = cid2, fr_info = info, fr_raw = wire_frame adr cid2 info\<rparr>"
proof -
  define raw where "raw = wire_frame adr cid2 info"
  define b where "b = wire_body adr cid2 info"
  define l where "l = 4096 * the (lchksum (2 * length info)) + 2 * length info"
  note hd = wire_body_head [OF ad cd len, folded l_def b_def]
  obtain ck where ck: "lchksum (2 * length info) = Some ck" "ck < 16" using lchksum_some len by blast
  have lb: "length b = 12 + 2 * length info" by (simp add: b_def length_wire_body)
  have ld: "l mod 4096 = 2 * length info" "l div 4096 = ck" "l div 256 < 256"
    using len ck hd(3) by (simp_all add: l_def)
  have bt: "take 12 (b @ hex4 (chksum b)) = take 12 b" using lb by simp
  have bd: "drop (length b) (b @ hex4 (chksum b)) = hex4 (chksum b)" "take (length b) (b @ hex4 (chksum b)) = b" by simp_all
  have sl: "py_slice 12 (length b) (b @ hex4 (chksum b)) = to_hex info"
    using hd(2) by (simp add: py_slice_def)
  have hx: "list_all (\<lambda>c. unhex c \<noteq> None) (b @ hex4 (chksum b))"
    using wire_body_hex hex_all by (simp add: b_def)
  have l2: "256 * unat (of_nat (l div 256) :: u8) + unat (of_nat (l mod 256) :: u8) = l"
    using ld(3) by (simp add: unat_of_nat)
  have body: "body_of raw = b @ hex4 (chksum b)" by (simp add: raw_def wire_frame_def b_def [symmetric] body_of_def butlast_append)
  have fr: "\<not> (length raw < 18 \<or> hd raw \<noteq> SOI \<or> last raw \<noteq> EOI)"
    using lb by (simp add: raw_def wire_frame_def b_def [symmetric])
  have n: "length (b @ hex4 (chksum b)) - 4 = length b" by simp
  show ?thesis
    unfolding raw_def [symmetric] seplos_parse_def Let_def if_not_P [OF fr] body n bt hd(1) bd
    using hx ld ck lb sl l2 ad cd
    by (simp add: unat_of_nat VER_def CID1_BATTERY_def)
qed

text \<open>
  C26 (roundtrip): What the gateway sends is what a battery reads. A frame \<open>encode\<close> builds
  parses back to the very address, command and data, for every address and every data
  length the protocol can carry.
\<close>

theorem parse_inverts_encode:
  assumes "seplos_encode adr cid2 info = Inr raw"
  shows "seplos_parse raw = Inr \<lparr>fr_ver = 0x20, fr_adr = nat adr, fr_cid1 = 0x46, fr_cid2 = cid2, fr_info = info, fr_raw = raw\<rparr>"
proof -
  from assms have raw: "raw = wire_frame (nat adr) cid2 info" and len: "2 * length info \<le> 0xFFF"
    and a: "nat adr < 256" and c: "cid2 < 256"
    by (auto simp: seplos_encode_iff wire_frame_def READ_COMMANDS_def CMD_TELEMETRY_def CMD_ALARMS_def
        CMD_SYSTEM_PARAMS_def CMD_MANUFACTURER_def)
  show ?thesis using parse_wire_frame [OF a c len] unfolding raw .
qed

theorem parse_inverts_encode_witness:
  "\<exists>raw. seplos_encode 3 0x42 [3] = Inr raw \<and>
     seplos_parse raw = Inr \<lparr>fr_ver = 0x20, fr_adr = 3, fr_cid1 = 0x46, fr_cid2 = 0x42, fr_info = [3], fr_raw = raw\<rparr>"
proof -
  have "seplos_encode 3 0x42 [3] = Inr ([SOI] @ wire_body 3 0x42 [3] @ hex4 (chksum (wire_body 3 0x42 [3])) @ [EOI])"
    by (simp add: seplos_encode_iff READ_COMMANDS_def CMD_TELEMETRY_def)
  from parse_inverts_encode [OF this] this show ?thesis by simp
qed

text \<open>
  The gateway can only ask. \<open>encode\<close> yields a frame exactly for the four read
  commands, a one-byte address and data that fits the length field; every control or
  parameter-setting command is refused.
\<close>

theorem only_reads_encoded:
  "(\<exists>raw. seplos_encode adr cid2 info = Inr raw) \<longleftrightarrow>
     cid2 \<in> {0x42, 0x44, 0x47, 0x51} \<and> 0 \<le> adr \<and> adr \<le> 255 \<and> length info \<le> 2047"
  by (auto simp: seplos_encode_iff READ_COMMANDS_def CMD_TELEMETRY_def CMD_ALARMS_def CMD_SYSTEM_PARAMS_def CMD_MANUFACTURER_def)

section \<open>The splitter's contract\<close>

definition seplos_decide :: "nat \<Rightarrow> u8 list \<Rightarrow> cut" where
  "seplos_decide max_frame b =
     (if b = [] then Wait
      else case find_byte SOI 0 b of
             None \<Rightarrow> Skip (length b)
           | Some (Suc s) \<Rightarrow> Skip (Suc s)
           | Some 0 \<Rightarrow>
               (case (find_byte EOI 1 b, find_byte SOI 1 b) of
                  (None, None) \<Rightarrow> if max_frame < length b then Skip 1 else Wait
                | (None, Some n) \<Rightarrow> Skip n
                | (Some e, None) \<Rightarrow> Take (e + 1)
                | (Some e, Some n) \<Rightarrow> if n < e then Skip n else Take (e + 1)))"

definition delimited :: "u8 list \<Rightarrow> bool" where
  "delimited f = (2 \<le> length f \<and> hd f = SOI \<and> last f = EOI \<and> SOI \<notin> set (tl f) \<and> EOI \<notin> set (butlast f))"

lemma seplos_extract_decide:
  "seplos_extract m b = (case seplos_decide m b of
       Wait \<Rightarrow> ([], b, 0)
     | Take n \<Rightarrow> took (take n b) (seplos_extract m (drop n b))
     | Skip n \<Rightarrow> skipped n (seplos_extract m (drop n b)))"
proof -
  have e: "seplos_extract m [] = ([], [], 0)" by (simp add: seplos_extract.simps)
  show ?thesis
    by (subst seplos_extract.simps)
      (auto simp: seplos_decide_def e skipped_def split: option.split nat.split)
qed

lemma seplos_decide_progress:
  "seplos_decide m b = Take n \<or> seplos_decide m b = Skip n \<Longrightarrow> 0 < n \<and> n \<le> length b"
  by (auto simp: seplos_decide_def split: if_splits option.splits nat.splits dest!: find_byte_Some)

lemma find_byte_first:
  assumes "find_byte x start b = Some n" "start \<le> k" "k < n"
  shows "b ! k \<noteq> x"
proof -
  let ?t = "takeWhile (\<lambda>c. c \<noteq> x) (drop start b)"
  have n: "n = start + length ?t" "n < length b"
    using assms(1) by (auto simp: find_byte_def Let_def split: if_splits)
  have "?t ! (k - start) = drop start b ! (k - start)"
    by (rule takeWhile_nth) (use n assms in simp)
  moreover have "?t ! (k - start) \<in> set ?t" by (rule nth_mem) (use n assms in simp)
  ultimately show ?thesis using assms n by (auto dest: set_takeWhileD)
qed

lemma find_byte_None: "find_byte x start b = None \<Longrightarrow> start \<le> k \<Longrightarrow> k < length b \<Longrightarrow> b ! k \<noteq> x"
proof
  assume a: "find_byte x start b = None" "start \<le> k" "k < length b" "b ! k = x"
  let ?t = "takeWhile (\<lambda>c. c \<noteq> x) (drop start b)"
  have "length (drop start b) \<le> length ?t"
    using a by (auto simp: find_byte_def Let_def split: if_splits)
  then have "?t = drop start b"
    by (metis length_takeWhile_le le_antisym takeWhile_eq_take take_all)
  moreover have "drop start b ! (k - start) \<in> set (drop start b)" by (rule nth_mem) (use a in simp)
  ultimately show False using a by (metis (mono_tags) le_add_diff_inverse nth_drop set_takeWhileD order_le_less_trans less_imp_le)
qed

lemma seplos_decide_take: "seplos_decide m b = Take n \<Longrightarrow> delimited (take n b)"
proof -
  assume a: "seplos_decide m b = Take n"
  then obtain e where s: "find_byte SOI 0 b = Some 0" and e: "find_byte EOI 1 b = Some e" "n = e + 1"
    and ns: "\<And>k. find_byte SOI 1 b = Some k \<Longrightarrow> e \<le> k"
    by (auto simp: seplos_decide_def split: if_splits option.splits nat.splits)
  note eb = find_byte_Some [OF e(1)]
  have b: "b ! 0 = SOI" using find_byte_Some [OF s] by simp
  have no_soi: "b ! k \<noteq> SOI" if "1 \<le> k" "k \<le> e" for k
  proof (cases "k = e")
    case True then show ?thesis using eb by (simp add: SOI_def EOI_def)
  next
    case False
    then show ?thesis
      using that ns eb find_byte_first [of SOI 1 b _ k] find_byte_None [of SOI 1 b k]
      by (cases "find_byte SOI 1 b") (auto dest: ns)
  qed
  have no_eoi: "b ! k \<noteq> EOI" if "k < e" for k
    using that b find_byte_first [OF e(1), of k] by (cases k) (auto simp: SOI_def EOI_def)
  show ?thesis
    unfolding delimited_def
  proof (intro conjI)
    have t: "take n b = take e b @ [b ! e]" using e eb by (simp add: take_Suc_conv_app_nth)
    show "2 \<le> length (take n b)" using e eb by simp
    show "hd (take n b) = SOI" using e eb b by (cases b) auto
    show "last (take n b) = EOI" using t eb by simp
    show "SOI \<notin> set (tl (take n b))"
      using no_soi e eb by (auto simp: in_set_conv_nth nth_tl)
    show "EOI \<notin> set (butlast (take n b))"
      using no_eoi e eb by (auto simp: in_set_conv_nth nth_butlast)
  qed
qed

interpretation seplos: stream_splitter "seplos_decide m" "seplos_extract m" delimited for m
  by unfold_locales (use seplos_decide_progress seplos_decide_take seplos_extract_decide in auto)

text \<open>
  The splitter emits only frames from a \<open>~\<close> to the next carriage return with
  neither inside, in the order of the wire, and accounts for every byte it is fed: emitted,
  kept or counted as dropped.
\<close>

theorem seplos_bytes_accounted:
  assumes "seplos_feed data f = (fs, f')"
  shows "(\<forall>g \<in> set fs. delimited g) \<and> subseq (concat fs @ sf_buf f') (sf_buf f @ data) \<and>
    length (sf_buf f) + length data + sf_dropped f = sum_list (map length fs) + length (sf_buf f') + sf_dropped f'"
proof -
  obtain gs r d where e: "seplos_extract (sf_max f) (sf_buf f @ data) = (gs, r, d)" by (metis prod_cases3)
  then show ?thesis
    using assms seplos.frames_good [of _ "sf_max f" "sf_buf f @ data"] seplos.bytes_in_order [of "sf_max f" "sf_buf f @ data"]
      seplos.bytes_conserved [of "sf_buf f @ data" "sf_max f"]
    by (auto simp: seplos_feed_def)
qed

definition fresh_framer :: seplos_framer where
  "fresh_framer = \<lparr>sf_buf = [], sf_max = MAX_FRAME, sf_dropped = 0\<rparr>"

theorem seplos_bytes_accounted_witness:
  "\<exists>fs f'. seplos_feed [0x31, 0x7E, 0x32, 0x0D, 0x7E] fresh_framer = (fs, f') \<and>
     5 = sum_list (map length fs) + length (sf_buf f') + sf_dropped f'"
proof -
  obtain fs f' where e: "seplos_feed [0x31, 0x7E, 0x32, 0x0D, 0x7E] fresh_framer = (fs, f')"
    by (cases "seplos_feed [0x31, 0x7E, 0x32, 0x0D, 0x7E] fresh_framer")
  then show ?thesis using seplos_bytes_accounted [OF e] by (simp add: fresh_framer_def)
qed

section \<open>A bus of encoded frames\<close>

lemma takeWhile_absent: "x \<notin> set a \<Longrightarrow> takeWhile (\<lambda>c. c \<noteq> x) (a @ r) = a @ takeWhile (\<lambda>c. c \<noteq> x) r"
  by (induction a) auto

lemma find_byte_append:
  assumes "SOI' \<notin> set a"
  shows "find_byte SOI' 0 (a @ SOI' # c) = Some (length a)"
  using takeWhile_absent [OF assms, of "SOI' # c"] by (simp add: find_byte_def Let_def)

lemma extract_junk:
  assumes "SOI \<notin> set junk"
  shows "seplos_extract m (junk @ SOI # rest) = skipped (length junk) (seplos_extract m (SOI # rest))"
proof (cases "length junk")
  case 0
  then show ?thesis by (simp add: skipped_def)
next
  case (Suc s)
  then show ?thesis
    using find_byte_append [OF assms, of rest] by (subst seplos_extract.simps) simp
qed

lemma find_byte_1: "find_byte x 1 (a # b) = map_option Suc (find_byte x 0 b)"
  by (simp add: find_byte_def Let_def)

lemma delimited_split: "delimited f \<Longrightarrow> \<exists>mid. f = SOI # mid @ [EOI] \<and> SOI \<notin> set mid \<and> EOI \<notin> set mid"
proof -
  assume d: "delimited f"
  then have l: "2 \<le> length f" by (simp add: delimited_def)
  then obtain a r where f: "f = a # r" by (cases f) auto
  with l have "r \<noteq> []" by auto
  then obtain mid e where r: "r = mid @ [e]" by (metis rev_exhaust)
  then show ?thesis using d f by (intro exI [of _ mid]) (auto simp: delimited_def butlast_append)
qed

lemma find_byte_before:
  assumes "x \<notin> set mid"
  shows "find_byte x 0 (mid @ rest) = map_option (\<lambda>n. length mid + n) (find_byte x 0 rest)"
  using takeWhile_absent [OF assms, of rest] by (simp add: find_byte_def Let_def)

lemma extract_frame:
  assumes "delimited f"
  shows "seplos_extract m (f @ rest) = took f (seplos_extract m rest)"
proof -
  from delimited_split [OF assms] obtain mid where
    f: "f = SOI # mid @ [EOI]" and mid: "SOI \<notin> set mid" "EOI \<notin> set mid" by blast
  have s: "find_byte SOI 0 (f @ rest) = Some 0" by (simp add: f find_byte_def)
  have e: "find_byte EOI 1 (f @ rest) = Some (Suc (length mid))"
    using find_byte_append [OF mid(2), of rest] by (simp add: f find_byte_1 del: One_nat_def)
  have n: "find_byte SOI 1 (f @ rest) = map_option (\<lambda>k. Suc (length mid + k)) (find_byte SOI 0 (EOI # rest))"
    using find_byte_before [OF mid(1), of "EOI # rest"] by (simp add: f find_byte_1 option.map_comp o_def del: One_nat_def)
  have lf: "Suc (length mid) + 1 = length f" "Suc (Suc (length mid)) = length f" and ne: "f @ rest \<noteq> []" by (simp_all add: f)
  show ?thesis
  proof (cases "find_byte SOI 0 (EOI # rest)")
    case None
    then show ?thesis
      by (subst seplos_extract.simps) (simp only: ne s e n lf, simp add: lf)
  next
    case (Some k)
    then show ?thesis
      by (subst seplos_extract.simps) (simp only: ne s e n lf, simp add: lf)
  qed
qed

lemma hex_not_delimiter: "unhex c \<noteq> None \<Longrightarrow> c \<noteq> SOI \<and> c \<noteq> EOI"
  by (auto simp: unhex_def SOI_def EOI_def)

lemma encoded_delimited: "seplos_encode adr cid2 info = Inr raw \<Longrightarrow> delimited raw"
proof -
  assume "seplos_encode adr cid2 info = Inr raw"
  then have raw: "raw = SOI # (wire_body (nat adr) cid2 info @ hex4 (chksum (wire_body (nat adr) cid2 info))) @ [EOI]"
    by (simp add: seplos_encode_iff)
  have "c \<noteq> SOI \<and> c \<noteq> EOI" if "c \<in> set (wire_body (nat adr) cid2 info @ hex4 (chksum (wire_body (nat adr) cid2 info)))" for c
  proof -
    have "unhex c \<noteq> None"
      using that wire_body_hex [of "nat adr" cid2 info] hex_all(2) unfolding list_all_iff set_append by blast
    then show ?thesis by (rule hex_not_delimiter)
  qed
  then show ?thesis unfolding raw delimited_def by (auto simp: butlast_append SOI_def EOI_def)
qed

lemma extract_frames:
  "list_all delimited fs \<Longrightarrow> seplos_extract m (concat fs) = (fs, [], 0)"
  by (induction fs) (simp_all add: extract_frame took_def, simp add: seplos_extract.simps)

text \<open>
  A listener attached in the middle of traffic recovers. After any bytes
  without a \<open>~\<close>, the frames of a bus come out one by one and unchanged, the bytes before them
  counted as dropped and nothing left over.
\<close>

theorem stream_of_frames_recovered:
  assumes "SOI \<notin> set junk" and "frames \<noteq> []"
    and "list_all (\<lambda>raw. \<exists>adr cid2 info. seplos_encode adr cid2 info = Inr raw) frames"
  shows "seplos_feed (junk @ concat frames) fresh_framer = (frames, fresh_framer\<lparr>sf_dropped := length junk\<rparr>)"
proof -
  have d: "list_all delimited frames" using assms(3) encoded_delimited by (auto simp: list_all_iff)
  then have "delimited (hd frames)" using assms(2) by (cases frames) auto
  then obtain rest where c: "concat frames = SOI # rest"
    using assms(2) delimited_split by (cases frames) fastforce+
  show ?thesis
    using extract_junk [OF assms(1), of MAX_FRAME rest] extract_frames [OF d, of MAX_FRAME]
    by (simp add: seplos_feed_def fresh_framer_def c skipped_def)
qed

theorem stream_of_frames_recovered_witness:
  "\<exists>raw. seplos_encode 1 0x51 [] = Inr raw \<and>
     fst (seplos_feed ([0x30, 0x0D] @ concat [raw, raw]) fresh_framer) = [raw, raw]"
proof -
  obtain raw where r: "seplos_encode 1 0x51 [] = Inr raw"
    using seplos_encode_iff [of 1 "0x51" "[]"] by (simp add: READ_COMMANDS_def CMD_MANUFACTURER_def)
  then have "list_all (\<lambda>raw. \<exists>adr cid2 info. seplos_encode adr cid2 info = Inr raw) [raw, raw]" by auto
  then show ?thesis
    using stream_of_frames_recovered [of "[0x30, 0x0D]" "[raw, raw]"] r by (auto simp: SOI_def)
qed

section \<open>What the checksum detects\<close>

lemma sum_list_update_unat:
  "i < length b \<Longrightarrow> sum_list (map unat (b[i := x])) + unat (b ! i) = sum_list (map unat b) + unat (x :: u8)"
  by (induction b arbitrary: i) (auto split: nat.split)

lemma chksum_one_byte:
  assumes "i < length b" "chksum (b[i := x]) = chksum b"
  shows "x = b ! i"
proof -
  let ?s = "int (sum_list (map unat b))" and ?t = "int (sum_list (map unat (b[i := x])))"
  have "(- ?t) mod 65536 = (- ?s) mod 65536"
    using assms(2) by (simp add: chksum_def eq_nat_nat_iff)
  then have "65536 dvd - ?t - - ?s" by (simp only: mod_eq_dvd_iff)
  moreover have "int (sum_list (map unat (b[i := x])) + unat (b ! i)) = int (sum_list (map unat b) + unat x)"
    using sum_list_update_unat [OF assms(1), of x] by simp
  then have "- ?t - - ?s = int (unat (b ! i)) - int (unat x)" unfolding of_nat_add by linarith
  ultimately have "65536 dvd int (unat (b ! i)) - int (unat x)" by (simp only:)
  then obtain k where k: "int (unat (b ! i)) - int (unat x) = 65536 * k" by (auto simp: dvd_def)
  moreover have "int (unat x) < 256" "int (unat (b ! i)) < 256" using unat_u8 [of x] unat_u8 [of "b ! i"] by linarith+
  ultimately have "k = 0" by linarith
  with k have "uint (b ! i) = uint x" by simp
  then show ?thesis by (simp add: word_uint_eq_iff)
qed

lemma parse_checksum:
  assumes "seplos_parse r = Inr h"
  shows "chksum (take (length (body_of r) - 4) (body_of r)) = hex_value (drop (length (body_of r) - 4) (body_of r))"
proof (rule ccontr)
  assume a: "chksum (take (length (body_of r) - 4) (body_of r)) \<noteq> hex_value (drop (length (body_of r) - 4) (body_of r))"
  show False using assms unfolding seplos_parse_def Let_def if_P [OF a]
    by (simp only: if_split sum.distinct simp_thms split: if_split_asm)
qed

text \<open>
  The checksum catches every corrupted character. Of two frames that differ in
  one character before the checksum digits, header, length or data, at most one is valid.
\<close>

theorem checksum_catches_one_character:
  assumes "seplos_parse raw = Inr f" "seplos_parse (raw[i := x]) = Inr g" "1 \<le> i" "i + 5 < length raw"
  shows "x = raw ! i"
proof -
  let ?b = "body_of raw" and ?c = "body_of (raw[i := x])"
  note v = parse_checksum
  obtain j where i: "i = Suc j" using assms(3) by (cases i) auto
  have lb: "length ?b = length raw - 2" by (simp add: body_of_def)
  have alt: "body_of r = drop 1 (take (length r - 1) r)" for r :: "u8 list"
    unfolding body_of_def butlast_conv_take by (simp add: drop_Suc)
  have c: "?c = ?b[j := x]"
    using i by (simp add: alt take_update_swap drop_update_swap)
  have "j < length ?b - 4" using i assms(4) lb by linarith
  then have e: "chksum ((take (length ?b - 4) ?b)[j := x]) = chksum (take (length ?b - 4) ?b)"
    using v [OF assms(1)] v [OF assms(2)] c by (simp add: take_update_swap)
  have "x = take (length ?b - 4) ?b ! j"
    by (rule chksum_one_byte [OF _ e]) (use \<open>j < length ?b - 4\<close> in simp)
  also have "\<dots> = raw ! i"
    using i \<open>j < length ?b - 4\<close> assms(4) lb by (simp add: alt)
  finally show ?thesis .
qed

definition answer_frame :: "u8 list" where
  "answer_frame = [SOI] @ wire_body 1 0x51 [] @ hex4 (chksum (wire_body 1 0x51 [])) @ [EOI]"

theorem checksum_catches_one_character_witness:
  "\<exists>f. seplos_parse answer_frame = Inr f \<and> (\<forall>g. seplos_parse (answer_frame[3 := 0x46]) \<noteq> Inr g)"
proof -
  have "seplos_encode 1 0x51 [] = Inr answer_frame"
    by (simp add: seplos_encode_iff answer_frame_def READ_COMMANDS_def CMD_MANUFACTURER_def)
  from parse_inverts_encode [OF this] obtain f where f: "seplos_parse answer_frame = Inr f" by blast
  have "answer_frame ! 3 \<noteq> 0x46" "3 + 5 < length answer_frame"
    by (simp_all add: answer_frame_def wire_body_def hex2_def hex_char_def VER_def)
  then show ?thesis using checksum_catches_one_character [OF f, of 3 "0x46"] f by fastforce
qed

end
