(* ===== verification/SeplosMap.thy ===== *)
theory SeplosMap
  imports SeplosFrames "HOL-Library.Monad_Syntax"
begin

text \<open>
  What the answers of a Seplos V2 battery mean (\<open>multibus/seplos_v2.py\<close>): the decoders of
  telemetry (0x42), alarms (0x44), manufacturer (0x51) and the master's summary (0x5A), and the
  virtual register map they fill. A map write is one assignment \<open>out[addr] = word\<close>; the map
  is the dictionary the assignments build, in their order.
\<close>

type_synonym word_writes = "(int \<times> int) list"
type_synonym word_map = "(int, int) dict"

definition run_writes :: "word_writes \<Rightarrow> word_map" where
  "run_writes ws = foldl (\<lambda>out (a, v). dict_set a v out) [] ws"

definition NA :: int where "NA = 0xFFFF"

definition s16 :: "int \<Rightarrow> int" where "s16 v = v mod 0x10000"

definition put :: "int \<Rightarrow> int option \<Rightarrow> word_writes" where
  "put addr v = (case v of None \<Rightarrow> [] | Some x \<Rightarrow> if x = NA then [] else [(addr, s16 x)])"

section \<open>Reading an answer\<close>

text \<open>The cursor is what is left of INFO; None is DecodeError: the frame ends too early.\<close>

fun read_u8 :: "u8 list \<Rightarrow> (int \<times> u8 list) option" where
  "read_u8 [] = None"
| "read_u8 (b # bs) = Some (uint b, bs)"

fun read_u16 :: "u8 list \<Rightarrow> (int \<times> u8 list) option" where
  "read_u16 (a # b # bs) = Some (256 * uint a + uint b, bs)"
| "read_u16 _ = None"

fun read_words :: "nat \<Rightarrow> u8 list \<Rightarrow> (int list \<times> u8 list) option" where
  "read_words 0 bs = Some ([], bs)"
| "read_words (Suc n) bs =
     (case read_u16 bs of None \<Rightarrow> None
      | Some (w, r) \<Rightarrow> (case read_words n r of None \<Rightarrow> None | Some (ws, r') \<Rightarrow> Some (w # ws, r')))"

definition read_bytes :: "nat \<Rightarrow> u8 list \<Rightarrow> (int list \<times> u8 list) option" where
  "read_bytes n bs = (if length bs < n then None else Some (map uint (take n bs), drop n bs))"

section \<open>Telemetry\<close>

definition TELEMETRY_CUSTOM :: "string list" where
  "TELEMETRY_CUSTOM = [''full_capacity'', ''soc'', ''rated_capacity'', ''cycles'', ''soh'', ''port_voltage'']"

record telemetry =
  te_data_flag :: int
  te_pack :: int
  te_cells :: "int list"
  te_temps :: "int list"
  te_current :: int
  te_voltage :: int
  te_remaining :: int
  te_custom_count :: int
  te_custom_short :: bool
  te_custom :: "(string \<times> int) list"
  te_reserved :: "int list"
  te_trailing :: nat

definition signed16 :: "int \<Rightarrow> int" where
  "signed16 w = (if w AND 0x8000 \<noteq> 0 then w - 0x10000 else w)"

definition decode_telemetry :: "u8 list \<Rightarrow> telemetry option" where
  "decode_telemetry info =
     do {
       (flag, b1) \<leftarrow> read_u8 info;
       (pk, b2) \<leftarrow> read_u8 b1;
       (n, b3) \<leftarrow> read_u8 b2;
       (cells, b4) \<leftarrow> read_words (nat n) b3;
       (m, b5) \<leftarrow> read_u8 b4;
       (temps, b6) \<leftarrow> read_words (nat m) b5;
       (cur, b7) \<leftarrow> read_u16 b6;
       (volt, b8) \<leftarrow> read_u16 b7;
       (remn, b9) \<leftarrow> read_u16 b8;
       (p, b10) \<leftarrow> (if b9 = [] then Some (0, b9) else read_u8 b9);
       (ws, b11) \<leftarrow> read_words (min (nat p) (length b10 div 2)) b10;
       Some \<lparr>te_data_flag = flag, te_pack = pk, te_cells = cells, te_temps = temps, te_current = signed16 cur,
          te_voltage = volt, te_remaining = remn, te_custom_count = p, te_custom_short = int (length ws) < p,
          te_custom = zip TELEMETRY_CUSTOM ws, te_reserved = drop (length TELEMETRY_CUSTOM) ws,
          te_trailing = length b11\<rparr>
     }"

definition put_each :: "nat \<Rightarrow> int \<Rightarrow> int option list \<Rightarrow> word_writes" where
  "put_each limit base vs = concat (map (\<lambda>i. put (base + int i) (vs ! i)) [0 ..< min limit (length vs)])"

definition write_each :: "nat \<Rightarrow> int \<Rightarrow> int list \<Rightarrow> word_writes" where
  "write_each limit base vs = map (\<lambda>i. (base + int i, vs ! i)) [0 ..< min limit (length vs)]"

text \<open>Highest and lowest cell present, first of equals, with its number.\<close>

definition present_cells :: "int list \<Rightarrow> (int \<times> int) list" where
  "present_cells cells = filter (\<lambda>(i, mv). mv \<noteq> NA) (map (\<lambda>i. (int i + 1, cells ! i)) [0 ..< length cells])"

fun best :: "(int \<Rightarrow> int \<Rightarrow> bool) \<Rightarrow> (int \<times> int) \<Rightarrow> (int \<times> int) list \<Rightarrow> int \<times> int" where
  "best better acc [] = acc"
| "best better acc (x # xs) = best better (if better (snd x) (snd acc) then x else acc) xs"

definition mean_rounded :: "int list \<Rightarrow> int" where
  "mean_rounded xs = py_round (of_int (sum_list xs) / of_nat (length xs))"

definition cell_summary :: "(int \<times> int) list \<Rightarrow> word_writes" where
  "cell_summary present =
     (case present of
        [] \<Rightarrow> []
      | x # xs \<Rightarrow>
          (let hi = best (\<lambda>a b. b < a) x xs; lo = best (\<lambda>a b. a < b) x xs
           in [(0x0040, snd hi), (0x0049, fst hi), (0x0041, snd lo), (0x004A, fst lo),
               (0x0042, mean_rounded (map snd present)), (0x0043, snd hi - snd lo)]))"

definition temperature_summary :: "int option list \<Rightarrow> word_writes" where
  "temperature_summary celsius =
     (let n = length celsius;
          (cell_t, amb, pwr) =
             (if 3 \<le> n then (take (n - 2) celsius, celsius ! (n - 2), celsius ! (n - 1)) else (celsius, None, None));
          ts = concat (map (\<lambda>t. case t of None \<Rightarrow> [] | Some x \<Rightarrow> [x]) cell_t)
      in (if ts = [] then []
          else [(0x0044, s16 (foldl max (hd ts) ts)), (0x0045, s16 (foldl min (hd ts) ts)), (0x0046, s16 (mean_rounded ts))])
         @ put 0x0047 amb @ put 0x0048 pwr)"

definition telemetry_writes :: "telemetry \<Rightarrow> word_writes" where
  "telemetry_writes d =
     (let celsius = map (\<lambda>t. if t = NA then None else Some (t - 2731)) (te_temps d)
      in put_each 32 0x0000 (map Some (te_cells d))
         @ [(0x0020, int (length (te_cells d))), (0x0021, int (length (te_temps d)))]
         @ put_each 8 0x0022 celsius
         @ [(0x002A, te_custom_count d), (0x002B, te_data_flag d), (0x0030, s16 (te_current d))]
         @ put 0x0031 (Some (te_voltage d)) @ put 0x0032 (Some (te_remaining d))
         @ concat (map (\<lambda>(addr, key). put addr (map_of (te_custom d) key))
             (zip [0x0033, 0x0034, 0x0035, 0x0036, 0x0037, 0x0038] TELEMETRY_CUSTOM))
         @ write_each 7 0x0039 (map s16 (te_reserved d))
         @ cell_summary (present_cells (te_cells d))
         @ temperature_summary celsius)"

section \<open>Alarms\<close>

definition ALARM_CUSTOM :: "string list" where
  "ALARM_CUSTOM =
     [''alarm_event_1'', ''alarm_event_2'', ''alarm_event_3'', ''alarm_event_4'', ''alarm_event_5'',
      ''alarm_event_6'', ''switch_state'', ''balance_state_1'', ''balance_state_2'', ''system_state'',
      ''disconnection_state_1'', ''disconnection_state_2'', ''alarm_event_7'', ''alarm_event_8'']"

record alarms =
  al_data_flag :: int
  al_pack :: int
  al_cells :: "int list"
  al_temps :: "int list"
  al_bytes :: "int list"
  al_custom_count :: int
  al_custom :: "int list"
  al_uncertain :: bool

text \<open>Two or three bytes stand before the custom count: the layout whose count matches.\<close>

definition alarm_layout :: "u8 list \<Rightarrow> nat \<times> bool" where
  "alarm_layout rest =
     (let fits = (\<lambda>k. k < length rest \<and> uint (rest ! k) = int (length rest) - int k - 1)
      in if fits 2 then (2, False) else if fits 3 then (3, False) else (2, True))"

definition decode_alarms :: "u8 list \<Rightarrow> alarms option" where
  "decode_alarms info =
     do {
       (flag, b1) \<leftarrow> read_u8 info;
       (pk, b2) \<leftarrow> read_u8 b1;
       (n, b3) \<leftarrow> read_u8 b2;
       (ca, b4) \<leftarrow> read_bytes (nat n) b3;
       (m, b5) \<leftarrow> read_u8 b4;
       (ta, b6) \<leftarrow> read_bytes (nat m) b5;
       (pre, b7) \<leftarrow> read_bytes (min (fst (alarm_layout b6)) (length b6)) b6;
       (p, b8) \<leftarrow> (if b7 = [] then Some (0, b7) else read_u8 b7);
       (custom, b9) \<leftarrow> read_bytes (min (nat p) (length b8)) b8;
       Some \<lparr>al_data_flag = flag, al_pack = pk, al_cells = ca, al_temps = ta, al_bytes = pre,
          al_custom_count = p, al_custom = custom, al_uncertain = snd (alarm_layout b6)\<rparr>
     }"

definition bits_where :: "(int \<Rightarrow> bool) \<Rightarrow> int list \<Rightarrow> int" where
  "bits_where P vs = (\<Sum>i \<leftarrow> [0 ..< min 16 (length vs)]. if P (vs ! i) then 2 ^ i else 0)"

definition custom_bits :: "int list \<Rightarrow> word_writes" where
  "custom_bits custom =
     concat (map (\<lambda>i. map (\<lambda>k. (0x0160 + 8 * int i + int k, drop_bit k (custom ! i) AND 1)) [0 ..< 8])
       [0 ..< min 16 (length custom)])"

definition alarm_writes :: "alarms \<Rightarrow> word_writes" where
  "alarm_writes d =
     (let ca = al_cells d; ta = al_temps d; custom = al_custom d; named = zip ALARM_CUSTOM custom;
          second = (\<lambda>k. case map_of named k of Some v \<Rightarrow> v | None \<Rightarrow> 0);
          two = (\<lambda>addr k1 k2. case map_of named k1 of
                   None \<Rightarrow> [] | Some v \<Rightarrow> [(addr, v OR push_bit 8 (second k2))])
      in write_each 32 0x0100 ca
         @ [(0x0120, int (length ca)), (0x0121, int (length ta))]
         @ write_each 8 0x0122 ta
         @ write_each 3 0x0130 (al_bytes d)
         @ [(0x0133, al_custom_count d)]
         @ write_each 32 0x0134 custom
         @ custom_bits custom
         @ two 0x01E0 ''balance_state_1'' ''balance_state_2''
         @ two 0x01E1 ''disconnection_state_1'' ''disconnection_state_2''
         @ [(0x01E2, bits_where (\<lambda>v. v = 1) ca), (0x01E3, bits_where (\<lambda>v. v = 2) ca),
            (0x01E4, bits_where (\<lambda>v. v \<noteq> 0) ta), (0x01E5, if al_uncertain d then 1 else 0)])"

section \<open>Manufacturer and summary\<close>

record manufacturer =
  mf_name :: "u8 list"
  mf_version :: "u8 list"
  mf_maker :: "u8 list"
  mf_length :: nat

definition decode_manufacturer :: "u8 list \<Rightarrow> manufacturer" where
  "decode_manufacturer info =
     \<lparr>mf_name = take 10 info, mf_version = py_slice 10 12 info, mf_maker = py_slice 12 32 info, mf_length = length info\<rparr>"

definition str_words :: "u8 list \<Rightarrow> nat \<Rightarrow> int list" where
  "str_words b n =
     (let p = take (2 * n) b @ replicate (2 * n - length (take (2 * n) b)) 0
      in map (\<lambda>i. 256 * uint (p ! (2 * i)) + uint (p ! (2 * i + 1))) [0 ..< n])"

definition manufacturer_writes :: "manufacturer \<Rightarrow> word_writes" where
  "manufacturer_writes d =
     (if mf_name d \<noteq> [] then write_each 5 0x0200 (str_words (mf_name d) 5) else [])
     @ (case mf_version d of [a, b] \<Rightarrow> [(0x0205, 256 * uint a + uint b)] | _ \<Rightarrow> [])
     @ (if mf_maker d \<noteq> [] then write_each 10 0x0206 (str_words (mf_maker d) 10) else [])
     @ [(0x0210, int (mf_length d))]"

record battery_summary =
  su_words :: "int list"
  su_length :: nat
  su_problem :: bool

definition be_words :: "u8 list \<Rightarrow> int list" where
  "be_words info = map (\<lambda>i. 256 * uint (info ! (2 * i)) + uint (info ! (2 * i + 1))) [0 ..< length info div 2]"

text \<open>
  The words of the one layout seen: 0 head, 1 and 2 highest and lowest cell, 3 and 4 highest
  and lowest temperature, 5 current, 6 voltage, 7 remaining, 8 full, 9 SOC, 10 port voltage.
\<close>

definition summary_problem :: "int list \<Rightarrow> bool" where
  "summary_problem w =
     (w ! 0 \<noteq> 1
      \<or> (w ! 1 \<noteq> NA \<and> w ! 2 \<noteq> NA \<and> w ! 1 < w ! 2)
      \<or> (w ! 9 \<noteq> NA \<and> 1000 < w ! 9)
      \<or> (w ! 7 \<noteq> NA \<and> w ! 8 \<noteq> NA \<and> w ! 8 < w ! 7)
      \<or> list_ex (\<lambda>v. v \<noteq> 0 \<and> v \<noteq> NA \<and> \<not> (2331 \<le> v \<and> v \<le> 3731)) [w ! 3, w ! 4])"

definition decode_summary :: "u8 list \<Rightarrow> battery_summary" where
  "decode_summary info =
     \<lparr>su_words = be_words info, su_length = length info,
      su_problem = (length info \<noteq> 32 \<or> summary_problem (be_words info))\<rparr>"

definition kelvin10 :: "int \<Rightarrow> int option" where
  "kelvin10 v = (if 2331 \<le> v \<and> v \<le> 3731 then Some (v - 2731) else None)"

definition summary_writes :: "battery_summary \<Rightarrow> word_writes" where
  "summary_writes d =
     (let w = su_words d
      in write_each 32 0x0410 w @ [(0x043F, int (su_length d))]
         @ (if su_problem d then []
            else [(0x0400, w ! 0)] @ put 0x0401 (Some (w ! 1)) @ put 0x0402 (Some (w ! 2))
               @ (if w ! 1 \<noteq> NA \<and> w ! 2 \<noteq> NA \<and> w ! 2 \<le> w ! 1 then [(0x0403, w ! 1 - w ! 2)] else [])
               @ put 0x0404 (kelvin10 (w ! 3)) @ put 0x0405 (kelvin10 (w ! 4))
               @ [(0x0406, s16 (signed16 (w ! 5)))]
               @ put 0x0407 (Some (w ! 6)) @ put 0x0408 (Some (w ! 7)) @ put 0x0409 (Some (w ! 8))
               @ put 0x040A (Some (w ! 9)) @ put 0x040B (Some (w ! 10))))"

section \<open>The map\<close>

datatype map_area = Command nat | Diag

definition area_of :: "int \<Rightarrow> map_area option" where
  "area_of address =
     dict_get [(0x00, Command CMD_TELEMETRY), (0x01, Command CMD_ALARMS), (0x02, Command CMD_MANUFACTURER),
               (0x03, Command CMD_SYSTEM_PARAMS), (0x04, Command CMD_PARALLEL_SUMMARY), (0x0F, Diag)]
       (address div 256 mod 256)"

text \<open>\<open>words_for\<close>: None is DecodeError, or KeyError for a command with no decoder.\<close>

definition words_for :: "nat \<Rightarrow> u8 list \<Rightarrow> word_map option" where
  "words_for cid2 info =
     (if cid2 = CMD_TELEMETRY then map_option (\<lambda>d. run_writes (telemetry_writes d)) (decode_telemetry info)
      else if cid2 = CMD_ALARMS then map_option (\<lambda>d. run_writes (alarm_writes d)) (decode_alarms info)
      else if cid2 = CMD_MANUFACTURER then Some (run_writes (manufacturer_writes (decode_manufacturer info)))
      else if cid2 = CMD_PARALLEL_SUMMARY then Some (run_writes (summary_writes (decode_summary info)))
      else None)"

section \<open>The assignments and the map they build\<close>

lemma run_writes_get: "dict_get (run_writes ws) a = map_of (rev ws) a"
proof (induction ws rule: rev_induct)
  case (snoc p ws)
  then show ?case by (cases p) (simp add: run_writes_def dict_simps)
qed (simp add: run_writes_def)

lemma run_writes_ok: "dict_ok (run_writes ws)"
proof (induction ws rule: rev_induct)
  case (snoc p ws)
  then show ?case by (cases p) (simp add: run_writes_def dict_simps)
qed (simp add: run_writes_def)

lemma run_writes_sub: "set (run_writes ws) \<subseteq> set ws"
proof
  fix p assume "p \<in> set (run_writes ws)"
  then have "dict_get (run_writes ws) (fst p) = Some (snd p)"
    using run_writes_ok dict_in_get [of "run_writes ws" "fst p" "snd p"] by simp
  then show "p \<in> set ws" using run_writes_get by (auto dest: map_of_SomeD)
qed

text \<open>A word in its page: 16 bits at an address of the page.\<close>

definition in_page :: "int \<Rightarrow> int \<times> int \<Rightarrow> bool" where
  "in_page page p = (256 * page \<le> fst p \<and> fst p < 256 * page + 256 \<and> 0 \<le> snd p \<and> snd p < 65536)"

definition word_val :: "int \<Rightarrow> bool" where
  "word_val v = (0 \<le> v \<and> v < 65536)"

definition byte_val :: "int \<Rightarrow> bool" where
  "byte_val v = (0 \<le> v \<and> v < 256)"

named_theorems page_intros \<open>assignments stay in their page\<close>

lemma word_of_byte: "byte_val v \<Longrightarrow> word_val v"
  by (simp add: byte_val_def word_val_def)

lemma word_s16 [simp]: "word_val (s16 v)"
  by (simp add: word_val_def s16_def)

lemma page_one: "256 * page \<le> a \<Longrightarrow> a < 256 * page + 256 \<Longrightarrow> word_val v \<Longrightarrow> in_page page (a, v)"
  by (simp add: in_page_def word_val_def)

lemma page_put [page_intros]:
  "256 * page \<le> a \<Longrightarrow> a < 256 * page + 256 \<Longrightarrow> list_all (in_page page) (put a v)"
  by (auto simp: put_def page_one split: option.split)

lemma page_put_each [page_intros]:
  assumes "256 * page \<le> base" "base + int limit \<le> 256 * page + 256"
  shows "list_all (in_page page) (put_each limit base vs)"
proof -
  have "list_all (in_page page) (put (base + int i) (vs ! i))" if "i < limit" for i
    by (rule page_put) (use that assms in auto)
  then show ?thesis by (fastforce simp: put_each_def list_all_iff)
qed

lemma page_write_each [page_intros]:
  assumes "256 * page \<le> base" "base + int limit \<le> 256 * page + 256" "list_all word_val vs"
  shows "list_all (in_page page) (write_each limit base vs)"
  using assms by (auto simp: write_each_def list_all_iff intro!: page_one)

lemma page_append [page_intros]:
  "list_all (in_page page) xs \<Longrightarrow> list_all (in_page page) ys \<Longrightarrow> list_all (in_page page) (xs @ ys)"
  by simp

lemma page_Nil [page_intros]: "list_all (in_page page) []"
  by simp

lemma page_Cons [page_intros]:
  "256 * page \<le> a \<Longrightarrow> a < 256 * page + 256 \<Longrightarrow> word_val v \<Longrightarrow> list_all (in_page page) ws \<Longrightarrow>
   list_all (in_page page) ((a, v) # ws)"
  by (simp add: page_one)

section \<open>What the decoders return\<close>

lemma read_u8_byte: "read_u8 bs = Some (v, r) \<Longrightarrow> byte_val v"
  by (cases bs) (auto simp: byte_val_def intro: order_less_le_trans [OF uint_lt2p])

lemma be_word: "word_val (256 * uint (a :: u8) + uint (b :: u8))"
proof -
  have "uint a < 256" "uint b < 256" using uint_lt2p [of a] uint_lt2p [of b] by simp_all
  moreover have "0 \<le> uint a" "0 \<le> uint b" by simp_all
  ultimately show ?thesis unfolding word_val_def by linarith
qed

lemma read_u16_word: "read_u16 bs = Some (v, r) \<Longrightarrow> word_val v"
  by (induction bs rule: read_u16.induct) (auto intro: be_word)

lemma read_words_word: "read_words n bs = Some (ws, r) \<Longrightarrow> list_all word_val ws \<and> length ws = n"
  by (induction n arbitrary: bs ws r) (auto dest: read_u16_word split: option.splits prod.splits)

lemma byte_uint: "byte_val (uint (b :: u8))"
  using uint_lt2p [of b] by (simp add: byte_val_def)

lemma read_bytes_byte: "read_bytes n bs = Some (ws, r) \<Longrightarrow> list_all byte_val ws \<and> length ws = n"
  by (auto simp: read_bytes_def list_all_iff byte_uint split: if_splits)

definition telemetry_ok :: "telemetry \<Rightarrow> bool" where
  "telemetry_ok d = (byte_val (te_data_flag d) \<and> byte_val (te_custom_count d)
     \<and> list_all word_val (te_cells d) \<and> length (te_cells d) < 256
     \<and> list_all word_val (te_temps d) \<and> length (te_temps d) < 256)"

lemma decode_telemetry_ok: "decode_telemetry info = Some d \<Longrightarrow> telemetry_ok d"
  unfolding decode_telemetry_def
  by (auto simp: telemetry_ok_def byte_val_def nat_less_iff
      dest!: read_u8_byte read_words_word split: Option.bind_splits if_splits)

lemma round_between: "of_int lo \<le> q \<Longrightarrow> q \<le> of_int hi \<Longrightarrow> lo \<le> py_round q \<and> py_round q \<le> hi"
proof -
  assume q: "of_int lo \<le> q" "q \<le> of_int hi"
  then have f: "lo \<le> \<lfloor>q\<rfloor>" "\<lfloor>q\<rfloor> \<le> hi" by (simp_all add: le_floor_iff) linarith
  moreover have "\<lfloor>q\<rfloor> = hi \<Longrightarrow> py_round q = hi"
  proof -
    assume "\<lfloor>q\<rfloor> = hi"
    then have "q = of_int hi" using q(2) of_int_floor_le [of q] by linarith
    then show ?thesis by (simp add: py_round_def Let_def)
  qed
  ultimately show ?thesis by (cases "\<lfloor>q\<rfloor> = hi") (auto simp: py_round_def Let_def)
qed

lemma mean_between:
  assumes "xs \<noteq> []" "\<forall>x \<in> set xs. lo \<le> x \<and> x \<le> hi"
  shows "lo \<le> mean_rounded xs \<and> mean_rounded xs \<le> hi"
proof -
  have s: "int (length ys) * lo \<le> sum_list ys \<and> sum_list ys \<le> int (length ys) * hi"
    if "\<forall>x \<in> set ys. lo \<le> x \<and> x \<le> hi" for ys
    using that by (induction ys) (auto simp: algebra_simps)
  have n: "(0 :: rat) < of_nat (length xs)" using assms(1) by simp
  have "(of_int (int (length xs) * lo) :: rat) \<le> of_int (sum_list xs)"
    "(of_int (sum_list xs) :: rat) \<le> of_int (int (length xs) * hi)"
    using s [OF assms(2)] by (simp_all only: of_int_le_iff)
  then show ?thesis
    unfolding mean_rounded_def by (intro round_between) (simp_all add: pos_le_divide_eq [OF n] pos_divide_le_eq [OF n] mult.commute)
qed

lemma best_in: "best better acc xs \<in> insert acc (set xs)"
  by (induction xs arbitrary: acc) auto

lemma present_cells_in:
  "(i, mv) \<in> set (present_cells cells) \<longleftrightarrow> mv \<noteq> NA \<and> (\<exists>k < length cells. i = int k + 1 \<and> mv = cells ! k)"
  by (auto simp: present_cells_def)

lemma present_cells_val:
  assumes "list_all word_val cells" "length cells < 256" "p \<in> set (present_cells cells)"
  shows "word_val (fst p) \<and> word_val (snd p)"
proof -
  obtain i mv where p: "p = (i, mv)" by (cases p)
  with assms(3) obtain k where "k < length cells" "i = int k + 1" "mv = cells ! k"
    by (auto simp: present_cells_in)
  then show ?thesis using p assms(1,2) by (auto simp: word_val_def list_all_length)
qed

lemma best_bound:
  assumes "\<And>a b. better a b \<Longrightarrow> le b a" "\<And>a b. \<not> better a b \<Longrightarrow> le a b"
    and "\<And>a. le a a" "\<And>a b c. le a b \<Longrightarrow> le b c \<Longrightarrow> le a c"
  shows "\<forall>p \<in> insert acc (set xs). le (snd p) (snd (best better acc xs))"
proof (induction xs arbitrary: acc)
  case Nil
  then show ?case using assms(3) by simp
next
  case (Cons x xs)
  let ?acc = "if better (snd x) (snd acc) then x else acc"
  have IH: "\<forall>p \<in> insert ?acc (set xs). le (snd p) (snd (best better ?acc xs))" by (rule Cons.IH)
  moreover have "le (snd x) (snd ?acc)" "le (snd acc) (snd ?acc)"
    using assms(1) [of "snd x" "snd acc"] assms(2) [of "snd x" "snd acc"] assms(3) by auto
  ultimately show ?case using assms(4) by (metis best.simps(2) insert_iff list.set(2))
qed

lemma best_max: "p \<in> insert acc (set xs) \<Longrightarrow> snd p \<le> snd (best (\<lambda>a b. b < a) acc xs)"
  using best_bound [of "\<lambda>a b. b < a" "\<lambda>a b. a \<le> b" acc xs] by fastforce

lemma best_min: "p \<in> insert acc (set xs) \<Longrightarrow> snd (best (\<lambda>a b. a < b) acc xs) \<le> snd p"
  using best_bound [of "\<lambda>a b. a < b" "\<lambda>a b. b \<le> a" acc xs] by fastforce

lemma page_cell_summary:
  assumes "list_all word_val cells" "length cells < 256"
  shows "list_all (in_page 0) (cell_summary (present_cells cells))"
proof (cases "present_cells cells")
  case Nil
  then show ?thesis by (simp add: cell_summary_def)
next
  case (Cons x xs)
  define hi lo where "hi = best (\<lambda>a b. b < a) x xs" and "lo = best (\<lambda>a b. a < b) x xs"
  have in': "hi \<in> insert x (set xs)" "lo \<in> insert x (set xs)" unfolding hi_def lo_def by (rule best_in)+
  have v: "word_val (fst p) \<and> word_val (snd p)" if "p \<in> insert x (set xs)" for p
    using present_cells_val [OF assms, of p] that Cons by simp
  have "snd lo \<le> snd hi" using best_max [OF in'(2)] by (simp add: hi_def)
  then have d: "word_val (snd hi - snd lo)" using v [OF in'(1)] v [OF in'(2)] by (auto simp: word_val_def)
  have "0 \<le> mean_rounded (map snd (x # xs)) \<and> mean_rounded (map snd (x # xs)) \<le> 65535"
  proof (rule mean_between)
    show "\<forall>y \<in> set (map snd (x # xs)). 0 \<le> y \<and> y \<le> 65535"
    proof
      fix y assume "y \<in> set (map snd (x # xs))"
      then have "y \<in> snd ` insert x (set xs)" by simp
      then obtain p where "p \<in> insert x (set xs)" "y = snd p" by blast
      then show "0 \<le> y \<and> y \<le> 65535" using v [of p] by (simp add: word_val_def)
    qed
  qed simp
  then have m: "word_val (mean_rounded (map snd (x # xs)))" by (simp add: word_val_def)
  show ?thesis
    unfolding cell_summary_def Cons list.case Let_def hi_def [symmetric] lo_def [symmetric]
    by (intro page_intros) (use v [OF in'(1)] v [OF in'(2)] d m in simp_all)
qed

lemma page_concat [page_intros]:
  "(\<And>ws. ws \<in> set wss \<Longrightarrow> list_all (in_page page) ws) \<Longrightarrow> list_all (in_page page) (concat wss)"
  by (auto simp: list_all_iff)

lemma telemetry_in_page:
  assumes "telemetry_ok d"
  shows "list_all (in_page 0) (telemetry_writes d)"
proof -
  have c: "list_all word_val (te_cells d)" "length (te_cells d) < 256" "length (te_temps d) < 256"
    "word_val (te_custom_count d)" "word_val (te_data_flag d)"
    using assms word_of_byte by (auto simp: telemetry_ok_def)
  have n: "word_val (int (length (te_cells d)))" "word_val (int (length (te_temps d)))"
    using c by (simp_all add: word_val_def)
  have t: "list_all (in_page 0) (temperature_summary cs)" for cs
    unfolding temperature_summary_def Let_def case_prod_beta
    by (simp add: page_put page_one)
  have r: "list_all word_val (map s16 (te_reserved d))" by (simp add: list_all_iff)
  have k: "list_all (in_page 0) (concat (map (\<lambda>(addr, key). put addr (map_of (te_custom d) key))
             (zip [0x0033, 0x0034, 0x0035, 0x0036, 0x0037, 0x0038] TELEMETRY_CUSTOM)))"
    by (simp add: TELEMETRY_CUSTOM_def) (intro conjI page_put; simp)
  show ?thesis
    unfolding telemetry_writes_def Let_def
    by (intro page_append page_cell_summary t k c page_Cons page_Nil page_put page_put_each page_write_each r) (use n c in simp_all)
qed

definition alarms_ok :: "alarms \<Rightarrow> bool" where
  "alarms_ok d = (byte_val (al_custom_count d) \<and> list_all byte_val (al_cells d) \<and> length (al_cells d) < 256
     \<and> list_all byte_val (al_temps d) \<and> length (al_temps d) < 256 \<and> list_all byte_val (al_bytes d)
     \<and> list_all byte_val (al_custom d))"

lemma decode_alarms_ok: "decode_alarms info = Some d \<Longrightarrow> alarms_ok d"
  unfolding decode_alarms_def
  by (auto simp: alarms_ok_def byte_val_def nat_less_iff
      dest!: read_u8_byte read_bytes_byte split: Option.bind_splits if_splits)

lemma sum_powers: "(\<Sum>i \<leftarrow> [0 ..< n]. if Q i then 2 ^ i else (0 :: int)) < 2 ^ n \<and> 0 \<le> (\<Sum>i \<leftarrow> [0 ..< n]. if Q i then 2 ^ i else (0 :: int))"
  by (induction n) auto

lemma bits_where_word: "word_val (bits_where P vs)"
proof -
  let ?n = "min 16 (length vs)"
  have "(2 :: int) ^ ?n \<le> 2 ^ 16" by (rule power_increasing) simp_all
  then show ?thesis
    using sum_powers [of "\<lambda>i. P (vs ! i)" ?n] by (auto simp: word_val_def bits_where_def)
qed

lemma byte_pair_word: "byte_val v \<Longrightarrow> byte_val w \<Longrightarrow> word_val (v OR push_bit 8 w)"
proof -
  assume v: "byte_val v" "byte_val w"
  have "v OR push_bit 8 w < 2 ^ 16"
    by (rule OR_upper) (use v in \<open>auto simp: byte_val_def push_bit_eq_mult\<close>)
  moreover have "0 \<le> v OR push_bit 8 w" using v by (simp add: byte_val_def or_nonnegative_int_iff)
  ultimately show ?thesis by (simp add: word_val_def)
qed

lemma alarms_in_page:
  assumes "alarms_ok d"
  shows "list_all (in_page 1) (alarm_writes d)"
proof -
  have c: "list_all word_val (al_cells d)" "list_all word_val (al_temps d)" "list_all word_val (al_bytes d)"
    "list_all word_val (al_custom d)" "word_val (al_custom_count d)"
    using assms word_of_byte by (auto simp: alarms_ok_def list_all_iff)
  have n: "word_val (int (length (al_cells d)))" "word_val (int (length (al_temps d)))"
    using assms by (simp_all add: word_val_def alarms_ok_def)
  have b: "list_all (in_page 1) (custom_bits (al_custom d))"
    by (auto simp: custom_bits_def list_all_iff in_page_def and_one_eq)
  have z: "byte_val v" if "(k, v) \<in> set (zip ALARM_CUSTOM (al_custom d))" for k v
    using that assms by (auto simp: alarms_ok_def list_all_iff dest: set_zip_rightD)
  have two: "list_all (in_page 1) (case map_of (zip ALARM_CUSTOM (al_custom d)) k1 of None \<Rightarrow> [] | Some v \<Rightarrow>
      [(addr, v OR push_bit 8 (case map_of (zip ALARM_CUSTOM (al_custom d)) k2 of Some v \<Rightarrow> v | None \<Rightarrow> 0))])"
    if "256 \<le> addr" "addr < 512" for addr k1 k2
  proof -
    have "byte_val (case map_of (zip ALARM_CUSTOM (al_custom d)) k2 of Some v \<Rightarrow> v | None \<Rightarrow> 0)"
      by (auto simp: byte_val_def [of 0] split: option.split dest!: map_of_SomeD intro: z)
    then have "word_val (v OR push_bit 8 (case map_of (zip ALARM_CUSTOM (al_custom d)) k2 of Some v \<Rightarrow> v | None \<Rightarrow> 0))"
      if "map_of (zip ALARM_CUSTOM (al_custom d)) k1 = Some v" for v
      using that z [OF map_of_SomeD] by (blast intro: byte_pair_word)
    then show ?thesis
      using that by (cases "map_of (zip ALARM_CUSTOM (al_custom d)) k1") (simp_all add: page_one)
  qed
  have u: "word_val (if al_uncertain d then 1 else 0)" by (simp add: word_val_def)
  show ?thesis
    unfolding alarm_writes_def Let_def
    by (intro page_append b two page_Cons page_Nil page_write_each) (use n c u bits_where_word in simp_all)
qed

lemma str_words_word: "list_all word_val (str_words b n)"
  by (auto simp: str_words_def Let_def list_all_iff be_word)

lemma manufacturer_in_page:
  assumes "length (mf_version d) = 2 \<or> True" "mf_length d < 65536"
  shows "list_all (in_page 2) (manufacturer_writes d)"
proof -
  have v: "list_all (in_page 2) (case mf_version d of [a, b] \<Rightarrow> [(0x0205, 256 * uint a + uint b)] | _ \<Rightarrow> [])"
    by (auto intro!: page_one be_word split: list.split)
  have l: "word_val (int (mf_length d))" using assms by (simp add: word_val_def)
  have s: "list_all (in_page 2) (if c then write_each k base (str_words b k) else [])"
    if "512 \<le> base" "base + int k \<le> 768" for c k base b
    using that str_words_word by (simp add: page_write_each)
  show ?thesis
    unfolding manufacturer_writes_def
    by (intro page_append v s page_Cons page_Nil) (use l in simp_all)
qed

lemma be_words_word: "list_all word_val (be_words info)"
  by (auto simp: be_words_def list_all_iff be_word)

lemma summary_in_page:
  assumes "length info < 65536"
  shows "list_all (in_page 4) (summary_writes (decode_summary info))"
proof -
  define d where "d = decode_summary info"
  let ?w = "su_words d"
  have w: "list_all word_val ?w" by (simp add: d_def decode_summary_def be_words_word)
  have l: "word_val (int (su_length d))" using assms by (simp add: d_def decode_summary_def word_val_def)
  have named: "list_all (in_page 4) ([(0x0400, ?w ! 0)] @ put 0x0401 (Some (?w ! 1)) @ put 0x0402 (Some (?w ! 2))
               @ (if ?w ! 1 \<noteq> NA \<and> ?w ! 2 \<noteq> NA \<and> ?w ! 2 \<le> ?w ! 1 then [(0x0403, ?w ! 1 - ?w ! 2)] else [])
               @ put 0x0404 (kelvin10 (?w ! 3)) @ put 0x0405 (kelvin10 (?w ! 4))
               @ [(0x0406, s16 (signed16 (?w ! 5)))]
               @ put 0x0407 (Some (?w ! 6)) @ put 0x0408 (Some (?w ! 7)) @ put 0x0409 (Some (?w ! 8))
               @ put 0x040A (Some (?w ! 9)) @ put 0x040B (Some (?w ! 10)))" if "\<not> su_problem d"
  proof -
    have "length info = 32" using that by (simp add: d_def decode_summary_def)
    then have "length ?w = 16" by (simp add: d_def decode_summary_def be_words_def)
    then have v: "word_val (?w ! 0)" "word_val (?w ! 1)" "word_val (?w ! 2)"
      using w by (simp_all add: list_all_length)
    have "list_all (in_page 4) (if ?w ! 1 \<noteq> NA \<and> ?w ! 2 \<noteq> NA \<and> ?w ! 2 \<le> ?w ! 1 then [(0x0403, ?w ! 1 - ?w ! 2)] else [])"
      using v by (auto simp: in_page_def word_val_def)
    then show ?thesis
      by (intro page_append page_Cons page_Nil page_put) (use v in simp_all)
  qed
  have "list_all (in_page 4) (summary_writes d)"
    unfolding summary_writes_def Let_def
    by (intro page_append page_write_each w page_Cons page_Nil) (use l named in simp_all)
  then show ?thesis by (simp add: d_def)
qed

lemma in_page_area: "in_page page (a, v) \<Longrightarrow> 0 \<le> page \<Longrightarrow> page < 256 \<Longrightarrow> a div 256 mod 256 = page"
proof -
  assume "in_page page (a, v)" "0 \<le> page" "page < 256"
  then have r: "0 \<le> a - 256 * page" "a - 256 * page < 256" by (simp_all add: in_page_def)
  have "a = 256 * page + (a - 256 * page)" by simp
  also have "\<dots> div 256 = page + (a - 256 * page) div 256" by (rule div_mult_self4) simp
  finally have "a div 256 = page" using r by (simp only: div_pos_pos_trivial add_0_right)
  then show ?thesis using \<open>0 \<le> page\<close> \<open>page < 256\<close> by simp
qed

lemma words_stay_in_page_all:
  assumes "words_for cid2 info = Some out" "(a, v) \<in> set out" "length info \<le> 2047"
  shows "area_of a = Some (Command cid2) \<and> 0 \<le> v \<and> v < 65536"
proof -
  have li: "length info < 65536" using assms(3) by simp
  have sub: "(a, v) \<in> set (run_writes ws) \<Longrightarrow> list_all (in_page page) ws \<Longrightarrow> in_page page (a, v)" for ws page
    using run_writes_sub by (auto simp: list_all_iff)
  have pg: "cid2 = CMD_TELEMETRY \<and> in_page 0 (a, v) \<or> cid2 = CMD_ALARMS \<and> in_page 1 (a, v)
      \<or> cid2 = CMD_MANUFACTURER \<and> in_page 2 (a, v) \<or> cid2 = CMD_PARALLEL_SUMMARY \<and> in_page 4 (a, v)"
  proof -
    have "mf_length (decode_manufacturer info) < 65536" using li by (simp add: decode_manufacturer_def)
    then have m: "list_all (in_page 2) (manufacturer_writes (decode_manufacturer info))"
      by (intro manufacturer_in_page) simp_all
    show ?thesis
      using assms(1,2) sub [OF _ m] sub [OF _ summary_in_page [OF li]]
        sub [OF _ telemetry_in_page [OF decode_telemetry_ok]] sub [OF _ alarms_in_page [OF decode_alarms_ok]]
      by (auto simp: words_for_def split: if_splits)
  qed
  then show ?thesis
    using in_page_area [of 0 a v] in_page_area [of 1 a v] in_page_area [of 2 a v] in_page_area [of 4 a v]
    by (auto simp: area_of_def in_page_def)
qed

text \<open>
  An answer fills only its own page of the map, with 16-bit words. Whatever a
  battery answers to a command, every word written lies at an address that belongs to that
  command (so no answer overwrites another's) and is a value 0 to 65535.
\<close>

theorem words_stay_in_page:
  assumes "words_for cid2 info = Some out" "(a, v) \<in> set out" "length info \<le> 2047"
  shows "area_of a = Some (Command cid2) \<and> 0 \<le> v \<and> v < 65536"
  by (rule words_stay_in_page_all [OF assms])

theorem words_stay_in_page_witness: "\<exists>out. words_for 0x51 [0x42, 0x4D] = Some out \<and> (\<forall>p \<in> set out. snd p < 65536)"
proof -
  have "words_for 0x51 [0x42, 0x4D] = Some (run_writes (manufacturer_writes (decode_manufacturer [0x42, 0x4D])))"
    by (simp add: words_for_def CMD_TELEMETRY_def CMD_ALARMS_def CMD_MANUFACTURER_def)
  from words_stay_in_page [OF this] this show ?thesis by auto
qed

section \<open>What the map says of the cells\<close>

lemma map_of_rev_append:
  "map_of (rev (xs @ ys)) a = (case map_of (rev ys) a of None \<Rightarrow> map_of (rev xs) a | Some v \<Rightarrow> Some v)"
  by (simp add: map_add_def)

lemma map_of_rev_none: "a \<notin> fst ` set ws \<Longrightarrow> map_of (rev ws) a = None"
  by (simp add: map_of_eq_None_iff)

lemma map_of_rev_unique:
  assumes "(a, v) \<in> set ws" "\<And>w. (a, w) \<in> set ws \<Longrightarrow> w = v"
  shows "map_of (rev ws) a = Some v"
proof (cases "map_of (rev ws) a")
  case None
  then show ?thesis using assms(1) by (force simp: map_of_eq_None_iff)
next
  case (Some w)
  then show ?thesis using assms(2) by (auto dest: map_of_SomeD)
qed

lemma put_iff: "(a, v) \<in> set (put b x) \<longleftrightarrow> a = b \<and> (\<exists>y. x = Some y \<and> y \<noteq> NA \<and> v = s16 y)"
  by (cases x) (auto simp: put_def)

lemma put_each_iff:
  "(base + int i, v) \<in> set (put_each limit base vs) \<longleftrightarrow>
     i < limit \<and> i < length vs \<and> (\<exists>x. vs ! i = Some x \<and> x \<noteq> NA \<and> v = s16 x)"
  unfolding put_each_def using put_iff by (auto simp: Bex_def)

lemma put_each_keys: "a \<in> fst ` set (put_each limit base vs) \<Longrightarrow> base \<le> a \<and> a < base + int limit"
  by (auto simp: put_each_def put_def split: option.splits if_splits)

lemma put_keys: "fst ` set (put a v) \<subseteq> {a}"
  by (auto simp: put_def split: option.splits)

lemma write_each_keys: "a \<in> fst ` set (write_each limit base vs) \<Longrightarrow> base \<le> a \<and> a < base + int limit"
  by (auto simp: write_each_def)

lemma cell_summary_keys: "fst ` set (cell_summary present) \<subseteq> {0x40, 0x41, 0x42, 0x43, 0x49, 0x4A}"
  by (auto simp: cell_summary_def Let_def split: list.split)

lemma temperature_summary_keys: "fst ` set (temperature_summary cs) \<subseteq> {0x44, 0x45, 0x46, 0x47, 0x48}"
  by (auto simp: temperature_summary_def Let_def put_iff)

text \<open>The part of a telemetry answer between the cell words and the derived words.\<close>

definition telemetry_middle :: "telemetry \<Rightarrow> word_writes" where
  "telemetry_middle d =
     [(0x0020, int (length (te_cells d))), (0x0021, int (length (te_temps d)))]
     @ put_each 8 0x0022 (map (\<lambda>t. if t = NA then None else Some (t - 2731)) (te_temps d))
     @ [(0x002A, te_custom_count d), (0x002B, te_data_flag d), (0x0030, s16 (te_current d))]
     @ put 0x0031 (Some (te_voltage d)) @ put 0x0032 (Some (te_remaining d))
     @ concat (map (\<lambda>(addr, key). put addr (map_of (te_custom d) key))
         (zip [0x0033, 0x0034, 0x0035, 0x0036, 0x0037, 0x0038] TELEMETRY_CUSTOM))
     @ write_each 7 0x0039 (map s16 (te_reserved d))"

lemma telemetry_parts:
  "telemetry_writes d = put_each 32 0 (map Some (te_cells d)) @ telemetry_middle d
     @ cell_summary (present_cells (te_cells d))
     @ temperature_summary (map (\<lambda>t. if t = NA then None else Some (t - 2731)) (te_temps d))"
  by (simp add: telemetry_writes_def telemetry_middle_def Let_def)

lemma telemetry_middle_keys: "a \<in> fst ` set (telemetry_middle d) \<Longrightarrow> 0x20 \<le> a \<and> a < 0x40"
proof -
  assume "a \<in> fst ` set (telemetry_middle d)"
  then obtain v where "(a, v) \<in> set (telemetry_middle d)" by auto
  then show ?thesis by (auto simp: telemetry_middle_def put_iff put_each_def write_each_def TELEMETRY_CUSTOM_def)
qed

text \<open>
  A cell that is not there has no word. Of the first 32 cells the map holds
  exactly the voltages the battery reported, each under its own number, and nothing for a
  cell beyond the count or one reported as not available.
\<close>

theorem absent_cells_have_no_word:
  assumes "decode_telemetry info = Some d" "i < 32"
  shows "\<exists>out. words_for CMD_TELEMETRY info = Some out \<and>
    dict_get out (int i) = (if i < length (te_cells d) \<and> te_cells d ! i \<noteq> NA then Some (te_cells d ! i) else None)"
proof -
  let ?C = "put_each 32 0 (map Some (te_cells d))"
  let ?R = "telemetry_middle d @ cell_summary (present_cells (te_cells d))
     @ temperature_summary (map (\<lambda>t. if t = NA then None else Some (t - 2731)) (te_temps d))"
  have ok: "list_all word_val (te_cells d)" using decode_telemetry_ok [OF assms(1)] by (simp add: telemetry_ok_def)
  have "int i \<notin> fst ` set ?R"
    using assms(2) telemetry_middle_keys [of "int i" d] cell_summary_keys temperature_summary_keys
    unfolding set_append image_Un Un_iff by fastforce
  then have none: "map_of (rev ?R) (int i) = None" by (rule map_of_rev_none)
  have now: "dict_get (run_writes (telemetry_writes d)) (int i) = map_of (rev ?C) (int i)"
    unfolding run_writes_get telemetry_parts map_of_rev_append [of ?C] none by (simp only: option.case)
  have iff: "(int i, v) \<in> set ?C \<longleftrightarrow> i < length (te_cells d) \<and> te_cells d ! i \<noteq> NA \<and> v = s16 (te_cells d ! i)" for v
  proof -
    have "(0 + int i, v) \<in> set ?C \<longleftrightarrow> i < length (te_cells d) \<and> te_cells d ! i \<noteq> NA \<and> v = s16 (te_cells d ! i)"
      unfolding put_each_iff using assms(2) by (cases "i < length (te_cells d)") simp_all
    then show ?thesis by (simp only: add_0)
  qed
  have "map_of (rev ?C) (int i) = (if i < length (te_cells d) \<and> te_cells d ! i \<noteq> NA then Some (te_cells d ! i) else None)"
  proof (cases "i < length (te_cells d) \<and> te_cells d ! i \<noteq> NA")
    case True
    then have e: "s16 (te_cells d ! i) = te_cells d ! i"
      using ok by (simp add: list_all_length word_val_def s16_def)
    have "map_of (rev ?C) (int i) = Some (te_cells d ! i)"
      by (rule map_of_rev_unique) (simp_all only: iff e True simp_thms)
    then show ?thesis using True by (simp only: simp_thms if_True)
  next
    case False
    then have "int i \<notin> fst ` set ?C" using iff unfolding image_iff by (metis prod.collapse)
    then have "map_of (rev ?C) (int i) = None" by (rule map_of_rev_none)
    then show ?thesis using False by (simp only: if_False)
  qed
  then show ?thesis using now assms(1) by (simp add: words_for_def)
qed

definition two_cells :: "u8 list" where
  "two_cells = [0, 1, 2, 0x0C, 0xE4, 0xFF, 0xFF, 0, 0, 0, 0x14, 0x50, 0x27, 0x10]"

lemma two_cells_decoded: "map_option te_cells (decode_telemetry two_cells) = Some [3300, 0xFFFF]"
  by code_simp

theorem absent_cells_have_no_word_witness:
  "\<exists>out. words_for CMD_TELEMETRY two_cells = Some out \<and> dict_get out 0 = Some 3300 \<and> dict_get out 1 = None"
proof -
  obtain d where d: "decode_telemetry two_cells = Some d" "te_cells d = [3300, 0xFFFF]"
    using two_cells_decoded by auto
  show ?thesis
    using absent_cells_have_no_word [OF d(1), of 0] absent_cells_have_no_word [OF d(1), of 1] d(2)
    by (auto simp: NA_def)
qed

text \<open>
  The derived cell words agree with the cells of the same answer. The
  highest and lowest are attained by the cells they name, every cell present lies between
  them, the average too, and the spread is their difference.
\<close>

theorem derived_cells_consistent:
  assumes "decode_telemetry info = Some d" "present_cells (te_cells d) \<noteq> []"
  shows "\<exists>out hi lo avg i j. words_for CMD_TELEMETRY info = Some out
    \<and> dict_get out 0x40 = Some hi \<and> dict_get out 0x41 = Some lo \<and> dict_get out 0x42 = Some avg
    \<and> dict_get out 0x43 = Some (hi - lo) \<and> hi \<noteq> NA \<and> lo \<noteq> NA \<and> lo \<le> avg \<and> avg \<le> hi
    \<and> dict_get out 0x49 = Some (int i + 1) \<and> i < length (te_cells d) \<and> te_cells d ! i = hi
    \<and> dict_get out 0x4A = Some (int j + 1) \<and> j < length (te_cells d) \<and> te_cells d ! j = lo
    \<and> (\<forall>k < length (te_cells d). te_cells d ! k \<noteq> NA \<longrightarrow> lo \<le> te_cells d ! k \<and> te_cells d ! k \<le> hi)"
proof -
  let ?cells = "te_cells d"
  obtain x xs where p: "present_cells ?cells = x # xs" using assms(2) by (cases "present_cells ?cells") auto
  define hi lo where "hi = best (\<lambda>a b. b < a) x xs" and "lo = best (\<lambda>a b. a < b) x xs"
  define avg where "avg = mean_rounded (map snd (x # xs))"
  let ?S = "[(0x0040, snd hi), (0x0049, fst hi), (0x0041, snd lo), (0x004A, fst lo), (0x0042, avg), (0x0043, snd hi - snd lo)]"
  have s: "cell_summary (present_cells ?cells) = ?S"
    by (simp add: cell_summary_def p hi_def lo_def avg_def Let_def)
  let ?T = "temperature_summary (map (\<lambda>t. if t = NA then None else Some (t - 2731)) (te_temps d))"
  have get: "dict_get (run_writes (telemetry_writes d)) a = map_of (rev ?S) a"
    if "a \<in> {0x40, 0x41, 0x42, 0x43, 0x49, 0x4A}" for a
  proof -
    have "a \<notin> fst ` set ?T" using that temperature_summary_keys by fastforce
    then have t: "map_of (rev ?T) a = None" by (rule map_of_rev_none)
    have "map_of (rev ?S) a \<noteq> None" using that by auto
    then show ?thesis
      unfolding run_writes_get telemetry_parts s append_assoc [symmetric]
      by (simp only: map_of_rev_append [of _ ?T] t map_of_rev_append [of _ ?S]) auto
  qed
  have hi: "hi \<in> set (present_cells ?cells)" and lo: "lo \<in> set (present_cells ?cells)"
    using best_in [of _ x xs] unfolding hi_def lo_def p by simp_all
  obtain i where i: "i < length ?cells" "fst hi = int i + 1" "snd hi = ?cells ! i" "snd hi \<noteq> NA"
    using hi present_cells_in [of "fst hi" "snd hi" ?cells] by auto
  obtain j where j: "j < length ?cells" "fst lo = int j + 1" "snd lo = ?cells ! j" "snd lo \<noteq> NA"
    using lo present_cells_in [of "fst lo" "snd lo" ?cells] by auto
  have bound: "snd lo \<le> snd q \<and> snd q \<le> snd hi" if "q \<in> set (present_cells ?cells)" for q
    using that best_max [of q x xs] best_min [of q x xs] by (simp add: p hi_def lo_def)
  have cells: "snd lo \<le> ?cells ! k \<and> ?cells ! k \<le> snd hi" if "k < length ?cells" "?cells ! k \<noteq> NA" for k
    using bound [of "(int k + 1, ?cells ! k)"] that by (simp add: present_cells_in)
  have "snd lo \<le> avg \<and> avg \<le> snd hi"
    unfolding avg_def by (rule mean_between) (use bound p in auto)
  moreover have "words_for CMD_TELEMETRY info = Some (run_writes (telemetry_writes d))"
    using assms(1) by (simp add: words_for_def)
  ultimately show ?thesis
    using get [of "0x40"] get [of "0x41"] get [of "0x42"] get [of "0x43"] get [of "0x49"] get [of "0x4A"] i j cells
    by (intro exI [of _ "run_writes (telemetry_writes d)"] exI [of _ "snd hi"] exI [of _ "snd lo"] exI [of _ avg]
        exI [of _ i] exI [of _ j]) simp
qed

theorem derived_cells_consistent_witness:
  "\<exists>out. words_for CMD_TELEMETRY two_cells = Some out \<and> dict_get out 0x49 = Some 1 \<and> dict_get out 0x43 = Some 0"
proof -
  obtain d where d: "decode_telemetry two_cells = Some d" "te_cells d = [3300, 0xFFFF]"
    using two_cells_decoded by auto
  have "present_cells (te_cells d) \<noteq> []" by (simp add: d(2) present_cells_def NA_def upt_rec)
  from derived_cells_consistent [OF d(1) this] d(2) show ?thesis
    by (auto simp: less_Suc_eq NA_def numeral_eq_Suc)
qed

text \<open>
  A summary that cannot be trusted names nothing. When the master's summary has
  another length or head than the one known layout, or values that cannot be, only its raw
  words and its length reach the map.
\<close>

theorem untrusted_summary_names_nothing:
  assumes "length info \<noteq> 32 \<or> summary_problem (be_words info)" "words_for CMD_PARALLEL_SUMMARY info = Some out"
    and "dict_get out a \<noteq> None"
  shows "0x410 \<le> a \<and> a \<le> 0x43F"
proof -
  have "out = run_writes (summary_writes (decode_summary info))"
    using assms(2) by (simp add: words_for_def CMD_PARALLEL_SUMMARY_def CMD_TELEMETRY_def CMD_ALARMS_def CMD_MANUFACTURER_def)
  then have g: "dict_get out a = map_of (rev (summary_writes (decode_summary info))) a" by (simp only: run_writes_get)
  have w: "summary_writes (decode_summary info) = write_each 32 0x0410 (be_words info) @ [(0x043F, int (length info))]"
    using assms(1) by (simp add: summary_writes_def decode_summary_def Let_def)
  have "map_of (rev (write_each 32 0x0410 (be_words info) @ [(0x043F, int (length info))])) a \<noteq> None"
    using assms(3) unfolding g w .
  then have "a \<in> fst ` set (write_each 32 0x0410 (be_words info) @ [(0x043F, int (length info))])"
    by (rule contrapos_np) (rule map_of_rev_none)
  then have "a \<in> fst ` set (write_each 32 0x0410 (be_words info)) \<or> a = 0x043F" by auto
  then show ?thesis
  proof
    assume "a \<in> fst ` set (write_each 32 0x0410 (be_words info))"
    from write_each_keys [OF this] show ?thesis by simp
  qed simp
qed

theorem untrusted_summary_names_nothing_witness:
  "\<exists>out. words_for CMD_PARALLEL_SUMMARY [0, 1, 0x0D, 0xAC] = Some out \<and> dict_get out 0x401 = None"
proof -
  obtain out where "words_for CMD_PARALLEL_SUMMARY [0, 1, 0x0D, 0xAC] = Some out"
    by (simp add: words_for_def CMD_PARALLEL_SUMMARY_def CMD_TELEMETRY_def CMD_ALARMS_def CMD_MANUFACTURER_def)
  then have "dict_get out 0x401 \<noteq> None \<Longrightarrow> 0x410 \<le> (0x401 :: int)"
    using untrusted_summary_names_nothing [of "[0, 1, 0x0D, 0xAC]" out "0x401"] by simp
  then have "dict_get out 0x401 = None" by (cases "dict_get out 0x401") simp_all
  with \<open>words_for CMD_PARALLEL_SUMMARY [0, 1, 0x0D, 0xAC] = Some out\<close> show ?thesis by blast
qed

end
