(* ===== verification/SeplosBus.thy ===== *)
theory SeplosBus
  imports SeplosMap RegisterKeys
begin

text \<open>
  The Seplos V2 bus (\<open>multibus/seplos_v2.py\<close>): the listener, which pairs an answer with the
  question just heard, and the pack's client, which keeps the map's words and its own error
  counters and, in poll mode, asks again on failure. Clients and observers are numbers.
\<close>

section \<open>The listener\<close>

definition SEPLOS_WINDOW_S :: rat where "SEPLOS_WINDOW_S = 2"

datatype seplos_note = SBad frame_error | SRequest | SCommand | SOrphan | SResponse

datatype seplos_out =
    Answer nat nat seplos_frame nat
  | CountError nat frame_error
  | SHeard nat "(nat \<times> nat) option" seplos_note

record listener =
  li_clients :: "(nat, nat) dict"
  li_observers :: "(nat, nat list) dict"
  li_watchers :: "nat list"
  li_pending :: "(nat, nat \<times> rat) dict"
  li_frames :: nat
  li_bad :: nat
  li_orphans :: nat
  li_commands :: nat
  li_unpaired :: nat
  li_last_frame :: "rat option"

definition li_note :: "(nat \<times> nat) option \<Rightarrow> seplos_note \<Rightarrow> listener \<Rightarrow> seplos_out list" where
  "li_note who kind s = map (\<lambda>w. SHeard w who kind) (li_watchers s)"

definition li_orphan :: "seplos_frame \<Rightarrow> listener \<Rightarrow> seplos_out list \<times> listener" where
  "li_orphan fr s = (li_note (Some (fr_adr fr, fr_cid2 fr)) SOrphan s, s\<lparr>li_orphans := li_orphans s + 1\<rparr>)"

definition li_answer :: "seplos_frame \<Rightarrow> rat \<Rightarrow> nat \<Rightarrow> listener \<Rightarrow> seplos_out list \<times> listener" where
  "li_answer fr now rtn s0 =
     (let pend = dict_get (li_pending s0) (fr_adr fr);
          s = s0\<lparr>li_pending := dict_del (fr_adr fr) (li_pending s0)\<rparr>
      in case pend of
           None \<Rightarrow> li_orphan fr s
         | Some (cid2, t) \<Rightarrow>
             if SEPLOS_WINDOW_S < now - t then li_orphan fr s
             else (li_note (Some (fr_adr fr, cid2)) SResponse s
                   @ map (\<lambda>c. Answer c cid2 fr rtn)
                       ((case dict_get (li_clients s) (fr_adr fr) of Some c \<Rightarrow> [c] | None \<Rightarrow> [])
                        @ (case dict_get (li_observers s) (fr_adr fr) of Some l \<Rightarrow> l | None \<Rightarrow> [])), s))"

definition li_summary :: "seplos_frame \<Rightarrow> rat \<Rightarrow> listener \<Rightarrow> seplos_out list \<times> listener" where
  "li_summary fr now s =
     (if fr_info fr = []
      then (li_note (Some (fr_adr fr, fr_cid2 fr)) SRequest s,
            s\<lparr>li_pending := [(fr_adr fr, (CMD_PARALLEL_SUMMARY, now))]\<rparr>)
      else (case dict_get (li_pending s) (fr_adr fr) of
              Some (c, _) \<Rightarrow>
                if c \<noteq> CMD_PARALLEL_SUMMARY then li_orphan fr (s\<lparr>li_unpaired := li_unpaired s + 1\<rparr>)
                else li_answer fr now 0 s
            | None \<Rightarrow> li_orphan fr (s\<lparr>li_unpaired := li_unpaired s + 1\<rparr>)))"

definition li_on_frame :: "u8 list \<Rightarrow> rat \<Rightarrow> listener \<Rightarrow> seplos_out list \<times> listener" where
  "li_on_frame raw now s0 =
     (case seplos_parse raw of
        Inl e \<Rightarrow>
          (li_note None (SBad e) s0
           @ (case li_pending s0 of
                [(adr, _)] \<Rightarrow> (case dict_get (li_clients s0) adr of Some c \<Rightarrow> [CountError c e] | None \<Rightarrow> [])
              | _ \<Rightarrow> []),
           s0\<lparr>li_bad := li_bad s0 + 1\<rparr>)
      | Inr fr \<Rightarrow>
          (let s = s0\<lparr>li_frames := li_frames s0 + 1, li_last_frame := Some now\<rparr>
           in if fr_cid2 fr = CMD_PARALLEL_SUMMARY then li_summary fr now s
              else if is_request fr
              then (if fr_cid2 fr \<in> set READ_COMMANDS
                    then (li_note (Some (fr_adr fr, fr_cid2 fr)) SRequest s,
                          s\<lparr>li_pending := [(fr_adr fr, (fr_cid2 fr, now))]\<rparr>)
                    else (li_note (Some (fr_adr fr, fr_cid2 fr)) SCommand s,
                          s\<lparr>li_commands := li_commands s + 1, li_pending := []\<rparr>))
              else li_answer fr now (fr_cid2 fr) s))"

fun li_run :: "(u8 list \<times> rat) list \<Rightarrow> listener \<Rightarrow> seplos_out list \<times> listener" where
  "li_run [] s = ([], s)"
| "li_run ((raw, now) # rest) s =
     (let (o1, s1) = li_on_frame raw now s; (o2, s2) = li_run rest s1 in (o1 @ o2, s2))"

text \<open>Opening the port is a new stream: the question heard before the gap means nothing now.\<close>

definition li_open :: "listener \<Rightarrow> listener" where
  "li_open s = s\<lparr>li_pending := []\<rparr>"

section \<open>The pack's client\<close>

record unit_stats =
  st_good :: nat
  st_timeouts :: nat
  st_checksum :: nat
  st_frame :: nat
  st_rtn :: nat
  st_decode :: nat
  st_io :: nat
  st_last_rtn :: "nat option"
  st_last_ms :: "rat option"

record pack_client =
  pc_rows :: "int list"
  pc_words :: word_map
  pc_stats :: unit_stats
  pc_unused :: nat
  pc_last_rx :: "rat option"
  pc_last_rx_by_cmd :: "(nat, rat) dict"

datatype unit_error = EFrame frame_error | ETimeout | ERtn nat | EDecode | EIo

definition diag_words :: "pack_client \<Rightarrow> pack_client" where
  "diag_words c =
     (let s = pc_stats c;
          w0 = (case st_last_ms s of None \<Rightarrow> pc_words c
                | Some ms \<Rightarrow> dict_set 0x0F00 (min 0xFFFF (py_round ms)) (pc_words c));
          w1 = dict_set 0x0F01 (int (st_checksum s) mod 65536) w0;
          w2 = dict_set 0x0F02 (int (st_timeouts s) mod 65536) w1;
          w3 = dict_set 0x0F03 (int (st_rtn s) mod 65536) w2;
          w4 = (case st_last_rtn s of None \<Rightarrow> w3 | Some r \<Rightarrow> dict_set 0x0F04 (int r) w3);
          w5 = dict_set 0x0F05 (int (st_good s) mod 65536) w4
      in c\<lparr>pc_words := dict_set 0x0F06 (int (st_decode s) mod 65536) w5\<rparr>)"

definition count_error :: "unit_error \<Rightarrow> pack_client \<Rightarrow> pack_client" where
  "count_error e c =
     (let s = pc_stats c
      in diag_words (c\<lparr>pc_stats :=
           (case e of
              ETimeout \<Rightarrow> s\<lparr>st_timeouts := st_timeouts s + 1\<rparr>
            | EFrame ChecksumError \<Rightarrow> s\<lparr>st_checksum := st_checksum s + 1\<rparr>
            | EFrame LengthChecksumError \<Rightarrow> s\<lparr>st_checksum := st_checksum s + 1\<rparr>
            | EFrame _ \<Rightarrow> s\<lparr>st_frame := st_frame s + 1\<rparr>
            | ERtn code \<Rightarrow> s\<lparr>st_rtn := st_rtn s + 1, st_last_rtn := Some code\<rparr>
            | EDecode \<Rightarrow> s\<lparr>st_decode := st_decode s + 1\<rparr>
            | EIo \<Rightarrow> s\<lparr>st_io := st_io s + 1\<rparr>)\<rparr>))"

definition decoded_commands :: "nat list" where
  "decoded_commands = [CMD_TELEMETRY, CMD_ALARMS, CMD_MANUFACTURER, CMD_PARALLEL_SUMMARY]"

definition wanted :: "pack_client \<Rightarrow> nat list" where
  "wanted c = (if pc_rows c = [] then decoded_commands
               else filter (\<lambda>k. Some (Command k) \<in> area_of ` set (pc_rows c)) decoded_commands)"

text \<open>The answer's block is replaced whole; the second result is what \<open>_ingest_answer\<close> returns.\<close>

definition replace_block :: "nat \<Rightarrow> word_map \<Rightarrow> word_map \<Rightarrow> word_map" where
  "replace_block cid2 new words =
     foldl (\<lambda>m (a, v). dict_set a v m) (filter (\<lambda>(a, v). area_of a \<noteq> Some (Command cid2)) words) new"

definition ingest_answer :: "nat \<Rightarrow> u8 list \<Rightarrow> nat \<Rightarrow> rat \<Rightarrow> rat \<Rightarrow> pack_client \<Rightarrow> bool \<times> pack_client" where
  "ingest_answer cid2 info code now ms c =
     (if code \<noteq> 0 then (False, count_error (ERtn code) c)
      else if cid2 \<notin> set decoded_commands then (False, c)
      else if cid2 \<notin> set (wanted c) then (False, c\<lparr>pc_unused := pc_unused c + 1\<rparr>)
      else case words_for cid2 info of
             None \<Rightarrow> (False, count_error EDecode c)
           | Some new \<Rightarrow>
               (let problem = (cid2 = CMD_PARALLEL_SUMMARY \<and> su_problem (decode_summary info));
                    s = pc_stats c;
                    c1 = (if problem then count_error EDecode c
                          else c\<lparr>pc_stats := s\<lparr>st_good := st_good s + 1, st_last_ms := Some ms\<rparr>,
                                 pc_last_rx := Some now, pc_last_rx_by_cmd := dict_set cid2 now (pc_last_rx_by_cmd c)\<rparr>)
                in (\<not> problem, diag_words (c1\<lparr>pc_words := replace_block cid2 new (pc_words c1)\<rparr>))))"

text \<open>
  The commands one poll group asks, and the retries: \<open>outcomes\<close> is what each exchange on the
  bus would bring (a frame's data and response time, or its failure).
\<close>

definition plan_commands :: "int list \<Rightarrow> nat list" where
  "plan_commands rows =
     sort (remdups (concat (map (\<lambda>a. case area_of a of
         Some (Command k) \<Rightarrow> if k \<in> set decoded_commands \<and> k \<in> set READ_COMMANDS then [k] else []
       | _ \<Rightarrow> []) rows)))"

datatype outcome = Answered "u8 list" rat rat | Failed unit_error

fun poll_once :: "nat \<Rightarrow> nat \<Rightarrow> outcome list \<Rightarrow> pack_client \<Rightarrow> bool \<times> pack_client \<times> nat" where
  "poll_once cid2 0 outs c = (False, c, 0)"
| "poll_once cid2 (Suc n) [] c = (False, c, 0)"
| "poll_once cid2 (Suc n) (Answered info now ms # outs) c =
     (let (ok, c') = ingest_answer cid2 info 0 now ms c in (ok, c', 1))"
| "poll_once cid2 (Suc n) (Failed e # outs) c =
     (let c' = count_error e c
      in case e of
           ERtn _ \<Rightarrow> (False, c', 1)
         | EIo \<Rightarrow> (False, c', 1)
         | _ \<Rightarrow> (let (ok, c2, k) = poll_once cid2 n outs c' in (ok, c2, Suc k)))"

section \<open>An answer is the answer to the last question\<close>

text \<open>The question in the air after a frame, by what the protocol's master just asked.\<close>

definition asks :: "u8 list \<Rightarrow> rat \<Rightarrow> (nat \<times> nat \<times> rat) option option" where
  "asks raw now =
     (case seplos_parse raw of
        Inl e \<Rightarrow> None
      | Inr fr \<Rightarrow>
          if fr_cid2 fr = CMD_PARALLEL_SUMMARY
          then (if fr_info fr = [] then Some (Some (fr_adr fr, CMD_PARALLEL_SUMMARY, now)) else None)
          else if is_request fr
          then Some (if fr_cid2 fr \<in> set READ_COMMANDS then Some (fr_adr fr, fr_cid2 fr, now) else None)
          else None)"

fun last_question :: "(u8 list \<times> rat) list \<Rightarrow> (nat \<times> nat \<times> rat) option" where
  "last_question [] = None"
| "last_question (f # older) = (case asks (fst f) (snd f) of Some q \<Rightarrow> q | None \<Rightarrow> last_question older)"

definition fresh_listener :: "(nat, nat) dict \<Rightarrow> (nat, nat list) dict \<Rightarrow> listener" where
  "fresh_listener cls obs = \<lparr>li_clients = cls, li_observers = obs, li_watchers = [], li_pending = [], li_frames = 0,
     li_bad = 0, li_orphans = 0, li_commands = 0, li_unpaired = 0, li_last_frame = None\<rparr>"

text \<open>What is awaited is nothing, or the last question heard.\<close>

definition awaits :: "(u8 list \<times> rat) list \<Rightarrow> listener \<Rightarrow> bool" where
  "awaits heard s = (li_pending s = [] \<or>
     (\<exists>adr c t. li_pending s = [(adr, (c, t))] \<and> last_question heard = Some (adr, c, t)))"

lemma li_answer_pending: "li_pending (snd (li_answer fr now rtn s)) = dict_del (fr_adr fr) (li_pending s)"
  by (auto simp: li_answer_def li_orphan_def Let_def split: option.split prod.split)

lemma li_frame_pending:
  "li_pending (snd (li_on_frame raw now s)) =
     (case asks raw now of
        Some (Some (adr, c, t)) \<Rightarrow> [(adr, (c, t))]
      | Some None \<Rightarrow> []
      | None \<Rightarrow> li_pending (snd (li_on_frame raw now s)))"
  by (auto simp: asks_def li_on_frame_def li_summary_def Let_def split: sum.split option.split)

lemma li_frame_keeps:
  "asks raw now = None \<Longrightarrow> li_pending (snd (li_on_frame raw now s)) = li_pending s
     \<or> (\<exists>adr. li_pending (snd (li_on_frame raw now s)) = dict_del adr (li_pending s))"
  by (auto simp: asks_def li_on_frame_def li_summary_def li_orphan_def li_answer_pending Let_def
      split: sum.splits option.splits if_splits)

lemma awaits_step:
  assumes "awaits heard s"
  shows "awaits ((raw, now) # heard) (snd (li_on_frame raw now s))"
proof (cases "asks raw now")
  case None
  then show ?thesis
    using li_frame_keeps [OF None, of s] assms by (auto simp: awaits_def AList.delete_eq split: if_splits)
next
  case (Some q)
  then show ?thesis
    using li_frame_pending [of raw now s] by (cases q) (auto simp: awaits_def)
qed

lemma awaits_run: "awaits heard s \<Longrightarrow> awaits (rev fs @ heard) (snd (li_run fs s))"
proof (induction fs arbitrary: heard s)
  case (Cons f fs)
  obtain raw now where f: "f = (raw, now)" by (cases f)
  from Cons.IH [OF awaits_step [OF Cons.prems, of raw now]] show ?case
    by (simp add: f case_prod_beta)
qed simp

lemma no_answer_in_note [simp]: "Answer c cid2 fr rtn \<notin> set (li_note who kind s)"
  by (auto simp: li_note_def)

lemma no_answer_in_orphan [simp]: "Answer c cid2 fr rtn \<notin> set (fst (li_orphan fr' s))"
  by (simp add: li_orphan_def)

lemma li_answer_out:
  "Answer c cid2 fr' rtn' \<in> set (fst (li_answer fr now rtn s)) \<Longrightarrow>
     fr' = fr \<and> rtn' = rtn \<and> (\<exists>t. dict_get (li_pending s) (fr_adr fr) = Some (cid2, t) \<and> now - t \<le> SEPLOS_WINDOW_S)"
  by (auto simp: li_answer_def Let_def not_less split: option.splits prod.splits if_splits)

lemma li_frame_out:
  assumes "Answer c cid2 fr rtn \<in> set (fst (li_on_frame raw now s))"
  shows "seplos_parse raw = Inr fr \<and> (\<exists>t. dict_get (li_pending s) (fr_adr fr) = Some (cid2, t) \<and> now - t \<le> SEPLOS_WINDOW_S)"
  using assms
  by (auto simp: li_on_frame_def li_summary_def Let_def dest!: li_answer_out
      split: sum.splits option.splits if_splits list.splits prod.splits)




section \<open>The map after an answer\<close>

lemma dict_get_fold_set:
  "dict_get (foldl (\<lambda>m (a, v). dict_set a v m) m new) k =
     (case map_of (rev new) k of Some v \<Rightarrow> Some v | None \<Rightarrow> dict_get m k)"
proof (induction new rule: rev_induct)
  case (snoc p new)
  then show ?case by (cases p) (simp add: dict_simps)
qed simp

lemma dict_get_filter_keys:
  "dict_get (filter (\<lambda>(a, v). P a) m) k = (if P k then dict_get m k else None)"
  by (induction m) auto

lemma map_of_rev_ok: "dict_ok d \<Longrightarrow> map_of (rev d) k = map_of d k"
proof -
  assume ok: "dict_ok d"
  then have rok: "dict_ok (rev d)" by (simp add: rev_map [symmetric])
  have "map_of (rev d) k = Some v \<longleftrightarrow> map_of d k = Some v" for v
    using dict_in_get [OF ok, of k v] dict_in_get [OF rok, of k v] by simp
  then show ?thesis by (metis not_Some_eq)
qed

lemma replace_block_get:
  assumes "dict_ok new"
  shows "dict_get (replace_block cid2 new words) a =
     (case dict_get new a of Some v \<Rightarrow> Some v
      | None \<Rightarrow> if area_of a = Some (Command cid2) then None else dict_get words a)"
  unfolding replace_block_def dict_get_fold_set map_of_rev_ok [OF assms] dict_get_filter_keys
  by (simp split: option.split)

lemma diag_words_get:
  assumes "area_of a \<noteq> Some Diag"
  shows "dict_get (pc_words (diag_words c)) a = dict_get (pc_words c) a"
proof -
  have "a \<notin> {0x0F00, 0x0F01, 0x0F02, 0x0F03, 0x0F04, 0x0F05, 0x0F06}"
    using assms by (auto simp: area_of_def)
  then show ?thesis by (auto simp: diag_words_def Let_def dict_simps split: option.split)
qed

lemma count_error_get: "area_of a \<noteq> Some Diag \<Longrightarrow> dict_get (pc_words (count_error e c)) a = dict_get (pc_words c) a"
  by (simp add: count_error_def Let_def diag_words_get)

lemma words_for_ok: "words_for cid2 info = Some new \<Longrightarrow> dict_ok new"
  by (auto simp: words_for_def run_writes_ok split: if_splits)

text \<open>
  An answer replaces its block whole. After a decoded answer the map's page
  of that command holds exactly the words of this answer (a cell that disappeared keeps no
  old voltage), every other page is as it was, and only the diagnostics may have changed.
\<close>

theorem answer_replaces_block:
  assumes "ingest_answer cid2 info 0 now ms c = (True, c')" "length info \<le> 2047"
  shows "\<exists>new. words_for cid2 info = Some new \<and>
    (\<forall>a. area_of a = Some (Command cid2) \<longrightarrow> dict_get (pc_words c') a = dict_get new a) \<and>
    (\<forall>a. area_of a \<noteq> Some (Command cid2) \<and> area_of a \<noteq> Some Diag \<longrightarrow>
       dict_get (pc_words c') a = dict_get (pc_words c) a)"
proof -
  let ?c1 = "c\<lparr>pc_stats := (pc_stats c)\<lparr>st_good := st_good (pc_stats c) + 1, st_last_ms := Some ms\<rparr>,
     pc_last_rx := Some now, pc_last_rx_by_cmd := dict_set cid2 now (pc_last_rx_by_cmd c)\<rparr>"
  from assms(1) obtain new where new: "words_for cid2 info = Some new"
    and c': "c' = diag_words (?c1\<lparr>pc_words := replace_block cid2 new (pc_words ?c1)\<rparr>)"
    by (auto simp: ingest_answer_def Let_def split: if_splits option.splits)
  have ok: "dict_ok new" by (rule words_for_ok [OF new])
  have page: "area_of a = Some (Command cid2)" if "dict_get new a = Some v" for a v
    using words_stay_in_page_all [OF new dict_get_in [OF that] assms(2)] by simp
  have get: "area_of a \<noteq> Some Diag \<Longrightarrow> dict_get (pc_words c') a =
      (case dict_get new a of Some v \<Rightarrow> Some v
       | None \<Rightarrow> if area_of a = Some (Command cid2) then None else dict_get (pc_words c) a)" for a
    unfolding c' by (simp add: diag_words_get replace_block_get [OF ok])
  show ?thesis
    using new get page by (auto split: option.split)
qed

definition idle_pack :: pack_client where
  "idle_pack = \<lparr>pc_rows = [], pc_words = [(0x0000, 3300), (0x0205, 513)], pc_stats = \<lparr>st_good = 0, st_timeouts = 0,
     st_checksum = 0, st_frame = 0, st_rtn = 0, st_decode = 0, st_io = 0, st_last_rtn = None, st_last_ms = None\<rparr>,
     pc_unused = 0, pc_last_rx = None, pc_last_rx_by_cmd = []\<rparr>"

theorem answer_replaces_block_witness:
  "dict_get (pc_words (snd (ingest_answer 0x51 [0x42] 0 1 5 idle_pack))) 0x0205 = None
   \<and> dict_get (pc_words (snd (ingest_answer 0x51 [0x42] 0 1 5 idle_pack))) 0 = Some 3300"
proof -
  have w: "words_for 0x51 [0x42] = Some (run_writes (manufacturer_writes (decode_manufacturer [0x42])))"
    by (simp add: words_for_def CMD_TELEMETRY_def CMD_ALARMS_def CMD_MANUFACTURER_def)
  then have t: "fst (ingest_answer 0x51 [0x42] 0 1 5 idle_pack) = True"
    by (simp add: ingest_answer_def decoded_commands_def wanted_def idle_pack_def CMD_TELEMETRY_def CMD_ALARMS_def
        CMD_MANUFACTURER_def CMD_PARALLEL_SUMMARY_def Let_def)
  have m: "dict_get (run_writes (manufacturer_writes (decode_manufacturer [0x42]))) 0x0205 = None"
    by code_simp
  obtain c' where c': "ingest_answer 0x51 [0x42] 0 1 5 idle_pack = (True, c')" using t by (metis prod.collapse)
  from answer_replaces_block [OF c'] m w c' show ?thesis
    by (auto simp: area_of_def CMD_MANUFACTURER_def CMD_TELEMETRY_def idle_pack_def)
qed

end
