(* ===== verification/CanSignal.thy ===== *)
theory CanSignal
  imports RegisterCodec
begin

text \<open>
  Classic CAN signals in the DBC reading (\<open>multibus/can_signal.py\<close>): which bits of a frame a
  row occupies, what they decode to, and the checks a template's rows must pass. A frame's
  data is a list of bytes; a row is its dictionary of fields as a template holds it.
\<close>

definition STD_ID_MAX :: int where "STD_ID_MAX = 0x7FF"
definition EXT_ID_MAX :: int where "EXT_ID_MAX = 0x1FFFFFFF"
definition MAX_FRAME_BITS :: int where "MAX_FRAME_BITS = 64"

definition INT_TYPES :: "(string, nat \<times> bool) dict" where
  "INT_TYPES =
     [(''uint16'', (16, False)), (''uint32'', (32, False)), (''uint64'', (64, False)),
      (''int16'', (16, True)), (''short'', (16, True)),
      (''int32'', (32, True)), (''int64'', (64, True)), (''long64'', (64, True))]"

definition FLOAT_TYPES :: "(string, nat) dict" where
  "FLOAT_TYPES = [(''float'', 32), (''float32'', 32), (''double'', 64)]"

section \<open>Identifiers\<close>

text \<open>\<open>int(s, 0)\<close>: \<open>0x\<close>, \<open>0o\<close>, \<open>0b\<close> or a decimal without leading zeros.\<close>

definition base_digits :: "nat \<Rightarrow> string \<Rightarrow> int option" where
  "base_digits base ds =
     (if ds \<noteq> [] \<and> list_all (\<lambda>c. case hex_val c of None \<Rightarrow> False | Some d \<Rightarrow> d < base) ds
      then Some (int (foldl (\<lambda>a c. base * a + the (hex_val c)) 0 ds)) else None)"

definition parse_int0 :: "string \<Rightarrow> int option" where
  "parse_int0 txt =
     (let (sg, s) = split_sign (py_strip txt);
          u = (let p = py_lower (take 2 s) in
               if p = ''0x'' then base_digits 16 (drop 2 s)
               else if p = ''0o'' then base_digits 8 (drop 2 s)
               else if p = ''0b'' then base_digits 2 (drop 2 s)
               else if list_all is_digit s \<and> s \<noteq> [] \<and> hd s = CHR ''0'' \<and> list_ex (\<lambda>c. c \<noteq> CHR ''0'') s then None
               else base_digits 10 s)
      in map_option (\<lambda>n. if sg < 0 then - n else n) u)"

definition parse_can_id :: "pyval \<Rightarrow> int option" where
  "parse_can_id v =
     (case v of
        VInt n \<Rightarrow> Some n
      | VStr s \<Rightarrow> if py_strip s \<noteq> [] then parse_int0 s else None
      | _ \<Rightarrow> None)"

type_synonym can_row = "(string, pyval) dict"

definition get_field :: "can_row \<Rightarrow> string \<Rightarrow> pyval" where
  "get_field r k = (case dict_get r k of None \<Rightarrow> VNone | Some v \<Rightarrow> v)"

definition is_can_row :: "can_row \<Rightarrow> bool" where
  "is_can_row r = (get_field r ''can_id'' \<noteq> VNone \<and> get_field r ''can_id'' \<noteq> VStr [])"

definition frame_key :: "can_row \<Rightarrow> (int \<times> bool) option" where
  "frame_key r =
     (case parse_can_id (get_field r ''can_id'') of
        None \<Rightarrow> None
      | Some cid \<Rightarrow> Some (cid, truthy (get_field r ''can_id_extended'')))"

text \<open>
  \<open>str(v or 'little').lower()\<close> where only the two order names matter: a value that is
  neither text nor empty prints as no order name.
\<close>

definition order_text :: "pyval \<Rightarrow> string" where
  "order_text v = (if \<not> truthy v then ''little'' else case v of VStr s \<Rightarrow> py_lower s | _ \<Rightarrow> ''other'')"

definition type_text :: "pyval \<Rightarrow> string \<Rightarrow> string" where
  "type_text v dflt = (if \<not> truthy v then dflt else case v of VStr s \<Rightarrow> py_lower s | _ \<Rightarrow> ''other'')"

text \<open>
  \<open>can_fields\<close>: the row's CAN fields as they are written out. \<open>int(v)\<close> of a bit
  position that is no number raises: the outer None.
\<close>

definition int_field :: "can_row \<Rightarrow> string \<Rightarrow> can_row option" where
  "int_field r k =
     (if get_field r k = VNone then Some []
      else map_option (\<lambda>n. [(k, VInt n)]) (py_int (get_field r k)))"

definition can_fields :: "can_row \<Rightarrow> can_row option" where
  "can_fields r =
     (case parse_can_id (get_field r ''can_id'') of
        None \<Rightarrow> Some []
      | Some cid \<Rightarrow>
          (let hex = (if cid < 0 then ''0x-'' @ hex_str (nat (- cid)) else ''0x'' @ hex_str (nat cid));
               ext = (if truthy (get_field r ''can_id_extended'') then [(''can_id_extended'', VBool True)] else []);
               bo = get_field r ''byte_order'';
               order = (if truthy bo then [(''byte_order'', VStr (order_text bo))] else [])
           in case (int_field r ''start_bit'', int_field r ''bit_length'') of
                (Some sb, Some bl) \<Rightarrow> Some ((''can_id'', VStr hex) # ext @ sb @ bl @ order)
              | _ \<Rightarrow> None))"

section \<open>Bit positions\<close>

definition motorola_pos :: "nat \<Rightarrow> nat" where
  "motorola_pos start_bit = (start_bit div 8) * 8 + (7 - start_bit mod 8)"

definition signal_bits :: "nat \<Rightarrow> nat \<Rightarrow> string \<Rightarrow> nat list" where
  "signal_bits start_bit bit_length byte_order =
     (if byte_order = ''big''
      then (let pos = motorola_pos start_bit
            in map (\<lambda>p. (p div 8) * 8 + (7 - p mod 8)) [pos ..< pos + bit_length])
      else [start_bit ..< start_bit + bit_length])"

definition bits_needed :: "nat \<Rightarrow> nat \<Rightarrow> string \<Rightarrow> nat" where
  "bits_needed start_bit bit_length byte_order =
     (if byte_order = ''big'' then motorola_pos start_bit + bit_length else start_bit + bit_length)"

datatype signal_error = FrameTooShort | NotByteAligned | ShortText | RawOverflow | NoSignBit

definition extract_raw :: "u8 list \<Rightarrow> nat \<Rightarrow> nat \<Rightarrow> string \<Rightarrow> signal_error + int" where
  "extract_raw data start_bit bit_length byte_order =
     (let total = 8 * length data
      in if total < bits_needed start_bit bit_length byte_order then Inl FrameTooShort
         else (let msk = 2 ^ bit_length - 1
               in if byte_order = ''big''
                  then Inr (drop_bit (total - motorola_pos start_bit - bit_length) (from_big data) AND msk)
                  else Inr (drop_bit start_bit (from_little data) AND msk)))"

section \<open>Decoding a signal\<close>

text \<open>
  A decoded signal: an integer, a float pattern's value, or text as code points (a byte
  above 127 is the replacement character U+FFFD, a NUL a space, blanks stripped).
\<close>

datatype signal_value = SInt int | SFloat pyfloat | SText "nat list"

definition blank :: "nat \<Rightarrow> bool" where
  "blank c = (c = 32 \<or> 9 \<le> c \<and> c \<le> 13 \<or> 28 \<le> c \<and> c \<le> 31)"

definition decode_text :: "u8 list \<Rightarrow> nat list" where
  "decode_text chunk =
     (let cs = map (\<lambda>b. if 128 \<le> unat b then 0xFFFD else if b = 0 then 32 else unat b) chunk
      in rev (dropWhile blank (rev (dropWhile blank cs))))"

definition decode_signal :: "u8 list \<Rightarrow> nat \<Rightarrow> nat \<Rightarrow> string \<Rightarrow> string \<Rightarrow> signal_error + signal_value" where
  "decode_signal data sb bl bo dt =
     (if starts_with ''string'' dt
      then (if sb mod 8 \<noteq> 0 \<or> bl mod 8 \<noteq> 0 then Inl NotByteAligned
            else (let chunk = py_slice (sb div 8) (sb div 8 + bl div 8) data
                  in if length chunk < bl div 8 then Inl ShortText else Inr (SText (decode_text chunk))))
      else (case extract_raw data sb bl bo of
              Inl e \<Rightarrow> Inl e
            | Inr raw \<Rightarrow>
                (case dict_get FLOAT_TYPES dt of
                   Some w \<Rightarrow>
                     if 2 ^ w \<le> raw then Inl RawOverflow
                     else Inr (SFloat (if w = 32 then ieee_decode 8 23 raw else ieee_decode 11 52 raw))
                 | None \<Rightarrow>
                     (let signed = (case dict_get INT_TYPES dt of Some (_, s) \<Rightarrow> s | None \<Rightarrow> False)
                      in if signed \<and> bl = 0 then Inl NoSignBit
                         else if signed \<and> raw AND 2 ^ (bl - 1) \<noteq> 0 then Inr (SInt (raw - 2 ^ bl))
                         else Inr (SInt raw)))))"

section \<open>Template checks\<close>

datatype row_error =
    NotNamed | ExtendedNotBool | IdNotANumber | IdOver29Bits | IdOver11Bits
  | StartBitRange | BitLengthRange | UnknownOrder | OrderRequired | StringBigEndian | DoesNotFit
  | StringLength | StringAlignment | FloatWidth | TypeTooNarrow | TypeNotUsed
  | HasTopic | HasJsonPath | NoFrame | NotACanTemplate | BitrateRange

definition CAN_FIELDS :: "string list" where
  "CAN_FIELDS = [''can_id'', ''can_id_extended'', ''start_bit'', ''bit_length'', ''byte_order'']"

text \<open>\<open>_string_len\<close>: \<open>string:N\<close> or \<open>stringN\<close>.\<close>

definition string_len :: "string \<Rightarrow> nat option" where
  "string_len dt =
     (if starts_with ''string'' dt
      then (let r = drop 6 dt; ds = (if r \<noteq> [] \<and> hd r = CHR '':'' then tl r else r)
            in if ds \<noteq> [] \<and> list_all is_digit ds then Some (nat (digits_val ds)) else None)
      else None)"

definition type_errors :: "string \<Rightarrow> int \<Rightarrow> int \<Rightarrow> row_error list" where
  "type_errors dt sb bl =
     (if starts_with ''string'' dt
      then (if string_len dt = None \<or> int (the (string_len dt)) * 16 \<noteq> bl then [StringLength]
            else if sb mod 8 \<noteq> 0 then [StringAlignment] else [])
      else (case dict_get FLOAT_TYPES dt of
              Some w \<Rightarrow> if bl = int w then [] else [FloatWidth]
            | None \<Rightarrow>
                (case dict_get INT_TYPES dt of
                   Some (w, _) \<Rightarrow> if bl \<le> int w then [] else [TypeTooNarrow]
                 | None \<Rightarrow> [TypeNotUsed])))"

definition int_in :: "pyval \<Rightarrow> int \<Rightarrow> int \<Rightarrow> int option" where
  "int_in v lo hi = (case v of VInt n \<Rightarrow> if lo \<le> n \<and> n \<le> hi then Some n else None | _ \<Rightarrow> None)"

definition id_errors :: "pyval \<Rightarrow> bool \<Rightarrow> row_error list" where
  "id_errors cid ext =
     (case parse_can_id cid of
        None \<Rightarrow> [IdNotANumber]
      | Some n \<Rightarrow> if n < 0 then [IdNotANumber]
                  else if ext \<and> EXT_ID_MAX < n then [IdOver29Bits]
                  else if \<not> ext \<and> STD_ID_MAX < n then [IdOver11Bits] else [])"

definition row_errors :: "can_row \<Rightarrow> row_error list" where
  "row_errors r =
     (let present = filter (\<lambda>k. get_field r k \<noteq> VNone) CAN_FIELDS
      in if present = [] then []
         else if ''can_id'' \<notin> set present then [NotNamed]
         else
           (let extv = (case dict_get r ''can_id_extended'' of None \<Rightarrow> VBool False | Some v \<Rightarrow> v);
                ext_bad = (case extv of VNone \<Rightarrow> False | VBool _ \<Rightarrow> False | _ \<Rightarrow> True);
                ext = (\<not> ext_bad \<and> truthy extv);
                sb = int_in (get_field r ''start_bit'') 0 (MAX_FRAME_BITS - 1);
                bl = int_in (get_field r ''bit_length'') 1 MAX_FRAME_BITS;
                bov = get_field r ''byte_order'';
                bo_text = (case bov of VStr s \<Rightarrow> py_lower s | _ \<Rightarrow> ''other'');
                bo_bad = (bov \<noteq> VNone \<and> bo_text \<noteq> ''little'' \<and> bo_text \<noteq> ''big'');
                bo = (if bo_bad then ''little'' else order_text bov);
                dt = (case dict_get r ''data_type'' of None \<Rightarrow> ''float''
                        | Some v \<Rightarrow> (case v of VStr s \<Rightarrow> py_lower s | _ \<Rightarrow> ''other''));
                head = (if ext_bad then [ExtendedNotBool] else [])
                     @ id_errors (get_field r ''can_id'') ext
                     @ (if sb = None then [StartBitRange] else [])
                     @ (if bl = None then [BitLengthRange] else [])
                     @ (if bo_bad then [UnknownOrder] else [])
                     @ (if bov = VNone \<and> (case bl of Some n \<Rightarrow> 8 < n | None \<Rightarrow> False) then [OrderRequired] else [])
            in if starts_with ''string'' dt \<and> bo = ''big'' then head @ [StringBigEndian]
               else head
                  @ (case (sb, bl) of (Some s, Some n) \<Rightarrow>
                       if MAX_FRAME_BITS < int (bits_needed (nat s) (nat n) bo) then [DoesNotFit] else []
                     | _ \<Rightarrow> [])
                  @ (case bl of Some n \<Rightarrow> type_errors dt (case sb of Some s \<Rightarrow> s | None \<Rightarrow> 0) n | None \<Rightarrow> [])
                  @ (if truthy (get_field r ''topic'') then [HasTopic] else [])
                  @ (if truthy (get_field r ''json_path'') then [HasJsonPath] else [])))"

definition template_errors :: "string list \<Rightarrow> can_row list \<Rightarrow> pyval \<Rightarrow> row_error list" where
  "template_errors transports0 regs bitrate =
     (let transports = map py_lower transports0;
          is_can = list_ex (\<lambda>x. x = ''can'' \<or> x = ''can_tap'') transports
      in concat (map (\<lambda>r. row_errors r
              @ (if is_can \<and> \<not> is_can_row r then [NoFrame]
                 else if \<not> is_can \<and> transports \<noteq> [] \<and> is_can_row r then [NotACanTemplate] else [])) regs)
         @ (if bitrate = VNone then []
            else if int_in bitrate 10000 1000000 = None then [BitrateRange] else []))"

text \<open>The row's signal as the client decodes it (\<open>decode_signal(data, row)\<close>); None: \<open>int()\<close> raises.\<close>

definition row_bits :: "can_row \<Rightarrow> (nat \<times> nat) option" where
  "row_bits r =
     (case (py_int (get_field r ''start_bit''), py_int (get_field r ''bit_length'')) of
        (Some s, Some n) \<Rightarrow> if 0 \<le> s \<and> 0 \<le> n then Some (nat s, nat n) else None
      | _ \<Rightarrow> None)"

definition decode_row :: "u8 list \<Rightarrow> can_row \<Rightarrow> signal_error + signal_value" where
  "decode_row data r =
     (case row_bits r of
        None \<Rightarrow> Inl RawOverflow
      | Some (sb, bl) \<Rightarrow>
          decode_signal data sb bl (order_text (get_field r ''byte_order''))
            (type_text (get_field r ''data_type'') ''uint16''))"

text \<open>\<open>overlap_warnings\<close>: (frame, row, earlier row) for each pair of signals sharing a bit.\<close>

type_synonym seen_signals = "((int \<times> bool), (string \<times> nat list) list) dict"

fun overlap_scan :: "seen_signals \<Rightarrow> (can_row \<times> string) list \<Rightarrow> ((int \<times> bool) \<times> string \<times> string) list" where
  "overlap_scan seen [] = []"
| "overlap_scan seen ((r, name) # rest) =
     (case (frame_key r, row_bits r) of
        (Some key, Some (sb, bl)) \<Rightarrow>
          (let bits = signal_bits sb bl (order_text (get_field r ''byte_order''));
               earlier = (case dict_get seen key of Some l \<Rightarrow> l | None \<Rightarrow> []);
               hits = filter (\<lambda>(other, obits). list_ex (\<lambda>b. b \<in> set obits) bits) earlier
           in map (\<lambda>(other, obits). (key, name, other)) hits
              @ overlap_scan (dict_set key (earlier @ [(name, bits)]) seen) rest)
      | _ \<Rightarrow> overlap_scan seen rest)"

definition overlap_warnings :: "(can_row \<times> string) list \<Rightarrow> ((int \<times> bool) \<times> string \<times> string) list" where
  "overlap_warnings regs = overlap_scan [] regs"

section \<open>What a decoded signal is made of\<close>

text \<open>Bit \<open>b\<close> of a frame in DBC numbering: bit \<open>b mod 8\<close> of byte \<open>b div 8\<close>.\<close>

definition frame_bit :: "u8 list \<Rightarrow> nat \<Rightarrow> bool" where
  "frame_bit data b = (b < 8 * length data \<and> bit (data ! (b div 8)) (b mod 8))"

definition nth_signal_bit :: "nat \<Rightarrow> nat \<Rightarrow> string \<Rightarrow> nat \<Rightarrow> nat" where
  "nth_signal_bit sb bl bo k = signal_bits sb bl bo ! (if bo = ''big'' then bl - 1 - k else k)"

lemma length_signal_bits [simp]: "length (signal_bits sb bl bo) = bl"
  by (simp add: signal_bits_def Let_def)

lemma little_bit: "bo \<noteq> ''big'' \<Longrightarrow> k < bl \<Longrightarrow> nth_signal_bit sb bl bo k = sb + k"
  by (simp add: nth_signal_bit_def signal_bits_def)

lemma big_bit:
  "k < bl \<Longrightarrow> nth_signal_bit sb bl ''big'' k =
     (let p = motorola_pos sb + (bl - 1 - k) in (p div 8) * 8 + (7 - p mod 8))"
  by (simp add: nth_signal_bit_def signal_bits_def Let_def)

lemma bit_from_big_at:
  assumes "p < 8 * length data"
  shows "bit (from_big data) (8 * length data - 1 - p) \<longleftrightarrow> frame_bit data ((p div 8) * 8 + (7 - p mod 8))"
proof -
  define q r where "q = p div 8" and "r = p mod 8"
  have p: "p = 8 * q + r" and r: "r < 8" by (simp_all add: q_def r_def)
  define m where "m = length data - 1 - q"
  have q: "q < length data" using assms p by linarith
  then have len: "length data = m + q + 1" by (simp add: m_def)
  have n: "8 * length data - 1 - p = 8 * m + (7 - r)" using p r len by simp
  have dv: "(8 * m + (7 - r)) div 8 = m" "(8 * m + (7 - r)) mod 8 = 7 - r"
    using r div_mult_self4 [of 8 m "7 - r"] mod_mult_self4 [of 8 m "7 - r"] by (simp_all add: mod_less)
  have dv': "(q * 8 + (7 - r)) div 8 = q" "(q * 8 + (7 - r)) mod 8 = 7 - r"
    using r div_mult_self3 [of 8 q "7 - r"] mod_mult_self3 [of q 8 "7 - r"] by (simp_all add: mod_less)
  have "q * 8 + (7 - r) < 8 * length data" using q r by linarith
  moreover have "8 * m + (7 - r) < 8 * length data" using len r by linarith
  ultimately show ?thesis
    unfolding n bit_from_big frame_bit_def q_def [symmetric] r_def [symmetric] dv dv'
    using len by simp
qed

lemma extract_raw_little:
  "bo \<noteq> ''big'' \<Longrightarrow> extract_raw data sb bl bo = Inr v \<Longrightarrow>
     sb + bl \<le> 8 * length data \<and> v = take_bit bl (drop_bit sb (from_little data))"
  by (auto simp: extract_raw_def Let_def bits_needed_def codec_simps split: if_splits)

lemma extract_raw_big:
  "extract_raw data sb bl ''big'' = Inr v \<Longrightarrow>
     motorola_pos sb + bl \<le> 8 * length data \<and>
     v = take_bit bl (drop_bit (8 * length data - motorola_pos sb - bl) (from_big data))"
  by (auto simp: extract_raw_def Let_def bits_needed_def codec_simps split: if_splits)

lemma extract_raw_bit:
  assumes "extract_raw data sb bl bo = Inr v" and "k < bl"
  shows "bit v k \<longleftrightarrow> frame_bit data (nth_signal_bit sb bl bo k)"
proof (cases "bo = ''big''")
  case True
  define p where "p = motorola_pos sb + (bl - 1 - k)"
  from assms(1) True have fit: "motorola_pos sb + bl \<le> 8 * length data"
    and v: "v = take_bit bl (drop_bit (8 * length data - motorola_pos sb - bl) (from_big data))"
    using extract_raw_big by blast+
  have p: "p < 8 * length data" using fit assms(2) p_def by linarith
  have "8 * length data - motorola_pos sb - bl + k = 8 * length data - 1 - p"
    using fit assms(2) p_def by linarith
  then have "bit v k \<longleftrightarrow> bit (from_big data) (8 * length data - 1 - p)"
    using v assms(2) by (simp add: bit_simps)
  then show ?thesis
    using bit_from_big_at [OF p] True assms(2) by (simp add: big_bit Let_def p_def)
next
  case False
  with assms(1) have fit: "sb + bl \<le> 8 * length data"
    and v: "v = take_bit bl (drop_bit sb (from_little data))"
    using extract_raw_little by blast+
  show ?thesis
    using v fit assms(2) False by (simp add: bit_simps bit_from_little little_bit frame_bit_def)
qed

lemma extract_raw_range:
  "extract_raw data sb bl bo = Inr v \<Longrightarrow> 0 \<le> v \<and> v < 2 ^ bl"
  by (cases "bo = ''big''") (auto dest!: extract_raw_little extract_raw_big)

text \<open>
  The numbering of a CAN database: after a bit of a Motorola signal comes the next lower bit of
  the byte, and after its lowest the highest bit of the next byte.
\<close>

definition dbc_next :: "string \<Rightarrow> nat \<Rightarrow> nat" where
  "dbc_next bo b = (if bo = ''big'' then (if b mod 8 = 0 then b + 15 else b - 1) else b + 1)"

definition dbc_bit :: "nat \<Rightarrow> nat \<Rightarrow> string \<Rightarrow> nat \<Rightarrow> nat" where
  "dbc_bit sb bl bo k = (dbc_next bo ^^ (if bo = ''big'' then bl - 1 - k else k)) sb"

lemma motorola_walk: "(dbc_next ''big'' ^^ i) sb = ((motorola_pos sb + i) div 8) * 8 + (7 - (motorola_pos sb + i) mod 8)"
proof (induction i)
  case 0
  have e: "(q * 8 + r) div 8 = q \<and> (q * 8 + r) mod 8 = r" if "r < 8" for q r :: nat using that by simp
  have "(sb div 8 * 8 + (7 - sb mod 8)) div 8 = sb div 8 \<and> (sb div 8 * 8 + (7 - sb mod 8)) mod 8 = 7 - sb mod 8"
    by (rule e) simp
  moreover have "sb div 8 * 8 + sb mod 8 = sb" "sb mod 8 < 8" by simp_all
  ultimately show ?case by (simp add: motorola_pos_def)
next
  case (Suc i)
  define p where "p = motorola_pos sb + i"
  have p: "p mod 8 < 8" by simp
  have e: "(q * 8 + r) mod 8 = r" if "r < 8" for q r :: nat using that by simp
  have "p div 8 * 8 + (7 - p mod 8) - 1 = Suc p div 8 * 8 + (7 - Suc p mod 8)" if "p mod 8 < 7"
    using that by (simp add: mod_Suc div_Suc)
  moreover have "(p div 8 * 8 + (7 - p mod 8)) mod 8 = 7 - p mod 8"
    by (rule e) simp
  moreover have "p mod 8 = 7 \<Longrightarrow> Suc p div 8 * 8 + (7 - Suc p mod 8) = p div 8 * 8 + 15"
    by (simp add: mod_Suc div_Suc)
  moreover have "p mod 8 < 7 \<or> p mod 8 = 7" using p by linarith
  ultimately show ?case using Suc by (auto simp: dbc_next_def p_def [symmetric])
qed

lemma little_walk: "bo \<noteq> ''big'' \<Longrightarrow> (dbc_next bo ^^ i) sb = sb + i"
  by (induction i) (simp_all add: dbc_next_def)

lemma nth_signal_dbc: "k < bl \<Longrightarrow> nth_signal_bit sb bl bo k = dbc_bit sb bl bo k"
  by (cases "bo = ''big''") (simp_all add: big_bit little_bit dbc_bit_def motorola_walk little_walk Let_def)

text \<open>
  C25 (functional): A signal that decodes is exactly the frame bits its row names, in the
  numbering of CAN databases: bit \<open>k\<close> of the raw value is the \<open>k\<close>-th bit from the start of an
  Intel signal, the \<open>k\<close>-th before the end of a Motorola one, and there are no others.
\<close>

theorem signal_reads_its_bits:
  assumes "extract_raw data sb bl bo = Inr v"
  shows "0 \<le> v \<and> v < 2 ^ bl \<and> (\<forall>k. bit v k \<longleftrightarrow> k < bl \<and> frame_bit data (dbc_bit sb bl bo k))"
proof -
  have r: "0 \<le> v" "v < 2 ^ bl" using extract_raw_range [OF assms] by simp_all
  then have "take_bit bl v = v" by (simp add: take_bit_int_eq_self)
  then have "bit v k \<Longrightarrow> k < bl" for k by (metis bit_take_bit_iff)
  then show ?thesis using r extract_raw_bit [OF assms] nth_signal_dbc by metis
qed

theorem signal_reads_its_bits_witness:
  "bit (0x2D :: int) 2 \<longleftrightarrow> frame_bit [0x12, 0xD4, 0x00 :: u8] (dbc_bit 1 6 ''big'' 2)"
proof -
  have e: "extract_raw [0x12, 0xD4, 0x00 :: u8] 1 6 ''big'' = Inr 0x2D"
    by (simp add: extract_raw_def Let_def bits_needed_def motorola_pos_def from_big_def)
  have "bit (0x2D :: int) k \<longleftrightarrow> k < 6 \<and> frame_bit [0x12, 0xD4, 0x00 :: u8] (dbc_bit 1 6 ''big'' k)" for k
    using signal_reads_its_bits [OF e] by blast
  from this [of 2] show ?thesis by (simp del: One_nat_def)
qed

section \<open>A row the editor accepts decodes\<close>

lemma int_in_Some [simp]: "int_in v lo hi = Some n \<longleftrightarrow> v = VInt n \<and> lo \<le> n \<and> n \<le> hi"
  by (cases v) (auto simp: int_in_def)

lemma accepted_orders:
  "\<not> (bov \<noteq> VNone \<and> (case bov of VStr s \<Rightarrow> py_lower s | _ \<Rightarrow> ''other'') \<noteq> ''little''
        \<and> (case bov of VStr s \<Rightarrow> py_lower s | _ \<Rightarrow> ''other'') \<noteq> ''big'') \<Longrightarrow>
   order_text bov = ''little'' \<or> order_text bov = ''big''"
  by (auto simp: order_text_def split: pyval.splits if_splits)

lemma not_float_string: "starts_with ''string'' dt \<Longrightarrow> dict_get FLOAT_TYPES dt = None \<and> dict_get INT_TYPES dt = None"
proof -
  assume "starts_with ''string'' dt"
  then obtain r where "dt = ''string'' @ r" using starts_with_append by blast
  then show ?thesis by (simp add: FLOAT_TYPES_def INT_TYPES_def)
qed

lemma decode_string_ok:
  assumes "starts_with ''string'' dt" "sb mod 8 = 0" "bl mod 8 = 0" "sb + bl \<le> 8 * length data"
  shows "\<exists>v. decode_signal data sb bl bo dt = Inr v"
proof -
  have "sb div 8 + bl div 8 \<le> length data" using assms(2-4) by (auto simp: mod_eq_0_iff_dvd)
  then show ?thesis using assms by (simp add: decode_signal_def Let_def)
qed

lemma decode_number_ok:
  assumes "\<not> starts_with ''string'' dt" "bits_needed sb bl bo \<le> 8 * length data" "0 < bl"
    and w: "\<And>w. dict_get FLOAT_TYPES dt = Some w \<Longrightarrow> bl = w"
  shows "\<exists>v. decode_signal data sb bl bo dt = Inr v"
proof -
  from assms(2) obtain raw where raw: "extract_raw data sb bl bo = Inr raw"
    by (cases "extract_raw data sb bl bo") (auto simp: extract_raw_def Let_def split: if_splits)
  have "raw < 2 ^ bl" using extract_raw_range [OF raw] by simp
  then show ?thesis
    using assms(1,3) raw w by (auto simp: decode_signal_def Let_def not_le split: option.splits)
qed

lemma row_type_text:
  assumes "dt = (case dict_get r ''data_type'' of None \<Rightarrow> ''float''
                   | Some v \<Rightarrow> (case v of VStr s \<Rightarrow> py_lower s | _ \<Rightarrow> ''other''))"
    and "type_errors dt sb bl = []"
  shows "(dict_get r ''data_type'' = None \<and> type_text (get_field r ''data_type'') ''uint16'' = ''uint16'' \<and> bl = 32)
    \<or> type_text (get_field r ''data_type'') ''uint16'' = dt"
  using assms
  by (auto simp: type_text_def get_field_def type_errors_def starts_with_def FLOAT_TYPES_def INT_TYPES_def py_lower_def
      split: option.splits pyval.splits if_splits)

lemma string_type_aligned:
  assumes "starts_with ''string'' dt" "type_errors dt (int sb) (int bl) = []"
  shows "sb mod 8 = 0 \<and> bl mod 8 = 0"
proof -
  from assms have "int (the (string_len dt)) * 16 = int bl" and "int sb mod 8 = 0"
    by (auto simp: type_errors_def split: if_splits)
  then show ?thesis by presburger
qed

lemma accepted_type_decodes:
  assumes "type_errors dt (int sb) (int bl) = []" "bits_needed sb bl bo \<le> 8 * length data" "0 < bl"
    and "starts_with ''string'' dt \<Longrightarrow> bo \<noteq> ''big''"
  shows "\<exists>v. decode_signal data sb bl bo dt = Inr v"
proof (cases "starts_with ''string'' dt")
  case True
  with assms show ?thesis
    using string_type_aligned [OF True assms(1)] decode_string_ok [OF True] by (simp add: bits_needed_def)
next
  case False
  with assms show ?thesis
    by (intro decode_number_ok) (auto simp: type_errors_def split: if_splits)
qed

lemma row_errors_accept:
  assumes "row_errors r = []" "get_field r ''can_id'' \<noteq> VNone"
  obtains s n dt where
    "get_field r ''start_bit'' = VInt s" "0 \<le> s" "s \<le> 63"
    "get_field r ''bit_length'' = VInt n" "1 \<le> n" "n \<le> 64"
    "bits_needed (nat s) (nat n) (order_text (get_field r ''byte_order'')) \<le> 64"
    "dt = (case dict_get r ''data_type'' of None \<Rightarrow> ''float''
             | Some v \<Rightarrow> (case v of VStr s \<Rightarrow> py_lower s | _ \<Rightarrow> ''other''))"
    "type_errors dt s n = []"
    "starts_with ''string'' dt \<longrightarrow> order_text (get_field r ''byte_order'') \<noteq> ''big''"
proof -
  define bov where "bov = get_field r ''byte_order''"
  define dt where "dt = (case dict_get r ''data_type'' of None \<Rightarrow> ''float''
             | Some v \<Rightarrow> (case v of VStr s \<Rightarrow> py_lower s | _ \<Rightarrow> ''other''))"
  have p: "''can_id'' \<in> set (filter (\<lambda>k. get_field r k \<noteq> VNone) CAN_FIELDS)"
    using assms(2) by (simp add: CAN_FIELDS_def)
  define present where "present = filter (\<lambda>k. get_field r k \<noteq> VNone) CAN_FIELDS"
  have p: "present \<noteq> []" "''can_id'' \<in> set present"
    using p unfolding present_def by (metis empty_iff empty_set, blast)
  obtain s where s: "int_in (get_field r ''start_bit'') 0 63 = Some s"
    using assms(1) p
    by (cases "int_in (get_field r ''start_bit'') 0 63")
      (auto simp: row_errors_def Let_def present_def [symmetric] MAX_FRAME_BITS_def split: if_splits)
  obtain n where n: "int_in (get_field r ''bit_length'') 1 64 = Some n"
    using assms(1) p
    by (cases "int_in (get_field r ''bit_length'') 1 64")
      (auto simp: row_errors_def Let_def present_def [symmetric] MAX_FRAME_BITS_def split: if_splits)
  note e = assms(1) [unfolded row_errors_def Let_def, folded bov_def dt_def present_def, unfolded MAX_FRAME_BITS_def]
  have bo: "\<not> (bov \<noteq> VNone \<and> (case bov of VStr s \<Rightarrow> py_lower s | _ \<Rightarrow> ''other'') \<noteq> ''little''
        \<and> (case bov of VStr s \<Rightarrow> py_lower s | _ \<Rightarrow> ''other'') \<noteq> ''big'')"
    using e p s n by (auto simp del: int_in_Some split: if_splits)
  have str: "starts_with ''string'' dt \<Longrightarrow> order_text bov \<noteq> ''big''"
    using e p bo by (auto split: if_splits)
  have tail: "bits_needed (nat s) (nat n) (order_text bov) \<le> 64" "type_errors dt s n = []"
    using e p bo str s n by (auto simp del: int_in_Some split: if_splits)
  show thesis
    by (rule that [of s n dt]) (use s n str tail in \<open>auto simp: bov_def dt_def\<close>)
qed

text \<open>
  A CAN row the template check accepts is one the client can read: from every
  full eight-byte frame it decodes to a value, for every data type, byte order and position
  the check lets through. No accepted row raises at run time.
\<close>

theorem accepted_row_decodes:
  assumes "row_errors r = []" "get_field r ''can_id'' \<noteq> VNone" "length data = 8"
  shows "\<exists>v. decode_row data r = Inr v"
proof -
  from assms(1,2) obtain s n dt where row:
    "get_field r ''start_bit'' = VInt s" "0 \<le> s" "s \<le> 63"
    "get_field r ''bit_length'' = VInt n" "1 \<le> n" "n \<le> 64"
    and fit: "bits_needed (nat s) (nat n) (order_text (get_field r ''byte_order'')) \<le> 64"
    and dt: "dt = (case dict_get r ''data_type'' of None \<Rightarrow> ''float''
             | Some v \<Rightarrow> (case v of VStr s \<Rightarrow> py_lower s | _ \<Rightarrow> ''other''))"
    and ty: "type_errors dt s n = []"
    and str: "starts_with ''string'' dt \<longrightarrow> order_text (get_field r ''byte_order'') \<noteq> ''big''"
    by (rule row_errors_accept)
  let ?bo = "order_text (get_field r ''byte_order'')"
  have sn: "int (nat s) = s" "int (nat n) = n" "0 < nat n" using row by simp_all
  have "\<exists>v. decode_signal data (nat s) (nat n) ?bo (type_text (get_field r ''data_type'') ''uint16'') = Inr v"
  proof (rule disjE [OF row_type_text [OF dt ty]])
    assume "dict_get r ''data_type'' = None \<and> type_text (get_field r ''data_type'') ''uint16'' = ''uint16'' \<and> n = 32"
    then show ?thesis
      using decode_number_ok [of "''uint16''" "nat s" "nat n" ?bo data] fit sn assms(3)
      by (simp add: starts_with_def FLOAT_TYPES_def)
  next
    assume "type_text (get_field r ''data_type'') ''uint16'' = dt"
    then show ?thesis
      using accepted_type_decodes [of dt "nat s" "nat n" ?bo data] ty str fit sn assms(3) by simp
  qed
  then show ?thesis using row by (simp add: decode_row_def row_bits_def)
qed

definition soc_row :: can_row where
  "soc_row = [(''can_id'', VStr ''0x355''), (''start_bit'', VInt 0), (''bit_length'', VInt 16),
              (''byte_order'', VStr ''little''), (''data_type'', VStr ''uint16'')]"

theorem accepted_row_decodes_witness:
  "\<exists>v. decode_row [0x5A, 0, 0x63, 0, 0, 0, 0, 0] soc_row = Inr v"
proof -
  have "row_errors soc_row = []" by code_simp
  moreover have "get_field soc_row ''can_id'' \<noteq> VNone" by code_simp
  ultimately show ?thesis using accepted_row_decodes [of soc_row "[0x5A, 0, 0x63, 0, 0, 0, 0, 0]"] by simp
qed

section \<open>Rows written out and read back\<close>

lemma order_text_idem [simp]: "order_text (VStr (order_text v)) = order_text v"
proof -
  have k: "py_lower ''little'' = ''little''" "py_lower ''other'' = ''other''" by code_simp+
  show ?thesis
  proof (cases v)
    case (VStr s)
    have "py_lower s \<noteq> [] \<longleftrightarrow> s \<noteq> []" by (simp add: py_lower_def)
    with VStr k show ?thesis by (simp add: order_text_def)
  qed (simp_all add: order_text_def k)
qed

lemma hex_str_digits: "list_all (\<lambda>c. case hex_val c of None \<Rightarrow> False | Some d \<Rightarrow> d < 16) (hex_str n)"
proof (induction n rule: hex_str.induct)
  case (1 n)
  then show ?case by (cases "n < 16") (simp_all add: hex_str.simps [of n])
qed

lemma hex_digits_not_space: "is_hex c \<Longrightarrow> \<not> is_space c"
  by (auto simp: is_hex_def hex_val_def is_space_def Let_def split: if_splits)

lemma parse_int0_hex [simp]: "parse_int0 (''0x'' @ hex_str n) = Some (int n)"
proof -
  have h: "list_all is_hex (hex_str n)" "hex_str n \<noteq> []" using hex_str_hex by auto
  then have l: "\<not> is_space (last (''0x'' @ hex_str n))"
    using hex_digits_not_space by (simp add: list_all_iff)
  have s: "py_strip (''0x'' @ hex_str n) = ''0x'' @ hex_str n"
    by (rule py_strip_clean) (use l in \<open>simp_all add: is_space_def\<close>)
  have b: "base_digits 16 (hex_str n) = Some (int n)"
    using hex_str_digits [of n] h hex_nat_str [of n] by (simp add: base_digits_def hex_nat_def)
  show ?thesis
    unfolding parse_int0_def s using b by (simp add: split_sign_def py_lower_def lower_char_def Let_def)
qed

lemma can_fields_parts:
  assumes "can_fields r = Some out" "frame_key r = Some (cid, ext)"
  obtains sb bl where
    "int_field r ''start_bit'' = Some sb" "int_field r ''bit_length'' = Some bl"
    "out = (''can_id'', VStr (if cid < 0 then ''0x-'' @ hex_str (nat (- cid)) else ''0x'' @ hex_str (nat cid)))
       # (if ext then [(''can_id_extended'', VBool True)] else []) @ sb @ bl
       @ (if truthy (get_field r ''byte_order'') then [(''byte_order'', VStr (order_text (get_field r ''byte_order'')))] else [])"
  using assms by (auto simp: can_fields_def frame_key_def Let_def split: option.splits)

lemma int_field_get:
  assumes "int_field r k = Some l"
  shows "dict_get l j = (if j = k then map_option VInt (py_int (get_field r k)) else None)"
  using assms by (auto simp: int_field_def split: if_splits)

lemma written_row_get:
  assumes "can_fields r = Some out" "frame_key r = Some (cid, ext)"
  shows "dict_get out ''can_id'' = Some (VStr (if cid < 0 then ''0x-'' @ hex_str (nat (- cid)) else ''0x'' @ hex_str (nat cid)))"
    and "dict_get out ''can_id_extended'' = (if ext then Some (VBool True) else None)"
    and "dict_get out ''start_bit'' = map_option VInt (py_int (get_field r ''start_bit''))"
    and "dict_get out ''bit_length'' = map_option VInt (py_int (get_field r ''bit_length''))"
    and "dict_get out ''byte_order'' =
           (if truthy (get_field r ''byte_order'') then Some (VStr (order_text (get_field r ''byte_order''))) else None)"
    and "dict_get out ''data_type'' = None"
proof -
  from assms obtain sb bl where p: "int_field r ''start_bit'' = Some sb" "int_field r ''bit_length'' = Some bl"
    and o: "out = (''can_id'', VStr (if cid < 0 then ''0x-'' @ hex_str (nat (- cid)) else ''0x'' @ hex_str (nat cid)))
       # (if ext then [(''can_id_extended'', VBool True)] else []) @ sb @ bl
       @ (if truthy (get_field r ''byte_order'') then [(''byte_order'', VStr (order_text (get_field r ''byte_order'')))] else [])"
    by (rule can_fields_parts)
  note g = int_field_get [OF p(1)] int_field_get [OF p(2)]
  show "dict_get out ''can_id'' = Some (VStr (if cid < 0 then ''0x-'' @ hex_str (nat (- cid)) else ''0x'' @ hex_str (nat cid)))"
    by (simp add: o)
  show "dict_get out ''can_id_extended'' = (if ext then Some (VBool True) else None)"
    by (simp add: o g map_add_def)
  show "dict_get out ''start_bit'' = map_option VInt (py_int (get_field r ''start_bit''))"
    by (simp add: o g map_add_def split: option.splits)
  show "dict_get out ''bit_length'' = map_option VInt (py_int (get_field r ''bit_length''))"
    by (simp add: o g map_add_def split: option.splits)
  show "dict_get out ''byte_order'' =
           (if truthy (get_field r ''byte_order'') then Some (VStr (order_text (get_field r ''byte_order''))) else None)"
    by (simp add: o g map_add_def)
  show "dict_get out ''data_type'' = None"
    by (simp add: o g map_add_def)
qed

lemma untruthy_order: "\<not> truthy v \<Longrightarrow> order_text v = order_text VNone"
  by (simp add: order_text_def)

text \<open>
  The CAN fields written to a template or a selection file describe the same
  signal: read back, they name the same frame and the same bits in the same byte order, so
  every frame decodes the same way through the copy as through the row.
\<close>

theorem written_row_same_signal:
  assumes "can_fields r = Some out" "frame_key r = Some (cid, ext)" "0 \<le> cid"
  shows "frame_key out = frame_key r \<and>
         decode_row data (out @ [(''data_type'', get_field r ''data_type'')]) = decode_row data r"
proof
  note w = written_row_get [OF assms(1,2)]
  have "get_field out ''can_id'' = VStr (''0x'' @ hex_str (nat cid))"
    using w assms(3) by (simp add: get_field_def)
  moreover have "py_strip (''0x'' @ hex_str (nat cid)) \<noteq> []"
    using parse_int0_hex [of "nat cid"] by (auto simp: parse_int0_def split_sign_def base_digits_def py_lower_def)
  ultimately have "parse_can_id (get_field out ''can_id'') = Some cid"
    using assms(3) parse_int0_hex [of "nat cid"] by (simp only: parse_can_id_def pyval.case if_True) simp
  then show "frame_key out = frame_key r"
    using w(2) assms(2) by (auto simp: frame_key_def get_field_def [of out _])
  let ?out = "out @ [(''data_type'', get_field r ''data_type'')]"
  have "get_field ?out ''data_type'' = get_field r ''data_type''"
    using w(6) by (simp add: get_field_def [of ?out] map_add_def)
  moreover have "row_bits ?out = row_bits r"
    using w(3,4) by (auto simp: row_bits_def get_field_def [of ?out] map_add_def split: option.splits)
  moreover have "order_text (get_field ?out ''byte_order'') = order_text (get_field r ''byte_order'')"
    using w(5) untruthy_order [of "get_field r ''byte_order''"]
    by (auto simp: get_field_def [of ?out] map_add_def split: if_splits)
  ultimately show "decode_row data ?out = decode_row data r"
    by (simp only: decode_row_def)
qed

definition selection_row :: can_row where
  "selection_row = [(''can_id'', VInt 0x355), (''start_bit'', VStr ''7''), (''bit_length'', VInt 16),
                    (''byte_order'', VStr ''Big''), (''data_type'', VStr ''int16'')]"

theorem written_row_same_signal_witness:
  "\<exists>out. can_fields selection_row = Some out \<and>
     decode_row [0xFF, 0xFE] (out @ [(''data_type'', get_field selection_row ''data_type'')])
       = decode_row [0xFF, 0xFE] selection_row"
proof -
  define out where "out = [(''can_id'', VStr ''0x355''), (''start_bit'', VInt 7), (''bit_length'', VInt 16),
                           (''byte_order'', VStr ''big'')]"
  have "can_fields selection_row = Some out" unfolding out_def by code_simp
  moreover have "frame_key selection_row = Some (0x355, False)" by code_simp
  ultimately show ?thesis
    using written_row_same_signal [of selection_row out "0x355" False "[0xFF, 0xFE]"] by simp
qed

section \<open>Overlapping signals\<close>

text \<open>What a named row puts on the wire: its frame, its name and the bits it occupies.\<close>

definition occupies :: "can_row \<times> string \<Rightarrow> ((int \<times> bool) \<times> string \<times> nat list) option" where
  "occupies rn =
     (case (frame_key (fst rn), row_bits (fst rn)) of
        (Some key, Some (sb, bl)) \<Rightarrow>
          Some (key, snd rn, signal_bits sb bl (order_text (get_field (fst rn) ''byte_order'')))
      | _ \<Rightarrow> None)"

definition seen_at :: "seen_signals \<Rightarrow> (int \<times> bool) \<Rightarrow> (string \<times> nat list) set" where
  "seen_at seen key = set (case dict_get seen key of Some l \<Rightarrow> l | None \<Rightarrow> [])"

lemma overlap_scan_step:
  "overlap_scan seen (rn # rest) =
     (case occupies rn of
        None \<Rightarrow> overlap_scan seen rest
      | Some (key, name, bits) \<Rightarrow>
          (let earlier = (case dict_get seen key of Some l \<Rightarrow> l | None \<Rightarrow> [])
           in map (\<lambda>(other, obits). (key, name, other))
                (filter (\<lambda>(other, obits). list_ex (\<lambda>b. b \<in> set obits) bits) earlier)
              @ overlap_scan (dict_set key (earlier @ [(name, bits)]) seen) rest))"
  by (cases rn) (auto simp: occupies_def Let_def split: option.splits)

lemma seen_at_set:
  "seen_at (dict_set key ((case dict_get seen key of Some l \<Rightarrow> l | None \<Rightarrow> []) @ [e]) seen) k =
     (if k = key then insert e (seen_at seen key) else seen_at seen k)"
  by (auto simp add: seen_at_def dict_simps split: option.splits)

lemma overlap_scan_iff:
  "(key, a, b) \<in> set (overlap_scan seen rows) \<longleftrightarrow>
     (\<exists>j < length rows. \<exists>A B. occupies (rows ! j) = Some (key, a, A) \<and> set A \<inter> set B \<noteq> {} \<and>
        ((b, B) \<in> seen_at seen key \<or> (\<exists>i < j. occupies (rows ! i) = Some (key, b, B))))"
proof (induction rows arbitrary: seen)
  case Nil
  then show ?case by simp
next
  case (Cons rn rest)
  show ?case
  proof (cases "occupies rn")
    case None
    then show ?thesis
      by (simp add: overlap_scan_step Cons.IH Ex_less_Suc2)
  next
    case (Some t)
    obtain k n bits where t: "t = (k, n, bits)" by (cases t) auto
    define seen' where "seen' = dict_set k ((case dict_get seen k of Some l \<Rightarrow> l | None \<Rightarrow> []) @ [(n, bits)]) seen"
    have now: "overlap_scan seen (rn # rest) =
        map (\<lambda>(other, obits). (k, n, other))
            (filter (\<lambda>(other, obits). list_ex (\<lambda>b. b \<in> set obits) bits) (case dict_get seen k of Some l \<Rightarrow> l | None \<Rightarrow> []))
        @ overlap_scan seen' rest"
      using Some t by (simp add: overlap_scan_step Let_def seen'_def)
    have here: "(key, a, b) \<in> set (map (\<lambda>(other, obits). (k, n, other))
            (filter (\<lambda>(other, obits). list_ex (\<lambda>b. b \<in> set obits) bits) (case dict_get seen k of Some l \<Rightarrow> l | None \<Rightarrow> [])))
        \<longleftrightarrow> key = k \<and> a = n \<and> (\<exists>B. (b, B) \<in> seen_at seen k \<and> set bits \<inter> set B \<noteq> {})"
      by (force simp: seen_at_def list_ex_iff)
    have seen': "(b, B) \<in> seen_at seen' key \<longleftrightarrow> (b, B) \<in> seen_at seen key \<or> (key = k \<and> b = n \<and> B = bits)" for B
      using seen_at_set [of k seen "(n, bits)" key] by (auto simp: seen'_def)
    show ?thesis
      unfolding now set_append Un_iff here Cons.IH seen'
      by (simp add: Ex_less_Suc2 Some t) blast
  qed
qed

text \<open>
  The overlap check reports exactly the pairs that collide. A warning
  (frame, row, earlier row) is given if and only if both rows ride on that frame, the second
  stands before the first and their signals share a bit.
\<close>

theorem overlaps_reported:
  "(key, a, b) \<in> set (overlap_warnings rows) \<longleftrightarrow>
     (\<exists>j < length rows. \<exists>i < j. \<exists>A B. occupies (rows ! j) = Some (key, a, A) \<and>
        occupies (rows ! i) = Some (key, b, B) \<and> set A \<inter> set B \<noteq> {})"
  unfolding overlap_warnings_def overlap_scan_iff by (simp add: seen_at_def) blast

end
