(* ===== verification/CommandDispatch.thy ===== *)
theory CommandDispatch
  imports Prelude "HOL-Library.Multiset"
begin

text \<open>
  The command dispatcher of \<open>command_dispatch.py\<close>: the lanes (one per wire), the waiting
  commands of each device, what a new command replaces or is refused by, the turns, and the
  verdict every command is told.

  A Python object compared by identity is a record with its identity as \<open>jb_uid\<close>; the event
  \<open>job.done\<close> and \<open>job.result\<close> are the dictionary \<open>dp_results\<close> from identities to verdicts.
  Every operation is one critical section of the code (under \<open>_cond\<close>); the thread of a lane
  is the two steps \<open>serve_take\<close> and \<open>serve_finish\<close> around the call of \<open>run\<close>, whose outcome
  is an argument. The reason texts of the verdicts and the log are left out.
\<close>

section \<open>Jobs\<close>

type_synonym reply = "int \<times> (string, pyval) dict"

record job =
  jb_uid :: nat
  jb_lane :: string
  jb_device :: string
  jb_channel :: string
  jb_command :: string
  jb_params :: "(string, pyval) dict"
  jb_kind :: string
  jb_coalesce :: bool
  jb_value_keys :: "string list"
  jb_max_age :: "rat option"
  jb_id :: "string option"
  jb_admitted :: rat
  jb_deadline :: "rat option"
  jb_started :: "rat option"

definition KINDS :: "string list" where
  "KINDS = [''command'', ''sequence'', ''refresh'', ''revert'']"

definition SLOT_CAP :: int where "SLOT_CAP = 8"

text \<open>\<open>==\<close> of two dictionaries: the same keys with equal values, in any order.\<close>

definition py_dict_eq :: "(string, pyval) dict \<Rightarrow> (string, pyval) dict \<Rightarrow> bool" where
  "py_dict_eq a b = (length a = length b \<and>
     list_all (\<lambda>(k, v). case dict_get b k of None \<Rightarrow> False | Some w \<Rightarrow> py_eq v w) a)"

definition same_intent :: "job \<Rightarrow> job \<Rightarrow> bool" where
  "same_intent self other =
     (if jb_command self \<noteq> jb_command other \<or> jb_device self \<noteq> jb_device other \<or> jb_channel self \<noteq> jb_channel other
      then False
      else let strip = filter (\<lambda>(k, v). k \<notin> set (jb_value_keys self))
           in py_dict_eq (strip (jb_params self)) (strip (jb_params other)))"

definition mergeable :: "job \<Rightarrow> bool" where
  "mergeable j = (jb_kind j = ''command'' \<and> jb_coalesce j)"

section \<open>A lane\<close>

record lane =
  ln_urgent :: "job list"
  ln_pending :: "(string, job list) dict"
  ln_order :: "string list"
  ln_running :: "job option"
  ln_expired :: bool
  ln_thread :: bool

text \<open>
  \<open>ln_expired\<close> is the local \<open>expired\<close> of the lane's thread, for the command it has in hand.
\<close>

definition fresh_lane :: lane where
  "fresh_lane = \<lparr>ln_urgent = [], ln_pending = [], ln_order = [], ln_running = None, ln_expired = False, ln_thread = False\<rparr>"

definition ln_jobs :: "lane \<Rightarrow> job list" where
  "ln_jobs l = ln_urgent l @ concat (map snd (ln_pending l))"

definition ln_queue :: "lane \<Rightarrow> string \<Rightarrow> job list" where
  "ln_queue l dev = (case dict_get (ln_pending l) dev of None \<Rightarrow> [] | Some q \<Rightarrow> q)"

definition ln_slot :: "string \<Rightarrow> string \<Rightarrow> lane \<Rightarrow> job list" where
  "ln_slot dev ch l = filter (\<lambda>j. jb_channel j = ch) (ln_queue l dev)"

text \<open>\<open>job in q\<close>, \<open>q.remove(job)\<close> and \<open>q[q.index(old)] = new\<close>, all by identity.\<close>

definition holds_job :: "nat \<Rightarrow> job list \<Rightarrow> bool" where
  "holds_job u q = list_ex (\<lambda>j. jb_uid j = u) q"

fun remove_job :: "nat \<Rightarrow> job list \<Rightarrow> job list" where
  "remove_job u [] = []"
| "remove_job u (j # q) = (if jb_uid j = u then q else j # remove_job u q)"

fun replace_job :: "nat \<Rightarrow> job \<Rightarrow> job list \<Rightarrow> job list" where
  "replace_job u new [] = []"
| "replace_job u new (j # q) = (if jb_uid j = u then new # q else j # replace_job u new q)"

text \<open>\<open>_Lane.remove\<close>: the job as it stood in the lane, if it was waiting.\<close>

definition ln_remove :: "job \<Rightarrow> lane \<Rightarrow> job option \<times> lane" where
  "ln_remove j l =
     (if holds_job (jb_uid j) (ln_urgent l)
      then (find (\<lambda>k. jb_uid k = jb_uid j) (ln_urgent l), l\<lparr>ln_urgent := remove_job (jb_uid j) (ln_urgent l)\<rparr>)
      else case dict_get (ln_pending l) (jb_device j) of
        None \<Rightarrow> (None, l)
      | Some q \<Rightarrow>
          if \<not> holds_job (jb_uid j) q then (None, l)
          else let q' = remove_job (jb_uid j) q; found = find (\<lambda>k. jb_uid k = jb_uid j) q
               in if q' = []
                  then (found, l\<lparr>ln_pending := dict_del (jb_device j) (ln_pending l),
                                 ln_order := remove1 (jb_device j) (ln_order l)\<rparr>)
                  else (found, l\<lparr>ln_pending := dict_set (jb_device j) q' (ln_pending l)\<rparr>))"

text \<open>\<open>_Lane.next\<close>: reverts first, then one command of the next device in turn.\<close>

fun next_turn :: "(string, job list) dict \<Rightarrow> string list \<Rightarrow> job option \<times> (string, job list) dict \<times> string list" where
  "next_turn pend [] = (None, pend, [])"
| "next_turn pend (dev # order) =
     (case dict_get pend dev of
        Some (j # q) \<Rightarrow> if q \<noteq> [] then (Some j, dict_set dev q pend, order @ [dev])
                        else (Some j, dict_del dev pend, order)
      | _ \<Rightarrow> next_turn (dict_del dev pend) order)"

definition ln_next :: "lane \<Rightarrow> job option \<times> lane" where
  "ln_next l =
     (case ln_urgent l of
        j # q \<Rightarrow> (Some j, l\<lparr>ln_urgent := q\<rparr>)
      | [] \<Rightarrow> (let (j, pend, order) = next_turn (ln_pending l) (ln_order l)
              in (j, l\<lparr>ln_pending := pend, ln_order := order\<rparr>)))"

text \<open>
  \<open>_admit\<close>: the lane with the job placed, and who is told what (the newcomer refused, or the
  waiting job it replaced).
\<close>

definition put_off :: reply where
  "put_off = (409, [(''status'', VStr ''rejected''), (''retry'', VBool True)])"

definition superseded :: reply where
  "superseded = (409, [(''status'', VStr ''superseded''), (''superseded'', VBool True)])"

definition queue_full :: reply where
  "queue_full = (429, [(''status'', VStr ''rejected'')])"

definition ln_admit :: "int \<Rightarrow> job \<Rightarrow> lane \<Rightarrow> lane \<times> (job \<times> reply) list" where
  "ln_admit cap job l =
     (if jb_kind job = ''revert'' then (l\<lparr>ln_urgent := ln_urgent l @ [job]\<rparr>, [])
      else let slot = ln_slot (jb_device job) (jb_channel job) l
      in if jb_kind job = ''refresh'' \<and> slot \<noteq> [] then (l, [(job, put_off)])
      else if slot \<noteq> [] \<and> mergeable job \<and> mergeable (last slot) \<and> same_intent (last slot) job
      then (l\<lparr>ln_pending := dict_set (jb_device job)
               (replace_job (jb_uid (last slot)) job (ln_queue l (jb_device job))) (ln_pending l)\<rparr>,
            [(last slot, superseded)])
      else if cap \<le> int (length slot) then (l, [(job, queue_full)])
      else if dict_get (ln_pending l) (jb_device job) = None
      then (l\<lparr>ln_pending := dict_set (jb_device job) [job] (ln_pending l),
              ln_order := ln_order l @ [jb_device job]\<rparr>, [])
      else (l\<lparr>ln_pending := dict_set (jb_device job) (ln_queue l (jb_device job) @ [job]) (ln_pending l)\<rparr>, []))"

section \<open>Queues by identity\<close>

lemma holds_job_iff: "holds_job u q \<longleftrightarrow> u \<in> jb_uid ` set q"
  by (auto simp: holds_job_def list_ex_iff)

lemma remove_job_mset:
  "holds_job u q \<Longrightarrow> \<exists>j. find (\<lambda>k. jb_uid k = u) q = Some j \<and> jb_uid j = u \<and> mset q = add_mset j (mset (remove_job u q))"
  by (induction q) (auto simp: holds_job_def)

lemma replace_job_mset:
  "k \<in> set q \<Longrightarrow> distinct (map jb_uid q) \<Longrightarrow>
   add_mset k (mset (replace_job (jb_uid k) j q)) = add_mset j (mset q)"
  by (induction q) (auto simp: image_iff)

lemma set_remove_job: "set (remove_job u q) \<subseteq> set q"
  by (induction q) auto

lemma set_replace_job: "set (replace_job u j q) \<subseteq> insert j (set q)"
  by (induction q) auto

lemma replace_job_Nil [simp]: "replace_job u j q = [] \<longleftrightarrow> q = []"
  by (cases q) auto

section \<open>The lane's invariant\<close>

definition queues_ok :: "(string, job list) dict \<Rightarrow> bool" where
  "queues_ok d = (dict_ok d \<and>
     (\<forall>dev q. dict_get d dev = Some q \<longrightarrow> q \<noteq> [] \<and> (\<forall>j \<in> set q. jb_device j = dev)))"

definition waiting :: "(string, job list) dict \<Rightarrow> job multiset" where
  "waiting d = dict_sum mset d"

definition lane_ok :: "lane \<Rightarrow> bool" where
  "lane_ok l = (queues_ok (ln_pending l) \<and> distinct (ln_order l) \<and> set (ln_order l) = fst ` set (ln_pending l)
     \<and> distinct (map jb_uid (ln_jobs l)))"

lemma mset_concat_waiting: "mset (concat (map snd d)) = waiting d"
  by (induction d) (auto simp: waiting_def)

lemma mset_ln_jobs: "mset (ln_jobs l) = mset (ln_urgent l) + waiting (ln_pending l)"
  by (simp add: ln_jobs_def mset_concat_waiting)

lemma queues_okD:
  assumes "queues_ok d" "dict_get d dev = Some q"
  shows "q \<noteq> []" "\<forall>j \<in> set q. jb_device j = dev"
  using assms unfolding queues_ok_def by blast+

lemma queues_ok_set:
  "queues_ok d \<Longrightarrow> q \<noteq> [] \<Longrightarrow> \<forall>j \<in> set q. jb_device j = dev \<Longrightarrow> queues_ok (dict_set dev q d)"
  unfolding queues_ok_def by (simp only: dict_simps) (metis option.inject)

lemma queues_ok_del: "queues_ok d \<Longrightarrow> queues_ok (dict_del dev d)"
  unfolding queues_ok_def by (simp only: dict_simps) (metis option.distinct(1))

lemma distinct_uids_mset: "mset xs = mset ys \<Longrightarrow> distinct (map jb_uid xs) = distinct (map jb_uid ys)"
  by (metis mset_map mset_eq_imp_distinct_iff)

lemma distinct_uids_split: "mset xs = add_mset j (mset ys) \<Longrightarrow> distinct (map jb_uid xs) \<longleftrightarrow> jb_uid j \<notin> jb_uid ` set ys \<and> distinct (map jb_uid ys)"
  using distinct_uids_mset [of xs "j # ys"] by simp

lemma lane_okD:
  assumes "lane_ok l"
  shows "queues_ok (ln_pending l)" "distinct (ln_order l)" "set (ln_order l) = fst ` set (ln_pending l)"
    "distinct (map jb_uid (ln_jobs l))" "dict_ok (ln_pending l)"
  using assms by (simp_all add: lane_ok_def queues_ok_def)

lemma lane_okI:
  assumes "queues_ok (ln_pending l)" "distinct (ln_order l)" "set (ln_order l) = fst ` set (ln_pending l)"
    "distinct (map jb_uid (ln_jobs l))"
  shows "lane_ok l"
  using assms by (simp add: lane_ok_def)

lemma queue_in_jobs: "set (ln_queue l dev) \<subseteq> set (ln_jobs l)"
  proof (cases "dict_get (ln_pending l) dev")
  case (Some q)
  then have "(dev, q) \<in> set (ln_pending l)" by (rule dict_get_in)
  then show ?thesis using Some by (auto simp: ln_queue_def ln_jobs_def)
qed (simp add: ln_queue_def)

lemma queue_uids: "dict_get (ln_pending l) dev = Some q \<Longrightarrow> lane_ok l \<Longrightarrow> distinct (map jb_uid q)"
proof -
  assume g: "dict_get (ln_pending l) dev = Some q" and ok: "lane_ok l"
  obtain r where "waiting (ln_pending l) = mset q + r"
    unfolding waiting_def using dict_sum_member [OF g, of mset] by blast
  then have "mset (ln_jobs l) = mset (q @ (SOME ys. mset ys = mset (ln_urgent l) + r))"
    using ex_mset [of "mset (ln_urgent l) + r"] someI_ex [of "\<lambda>ys. mset ys = mset (ln_urgent l) + r"]
    by (simp add: mset_ln_jobs ac_simps)
  then show "distinct (map jb_uid q)" using lane_okD(4) [OF ok] distinct_uids_mset by fastforce
qed

lemma waiting_set: "dict_get d dev = Some q \<Longrightarrow> waiting (dict_set dev q' d) + mset q = waiting d + mset q'"
  unfolding waiting_def by (rule dict_sum_set)

lemma waiting_new: "dict_get d dev = None \<Longrightarrow> waiting (dict_set dev q d) = waiting d + mset q"
  unfolding waiting_def by (rule dict_sum_set_new)

lemma waiting_del: "queues_ok d \<Longrightarrow> dict_get d dev = Some q \<Longrightarrow> waiting (dict_del dev d) + mset q = waiting d"
  unfolding waiting_def by (rule dict_sum_del) (simp_all add: queues_ok_def)

lemma keys_in: "dict_get d k \<noteq> None \<longleftrightarrow> k \<in> fst ` set d"
  by (simp add: map_of_eq_None_iff)

lemma queue_keys_set: "dict_get d dev = Some q \<Longrightarrow> fst ` set (dict_set dev q' d) = fst ` set d"
  using keys_in [of d dev] by (auto simp: dict_keys_set)

lemma keys_del: "fst ` set (dict_del dev d) = fst ` set d - {dev}"
  by (auto simp: AList.delete_eq image_iff)

lemma keys_new: "fst ` set (dict_set dev q d) = insert dev (fst ` set d)"
  by (rule dict_keys_set)

text \<open>Taking a turn.\<close>

lemma next_turn_take:
  assumes "queues_ok d" "distinct order" "set order = fst ` set d" "next_turn d order = (r, d', order')"
  shows "queues_ok d' \<and> distinct order' \<and> set order' = fst ` set d' \<and>
     (case r of None \<Rightarrow> d = [] \<and> d' = [] | Some j \<Rightarrow> waiting d = add_mset j (waiting d'))"
proof (cases order)
  case Nil
  then show ?thesis using assms by auto
next
  case (Cons dev rest)
  then obtain q where g: "dict_get d dev = Some q" using assms(3) keys_in [of d dev] by auto
  have q: "q \<noteq> []" "\<forall>j \<in> set q. jb_device j = dev" using queues_okD [OF assms(1) g] by simp_all
  then obtain j q' where qq: "q = j # q'" by (cases q) auto
  show ?thesis
  proof (cases "q' = []")
    case True
    then have "r = Some j" "d' = dict_del dev d" "order' = rest" using assms(4) Cons g qq by simp_all
    then show ?thesis
      using assms(1-3) Cons waiting_del [OF assms(1) g] qq True by (auto simp: queues_ok_del keys_del)
  next
    case False
    then have "r = Some j" "d' = dict_set dev q' d" "order' = rest @ [dev]" using assms(4) Cons g qq by simp_all
    then show ?thesis
      using assms(1-3) Cons waiting_set [OF g, of q'] qq False q queue_keys_set [OF g, of q']
      by (auto simp: queues_ok_set)
  qed
qed

lemma ln_next_ok:
  assumes "lane_ok l" "ln_next l = (r, l')"
  shows "lane_ok l' \<and> (case r of None \<Rightarrow> ln_jobs l = [] \<and> ln_jobs l' = []
     | Some j \<Rightarrow> mset (ln_jobs l) = add_mset j (mset (ln_jobs l')))"
proof (cases "ln_urgent l")
  case (Cons j q)
  then have "r = Some j" "l' = l\<lparr>ln_urgent := q\<rparr>" using assms(2) by (simp_all add: ln_next_def)
  then show ?thesis using assms(1) Cons by (auto simp: lane_ok_def ln_jobs_def)
next
  case Nil
  obtain d' order' where n: "next_turn (ln_pending l) (ln_order l) = (r, d', order')"
    and l': "l' = l\<lparr>ln_pending := d', ln_order := order'\<rparr>"
    using assms(2) Nil by (auto simp: ln_next_def split: prod.splits)
  note t = next_turn_take [OF lane_okD(1-3) [OF assms(1)] n]
  show ?thesis
  proof (cases r)
    case None
    then show ?thesis using t assms(1) Nil l' by (auto simp: lane_ok_def ln_jobs_def)
  next
    case (Some j)
    then have m: "mset (ln_jobs l) = add_mset j (mset (ln_jobs l'))"
      using t Nil l' by (simp add: mset_ln_jobs)
    then have "distinct (map jb_uid (ln_jobs l'))"
      using distinct_uids_split [OF m] lane_okD(4) [OF assms(1)] by simp
    then show ?thesis using m t l' Some by (auto simp: lane_ok_def)
  qed
qed

text \<open>Taking a job back.\<close>

lemma ln_remove_ok:
  assumes "lane_ok l" "ln_remove j l = (r, l')"
  shows "lane_ok l' \<and> (case r of None \<Rightarrow> l' = l
     | Some k \<Rightarrow> jb_uid k = jb_uid j \<and> mset (ln_jobs l) = add_mset k (mset (ln_jobs l')))"
proof (cases "holds_job (jb_uid j) (ln_urgent l)")
  case True
  from remove_job_mset [OF True] obtain k where
    k: "r = Some k" "jb_uid k = jb_uid j" "l' = l\<lparr>ln_urgent := remove_job (jb_uid j) (ln_urgent l)\<rparr>"
      "mset (ln_urgent l) = add_mset k (mset (remove_job (jb_uid j) (ln_urgent l)))"
    using assms(2) True by (auto simp: ln_remove_def)
  then have m: "mset (ln_jobs l) = add_mset k (mset (ln_jobs l'))" by (simp add: mset_ln_jobs)
  then have "distinct (map jb_uid (ln_jobs l'))"
    using distinct_uids_split [OF m] lane_okD(4) [OF assms(1)] by simp
  then show ?thesis using m k assms(1) by (auto simp: lane_ok_def)
next
  case False
  show ?thesis
  proof (cases "\<exists>q. dict_get (ln_pending l) (jb_device j) = Some q \<and> holds_job (jb_uid j) q")
    case no: False
    then have "r = None \<and> l' = l" using assms(2) False by (auto simp: ln_remove_def split: option.splits)
    then show ?thesis using assms(1) by simp
  next
    case yes: True
    let ?d = "ln_pending l" and ?dev = "jb_device j"
    from yes obtain q where g: "dict_get ?d ?dev = Some q" and h: "holds_job (jb_uid j) q" by blast
    from remove_job_mset [OF h] obtain k where
      k: "find (\<lambda>k. jb_uid k = jb_uid j) q = Some k" "jb_uid k = jb_uid j" "mset q = add_mset k (mset (remove_job (jb_uid j) q))"
      by blast
    note ok = lane_okD [OF assms(1)]
    have dev: "\<forall>x \<in> set (remove_job (jb_uid j) q). jb_device x = ?dev"
      using queues_okD(2) [OF ok(1) g] set_remove_job [of "jb_uid j" q] by auto
    have "queues_ok (ln_pending l') \<and> distinct (ln_order l') \<and> set (ln_order l') = fst ` set (ln_pending l')
      \<and> r = Some k \<and> waiting ?d = add_mset k (waiting (ln_pending l')) \<and> ln_urgent l' = ln_urgent l"
    proof (cases "remove_job (jb_uid j) q = []")
      case True
      then have "r = Some k" "l' = l\<lparr>ln_pending := dict_del ?dev ?d, ln_order := remove1 ?dev (ln_order l)\<rparr>"
        using assms(2) False g h k by (simp_all add: ln_remove_def)
      then show ?thesis
        using ok waiting_del [OF ok(1) g] k True by (auto simp: queues_ok_del keys_del set_remove1_eq)
    next
      case ne: False
      then have "r = Some k" "l' = l\<lparr>ln_pending := dict_set ?dev (remove_job (jb_uid j) q) ?d\<rparr>"
        using assms(2) False g h k by (simp_all add: ln_remove_def)
      then show ?thesis
        using ok waiting_set [OF g, of "remove_job (jb_uid j) q"] k ne dev queue_keys_set [OF g]
        by (auto simp: queues_ok_set)
    qed
    then have s: "queues_ok (ln_pending l')" "distinct (ln_order l')" "set (ln_order l') = fst ` set (ln_pending l')"
      "r = Some k" "mset (ln_jobs l) = add_mset k (mset (ln_jobs l'))" by (simp_all add: mset_ln_jobs)
    have "distinct (map jb_uid (ln_jobs l'))" using distinct_uids_split [OF s(5)] ok(4) by simp
    then show ?thesis using s k by (auto intro: lane_okI)
  qed
qed

text \<open>Placing a job.\<close>

lemma last_slot_in: "ln_slot dev ch l \<noteq> [] \<Longrightarrow> last (ln_slot dev ch l) \<in> set (ln_queue l dev) \<and> jb_channel (last (ln_slot dev ch l)) = ch"
  using last_in_set [of "ln_slot dev ch l"] by (auto simp: ln_slot_def)

lemma ln_queue_get: "ln_queue l dev \<noteq> [] \<Longrightarrow> dict_get (ln_pending l) dev = Some (ln_queue l dev)"
  by (auto simp: ln_queue_def split: option.splits)

lemma ln_admit_cases:
  assumes adm: "ln_admit cap job l = (l', told)"
  obtains (revert) "jb_kind job = ''revert''" "l' = l\<lparr>ln_urgent := ln_urgent l @ [job]\<rparr>" "told = []"
    | (refused) r where "jb_kind job \<noteq> ''revert''" "l' = l" "told = [(job, r)]"
    | (replaced) "jb_kind job \<noteq> ''revert''" "ln_slot (jb_device job) (jb_channel job) l \<noteq> []"
        "mergeable job" "mergeable (last (ln_slot (jb_device job) (jb_channel job) l))"
        "same_intent (last (ln_slot (jb_device job) (jb_channel job) l)) job"
        "told = [(last (ln_slot (jb_device job) (jb_channel job) l), superseded)]"
        "l' = l\<lparr>ln_pending := dict_set (jb_device job)
           (replace_job (jb_uid (last (ln_slot (jb_device job) (jb_channel job) l))) job (ln_queue l (jb_device job))) (ln_pending l)\<rparr>"
    | (new) "jb_kind job \<noteq> ''revert''" "int (length (ln_slot (jb_device job) (jb_channel job) l)) < cap"
        "dict_get (ln_pending l) (jb_device job) = None" "told = []"
        "l' = l\<lparr>ln_pending := dict_set (jb_device job) [job] (ln_pending l), ln_order := ln_order l @ [jb_device job]\<rparr>"
    | (more) "jb_kind job \<noteq> ''revert''" "int (length (ln_slot (jb_device job) (jb_channel job) l)) < cap"
        "dict_get (ln_pending l) (jb_device job) \<noteq> None" "told = []"
        "l' = l\<lparr>ln_pending := dict_set (jb_device job) (ln_queue l (jb_device job) @ [job]) (ln_pending l)\<rparr>"
proof -
  let ?dev = "jb_device job" and ?d = "ln_pending l"
  let ?slot = "ln_slot ?dev (jb_channel job) l"
  let ?merge = "?slot \<noteq> [] \<and> mergeable job \<and> mergeable (last ?slot) \<and> same_intent (last ?slot) job"
  note branch = adm [unfolded ln_admit_def Let_def]
  consider (a) "jb_kind job = ''revert''" | (b) "jb_kind job \<noteq> ''revert''" "jb_kind job = ''refresh'' \<and> ?slot \<noteq> []"
    | (c) "jb_kind job \<noteq> ''revert''" "\<not> (jb_kind job = ''refresh'' \<and> ?slot \<noteq> [])" "?merge"
    | (d) "jb_kind job \<noteq> ''revert''" "\<not> (jb_kind job = ''refresh'' \<and> ?slot \<noteq> [])" "\<not> ?merge" "cap \<le> int (length ?slot)"
    | (e) "jb_kind job \<noteq> ''revert''" "\<not> (jb_kind job = ''refresh'' \<and> ?slot \<noteq> [])" "\<not> ?merge" "\<not> cap \<le> int (length ?slot)"
    by argo
  then show ?thesis
  proof cases
    case a
    then show ?thesis using branch revert by simp
  next
    case b
    then show ?thesis using branch refused [of put_off] by simp
  next
    case c
    note b' = branch [unfolded if_not_P [OF c(1)] if_not_P [OF c(2)] if_P [OF c(3)]]
    show ?thesis by (rule replaced) (use b' c in simp_all)
  next
    case d
    note b' = branch [unfolded if_not_P [OF d(1)] if_not_P [OF d(2)] if_not_P [OF d(3)] if_P [OF d(4)]]
    show ?thesis by (rule refused [of queue_full]) (use b' d in simp_all)
  next
    case e
    note b' = branch [unfolded if_not_P [OF e(1)] if_not_P [OF e(2)] if_not_P [OF e(3)] if_not_P [OF e(4)]]
    show ?thesis
    proof (cases "dict_get ?d ?dev = None")
      case True
      with b' have "l' = l\<lparr>ln_pending := dict_set ?dev [job] ?d, ln_order := ln_order l @ [?dev]\<rparr> \<and> told = []" by simp
      with True e show ?thesis using new by linarith
    next
      case False
      with b' have "l' = l\<lparr>ln_pending := dict_set ?dev (ln_queue l ?dev @ [job]) ?d\<rparr> \<and> told = []" by simp
      with False e show ?thesis using more by linarith
    qed
  qed
qed

lemma ln_admit_pending:
  assumes ok: "queues_ok (ln_pending l)" "distinct (ln_order l)" "set (ln_order l) = fst ` set (ln_pending l)"
    and uids: "distinct (map jb_uid (ln_queue l (jb_device job)))"
    and adm: "ln_admit cap job l = (l', told)"
  shows "queues_ok (ln_pending l') \<and> distinct (ln_order l') \<and> set (ln_order l') = fst ` set (ln_pending l') \<and>
    mset (ln_jobs l') + mset (map fst told) = add_mset job (mset (ln_jobs l))"
proof -
  let ?dev = "jb_device job" and ?d = "ln_pending l"
  let ?slot = "ln_slot ?dev (jb_channel job) l"
  from adm show ?thesis
  proof (cases rule: ln_admit_cases)
    case revert
    then show ?thesis using ok by (simp add: mset_ln_jobs)
  next
    case refused
    then show ?thesis using ok by simp
  next
    case replaced
    from last_slot_in [OF replaced(2)] have t: "last ?slot \<in> set (ln_queue l ?dev)" by simp
    then have ne: "ln_queue l ?dev \<noteq> []" by auto
    note g = ln_queue_get [OF ne]
    have m: "add_mset (last ?slot) (mset (replace_job (jb_uid (last ?slot)) job (ln_queue l ?dev)))
        = add_mset job (mset (ln_queue l ?dev))"
      by (rule replace_job_mset [OF t uids])
    let ?q' = "replace_job (jb_uid (last ?slot)) job (ln_queue l ?dev)"
    have dev: "\<forall>j \<in> set ?q'. jb_device j = ?dev"
      using queues_okD(2) [OF ok(1) g] set_replace_job [of "jb_uid (last ?slot)" job "ln_queue l ?dev"] by blast
    have l': "ln_pending l' = dict_set ?dev ?q' ?d" "ln_order l' = ln_order l" "ln_urgent l' = ln_urgent l"
      using replaced(7) by simp_all
    have ne': "?q' \<noteq> []" using ne by simp
    have "queues_ok (ln_pending l')" unfolding l'(1) by (rule queues_ok_set [OF ok(1) ne' dev])
    moreover have "set (ln_order l') = fst ` set (ln_pending l')"
      unfolding l' queue_keys_set [OF g] by (rule ok(3))
    moreover have "mset (ln_jobs l') + {#last ?slot#} = add_mset job (mset (ln_jobs l))"
    proof -
      have "waiting (ln_pending l') + {#last ?slot#} + mset (ln_queue l ?dev)
          = waiting ?d + add_mset job (mset (ln_queue l ?dev))"
        unfolding l'(1) m [symmetric] using waiting_set [OF g, of ?q'] by (simp add: ac_simps)
      then have "waiting (ln_pending l') + {#last ?slot#} = add_mset job (waiting ?d)" by simp
      then show ?thesis by (simp add: mset_ln_jobs l'(3))
    qed
    ultimately show ?thesis using ok(2) l'(2) replaced(6) by simp
  next
    case new
    have "?dev \<notin> set (ln_order l)" using new(3) keys_in [of ?d ?dev] ok(3) by simp
    then show ?thesis
      using ok new waiting_new [OF new(3), of "[job]"] by (simp add: queues_ok_set keys_new mset_ln_jobs)
  next
    case more
    then obtain q where g: "dict_get ?d ?dev = Some q" by blast
    then have q: "ln_queue l ?dev = q" by (simp add: ln_queue_def)
    show ?thesis
      using ok more waiting_set [OF g, of "q @ [job]"] queues_okD(2) [OF ok(1) g] queue_keys_set [OF g]
      by (simp add: queues_ok_set mset_ln_jobs q)
  qed
qed

lemma ln_admit_ok:
  assumes "lane_ok l" "jb_uid job \<notin> jb_uid ` set (ln_jobs l)" "ln_admit cap job l = (l', told)"
  shows "lane_ok l' \<and> mset (ln_jobs l') + mset (map fst told) = add_mset job (mset (ln_jobs l))"
proof -
  note ok = lane_okD [OF assms(1)]
  have "distinct (map jb_uid (ln_queue l (jb_device job)))"
    using queue_uids [OF _ assms(1)] by (auto simp: ln_queue_def split: option.split)
  note a = ln_admit_pending [OF ok(1-3) this assms(3)]
  have "distinct (map jb_uid (ln_jobs l' @ map fst told)) = distinct (map jb_uid (job # ln_jobs l))"
    by (rule distinct_uids_mset) (use a in simp)
  then have "distinct (map jb_uid (ln_jobs l'))" using assms(2) ok(4) by simp
  then show ?thesis using a by (auto simp: lane_ok_def)
qed

section \<open>The contract of a pool of waiting work\<close>

text \<open>
  What the dispatcher relies on, whatever the discipline of the pool: placing, taking and
  taking back only move jobs between the pool and whoever is told. \<open>contents\<close> abstracts the
  pool to the jobs that wait.
\<close>

datatype pool_op = Put job | Take | Back job

fun placed :: "pool_op list \<Rightarrow> job list" where
  "placed [] = []"
| "placed (Put j # ps) = j # placed ps"
| "placed (_ # ps) = placed ps"

lemma placed_Cons: "placed (p # ps) = placed [p] @ placed ps"
  by (cases p) simp_all

locale work_pool =
  fixes inv :: "'l \<Rightarrow> bool" and contents :: "'l \<Rightarrow> job list"
    and put :: "job \<Rightarrow> 'l \<Rightarrow> 'l \<times> (job \<times> reply) list"
    and take_next :: "'l \<Rightarrow> job option \<times> 'l"
    and take_back :: "job \<Rightarrow> 'l \<Rightarrow> job option \<times> 'l"
  assumes put: "inv l \<Longrightarrow> jb_uid j \<notin> jb_uid ` set (contents l) \<Longrightarrow> put j l = (l', told) \<Longrightarrow>
      inv l' \<and> mset (contents l') + mset (map fst told) = add_mset j (mset (contents l))"
    and take_next: "inv l \<Longrightarrow> take_next l = (r, l') \<Longrightarrow>
      inv l' \<and> (case r of None \<Rightarrow> contents l = [] \<and> contents l' = [] | Some j \<Rightarrow> mset (contents l) = add_mset j (mset (contents l')))"
    and take_back: "inv l \<Longrightarrow> take_back j l = (r, l') \<Longrightarrow>
      inv l' \<and> (case r of None \<Rightarrow> l' = l | Some k \<Rightarrow> jb_uid k = jb_uid j \<and> mset (contents l) = add_mset k (mset (contents l')))"
begin

definition pool_do :: "pool_op \<Rightarrow> 'l \<Rightarrow> 'l \<times> job list" where
  "pool_do p l = (case p of
     Put j \<Rightarrow> (let (l', told) = put j l in (l', map fst told))
   | Take \<Rightarrow> (case take_next l of (r, l') \<Rightarrow> (l', case r of None \<Rightarrow> [] | Some j \<Rightarrow> [j]))
   | Back j \<Rightarrow> (case take_back j l of (r, l') \<Rightarrow> (l', case r of None \<Rightarrow> [] | Some k \<Rightarrow> [k])))"

fun pool_run :: "pool_op list \<Rightarrow> 'l \<Rightarrow> 'l \<times> job list" where
  "pool_run [] l = (l, [])"
| "pool_run (p # ps) l = (let (l1, out) = pool_do p l; (l2, outs) = pool_run ps l1 in (l2, out @ outs))"

lemma pool_do_ok:
  assumes "inv l" "pool_do p l = (l', out)" "\<And>j. p = Put j \<Longrightarrow> jb_uid j \<notin> jb_uid ` set (contents l)"
  shows "inv l' \<and> mset (contents l') + mset out = mset (contents l) + mset (placed [p])"
proof (cases p)
  case (Put j)
  obtain l1 told where e: "put j l = (l1, told)" by fastforce
  then have "l' = l1" "out = map fst told" using assms(2) Put by (auto simp: pool_do_def)
  then show ?thesis using put [OF assms(1) assms(3) [OF Put] e] Put by simp
next
  case Take
  obtain r l1 where e: "take_next l = (r, l1)" by fastforce
  then show ?thesis using take_next [OF assms(1) e] assms(2) Take by (auto simp: pool_do_def split: option.splits)
next
  case (Back j)
  obtain r l1 where e: "take_back j l = (r, l1)" by fastforce
  then show ?thesis using take_back [OF assms(1) e] assms(2) Back by (auto simp: pool_do_def split: option.splits)
qed

lemma pool_conserves:
  assumes "inv l" "distinct (map jb_uid (contents l @ placed ps))" "pool_run ps l = (l', out)"
  shows "inv l' \<and> mset (contents l') + mset out = mset (contents l) + mset (placed ps)"
  using assms
proof (induction ps arbitrary: l out)
  case (Cons p ps)
  obtain l1 o1 where s: "pool_do p l = (l1, o1)" by fastforce
  obtain o2 where r: "pool_run ps l1 = (l', o2)" and out: "out = o1 @ o2"
    using Cons.prems(3) s by (auto simp: Let_def split: prod.splits)
  have p1: "inv l1 \<and> mset (contents l1) + mset o1 = mset (contents l) + mset (placed [p])"
    by (rule pool_do_ok [OF Cons.prems(1) s]) (use Cons.prems(2) in auto)
  have "mset (o1 @ contents l1 @ placed ps) = mset (contents l @ placed (p # ps))"
    using p1 by (simp add: placed_Cons [of p ps] ac_simps)
  then have "distinct (map jb_uid (o1 @ contents l1 @ placed ps))"
    using Cons.prems(2) distinct_uids_mset by blast
  then have "inv l' \<and> mset (contents l') + mset o2 = mset (contents l1) + mset (placed ps)"
    using p1 by (intro Cons.IH [OF _ _ r]) simp_all
  moreover have "mset (placed (p # ps)) = mset (placed [p]) + mset (placed ps)" by (simp add: placed_Cons [of p ps])
  ultimately show ?case using p1 out by (simp add: ac_simps)
qed simp

end

interpretation lane_pool: work_pool lane_ok ln_jobs "ln_admit cap" ln_next ln_remove for cap
  by unfold_locales (use ln_admit_ok ln_next_ok ln_remove_ok in blast)+

section \<open>The dispatcher\<close>

record dispatcher =
  dp_lanes :: "(string, lane) dict"
  dp_counters :: "(string \<times> string, (string, int) dict) dict"
  dp_stopped :: bool
  dp_closing :: bool
  dp_cap :: int
  dp_results :: "(nat, reply) dict"

definition dispatcher_init :: "int \<Rightarrow> dispatcher" where
  "dispatcher_init cap = \<lparr>dp_lanes = [], dp_counters = [], dp_stopped = False, dp_closing = False, dp_cap = cap, dp_results = []\<rparr>"

definition zero_counts :: "(string, int) dict" where
  "zero_counts = [(''superseded'', 0), (''expired'', 0), (''held'', 0)]"

definition count_event :: "string \<Rightarrow> string \<Rightarrow> string \<Rightarrow> dispatcher \<Rightarrow> dispatcher" where
  "count_event dev cmd what d =
     (let c = (case dict_get (dp_counters d) (dev, cmd) of None \<Rightarrow> zero_counts | Some c \<Rightarrow> c);
          n = (case dict_get c what of None \<Rightarrow> 0 | Some n \<Rightarrow> n)
      in d\<lparr>dp_counters := dict_set (dev, cmd) (dict_set what (n + 1) c) (dp_counters d)\<rparr>)"

definition counters :: "string \<Rightarrow> string \<Rightarrow> dispatcher \<Rightarrow> (string, int) dict" where
  "counters dev cmd d =
     (case dict_get (dp_counters d) (dev, cmd) of None \<Rightarrow> zero_counts | Some c \<Rightarrow> if c = [] then zero_counts else c)"

definition dp_forget :: "string \<Rightarrow> dispatcher \<Rightarrow> dispatcher" where
  "dp_forget dev d = d\<lparr>dp_counters := filter (\<lambda>(k, c). fst k \<noteq> dev) (dp_counters d)\<rparr>"

definition set_default :: "string \<Rightarrow> pyval \<Rightarrow> (string, pyval) dict \<Rightarrow> (string, pyval) dict" where
  "set_default k v d = (if dict_get d k = None then dict_set k v d else d)"

definition queued_ms :: "rat \<Rightarrow> job \<Rightarrow> pyval" where
  "queued_ms now j =
     VFloat (py_round_dec (((case jb_started j of None \<Rightarrow> now | Some t \<Rightarrow> t) - jb_admitted j) * 1000) 1)"

text \<open>\<open>_complete\<close>: the first verdict stands.\<close>

definition complete :: "rat \<Rightarrow> job \<Rightarrow> reply \<Rightarrow> dispatcher \<Rightarrow> dispatcher" where
  "complete now j r d =
     (if dict_get (dp_results d) (jb_uid j) \<noteq> None then d
      else let res = set_default ''queued_ms'' (queued_ms now j) (snd r);
               res = (case jb_id j of None \<Rightarrow> res | Some i \<Rightarrow> set_default ''id'' (VStr i) res)
           in d\<lparr>dp_results := dp_results d @ [(jb_uid j, (fst r, res))]\<rparr>)"

definition complete_all :: "rat \<Rightarrow> (job \<times> reply) list \<Rightarrow> dispatcher \<Rightarrow> dispatcher" where
  "complete_all now told d = fold (\<lambda>(j, r). complete now j r) told d"

datatype dispatch_error = UnknownKind | WaitInLane

definition stopping :: reply where
  "stopping = (503, [(''status'', VStr ''cancelled'')])"

definition cancelled :: reply where
  "cancelled = (409, [(''status'', VStr ''cancelled'')])"

definition lane_of :: "string \<Rightarrow> dispatcher \<Rightarrow> lane" where
  "lane_of key d = (case dict_get (dp_lanes d) key of None \<Rightarrow> fresh_lane | Some l \<Rightarrow> l)"

definition set_lane :: "string \<Rightarrow> lane \<Rightarrow> dispatcher \<Rightarrow> dispatcher" where
  "set_lane key l d = d\<lparr>dp_lanes := dict_set key l (dp_lanes d)\<rparr>"

definition admitted_at :: "rat \<Rightarrow> job \<Rightarrow> job" where
  "admitted_at now job = job\<lparr>jb_admitted := now,
     jb_deadline := (if jb_kind job = ''revert'' then None
                     else case jb_max_age job of None \<Rightarrow> None | Some a \<Rightarrow> if a = 0 then None else Some (now + a))\<rparr>"

definition submit :: "rat \<Rightarrow> job \<Rightarrow> dispatcher \<Rightarrow> dispatch_error + dispatcher" where
  "submit now job0 d =
     (if jb_kind job0 \<notin> set KINDS then Inl UnknownKind
      else let job = admitted_at now job0
      in if dp_stopped d \<or> (dp_closing d \<and> jb_kind job \<noteq> ''revert'') then Inr (complete_all now [(job, stopping)] d)
      else let (l, told) = ln_admit (dp_cap d) job (lane_of (jb_lane job) d);
               waits = (dict_get (dp_results d) (jb_uid job) = None \<and> \<not> holds_job (jb_uid job) (map fst told));
               d1 = set_lane (jb_lane job) (l\<lparr>ln_thread := ln_thread l \<or> waits\<rparr>) d;
               d2 = fold (\<lambda>(j, r). if r = superseded then count_event (jb_device j) (jb_command j) ''superseded'' else id) told d1
           in Inr (complete_all now told d2))"

definition withdraw :: "rat \<Rightarrow> job \<Rightarrow> dispatcher \<Rightarrow> bool \<times> dispatcher" where
  "withdraw now job d =
     (case dict_get (dp_lanes d) (jb_lane job) of None \<Rightarrow> (False, d)
      | Some l \<Rightarrow> (case ln_remove job l of
          (None, _) \<Rightarrow> (False, d)
        | (Some j, l') \<Rightarrow> (True, complete_all now [(j, cancelled)] (set_lane (jb_lane job) l' d))))"

definition ln_cancel :: "(job \<Rightarrow> bool) \<Rightarrow> lane \<Rightarrow> lane" where
  "ln_cancel P l = fold (\<lambda>j l. snd (ln_remove j l)) (filter P (ln_jobs l)) l"

definition cancel_where :: "rat \<Rightarrow> (job \<Rightarrow> bool) \<Rightarrow> dispatcher \<Rightarrow> nat \<times> dispatcher" where
  "cancel_where now P d =
     (let out = concat (map (\<lambda>(k, l). filter P (ln_jobs l)) (dp_lanes d))
      in (length out, complete_all now (map (\<lambda>j. (j, cancelled)) out)
                        (d\<lparr>dp_lanes := map (\<lambda>(k, l). (k, ln_cancel P l)) (dp_lanes d)\<rparr>)))"

definition cancel :: "rat \<Rightarrow> string option \<Rightarrow> dispatcher \<Rightarrow> nat \<times> dispatcher" where
  "cancel now dev d = cancel_where now (\<lambda>j. dev = None \<or> dev = Some (jb_device j)) d"

definition dp_close :: "rat \<Rightarrow> dispatcher \<Rightarrow> dispatcher" where
  "dp_close now d = snd (cancel_where now (\<lambda>j. jb_kind j \<noteq> ''revert'') (d\<lparr>dp_closing := True\<rparr>))"

definition dp_stop :: "rat \<Rightarrow> dispatcher \<Rightarrow> dispatcher" where
  "dp_stop now d = snd (cancel now None (d\<lparr>dp_stopped := True\<rparr>))"

text \<open>
  Waiting for a verdict: refused inside a lane (\<open>inside\<close>: the lane the calling thread serves);
  when the wait ends without one, a command that has not started is withdrawn.
\<close>

definition submit_wait :: "string option \<Rightarrow> rat \<Rightarrow> job \<Rightarrow> dispatcher \<Rightarrow> dispatch_error + dispatcher" where
  "submit_wait inside now job d = (if inside \<noteq> None then Inl WaitInLane else submit now job d)"

definition wait_for :: "string option \<Rightarrow> rat \<Rightarrow> job \<Rightarrow> dispatcher \<Rightarrow> dispatch_error + reply \<times> dispatcher" where
  "wait_for inside now job d =
     (if inside \<noteq> None then Inl WaitInLane
      else case dict_get (dp_results d) (jb_uid job) of Some r \<Rightarrow> Inr (r, d)
      | None \<Rightarrow> (let (gone, d') = withdraw now job d
                in case dict_get (dp_results d') (jb_uid job) of Some r \<Rightarrow> Inr (r, d')
                   | None \<Rightarrow> Inr ((504, [(''status'', VStr ''error''), (''id'', (case jb_id job of None \<Rightarrow> VNone | Some i \<Rightarrow> VStr i))]), d')))"

text \<open>
  The lane's thread: it takes a turn when it runs nothing, calls \<open>run\<close> (unless the command
  waited past its deadline), and records what came back. With nothing to do for long enough,
  or when the dispatcher stops, it ends and its lane goes.
\<close>

datatype outcome = Returned int "(string, pyval) dict" | Crashed | NoResult

definition serve_take :: "string \<Rightarrow> rat \<Rightarrow> dispatcher \<Rightarrow> job option \<times> dispatcher" where
  "serve_take key now d =
     (case dict_get (dp_lanes d) key of None \<Rightarrow> (None, d)
      | Some l \<Rightarrow>
          if \<not> ln_thread l \<or> ln_running l \<noteq> None then (None, d)
          else (case ln_next l of
              (None, l') \<Rightarrow> (None, set_lane key l' d)
            | (Some j, l') \<Rightarrow>
                (let expired = (case jb_deadline j of None \<Rightarrow> False | Some t \<Rightarrow> t < now);
                     j' = (if expired then j else j\<lparr>jb_started := Some now\<rparr>);
                     d1 = set_lane key (l'\<lparr>ln_running := Some j', ln_expired := expired\<rparr>) d
                 in (Some j', if expired then count_event (jb_device j) (jb_command j) ''expired'' d1 else d1))))"

definition verdict :: "bool \<Rightarrow> outcome \<Rightarrow> reply" where
  "verdict expired out =
     (if expired then (409, [(''status'', VStr ''expired'')])
      else case out of Returned code body \<Rightarrow> (code, body) | _ \<Rightarrow> (500, [(''status'', VStr ''error'')]))"

definition serve_finish :: "string \<Rightarrow> rat \<Rightarrow> outcome \<Rightarrow> dispatcher \<Rightarrow> dispatcher" where
  "serve_finish key now out d =
     (case dict_get (dp_lanes d) key of None \<Rightarrow> d
      | Some l \<Rightarrow> (case ln_running l of None \<Rightarrow> d
         | Some j \<Rightarrow> complete_all now [(j, verdict (ln_expired l) out)] (set_lane key (l\<lparr>ln_running := None\<rparr>) d)))"

definition serve_idle :: "string \<Rightarrow> dispatcher \<Rightarrow> dispatcher" where
  "serve_idle key d =
     (case dict_get (dp_lanes d) key of None \<Rightarrow> d
      | Some l \<Rightarrow>
          if \<not> ln_thread l \<or> ln_running l \<noteq> None then d
          else (case ln_next l of
              (Some _, _) \<Rightarrow> d
            | (None, l') \<Rightarrow>
                if ln_jobs l' = [] \<and> ln_running l' = None then d\<lparr>dp_lanes := dict_del key (dp_lanes d)\<rparr>
                else set_lane key (l'\<lparr>ln_thread := False\<rparr>) d))"

text \<open>What is going on: one slot, whether anything waits or runs, the status page's rows.\<close>

definition slot_pending :: "string \<Rightarrow> string \<Rightarrow> string \<Rightarrow> dispatcher \<Rightarrow> nat" where
  "slot_pending key dev ch d = (case dict_get (dp_lanes d) key of None \<Rightarrow> 0 | Some l \<Rightarrow> length (ln_slot dev ch l))"

definition drained :: "dispatcher \<Rightarrow> bool" where
  "drained d = list_all (\<lambda>(k, l). ln_jobs l = [] \<and> ln_running l = None) (dp_lanes d)"

fun oldest :: "job list \<Rightarrow> job option" where
  "oldest [] = None"
| "oldest (j # js) = (case oldest js of None \<Rightarrow> Some j | Some k \<Rightarrow> if jb_admitted k < jb_admitted j then Some k else Some j)"

definition lanes_info :: "rat \<Rightarrow> dispatcher \<Rightarrow> (string \<times> nat \<times> bool \<times> rat \<times> rat option) list" where
  "lanes_info now d = map (\<lambda>(k, l).
     (k, length (ln_jobs l), ln_running l \<noteq> None,
      (case oldest (ln_jobs l) of None \<Rightarrow> 0 | Some j \<Rightarrow> py_round_dec (now - jb_admitted j) 3),
      (case oldest (ln_jobs l) of None \<Rightarrow> None | Some j \<Rightarrow> jb_max_age j))) (dp_lanes d)"

section \<open>Runs of the dispatcher\<close>

datatype dop = Submit rat job | Withdraw rat job | Cancel rat "string option" | Close rat | Stop rat
  | TakeTurn string rat | Finish string rat outcome | EndIdle string | Forget string

definition dp_do :: "dop \<Rightarrow> dispatcher \<Rightarrow> dispatcher" where
  "dp_do p d = (case p of
     Submit now j \<Rightarrow> (case submit now j d of Inl _ \<Rightarrow> d | Inr d' \<Rightarrow> d')
   | Withdraw now j \<Rightarrow> snd (withdraw now j d)
   | Cancel now dev \<Rightarrow> snd (cancel now dev d)
   | Close now \<Rightarrow> dp_close now d
   | Stop now \<Rightarrow> dp_stop now d
   | TakeTurn key now \<Rightarrow> snd (serve_take key now d)
   | Finish key now out \<Rightarrow> serve_finish key now out d
   | EndIdle key \<Rightarrow> serve_idle key d
   | Forget dev \<Rightarrow> dp_forget dev d)"

fun dp_run :: "dop list \<Rightarrow> dispatcher \<Rightarrow> dispatcher" where
  "dp_run [] d = d"
| "dp_run (p # ps) d = dp_run ps (dp_do p d)"

fun submitted :: "dop list \<Rightarrow> nat list" where
  "submitted [] = []"
| "submitted (Submit now j # ps) = (if jb_kind j \<in> set KINDS then [jb_uid j] else []) @ submitted ps"
| "submitted (_ # ps) = submitted ps"

definition job_of :: "nat \<Rightarrow> string \<Rightarrow> string \<Rightarrow> string \<Rightarrow> (string, pyval) dict \<Rightarrow> string \<Rightarrow> job" where
  "job_of u dev ch cmd ps kind = \<lparr>jb_uid = u, jb_lane = ''bus1'', jb_device = dev, jb_channel = ch, jb_command = cmd,
     jb_params = ps, jb_kind = kind, jb_coalesce = True, jb_value_keys = [''value''], jb_max_age = Some 30,
     jb_id = None, jb_admitted = 0, jb_deadline = None, jb_started = None\<rparr>"

section \<open>Every command is told exactly once\<close>

definition uids :: "job list \<Rightarrow> nat multiset" where
  "uids js = image_mset jb_uid (mset js)"

definition lane_uids :: "lane \<Rightarrow> nat multiset" where
  "lane_uids l = uids (ln_jobs l) + (case ln_running l of None \<Rightarrow> {#} | Some j \<Rightarrow> {#jb_uid j#})"

definition unfinished :: "dispatcher \<Rightarrow> nat multiset" where
  "unfinished d = dict_sum lane_uids (dp_lanes d)"

definition told :: "dispatcher \<Rightarrow> nat multiset" where
  "told d = mset (map fst (dp_results d))"

definition dp_ok :: "dispatcher \<Rightarrow> bool" where
  "dp_ok d = (dict_ok (dp_lanes d) \<and> (\<forall>k l. dict_get (dp_lanes d) k = Some l \<longrightarrow> lane_ok l)
     \<and> (\<forall>u. count (unfinished d + told d) u \<le> 1))"

lemma uids_simps [simp]: "uids [] = {#}" "uids (j # js) = add_mset (jb_uid j) (uids js)" "uids (js @ ks) = uids js + uids ks"
  by (simp_all add: uids_def)

lemma uids_cong: "mset js = mset ks \<Longrightarrow> uids js = uids ks"
  by (simp add: uids_def)

lemma fresh_lane_ok [simp]: "lane_ok fresh_lane" "ln_jobs fresh_lane = []" "lane_uids fresh_lane = {#}"
  by (simp_all add: fresh_lane_def lane_ok_def queues_ok_def ln_jobs_def lane_uids_def)

lemma unfinished_set_lane: "unfinished (set_lane k l d) + lane_uids (lane_of k d) = unfinished d + lane_uids l"
proof (cases "dict_get (dp_lanes d) k")
  case None
  then show ?thesis by (simp add: unfinished_def set_lane_def lane_of_def dict_sum_set_new)
next
  case (Some l0)
  then show ?thesis by (simp add: unfinished_def set_lane_def lane_of_def dict_sum_set)
qed

lemma set_lane_simps [simp]:
  "dp_results (set_lane k l d) = dp_results d" "told (set_lane k l d) = told d" "dp_cap (set_lane k l d) = dp_cap d"
  by (simp_all add: set_lane_def told_def)

lemma count_event_simps [simp]:
  "dp_lanes (count_event a b c d) = dp_lanes d" "dp_results (count_event a b c d) = dp_results d"
  "dp_stopped (count_event a b c d) = dp_stopped d" "dp_closing (count_event a b c d) = dp_closing d"
  by (simp_all add: count_event_def Let_def)

lemma count_events_simps [simp]:
  "dp_lanes (fold (\<lambda>(j, r). if P r then count_event (f j) (g j) w else id) xs d) = dp_lanes d"
  "dp_results (fold (\<lambda>(j, r). if P r then count_event (f j) (g j) w else id) xs d) = dp_results d"
  by (induction xs arbitrary: d) auto

lemma complete_lanes [simp]: "dp_lanes (complete now j r d) = dp_lanes d"
  by (simp add: complete_def Let_def)

lemma complete_all_lanes [simp]: "dp_lanes (complete_all now xs d) = dp_lanes d"
  unfolding complete_all_def by (induction xs arbitrary: d) auto

lemma complete_told:
  "dict_get (dp_results d) (jb_uid j) = None \<Longrightarrow> told (complete now j r d) = add_mset (jb_uid j) (told d)"
  by (simp add: complete_def told_def Let_def)

lemma told_get: "dict_get (dp_results d) u = None \<longleftrightarrow> u \<notin># told d"
  by (simp add: told_def map_of_eq_None_iff)

lemma complete_all_told:
  "distinct (map (jb_uid \<circ> fst) xs) \<Longrightarrow> (\<forall>x \<in> set xs. jb_uid (fst x) \<notin># told d) \<Longrightarrow>
   told (complete_all now xs d) = told d + uids (map fst xs)"
proof (induction xs arbitrary: d)
  case (Cons x xs)
  obtain j r where x: "x = (j, r)" by (cases x)
  have t: "told (complete now j r d) = add_mset (jb_uid j) (told d)"
    using Cons.prems(2) x by (intro complete_told) (simp add: told_get)
  have "told (complete_all now xs (complete now j r d)) = told (complete now j r d) + uids (map fst xs)"
  proof (rule Cons.IH)
    have "jb_uid j \<notin> (jb_uid \<circ> fst) ` set xs" using Cons.prems(1) x by simp
    then have "jb_uid (fst y) \<noteq> jb_uid j" if "y \<in> set xs" for y
      using that by (metis comp_apply imageI)
    then show "\<forall>y \<in> set xs. jb_uid (fst y) \<notin># told (complete now j r d)" using Cons.prems(2) t by simp
  qed (use Cons.prems(1) in simp)
  then show ?case using t x by (simp add: complete_all_def)
qed (simp add: complete_all_def)

lemma distinct_of_count: "(\<And>u. count (mset xs) u \<le> 1) \<Longrightarrow> distinct xs"
proof (induction xs)
  case (Cons x xs)
  have z: "count (mset xs) x = 0" using Cons.prems [of x] by simp
  moreover have "count (mset xs) u \<le> 1" for u
  proof -
    have "count (mset xs) u \<le> count (mset (x # xs)) u" by simp
    then show ?thesis using Cons.prems [of u] by (rule order_trans)
  qed
  ultimately show ?case using Cons.IH by simp
qed simp

text \<open>What leaves the lanes and is told at once keeps the ledger.\<close>

lemma tell_keeps_ledger:
  assumes ok: "dict_ok (dp_lanes d)" "\<And>k l. dict_get (dp_lanes d) k = Some l \<Longrightarrow> lane_ok l"
    and led: "unfinished d + told d + uids (map fst xs) = L" and one: "\<And>u. count L u \<le> 1"
  shows "dp_ok (complete_all now xs d) \<and> unfinished (complete_all now xs d) + told (complete_all now xs d) = L"
proof -
  have le: "count (uids (map fst xs)) u + count (told d) u \<le> 1" for u
    using one [of u] unfolding led [symmetric] by simp
  have "distinct (map jb_uid (map fst xs))"
  proof -
    have "count (mset (map jb_uid (map fst xs))) u \<le> 1" for u
      using le [of u] by (simp add: uids_def multiset.map_comp)
    then show ?thesis by (rule distinct_of_count)
  qed
  moreover have "jb_uid (fst x) \<notin># told d" if "x \<in> set xs" for x
  proof -
    have "1 \<le> count (uids (map fst xs)) (jb_uid (fst x))" using that by (simp add: uids_def Suc_le_eq)
    then have "count (told d) (jb_uid (fst x)) = 0" using le [of "jb_uid (fst x)"] by linarith
    then show ?thesis by (simp add: not_in_iff)
  qed
  ultimately have t: "told (complete_all now xs d) = told d + uids (map fst xs)"
    by (intro complete_all_told) auto
  have u: "unfinished (complete_all now xs d) = unfinished d" by (simp add: unfinished_def)
  show ?thesis unfolding dp_ok_def using ok one led by (simp add: t u ac_simps)
qed

lemma ledger_lane:
  assumes "unfinished d + told d = L" "lane_uids (lane_of k d) = lane_uids l + M"
  shows "unfinished (set_lane k l d) + told (set_lane k l d) + M = L"
proof -
  have "unfinished (set_lane k l d) + (lane_uids l + M) = unfinished d + lane_uids l"
    using unfinished_set_lane [of k l d] assms(2) by simp
  then have "unfinished (set_lane k l d) + M = unfinished d" by (simp add: ac_simps)
  then have "unfinished (set_lane k l d) + M + told d = L" using assms(1) by simp
  then show ?thesis by (simp add: add.assoc add.commute [of M])
qed

lemma set_lane_ok:
  assumes "dict_ok (dp_lanes d)" "\<And>k l. dict_get (dp_lanes d) k = Some l \<Longrightarrow> lane_ok l" "lane_ok l'"
  shows "dict_ok (dp_lanes (set_lane k' l' d))" "dict_get (dp_lanes (set_lane k' l' d)) k = Some l \<Longrightarrow> lane_ok l"
  using assms by (auto simp: set_lane_def dict_simps split: if_splits)

lemma lane_of_ok: "dp_ok d \<Longrightarrow> lane_ok (lane_of k d)"
  by (simp add: dp_ok_def lane_of_def split: option.split)

lemma dp_okD:
  assumes "dp_ok d"
  shows "dict_ok (dp_lanes d)" "\<And>k l. dict_get (dp_lanes d) k = Some l \<Longrightarrow> lane_ok l" "\<And>u. count (unfinished d + told d) u \<le> 1"
  using assms unfolding dp_ok_def by blast+

lemma lane_uids_le: "u \<in># lane_uids (lane_of k d) \<Longrightarrow> u \<in># unfinished d"
  using unfinished_set_lane [of k fresh_lane d] by (metis fresh_lane_ok(3) add.right_neutral union_iff)

definition ledger :: "dispatcher \<Rightarrow> nat multiset" where
  "ledger d = unfinished d + told d"

lemma lane_uids_thread [simp]: "lane_uids (l\<lparr>ln_thread := b\<rparr>) = lane_uids l" "lane_ok (l\<lparr>ln_thread := b\<rparr>) = lane_ok l"
  "lane_ok (l\<lparr>ln_expired := b\<rparr>) = lane_ok l" "ln_jobs (l\<lparr>ln_expired := b\<rparr>) = ln_jobs l"
  "lane_ok (l\<lparr>ln_running := r\<rparr>) = lane_ok l" "ln_jobs (l\<lparr>ln_running := r\<rparr>) = ln_jobs l"
  "ln_jobs (l\<lparr>ln_thread := b\<rparr>) = ln_jobs l"
  by (simp_all add: lane_uids_def lane_ok_def ln_jobs_def)

text \<open>One lane changes, and what left it is told.\<close>

lemma lane_step:
  assumes d: "dp_ok d" and l: "lane_ok l'"
    and gone: "lane_uids l' + uids (map fst xs) = lane_uids (lane_of k d) + N"
    and new: "\<And>u. count (ledger d + N) u \<le> 1"
    and e: "dp_lanes e = dp_lanes (set_lane k l' d)" "dp_results e = dp_results d"
  shows "dp_ok (complete_all now xs e) \<and> ledger (complete_all now xs e) = ledger d + N"
proof -
  have u: "unfinished e = unfinished (set_lane k l' d)" and t: "told e = told d"
    using e by (simp_all add: unfinished_def told_def)
  have "unfinished (set_lane k l' d) + uids (map fst xs) + lane_uids (lane_of k d)
      = unfinished d + (lane_uids l' + uids (map fst xs))"
    using unfinished_set_lane [of k l' d] by (simp add: ac_simps)
  also have "\<dots> = unfinished d + N + lane_uids (lane_of k d)" unfolding gone by (simp add: ac_simps)
  finally have "unfinished (set_lane k l' d) + uids (map fst xs) = unfinished d + N" by simp
  then have L: "unfinished e + told e + uids (map fst xs) = ledger d + N"
    unfolding u t ledger_def by (metis add.assoc add.commute)
  note lo = dp_okD(2) [OF d]
  have "dict_ok (dp_lanes e)" unfolding e by (rule set_lane_ok(1) [OF dp_okD(1) [OF d] lo l])
  moreover have "lane_ok m" if "dict_get (dp_lanes e) i = Some m" for i m
    using set_lane_ok(2) [OF dp_okD(1) [OF d] _ l, of k i m] lo that unfolding e by blast
  ultimately show ?thesis using tell_keeps_ledger [OF _ _ L new] unfolding ledger_def by blast
qed

lemma submit_ledger:
  assumes d: "dp_ok d" and new: "jb_uid job \<notin># ledger d" and s: "submit now job d = Inr d'"
  shows "dp_ok d' \<and> ledger d' = ledger d + {#jb_uid job#}"
proof -
  let ?j = "admitted_at now job"
  have uid: "jb_uid ?j = jb_uid job" "jb_kind ?j = jb_kind job" by (simp_all add: admitted_at_def)
  have one: "count (ledger d + {#jb_uid job#}) u \<le> 1" for u
    using dp_okD(3) [OF d, of u] new by (auto simp: ledger_def not_in_iff)
  show ?thesis
  proof (cases "dp_stopped d \<or> (dp_closing d \<and> jb_kind job \<noteq> ''revert'')")
    case True
    then have "d' = complete_all now [(?j, stopping)] d" using s by (auto simp: submit_def Let_def uid split: if_splits)
    moreover have "unfinished d + told d + uids (map fst [(?j, stopping)]) = ledger d + {#jb_uid job#}"
      by (simp add: ledger_def uid)
    ultimately show ?thesis using tell_keeps_ledger [OF dp_okD(1,2) [OF d] _ one] by (simp add: ledger_def)
  next
    case False
    obtain l tl where adm: "ln_admit (dp_cap d) ?j (lane_of (jb_lane ?j) d) = (l, tl)" by fastforce
    have k: "jb_lane ?j = jb_lane job" by (simp add: admitted_at_def)
    have "jb_uid ?j \<notin># lane_uids (lane_of (jb_lane ?j) d)"
      using new lane_uids_le [of "jb_uid ?j" "jb_lane ?j" d] by (auto simp: ledger_def uid)
    then have "jb_uid ?j \<notin> jb_uid ` set (ln_jobs (lane_of (jb_lane ?j) d))"
      by (auto simp: lane_uids_def uids_def)
    from ln_admit_ok [OF lane_of_ok [OF d] this adm]
    have ok: "lane_ok l" and m: "mset (ln_jobs l) + mset (map fst tl) = add_mset ?j (mset (ln_jobs (lane_of (jb_lane ?j) d)))"
      by simp_all
    have run: "ln_running l = ln_running (lane_of (jb_lane ?j) d)"
      using adm by (auto simp: ln_admit_def Let_def split: if_splits)
    have "uids (ln_jobs l) + uids (map fst tl) = add_mset (jb_uid job) (uids (ln_jobs (lane_of (jb_lane ?j) d)))"
      using arg_cong [OF m, of "image_mset jb_uid"] by (simp add: uids_def uid)
    then have gone: "lane_uids (l\<lparr>ln_thread := b\<rparr>) + uids (map fst tl) = lane_uids (lane_of (jb_lane ?j) d) + {#jb_uid job#}" for b
      by (simp add: lane_uids_def run ac_simps split: option.split)
    define b where "b = (ln_thread l \<or> (dict_get (dp_results d) (jb_uid job) = None \<and> \<not> holds_job (jb_uid job) (map fst tl)))"
    define e where "e = fold (\<lambda>(j, r). if r = superseded then count_event (jb_device j) (jb_command j) ''superseded'' else id)
      tl (set_lane (jb_lane ?j) (l\<lparr>ln_thread := b\<rparr>) d)"
    have "d' = complete_all now tl e"
      using s False adm by (auto simp: submit_def Let_def uid k b_def e_def split: if_splits)
    moreover have "dp_lanes e = dp_lanes (set_lane (jb_lane ?j) (l\<lparr>ln_thread := b\<rparr>) d)" "dp_results e = dp_results d"
      by (simp_all add: e_def)
    ultimately show ?thesis using lane_step [OF d _ gone one] ok by simp
  qed
qed

lemma old_one: "dp_ok d \<Longrightarrow> count (ledger d + {#}) u \<le> 1"
  using dp_okD(3) [of d u] by (simp add: ledger_def)

lemma lane_of_get: "dict_get (dp_lanes d) k = Some l \<Longrightarrow> lane_of k d = l"
  by (simp add: lane_of_def)

lemma ln_remove_running: "ln_remove j l = (r, l') \<Longrightarrow> ln_running l' = ln_running l"
  by (auto simp: ln_remove_def Let_def split: if_splits option.splits)

lemma ln_next_running: "ln_next l = (r, l') \<Longrightarrow> ln_running l' = ln_running l \<and> ln_thread l' = ln_thread l"
  by (auto simp: ln_next_def Let_def split: list.splits prod.splits)

lemma withdraw_ledger:
  assumes d: "dp_ok d" and w: "withdraw now job d = (b, d')"
  shows "dp_ok d' \<and> ledger d' = ledger d"
proof (cases b)
  case False
  then show ?thesis using d w by (auto simp: withdraw_def split: option.splits prod.splits)
next
  case True
  then obtain l j l' where g: "dict_get (dp_lanes d) (jb_lane job) = Some l" "ln_remove job l = (Some j, l')"
    and d': "d' = complete_all now [(j, cancelled)] (set_lane (jb_lane job) l' d)"
    using w by (auto simp: withdraw_def split: option.splits prod.splits)
  have ok: "lane_ok l" using dp_okD(2) [OF d g(1)] .
  note r = ln_remove_ok [OF ok g(2)]
  then have "uids (ln_jobs l) = add_mset (jb_uid j) (uids (ln_jobs l'))"
    by (simp add: uids_def)
  then have "lane_uids l' + uids (map fst [(j, cancelled)]) = lane_uids (lane_of (jb_lane job) d) + {#}"
    using ln_remove_running [OF g(2)] by (simp add: lane_of_get [OF g(1)] lane_uids_def)
  from lane_step [OF d _ this old_one [OF d]] show ?thesis using r d' by simp
qed

lemma take_ledger:
  assumes d: "dp_ok d" and t: "serve_take key now d = (r, d')"
  shows "dp_ok d' \<and> ledger d' = ledger d"
proof (cases "\<exists>l. dict_get (dp_lanes d) key = Some l \<and> ln_thread l \<and> ln_running l = None")
  case False
  then have "d' = d" using t by (auto simp: serve_take_def split: option.splits if_splits)
  then show ?thesis using d by simp
next
  case True
  then obtain l where g: "dict_get (dp_lanes d) key = Some l" and run: "ln_thread l" "ln_running l = None" by blast
  have ok: "lane_ok l" using dp_okD(2) [OF d g] .
  obtain q l' where n: "ln_next l = (q, l')" by fastforce
  note nx = ln_next_ok [OF ok n] ln_next_running [OF n]
  have "\<exists>m e. lane_ok m \<and> d' = e \<and> dp_lanes e = dp_lanes (set_lane key m d) \<and> dp_results e = dp_results d \<and> lane_uids m = lane_uids l"
  proof (cases q)
    case None
    then have "d' = set_lane key l' d" using t g run n by (simp add: serve_take_def)
    moreover have "lane_uids l' = lane_uids l" using nx None by (simp add: lane_uids_def)
    ultimately show ?thesis using nx by (intro exI [of _ l'] exI [of _ d']) simp
  next
    case (Some j)
    define ex where "ex = (case jb_deadline j of None \<Rightarrow> False | Some t \<Rightarrow> t < now)"
    define j' where "j' = (if (case jb_deadline j of None \<Rightarrow> False | Some t \<Rightarrow> t < now) then j else j\<lparr>jb_started := Some now\<rparr>)"
    have "jb_uid j' = jb_uid j" by (simp add: j'_def)
    then have "lane_uids (l'\<lparr>ln_running := Some j', ln_expired := ex\<rparr>) = lane_uids l"
      using nx Some run by (simp add: lane_uids_def uids_def)
    moreover have "dp_lanes d' = dp_lanes (set_lane key (l'\<lparr>ln_running := Some j', ln_expired := ex\<rparr>) d) \<and> dp_results d' = dp_results d"
      using t g run n Some by (auto simp: serve_take_def Let_def j'_def ex_def)
    ultimately show ?thesis using nx by (intro exI [of _ "l'\<lparr>ln_running := Some j', ln_expired := ex\<rparr>"] exI [of _ d']) simp
  qed
  then obtain m where m: "lane_ok m" "dp_lanes d' = dp_lanes (set_lane key m d)" "dp_results d' = dp_results d" "lane_uids m = lane_uids l"
    by blast
  have "lane_uids m + uids (map fst ([] :: (job \<times> reply) list)) = lane_uids (lane_of key d) + {#}"
    by (simp add: m(4) lane_of_get [OF g])
  from lane_step [OF d m(1) this old_one [OF d] m(2,3)] show ?thesis by (simp add: complete_all_def)
qed

lemma finish_ledger:
  assumes d: "dp_ok d"
  shows "dp_ok (serve_finish key now out d) \<and> ledger (serve_finish key now out d) = ledger d"
proof (cases "\<exists>l j. dict_get (dp_lanes d) key = Some l \<and> ln_running l = Some j")
  case False
  then have "serve_finish key now out d = d" by (auto simp: serve_finish_def split: option.splits)
  then show ?thesis using d by simp
next
  case True
  then obtain l j where g: "dict_get (dp_lanes d) key = Some l" and run: "ln_running l = Some j" by blast
  have ok: "lane_ok (l\<lparr>ln_running := None\<rparr>)" using dp_okD(2) [OF d g] by simp
  have "lane_uids (l\<lparr>ln_running := None\<rparr>) + uids (map fst [(j, verdict (ln_expired l) out)]) = lane_uids (lane_of key d) + {#}"
    by (simp add: lane_of_get [OF g] lane_uids_def run)
  from lane_step [OF d ok this old_one [OF d]] show ?thesis using g run by (simp add: serve_finish_def)
qed

lemma idle_ledger:
  assumes d: "dp_ok d"
  shows "dp_ok (serve_idle key d) \<and> ledger (serve_idle key d) = ledger d"
proof (cases "\<exists>l l'. dict_get (dp_lanes d) key = Some l \<and> ln_running l = None \<and> ln_next l = (None, l')")
  case False
  then have "serve_idle key d = d" by (auto simp: serve_idle_def split: option.splits prod.splits)
  then show ?thesis using d by simp
next
  case True
  then obtain l l' where g: "dict_get (dp_lanes d) key = Some l" and run: "ln_running l = None" "ln_next l = (None, l')" by blast
  note nx = ln_next_ok [OF dp_okD(2) [OF d g] run(2)]
  have z: "lane_uids l = {#}" using nx run by (simp add: lane_uids_def)
  have e: "serve_idle key d = d \<or> serve_idle key d = d\<lparr>dp_lanes := dict_del key (dp_lanes d)\<rparr>"
    using nx run ln_next_running [OF run(2)] g by (auto simp: serve_idle_def)
  have "unfinished (d\<lparr>dp_lanes := dict_del key (dp_lanes d)\<rparr>) = unfinished d"
    using dict_sum_del [OF dp_okD(1) [OF d] g, of lane_uids] z by (simp add: unfinished_def)
  then have "ledger (serve_idle key d) = ledger d" using e by (auto simp: ledger_def told_def)
  moreover have "dp_ok (serve_idle key d)"
    using e
  proof
    assume i: "serve_idle key d = d\<lparr>dp_lanes := dict_del key (dp_lanes d)\<rparr>"
    have "lane_ok m" if "dict_get (dp_lanes (serve_idle key d)) k = Some m" for k m
      using that dp_okD(2) [OF d, of k m] unfolding i by (simp add: dict_get_del split: if_splits)
    then show ?thesis
      using dp_okD(1,3) [OF d] \<open>ledger (serve_idle key d) = ledger d\<close>
      unfolding dp_ok_def ledger_def by (simp add: i dict_ok_del)
  qed (use d in simp)
  ultimately show ?thesis by simp
qed

lemma waiting_in: "j \<in># waiting d \<Longrightarrow> dict_ok d \<Longrightarrow> \<exists>dev q. dict_get d dev = Some q \<and> j \<in> set q"
proof (induction d)
  case (Cons p d)
  obtain dev q where p: "p = (dev, q)" by (cases p)
  show ?case
  proof (cases "j \<in> set q")
    case True
    then show ?thesis using p by (intro exI [of _ dev] exI [of _ q]) simp
  next
    case False
    then obtain dev' q' where g: "dict_get d dev' = Some q'" "j \<in> set q'"
      using Cons p by (auto simp: waiting_def)
    moreover have "dev' \<noteq> dev" using g(1) Cons.prems(2) p dict_get_in [of d dev' q'] by force
    ultimately show ?thesis using p by (intro exI [of _ dev'] exI [of _ q']) simp
  qed
qed (simp add: waiting_def)

lemma ln_remove_found:
  assumes ok: "lane_ok l" and j: "j \<in> set (ln_jobs l)"
  shows "\<exists>l'. ln_remove j l = (Some j, l')"
proof -
  obtain r l' where e: "ln_remove j l = (r, l')" by fastforce
  have "r \<noteq> None"
  proof (cases "holds_job (jb_uid j) (ln_urgent l)")
    case True
    then show ?thesis using e remove_job_mset [OF True] by (auto simp: ln_remove_def)
  next
    case False
    then have "j \<notin> set (ln_urgent l)" by (auto simp: holds_job_iff)
    moreover have "j \<in># mset (ln_urgent l) + waiting (ln_pending l)" using j by (simp flip: mset_ln_jobs)
    ultimately have "j \<in># waiting (ln_pending l)" by simp
    then obtain dev q where g: "dict_get (ln_pending l) dev = Some q" "j \<in> set q"
      using waiting_in lane_okD(5) [OF ok] by blast
    then have dev: "jb_device j = dev" using queues_okD(2) [OF lane_okD(1) [OF ok] g(1)] by blast
    have h: "holds_job (jb_uid j) q" using g(2) by (auto simp: holds_job_iff)
    from remove_job_mset [OF h] obtain k where f: "find (\<lambda>k. jb_uid k = jb_uid j) q = Some k" by blast
    have "fst (ln_remove j l) = Some k" by (simp add: ln_remove_def Let_def False g(1) dev h f)
    then show ?thesis using e by simp
  qed
  then obtain k where k: "r = Some k" by blast
  then have "jb_uid k = jb_uid j" "k \<in> set (ln_jobs l)"
    using ln_remove_ok [OF ok e] by (simp_all flip: set_mset_mset)
  then have "k = j" using lane_okD(4) [OF ok] j by (auto simp: distinct_map inj_on_def)
  then show ?thesis using e k by blast
qed

lemma remove_all:
  "lane_ok l \<Longrightarrow> mset js \<subseteq># mset (ln_jobs l) \<Longrightarrow>
   lane_ok (fold (\<lambda>j l. snd (ln_remove j l)) js l) \<and>
   mset (ln_jobs (fold (\<lambda>j l. snd (ln_remove j l)) js l)) + mset js = mset (ln_jobs l) \<and>
   ln_running (fold (\<lambda>j l. snd (ln_remove j l)) js l) = ln_running l"
proof (induction js arbitrary: l)
  case (Cons j js)
  have "j \<in> set (ln_jobs l)" using Cons.prems(2) by (metis list.set_intros(1) mset_subset_eqD set_mset_mset)
  then obtain l' where e: "ln_remove j l = (Some j, l')" using ln_remove_found [OF Cons.prems(1)] by blast
  note r = ln_remove_ok [OF Cons.prems(1) e]
  have "mset js \<subseteq># mset (ln_jobs l')" using Cons.prems(2) r by simp
  with Cons.IH [of l'] r have "lane_ok (fold (\<lambda>j l. snd (ln_remove j l)) js l') \<and>
      mset (ln_jobs (fold (\<lambda>j l. snd (ln_remove j l)) js l')) + mset js = mset (ln_jobs l') \<and>
      ln_running (fold (\<lambda>j l. snd (ln_remove j l)) js l') = ln_running l'" by blast
  then show ?case using e r ln_remove_running [OF e] by simp
qed simp

lemma ln_cancel_ok:
  assumes "lane_ok l"
  shows "lane_ok (ln_cancel P l)" "lane_uids (ln_cancel P l) + uids (filter P (ln_jobs l)) = lane_uids l"
proof -
  have "mset (filter P (ln_jobs l)) \<subseteq># mset (ln_jobs l)" by simp
  note r = remove_all [OF assms this, folded ln_cancel_def]
  then show "lane_ok (ln_cancel P l)" by simp
  have "uids (ln_jobs (ln_cancel P l)) + uids (filter P (ln_jobs l)) = uids (ln_jobs l)"
    using r by (metis uids_def image_mset_union)
  then show "lane_uids (ln_cancel P l) + uids (filter P (ln_jobs l)) = lane_uids l"
    using r by (simp add: lane_uids_def ac_simps)
qed

lemma cancel_lanes:
  "(\<And>k l. (k, l) \<in> set ls \<Longrightarrow> lane_ok l) \<Longrightarrow>
   dict_sum lane_uids (map (\<lambda>(k, l). (k, ln_cancel P l)) ls) + uids (concat (map (\<lambda>(k, l). filter P (ln_jobs l)) ls))
     = dict_sum lane_uids ls"
proof (induction ls)
  case (Cons p ls)
  obtain k l where p: "p = (k, l)" by (cases p)
  have "lane_ok l" by (rule Cons.prems [of k l]) (simp add: p)
  note c = ln_cancel_ok(2) [OF this, of P]
  have "dict_sum lane_uids (map (\<lambda>(k, l). (k, ln_cancel P l)) ls) + uids (concat (map (\<lambda>(k, l). filter P (ln_jobs l)) ls))
     = dict_sum lane_uids ls"
  proof (rule Cons.IH)
    fix k l assume "(k, l) \<in> set ls"
    then show "lane_ok l" by (intro Cons.prems [of k l]) simp
  qed
  then show ?case unfolding p by (simp add: c [symmetric] add.assoc add.left_commute)
qed simp

lemma cancel_where_ledger:
  assumes d: "dp_ok d"
  shows "dp_ok (snd (cancel_where now P d)) \<and> ledger (snd (cancel_where now P d)) = ledger d"
proof -
  let ?out = "concat (map (\<lambda>(k, l). filter P (ln_jobs l)) (dp_lanes d))"
  let ?e = "d\<lparr>dp_lanes := map (\<lambda>(k, l). (k, ln_cancel P l)) (dp_lanes d)\<rparr>"
  have "lane_ok l" if "(k, l) \<in> set (dp_lanes d)" for k l
    using that dict_in_get [OF dp_okD(1) [OF d]] dp_okD(2) [OF d] by blast
  then have sum: "dict_sum lane_uids (dp_lanes ?e) + uids ?out = dict_sum lane_uids (dp_lanes d)"
    by (simp add: cancel_lanes)
  have keys: "map fst (dp_lanes ?e) = map fst (dp_lanes d)" by (simp add: case_prod_beta comp_def)
  have "lane_ok m" if "dict_get (dp_lanes ?e) k = Some m" for k m
    using that dp_okD(2) [OF d] ln_cancel_ok(1) by (auto simp: dict_get_map)
  moreover have "unfinished ?e + told ?e + uids (map fst (map (\<lambda>j. (j, cancelled)) ?out)) = ledger d"
    using sum by (simp add: unfinished_def told_def ledger_def comp_def)
  moreover have "dict_ok (dp_lanes ?e)" unfolding keys by (rule dp_okD(1) [OF d])
  moreover have "count (ledger d) u \<le> 1" for u using dp_okD(3) [OF d] by (simp add: ledger_def)
  ultimately have "dp_ok (complete_all now (map (\<lambda>j. (j, cancelled)) ?out) ?e) \<and>
      ledger (complete_all now (map (\<lambda>j. (j, cancelled)) ?out) ?e) = ledger d"
    using tell_keeps_ledger [of ?e "map (\<lambda>j. (j, cancelled)) ?out" "ledger d" now] unfolding ledger_def by blast
  then show ?thesis unfolding cancel_where_def Let_def snd_conv .
qed

lemma step_ledger:
  assumes d: "dp_ok d" and new: "\<forall>u \<in> set (submitted [p]). u \<notin># ledger d"
  shows "dp_ok (dp_do p d) \<and> ledger (dp_do p d) = ledger d + mset (submitted [p])"
proof (cases p)
  case (Submit now j)
  show ?thesis
  proof (cases "jb_kind j \<in> set KINDS")
    case True
    then have "\<exists>d'. submit now j d = Inr d'" by (simp add: submit_def Let_def case_prod_beta)
    then obtain d' where s: "submit now j d = Inr d'" by blast
    then show ?thesis using submit_ledger [OF d _ s] new True Submit by (simp add: dp_do_def)
  next
    case False
    then show ?thesis using Submit d by (simp add: dp_do_def submit_def)
  qed
next
  case (Withdraw now j)
  then show ?thesis using withdraw_ledger [OF d] by (cases "withdraw now j d") (simp add: dp_do_def)
next
  case (TakeTurn k now)
  then show ?thesis using take_ledger [OF d] by (cases "serve_take k now d") (simp add: dp_do_def)
next
  case (Forget dev)
  then show ?thesis using d by (simp add: dp_do_def dp_forget_def dp_ok_def ledger_def unfinished_def told_def)
next
  case (Close now)
  have "dp_ok (d\<lparr>dp_closing := True\<rparr>)" "ledger (d\<lparr>dp_closing := True\<rparr>) = ledger d"
    using d by (simp_all add: dp_ok_def ledger_def unfinished_def told_def)
  then show ?thesis using Close cancel_where_ledger by (simp add: dp_do_def dp_close_def)
next
  case (Stop now)
  have "dp_ok (d\<lparr>dp_stopped := True\<rparr>)" "ledger (d\<lparr>dp_stopped := True\<rparr>) = ledger d"
    using d by (simp_all add: dp_ok_def ledger_def unfinished_def told_def)
  then show ?thesis using Stop cancel_where_ledger by (simp add: dp_do_def dp_stop_def cancel_def)
qed (use finish_ledger [OF d] idle_ledger [OF d] cancel_where_ledger [OF d] in \<open>simp_all add: dp_do_def cancel_def\<close>)

lemma run_ledger:
  "dp_ok d \<Longrightarrow> distinct (submitted ps) \<Longrightarrow> \<forall>u \<in> set (submitted ps). u \<notin># ledger d \<Longrightarrow>
   dp_ok (dp_run ps d) \<and> ledger (dp_run ps d) = ledger d + mset (submitted ps)"
proof (induction ps arbitrary: d)
  case (Cons p ps)
  have sp: "submitted (p # ps) = submitted [p] @ submitted ps" by (cases p) simp_all
  have s: "dp_ok (dp_do p d) \<and> ledger (dp_do p d) = ledger d + mset (submitted [p])"
    using Cons.prems sp by (intro step_ledger) auto
  then have "dp_ok (dp_run ps (dp_do p d)) \<and> ledger (dp_run ps (dp_do p d)) = ledger (dp_do p d) + mset (submitted ps)"
    using Cons.prems sp by (intro Cons.IH) auto
  then show ?case using s sp by simp
qed simp

lemma dispatcher_init_ok: "dp_ok (dispatcher_init cap)" "ledger (dispatcher_init cap) = {#}"
  by (simp_all add: dispatcher_init_def dp_ok_def unfinished_def told_def ledger_def)

text \<open>
  C1 (invariant): No command is lost and none is told twice. Whatever is submitted, replaced, refused,
  withdrawn, cancelled, served or closed, in any order: each submitted command is at every
  moment in exactly one place, waiting, running, or told its one verdict.
\<close>

theorem each_command_told_once:
  assumes "distinct (submitted ps)"
  shows "unfinished (dp_run ps (dispatcher_init cap)) + told (dp_run ps (dispatcher_init cap)) = mset (submitted ps)
    \<and> distinct (map fst (dp_results (dp_run ps (dispatcher_init cap))))"
proof -
  let ?d = "dp_run ps (dispatcher_init cap)"
  have r: "dp_ok ?d \<and> ledger ?d = mset (submitted ps)"
    using run_ledger [OF dispatcher_init_ok(1) [of cap] assms] by (simp add: dispatcher_init_ok(2))
  have "count (mset (map fst (dp_results ?d))) u \<le> 1" for u
    using dp_okD(3) [of ?d u] r by (simp add: told_def)
  then have "distinct (map fst (dp_results ?d))" by (rule distinct_of_count)
  with r show ?thesis by (simp add: ledger_def)
qed

theorem each_command_told_once_witness:
  "distinct (map fst (dp_results (dp_run [Submit 0 (job_of 1 ''d'' ''limit'' ''set'' [] ''command''),
     Submit 1 (job_of 2 ''d'' ''limit'' ''set'' [] ''command''), TakeTurn ''bus1'' 2, Close 3,
     Finish ''bus1'' 4 (Returned 200 [])] (dispatcher_init 8))))"
  by (rule conjunct2 [OF each_command_told_once]) (simp add: job_of_def KINDS_def)

section \<open>A lane is one queue per device, reverts in front\<close>

definition lane_do :: "int \<Rightarrow> pool_op \<Rightarrow> lane \<Rightarrow> lane \<times> job list" where
  "lane_do cap p l = (case p of
     Put j \<Rightarrow> (let (l', out) = ln_admit cap j l in (l', map fst out))
   | Take \<Rightarrow> (case ln_next l of (r, l') \<Rightarrow> (l', case r of None \<Rightarrow> [] | Some j \<Rightarrow> [j]))
   | Back j \<Rightarrow> (case ln_remove j l of (r, l') \<Rightarrow> (l', case r of None \<Rightarrow> [] | Some k \<Rightarrow> [k])))"

text \<open>
  The specification forgets the rotation: the reverts in order of arrival, and for each device
  its commands in order of arrival. A step says what comes out (taken, taken back or told).
\<close>

type_synonym fifo = "job list \<times> (string \<Rightarrow> job list)"

inductive fifo_step :: "pool_op \<Rightarrow> job list \<Rightarrow> fifo \<Rightarrow> fifo \<Rightarrow> bool" where
  urgent: "jb_kind j = ''revert'' \<Longrightarrow> fifo_step (Put j) [] (us, qs) (us @ [j], qs)"
| queued: "jb_kind j \<noteq> ''revert'' \<Longrightarrow> fifo_step (Put j) [] (us, qs) (us, qs(jb_device j := qs (jb_device j) @ [j]))"
| replaced: "qs (jb_device j) = pre @ k # post \<Longrightarrow> same_intent k j \<Longrightarrow> mergeable k \<Longrightarrow> mergeable j \<Longrightarrow>
    \<forall>x \<in> set post. jb_channel x \<noteq> jb_channel j \<Longrightarrow>
    fifo_step (Put j) [k] (us, qs) (us, qs(jb_device j := pre @ j # post))"
| refused: "jb_kind j \<noteq> ''revert'' \<Longrightarrow> fifo_step (Put j) [j] s s"
| take_urgent: "fifo_step Take [j] (j # us, qs) (us, qs)"
| take_turn: "qs dev = j # q \<Longrightarrow> fifo_step Take [j] ([], qs) ([], qs(dev := q))"
| idle: "\<forall>dev. qs dev = [] \<Longrightarrow> fifo_step Take [] ([], qs) ([], qs)"
| back_urgent: "us = pre @ k # post \<Longrightarrow> jb_uid k = jb_uid j \<Longrightarrow> fifo_step (Back j) [k] (us, qs) (pre @ post, qs)"
| withdrawn: "qs (jb_device j) = pre @ k # post \<Longrightarrow> jb_uid k = jb_uid j \<Longrightarrow>
    fifo_step (Back j) [k] (us, qs) (us, qs(jb_device j := pre @ post))"
| not_there: "fifo_step (Back j) [] s s"

definition abs_lane :: "lane \<Rightarrow> fifo" where
  "abs_lane l = (ln_urgent l, ln_queue l)"

lemma queue_fun:
  "ln_queue (l\<lparr>ln_pending := dict_set dev q (ln_pending l)\<rparr>) = (ln_queue l)(dev := q)"
  "ln_queue (l\<lparr>ln_pending := dict_set dev q (ln_pending l), ln_order := ord\<rparr>) = (ln_queue l)(dev := q)"
  "ln_queue (l\<lparr>ln_pending := dict_del dev (ln_pending l), ln_order := ord\<rparr>) = (ln_queue l)(dev := [])"
  "ln_queue (l\<lparr>ln_urgent := us\<rparr>) = ln_queue l"
  by (auto simp: ln_queue_def dict_simps fun_eq_iff)

lemma remove_job_split:
  "holds_job u q \<Longrightarrow> \<exists>pre k post. q = pre @ k # post \<and> jb_uid k = u \<and> find (\<lambda>k. jb_uid k = u) q = Some k \<and> remove_job u q = pre @ post"
proof (induction q)
  case (Cons j q)
  show ?case
  proof (cases "jb_uid j = u")
    case True
    then show ?thesis by (intro exI [of _ "[]"]) simp
  next
    case False
    then obtain pre k post where "q = pre @ k # post \<and> jb_uid k = u \<and> find (\<lambda>k. jb_uid k = u) q = Some k \<and> remove_job u q = pre @ post"
      using Cons by (auto simp: holds_job_def)
    then have "j # q = (j # pre) @ k # post \<and> jb_uid k = u \<and> find (\<lambda>k. jb_uid k = u) (j # q) = Some k \<and>
        remove_job u (j # q) = (j # pre) @ post" using False by auto
    then show ?thesis by blast
  qed
qed (simp add: holds_job_def)

lemma replace_last_split:
  assumes "filter P q \<noteq> []" "distinct (map jb_uid q)"
  shows "\<exists>pre post. q = pre @ last (filter P q) # post \<and> (\<forall>x \<in> set post. \<not> P x) \<and>
     replace_job (jb_uid (last (filter P q))) j q = pre @ j # post"
  using assms
proof (induction q)
  case (Cons x q)
  show ?case
  proof (cases "filter P q = []")
    case True
    then have "P x" "last (filter P (x # q)) = x" using Cons.prems(1) by (auto split: if_splits)
    then have "x # q = [] @ last (filter P (x # q)) # q \<and> (\<forall>y \<in> set q. \<not> P y) \<and>
        replace_job (jb_uid (last (filter P (x # q)))) j (x # q) = [] @ j # q"
      using True by (simp add: filter_empty_conv)
    then show ?thesis by blast
  next
    case False
    then have l: "last (filter P (x # q)) = last (filter P q)" by simp
    from Cons.IH [OF False] Cons.prems(2) obtain pre post where
      "q = pre @ last (filter P q) # post" "\<forall>y \<in> set post. \<not> P y"
      "replace_job (jb_uid (last (filter P q))) j q = pre @ j # post" by auto
    moreover have "jb_uid x \<noteq> jb_uid (last (filter P q))"
      using Cons.prems(2) last_in_set [OF False] by (auto simp: image_iff)
    ultimately have "x # q = (x # pre) @ last (filter P q) # post \<and> (\<forall>y \<in> set post. \<not> P y) \<and>
        replace_job (jb_uid (last (filter P q))) j (x # q) = (x # pre) @ j # post" by simp
    then show ?thesis unfolding l by blast
  qed
qed simp

lemma lane_queue_uids: "lane_ok l \<Longrightarrow> distinct (map jb_uid (ln_queue l dev))"
  using queue_uids [of l dev] by (auto simp: ln_queue_def split: option.split)

lemma no_queue: "lane_ok l \<Longrightarrow> ln_jobs l = [] \<Longrightarrow> ln_queue l dev = []"
  using queue_in_jobs [of l dev] by auto

lemma admit_refines:
  assumes ok: "lane_ok l" and adm: "ln_admit cap j l = (l', out)"
  shows "fifo_step (Put j) (map fst out) (abs_lane l) (abs_lane l')"
proof -
  let ?dev = "jb_device j"
  let ?slot = "ln_slot ?dev (jb_channel j) l"
  from adm show ?thesis
  proof (cases rule: ln_admit_cases)
    case revert
    then show ?thesis by (simp add: abs_lane_def queue_fun fifo_step.urgent)
  next
    case refused
    then show ?thesis by (simp add: fifo_step.refused)
  next
    case replaced
    have f: "filter (\<lambda>x. jb_channel x = jb_channel j) (ln_queue l ?dev) \<noteq> []" using replaced(2) by (simp add: ln_slot_def)
    from replace_last_split [OF f lane_queue_uids [OF ok], of j] obtain pre post where
      s: "ln_queue l ?dev = pre @ last ?slot # post" "\<forall>x \<in> set post. jb_channel x \<noteq> jb_channel j"
        "replace_job (jb_uid (last ?slot)) j (ln_queue l ?dev) = pre @ j # post"
      unfolding ln_slot_def by blast
    show ?thesis
      using fifo_step.replaced [of "ln_queue l", OF s(1) replaced(5,4,3) s(2), of "ln_urgent l"] s(3) replaced(6,7)
      by (simp add: abs_lane_def queue_fun)
  next
    case new
    then have "ln_queue l ?dev = []" by (simp add: ln_queue_def)
    then show ?thesis
      using fifo_step.queued [OF new(1), of "ln_urgent l" "ln_queue l"] new by (simp add: abs_lane_def queue_fun)
  next
    case more
    then show ?thesis
      using fifo_step.queued [OF more(1), of "ln_urgent l" "ln_queue l"] by (simp add: abs_lane_def queue_fun)
  qed
qed

lemma next_refines:
  assumes ok: "lane_ok l" and n: "ln_next l = (r, l')"
  shows "fifo_step Take (case r of None \<Rightarrow> [] | Some j \<Rightarrow> [j]) (abs_lane l) (abs_lane l')"
proof (cases "ln_urgent l")
  case (Cons j us)
  then show ?thesis using n by (auto simp: ln_next_def abs_lane_def queue_fun intro: fifo_step.take_urgent)
next
  case nu: Nil
  show ?thesis
  proof (cases "ln_order l")
    case Nil
    then have e: "r = None" "l' = l" using n nu by (auto simp: ln_next_def)
    have "ln_pending l = []" using lane_okD(3) [OF ok] Nil by simp
    then show ?thesis using e nu by (auto simp: abs_lane_def ln_queue_def intro: fifo_step.idle)
  next
    case (Cons dev rest)
    then obtain q where g: "dict_get (ln_pending l) dev = Some q" using lane_okD(3) [OF ok] keys_in [of "ln_pending l" dev] by auto
    then obtain j q' where q: "q = j # q'" using queues_okD(1) [OF lane_okD(1) [OF ok] g] by (cases q) auto
    have "r = Some j \<and> ln_urgent l' = [] \<and> ln_queue l' = (ln_queue l)(dev := q')"
    proof (cases "q' = []")
      case True
      then show ?thesis using n nu Cons g q by (auto simp: ln_next_def queue_fun)
    next
      case False
      then show ?thesis using n nu Cons g q by (auto simp: ln_next_def queue_fun)
    qed
    moreover have "ln_queue l dev = j # q'" using g q by (simp add: ln_queue_def)
    ultimately show ?thesis using nu by (auto simp: abs_lane_def intro: fifo_step.take_turn)
  qed
qed

lemma remove_refines:
  assumes rm: "ln_remove j l = (r, l')"
  shows "fifo_step (Back j) (case r of None \<Rightarrow> [] | Some k \<Rightarrow> [k]) (abs_lane l) (abs_lane l')"
proof (cases "holds_job (jb_uid j) (ln_urgent l)")
  case True
  from remove_job_split [OF True] obtain pre k post where
    s: "ln_urgent l = pre @ k # post" "jb_uid k = jb_uid j" "find (\<lambda>k. jb_uid k = jb_uid j) (ln_urgent l) = Some k"
      "remove_job (jb_uid j) (ln_urgent l) = pre @ post" by blast
  then have "r = Some k" "l' = l\<lparr>ln_urgent := pre @ post\<rparr>" using rm True by (auto simp: ln_remove_def)
  then show ?thesis using fifo_step.back_urgent [OF s(1,2)] by (simp add: abs_lane_def queue_fun)
next
  case nu: False
  show ?thesis
  proof (cases "holds_job (jb_uid j) (ln_queue l (jb_device j))")
    case False
    then have "r = None \<and> l' = l" using rm nu by (auto simp: ln_remove_def ln_queue_def split: option.splits)
    then show ?thesis by (simp add: fifo_step.not_there)
  next
    case True
    then have ne: "ln_queue l (jb_device j) \<noteq> []" by (auto simp: holds_job_def)
    note g = ln_queue_get [OF ne]
    from remove_job_split [OF True] obtain pre k post where
      s: "ln_queue l (jb_device j) = pre @ k # post" "jb_uid k = jb_uid j"
        "find (\<lambda>k. jb_uid k = jb_uid j) (ln_queue l (jb_device j)) = Some k"
        "remove_job (jb_uid j) (ln_queue l (jb_device j)) = pre @ post" by blast
    have "r = Some k \<and> ln_urgent l' = ln_urgent l \<and> ln_queue l' = (ln_queue l)(jb_device j := pre @ post)"
    proof (cases "pre @ post = []")
      case nil: True
      then show ?thesis using rm nu True g s by (simp add: ln_remove_def Let_def) (auto simp: queue_fun)
    next
      case False
      then show ?thesis using rm nu True g s by (simp add: ln_remove_def Let_def) (auto simp: queue_fun)
    qed
    then show ?thesis using fifo_step.withdrawn [of "ln_queue l", OF s(1,2), of "ln_urgent l"] by (simp add: abs_lane_def)
  qed
qed

text \<open>
  C3 (refinement): The rotating lane implements one first-in-first-out queue per device with the reverts in
  front: every placing, turn and withdrawal of a well-formed lane is a step of that
  specification with the same jobs coming out, so a device's commands run in the order they
  were given, a newer value takes the place of the one it replaces, and a revert runs before
  everything that waits.
\<close>

theorem lane_refines_fifo:
  assumes "lane_ok l" and "lane_do cap p l = (l', out)"
  shows "fifo_step p out (abs_lane l) (abs_lane l')"
proof (cases p)
  case (Put j)
  then show ?thesis using assms admit_refines [OF assms(1)] by (auto simp: lane_do_def split: prod.splits)
next
  case Take
  then show ?thesis using assms next_refines [OF assms(1)] by (auto simp: lane_do_def split: prod.splits)
next
  case (Back j)
  then show ?thesis using assms remove_refines by (auto simp: lane_do_def split: prod.splits)
qed

theorem lane_refines_fifo_witness:
  "\<exists>l' out. lane_do 8 (Put (job_of 1 ''d'' ''limit'' ''set'' [] ''command'')) fresh_lane = (l', out) \<and>
     fifo_step (Put (job_of 1 ''d'' ''limit'' ''set'' [] ''command'')) out (abs_lane fresh_lane) (abs_lane l')"
proof -
  obtain l' out where e: "lane_do 8 (Put (job_of 1 ''d'' ''limit'' ''set'' [] ''command'')) fresh_lane = (l', out)" by fastforce
  from lane_refines_fifo [OF fresh_lane_ok(1) e] e show ?thesis by blast
qed

section \<open>No device starves\<close>

fun lane_taken :: "int \<Rightarrow> pool_op list \<Rightarrow> lane \<Rightarrow> job list" where
  "lane_taken cap [] l = []"
| "lane_taken cap (p # ps) l =
     (let (l', out) = lane_do cap p l in (if p = Take then out else []) @ lane_taken cap ps l')"

definition ahead :: "string \<Rightarrow> lane \<Rightarrow> nat" where
  "ahead dev l = length (ln_urgent l) + length (takeWhile (\<lambda>x. x \<noteq> dev) (ln_order l))"

definition takes :: "pool_op list \<Rightarrow> nat" where
  "takes ps = length (filter (\<lambda>p. p = Take) ps)"

lemma queued_in_order: "lane_ok l \<Longrightarrow> ln_queue l dev \<noteq> [] \<Longrightarrow> dev \<in> set (ln_order l)"
  using lane_okD(3) [of l] keys_in [of "ln_pending l" dev] ln_queue_get [of l dev] by auto

lemma admit_ahead:
  assumes ok: "lane_ok l" and q: "ln_queue l dev \<noteq> []" and nr: "jb_kind j \<noteq> ''revert''" and adm: "ln_admit cap j l = (l', out)"
  shows "ln_queue l' dev \<noteq> [] \<and> ahead dev l' = ahead dev l"
  using adm
proof (cases rule: ln_admit_cases)
  case replaced
  then have "ln_queue l (jb_device j) \<noteq> []" by (auto simp: ln_slot_def)
  then show ?thesis using q replaced(7) by (simp add: queue_fun ahead_def)
next
  case new
  have "ln_queue l' = (ln_queue l)(jb_device j := [j])" using new(5) by (simp add: queue_fun)
  then show ?thesis
    using q new(5) queued_in_order [OF ok q] by (auto simp: ahead_def takeWhile_append1)
next
  case more
  then show ?thesis using q by (simp add: queue_fun ahead_def)
qed (use nr q in simp_all)

lemma next_ahead:
  assumes ok: "lane_ok l" and q: "ln_queue l dev \<noteq> []" and n: "ln_next l = (r, l')"
  shows "\<exists>j. r = Some j \<and> (jb_device j = dev \<or> ln_queue l' dev \<noteq> [] \<and> Suc (ahead dev l') = ahead dev l)"
proof (cases "ln_urgent l")
  case (Cons j us)
  then show ?thesis using n q by (auto simp: ln_next_def ahead_def queue_fun)
next
  case nu: Nil
  from queued_in_order [OF ok q] obtain d0 rest where ord: "ln_order l = d0 # rest" by (cases "ln_order l") auto
  then obtain q0 where g: "dict_get (ln_pending l) d0 = Some q0" using lane_okD(3) [OF ok] keys_in [of "ln_pending l" d0] by auto
  note q0 = queues_okD [OF lane_okD(1) [OF ok] g]
  then obtain j q' where jq: "q0 = j # q'" by (cases q0) auto
  have r: "r = Some j" using n nu ord g jq by (cases "q' = []") (auto simp: ln_next_def)
  show ?thesis
  proof (cases "d0 = dev")
    case True
    then show ?thesis using r q0 jq by simp
  next
    case False
    then have "dev \<in> set rest" using queued_in_order [OF ok q] ord by simp
    then have "takeWhile (\<lambda>x. x \<noteq> dev) (rest @ [d0]) = takeWhile (\<lambda>x. x \<noteq> dev) rest"
      by (intro takeWhile_append1) auto
    moreover have "ln_queue l' dev = ln_queue l dev"
      using n nu ord g jq False by (cases "q' = []") (auto simp: ln_next_def queue_fun)
    moreover have "ln_urgent l' = []" "ln_order l' = rest \<or> ln_order l' = rest @ [d0]"
      using n nu ord g jq by (cases "q' = []"; auto simp: ln_next_def)+
    ultimately show ?thesis using r q nu ord False by (auto simp: ahead_def)
  qed
qed

text \<open>
  C24 (liveness): No device starves. Whatever commands keep arriving for other devices of the wire, a device
  with a command waiting is served after at most as many turns as there are reverts and
  devices in front of it, plus its own; only reverts may come in between.
\<close>

theorem waiting_device_is_served:
  assumes "lane_ok l" and "ln_queue l dev \<noteq> []"
    and "list_all (\<lambda>p. p = Take \<or> (\<exists>j. p = Put j \<and> jb_kind j \<noteq> ''revert'')) ps"
    and "distinct (map jb_uid (ln_jobs l @ placed ps))"
    and "ahead dev l < takes ps"
  shows "dev \<in> jb_device ` set (lane_taken cap ps l)"
  using assms
proof (induction ps arbitrary: l)
  case Nil
  then show ?case by (simp add: takes_def)
next
  case (Cons p ps)
  obtain l' out where go: "lane_do cap p l = (l', out)" by fastforce
  show ?case
  proof (cases "p = Take")
    case True
    obtain r where n: "ln_next l = (r, l')" and o: "out = (case r of None \<Rightarrow> [] | Some j \<Rightarrow> [j])"
      using go True by (auto simp: lane_do_def split: prod.splits)
    from next_ahead [OF Cons.prems(1,2) n] obtain j where j: "r = Some j"
      "jb_device j = dev \<or> ln_queue l' dev \<noteq> [] \<and> Suc (ahead dev l') = ahead dev l" by blast
    have ok': "lane_ok l'" and m: "mset (ln_jobs l) = add_mset j (mset (ln_jobs l'))"
      using ln_next_ok [OF Cons.prems(1) n] j(1) by simp_all
    have "distinct (map jb_uid (ln_jobs l' @ placed ps))"
      using Cons.prems(4) distinct_uids_mset [of "ln_jobs l @ placed ps" "j # ln_jobs l' @ placed ps"] m True by simp
    then have "ln_queue l' dev \<noteq> [] \<and> Suc (ahead dev l') = ahead dev l \<Longrightarrow> dev \<in> jb_device ` set (lane_taken cap ps l')"
      using Cons.prems(3,5) True by (intro Cons.IH [OF ok']) (auto simp: takes_def)
    then show ?thesis using go True o j by auto
  next
    case False
    then obtain j where p: "p = Put j" and nr: "jb_kind j \<noteq> ''revert''" using Cons.prems(3) by auto
    obtain tl where adm: "ln_admit cap j l = (l', tl)" using go p by (auto simp: lane_do_def split: prod.splits)
    have fresh: "jb_uid j \<notin> jb_uid ` set (ln_jobs l)" using Cons.prems(4) p by auto
    note a = ln_admit_ok [OF Cons.prems(1) fresh adm] admit_ahead [OF Cons.prems(1,2) nr adm]
    have "mset (map fst tl @ ln_jobs l' @ placed ps) = mset (ln_jobs l @ j # placed ps)"
      using a(1) by (simp add: ac_simps)
    then have "distinct (map jb_uid (map fst tl @ ln_jobs l' @ placed ps))"
      using distinct_uids_mset [of "map fst tl @ ln_jobs l' @ placed ps" "ln_jobs l @ j # placed ps"] Cons.prems(4) p by simp
    then have "dev \<in> jb_device ` set (lane_taken cap ps l')"
      using Cons.prems(3,5) a p by (intro Cons.IH) (auto simp: takes_def)
    then show ?thesis using go False by simp
  qed
qed

theorem waiting_device_is_served_witness:
  "''b'' \<in> jb_device ` set (lane_taken 8 [Take, Put (job_of 4 ''a'' ''c'' ''set'' [] ''command''), Take]
     (fst (ln_admit 8 (job_of 2 ''b'' ''c'' ''set'' [] ''command'')
       (fst (ln_admit 8 (job_of 1 ''a'' ''c'' ''set'' [] ''command'') fresh_lane)))))"
  by (rule waiting_device_is_served)
    (simp_all add: ln_admit_def fresh_lane_def job_of_def ln_slot_def ln_queue_def lane_ok_def queues_ok_def
      ln_jobs_def ahead_def takes_def mergeable_def)

section \<open>Invariants of a lane, lifted to the dispatcher\<close>

text \<open>
  Whatever holds of an empty lane and survives placing, a turn and a withdrawal holds of every
  lane the dispatcher ever has: the dispatcher touches its lanes in no other way.
\<close>

locale lane_invariant =
  fixes I :: "lane \<Rightarrow> bool" and cap :: int
  assumes fresh: "I fresh_lane"
    and admit: "lane_ok l \<Longrightarrow> I l \<Longrightarrow> jb_kind j \<in> set KINDS \<Longrightarrow> ln_admit cap (admitted_at now j) l = (l', out) \<Longrightarrow> I l'"
    and turn: "lane_ok l \<Longrightarrow> I l \<Longrightarrow> ln_next l = (r, l') \<Longrightarrow> I l'"
    and removed: "lane_ok l \<Longrightarrow> I l \<Longrightarrow> ln_remove j l = (r, l') \<Longrightarrow> I l'"
    and frame: "I l \<Longrightarrow> ln_urgent l' = ln_urgent l \<Longrightarrow> ln_pending l' = ln_pending l \<Longrightarrow> I l'"
begin

definition all_lanes :: "dispatcher \<Rightarrow> bool" where
  "all_lanes d = (dp_cap d = cap \<and> (\<forall>k l. dict_get (dp_lanes d) k = Some l \<longrightarrow> I l))"

lemma all_lanes_of: "all_lanes d \<Longrightarrow> I (lane_of k d)"
  by (auto simp: all_lanes_def lane_of_def fresh split: option.split)

lemma all_lanes_set: "all_lanes d \<Longrightarrow> I l \<Longrightarrow> all_lanes (set_lane k l d)"
  by (auto simp: all_lanes_def set_lane_def dict_simps)

lemma all_lanes_cong: "all_lanes d \<Longrightarrow> dp_lanes e = dp_lanes d \<Longrightarrow> dp_cap e = dp_cap d \<Longrightarrow> all_lanes e"
  by (simp add: all_lanes_def)

lemma cancelled_lane: "lane_ok l \<Longrightarrow> I l \<Longrightarrow> mset js \<subseteq># mset (ln_jobs l) \<Longrightarrow> I (fold (\<lambda>j l. snd (ln_remove j l)) js l)"
proof (induction js arbitrary: l)
  case (Cons j js)
  have "j \<in> set (ln_jobs l)" using Cons.prems(3) by (metis list.set_intros(1) mset_subset_eqD set_mset_mset)
  then obtain l' where e: "ln_remove j l = (Some j, l')" using ln_remove_found [OF Cons.prems(1)] by blast
  note r = ln_remove_ok [OF Cons.prems(1) e]
  have "mset js \<subseteq># mset (ln_jobs l')" using Cons.prems(3) r by simp
  then show ?case using Cons.IH [of l'] r e removed [OF Cons.prems(1,2) e] by simp
qed simp

lemma cap_kept [simp]:
  "dp_cap (complete_all now xs d) = dp_cap d" "dp_cap (count_event a b c d) = dp_cap d"
  "dp_cap (fold (\<lambda>(j, r). if r = superseded then count_event (jb_device j) (jb_command j) ''superseded'' else id) xs d) = dp_cap d"
proof -
  have c: "dp_cap (complete now j r d) = dp_cap d" for j r d by (simp add: complete_def Let_def)
  show "dp_cap (complete_all now xs d) = dp_cap d"
    unfolding complete_all_def by (induction xs arbitrary: d) (auto simp: c)
  show e: "dp_cap (count_event a b c d) = dp_cap d" for a b c d by (simp add: count_event_def Let_def)
  show "dp_cap (fold (\<lambda>(j, r). if r = superseded then count_event (jb_device j) (jb_command j) ''superseded'' else id) xs d) = dp_cap d"
    by (induction xs arbitrary: d) (auto simp: e)
qed

lemma cancel_keeps: "dp_ok d \<Longrightarrow> all_lanes d \<Longrightarrow> all_lanes (snd (cancel_where now P d))"
proof -
  assume d: "dp_ok d" and a: "all_lanes d"
  have "I (ln_cancel P l)" if "dict_get (dp_lanes d) k = Some l" for k l
    unfolding ln_cancel_def
    by (rule cancelled_lane) (use dp_okD(2) [OF d that] a that in \<open>auto simp: all_lanes_def\<close>)
  then show ?thesis using a by (auto simp: cancel_where_def Let_def all_lanes_def dict_get_map)
qed

lemma do_keeps:
  assumes d: "dp_ok d" and a: "all_lanes d"
  shows "all_lanes (dp_do p d)"
proof (cases p)
  case (Submit now j)
  show ?thesis
  proof (cases "jb_kind j \<notin> set KINDS \<or> dp_stopped d \<or> (dp_closing d \<and> jb_kind j \<noteq> ''revert'')")
    case True
    then show ?thesis using Submit all_lanes_cong [OF a] a
      by (auto simp: dp_do_def submit_def Let_def admitted_at_def)
  next
    case False
    let ?j = "admitted_at now j"
    obtain l tl where adm: "ln_admit (dp_cap d) ?j (lane_of (jb_lane ?j) d) = (l, tl)" by fastforce
    have "I l" by (rule admit [OF lane_of_ok [OF d] all_lanes_of [OF a], of j now "jb_lane ?j"])
      (use adm a False in \<open>auto simp: all_lanes_def\<close>)
    then have "I (l\<lparr>ln_thread := b\<rparr>)" for b by (rule frame) simp_all
    from all_lanes_set [OF a this] show ?thesis
      using Submit False adm by (auto simp: dp_do_def submit_def Let_def admitted_at_def all_lanes_def)
  qed
next
  case (Withdraw now j)
  show ?thesis
  proof (cases "\<exists>l k l'. dict_get (dp_lanes d) (jb_lane j) = Some l \<and> ln_remove j l = (Some k, l')")
    case True
    then obtain l k l' where g: "dict_get (dp_lanes d) (jb_lane j) = Some l" and r: "ln_remove j l = (Some k, l')" by blast
    have "I l'" by (rule removed [OF dp_okD(2) [OF d g] _ r]) (use a g in \<open>simp add: all_lanes_def\<close>)
    then show ?thesis using Withdraw g r all_lanes_cong [OF all_lanes_set [OF a]] by (simp add: dp_do_def withdraw_def)
  next
    case False
    then have "withdraw now j d = (False, d)" by (auto simp: withdraw_def split: option.splits prod.splits)
    then show ?thesis using Withdraw a by (simp add: dp_do_def)
  qed
next
  case (TakeTurn k now)
  show ?thesis
  proof (cases "\<exists>l. dict_get (dp_lanes d) k = Some l \<and> ln_thread l \<and> ln_running l = None")
    case True
    then obtain l r l' where g: "dict_get (dp_lanes d) k = Some l" "ln_thread l" "ln_running l = None" and n: "ln_next l = (r, l')"
      by (metis prod.exhaust)
    have i: "I l'" by (rule turn [OF dp_okD(2) [OF d g(1)] _ n]) (use a g in \<open>simp add: all_lanes_def\<close>)
    then have "I (l'\<lparr>ln_running := x, ln_expired := b\<rparr>)" for x b by (rule frame) simp_all
    then have m: "all_lanes (set_lane k (l'\<lparr>ln_running := x, ln_expired := b\<rparr>) d)" for x b by (rule all_lanes_set [OF a])
    have c: "all_lanes (count_event u v w (set_lane k (l'\<lparr>ln_running := x, ln_expired := b\<rparr>) d))" for u v w x b
      by (rule all_lanes_cong [OF m]) simp_all
    show ?thesis
      using all_lanes_set [OF a i] m c TakeTurn g n by (cases r) (simp_all add: dp_do_def serve_take_def Let_def)
  next
    case False
    then have "serve_take k now d = (None, d)" by (auto simp: serve_take_def split: option.splits)
    then show ?thesis using TakeTurn a by (simp add: dp_do_def)
  qed
next
  case (Finish k now out)
  show ?thesis
  proof (cases "\<exists>l j. dict_get (dp_lanes d) k = Some l \<and> ln_running l = Some j")
    case True
    then obtain l j where g: "dict_get (dp_lanes d) k = Some l" "ln_running l = Some j" by blast
    have "I (l\<lparr>ln_running := None\<rparr>)" by (rule frame [of l]) (use a g in \<open>simp_all add: all_lanes_def\<close>)
    then show ?thesis using Finish g all_lanes_cong [OF all_lanes_set [OF a]] by (simp add: dp_do_def serve_finish_def)
  next
    case False
    then have "serve_finish k now out d = d" by (auto simp: serve_finish_def split: option.splits)
    then show ?thesis using Finish a by (simp add: dp_do_def)
  qed
next
  case (EndIdle k)
  show ?thesis
  proof (cases "\<exists>l l'. dict_get (dp_lanes d) k = Some l \<and> ln_running l = None \<and> ln_next l = (None, l')")
    case True
    then obtain l l' where g: "dict_get (dp_lanes d) k = Some l" and run: "ln_running l = None" "ln_next l = (None, l')" by blast
    have "serve_idle k d = d \<or> serve_idle k d = d\<lparr>dp_lanes := dict_del k (dp_lanes d)\<rparr>"
      using ln_next_ok [OF dp_okD(2) [OF d g] run(2)] ln_next_running [OF run(2)] run g by (auto simp: serve_idle_def)
    then show ?thesis using EndIdle a by (auto simp: dp_do_def all_lanes_def dict_get_del split: if_splits)
  next
    case False
    then have "serve_idle k d = d" by (auto simp: serve_idle_def split: option.splits prod.splits)
    then show ?thesis using EndIdle a by (simp add: dp_do_def)
  qed
next
  case (Forget dev)
  then show ?thesis using a by (simp add: dp_do_def dp_forget_def all_lanes_def)
next
  case (Cancel now dev)
  then show ?thesis using cancel_keeps [OF d a] by (simp add: dp_do_def cancel_def)
next
  case (Close now)
  have "dp_ok (d\<lparr>dp_closing := True\<rparr>)" "all_lanes (d\<lparr>dp_closing := True\<rparr>)"
    using d a by (simp_all add: dp_ok_def unfinished_def told_def all_lanes_def)
  then show ?thesis using Close cancel_keeps by (simp add: dp_do_def dp_close_def)
next
  case (Stop now)
  have "dp_ok (d\<lparr>dp_stopped := True\<rparr>)" "all_lanes (d\<lparr>dp_stopped := True\<rparr>)"
    using d a by (simp_all add: dp_ok_def unfinished_def told_def all_lanes_def)
  then show ?thesis using Stop cancel_keeps by (simp add: dp_do_def dp_stop_def cancel_def)
qed

lemma run_keeps:
  "dp_ok d \<Longrightarrow> all_lanes d \<Longrightarrow> distinct (submitted ps) \<Longrightarrow> \<forall>u \<in> set (submitted ps). u \<notin># ledger d \<Longrightarrow>
   all_lanes (dp_run ps d)"
proof (induction ps arbitrary: d)
  case (Cons p ps)
  have sp: "submitted (p # ps) = submitted [p] @ submitted ps" by (cases p) simp_all
  have s: "dp_ok (dp_do p d) \<and> ledger (dp_do p d) = ledger d + mset (submitted [p])"
    using Cons.prems sp by (intro step_ledger) auto
  have "all_lanes (dp_run ps (dp_do p d))"
    using s Cons.prems sp do_keeps [OF Cons.prems(1,2), of p] by (intro Cons.IH) auto
  then show ?case by simp
qed simp

lemma reachable_lane:
  assumes "distinct (submitted ps)" "dict_get (dp_lanes (dp_run ps (dispatcher_init cap))) k = Some l"
  shows "I l"
proof -
  have "all_lanes (dispatcher_init cap)" by (simp add: all_lanes_def dispatcher_init_def)
  from run_keeps [OF dispatcher_init_ok(1) this assms(1)] assms(2) show ?thesis
    by (simp add: dispatcher_init_ok(2) all_lanes_def)
qed

end

subsection \<open>Slots are short\<close>

definition slots_short :: "int \<Rightarrow> lane \<Rightarrow> bool" where
  "slots_short cap l = (\<forall>dev ch. int (length (ln_slot dev ch l)) \<le> max 0 cap)"

lemma slot_of_queue: "ln_queue l' = (ln_queue l)(dev := q) \<Longrightarrow>
  ln_slot dev' ch l' = (if dev' = dev then filter (\<lambda>j. jb_channel j = ch) q else ln_slot dev' ch l)"
  by (simp add: ln_slot_def)

lemma fun_upd_bound:
  "\<forall>dev ch. int (length (filter (\<lambda>j. jb_channel j = ch) (qs dev))) \<le> n \<Longrightarrow>
   (\<And>ch. int (length (filter (\<lambda>j. jb_channel j = ch) q)) \<le> n) \<Longrightarrow>
   \<forall>dev ch. int (length (filter (\<lambda>j. jb_channel j = ch) ((qs(d := q)) dev))) \<le> n"
  by (simp only: fun_upd_apply) simp

lemma fifo_slots:
  assumes "fifo_step p out s s'" and "\<forall>dev ch. int (length (filter (\<lambda>j. jb_channel j = ch) (snd s dev))) \<le> n"
    and "\<And>j. p = Put j \<Longrightarrow> out = [] \<Longrightarrow> jb_kind j \<noteq> ''revert'' \<Longrightarrow>
           int (length (filter (\<lambda>k. jb_channel k = jb_channel j) (snd s (jb_device j)))) < n"
  shows "\<forall>dev ch. int (length (filter (\<lambda>j. jb_channel j = ch) (snd s' dev))) \<le> n"
  using assms
proof (cases rule: fifo_step.cases)
  case (queued j us qs)
  then show ?thesis using assms(2,3) by auto
next
  case (replaced qs j pre k post us)
  then have ch: "jb_channel k = jb_channel j" by (auto simp: same_intent_def split: if_splits)
  have "length (filter (\<lambda>x. jb_channel x = c) (pre @ j # post)) = length (filter (\<lambda>x. jb_channel x = c) (qs (jb_device j)))" for c
    using replaced ch by auto
  moreover have "snd s (jb_device j) = qs (jb_device j)" using replaced by simp
  ultimately have "int (length (filter (\<lambda>x. jb_channel x = c) (pre @ j # post))) \<le> n" for c
    using assms(2) [rule_format, of c "jb_device j"] by simp
  then show ?thesis using assms(2) replaced(3,4) by (simp add: fun_upd_bound)
next
  case (take_turn qs dev j q)
  have "int (length (filter (\<lambda>x. jb_channel x = c) q)) \<le> n" for c
    using assms(2) [rule_format, of c dev] take_turn by (auto split: if_splits)
  then show ?thesis using assms(2) take_turn by auto
next
  case (withdrawn qs j pre k post us)
  have "int (length (filter (\<lambda>x. jb_channel x = c) (pre @ post))) \<le> n" for c
    using assms(2) [rule_format, of c "jb_device j"] withdrawn by (auto split: if_splits)
  then show ?thesis using assms(2) withdrawn by auto
qed auto

lemma admit_short:
  assumes "ln_admit cap j l = (l', [])" "jb_kind j \<noteq> ''revert''"
  shows "int (length (ln_slot (jb_device j) (jb_channel j) l)) < cap"
  using assms(1) by (cases rule: ln_admit_cases) (use assms(2) in simp_all)

lemma slots_short_fifo: "slots_short cap l \<longleftrightarrow> (\<forall>dev ch. int (length (filter (\<lambda>j. jb_channel j = ch) (snd (abs_lane l) dev))) \<le> max 0 cap)"
  by (simp add: slots_short_def abs_lane_def ln_slot_def)

interpretation short: lane_invariant "slots_short cap" cap for cap
proof unfold_locales
  show "slots_short cap fresh_lane" by (simp add: slots_short_def fresh_lane_def ln_slot_def ln_queue_def)
next
  fix l l' :: lane and j now out
  assume ok: "lane_ok l" and s: "slots_short cap l" and adm: "ln_admit cap (admitted_at now j) l = (l', out)"
  show "slots_short cap l'"
    unfolding slots_short_fifo
  proof (rule fifo_slots [OF admit_refines [OF ok adm]])
    fix k assume p: "Put (admitted_at now j) = Put k" "map fst out = []" "jb_kind k \<noteq> ''revert''"
    then have "int (length (ln_slot (jb_device k) (jb_channel k) l)) < cap"
      using admit_short [of cap k l l'] adm by simp
    then show "int (length (filter (\<lambda>x. jb_channel x = jb_channel k) (snd (abs_lane l) (jb_device k)))) < max 0 cap"
      by (simp add: abs_lane_def ln_slot_def)
  qed (use s in \<open>simp add: slots_short_fifo\<close>)
next
  fix l l' :: lane and r
  assume ok: "lane_ok l" and s: "slots_short cap l" and n: "ln_next l = (r, l')"
  show "slots_short cap l'"
    unfolding slots_short_fifo by (rule fifo_slots [OF next_refines [OF ok n]]) (use s in \<open>auto simp: slots_short_fifo\<close>)
next
  fix l l' :: lane and r j
  assume ok: "lane_ok l" and s: "slots_short cap l" and n: "ln_remove j l = (r, l')"
  show "slots_short cap l'"
    unfolding slots_short_fifo by (rule fifo_slots [OF remove_refines [OF n]]) (use s in \<open>auto simp: slots_short_fifo\<close>)
next
  fix l l' :: lane
  assume "slots_short cap l" "ln_urgent l' = ln_urgent l" "ln_pending l' = ln_pending l"
  then show "slots_short cap l'" by (simp add: slots_short_def ln_slot_def ln_queue_def)
qed

text \<open>
  A slot never holds more commands than its cap, on any wire, for any device and channel,
  whatever was submitted, replaced, served or withdrawn before.
\<close>

theorem slots_never_overflow:
  assumes "distinct (submitted ps)" and "0 \<le> cap"
  shows "int (slot_pending key dev ch (dp_run ps (dispatcher_init cap))) \<le> cap"
proof (cases "dict_get (dp_lanes (dp_run ps (dispatcher_init cap))) key")
  case None
  then show ?thesis using assms(2) by (simp add: slot_pending_def)
next
  case (Some l)
  then have "slots_short cap l" using short.reachable_lane [OF assms(1)] by blast
  then have "int (length (ln_slot dev ch l)) \<le> max 0 cap" unfolding slots_short_def by blast
  then show ?thesis using Some assms(2) by (simp add: slot_pending_def)
qed

theorem slots_never_overflow_witness:
  "slot_pending ''bus1'' ''d'' ''c'' (dp_run [Submit 0 (job_of 1 ''d'' ''c'' ''run'' [] ''sequence''),
     Submit 0 (job_of 2 ''d'' ''c'' ''run'' [] ''sequence'')] (dispatcher_init 1)) \<le> 1"
  using slots_never_overflow [of "[Submit 0 (job_of 1 ''d'' ''c'' ''run'' [] ''sequence''),
     Submit 0 (job_of 2 ''d'' ''c'' ''run'' [] ''sequence'')]" 1 "''bus1''" "''d''" "''c''"]
  by (simp add: job_of_def KINDS_def)

subsection \<open>Deadlines\<close>

definition timed :: "lane \<Rightarrow> bool" where
  "timed l = (\<forall>j \<in> set (ln_jobs l). \<exists>now k. j = admitted_at now k)"

lemma timed_mset: "timed l \<Longrightarrow> set (ln_jobs l') \<subseteq> insert j (set (ln_jobs l)) \<Longrightarrow> \<exists>now k. j = admitted_at now k \<Longrightarrow> timed l'"
  unfolding timed_def by blast

interpretation deadline: lane_invariant timed cap for cap
proof unfold_locales
  show "timed fresh_lane" by (simp add: timed_def)
next
  fix l l' :: lane and j now out
  assume ok: "lane_ok l" and t: "timed l" and adm: "ln_admit cap (admitted_at now j) l = (l', out)"
  have "mset (ln_jobs l') + mset (map fst out) = add_mset (admitted_at now j) (mset (ln_jobs l))"
    using ln_admit_pending [OF lane_okD(1-3) [OF ok] lane_queue_uids [OF ok] adm] by simp
  then have "set (ln_jobs l') \<subseteq> insert (admitted_at now j) (set (ln_jobs l))"
    by (metis mset_subset_eq_add_left set_mset_add_mset_insert set_mset_mono set_mset_mset)
  then show "timed l'" by (rule timed_mset [OF t]) blast
next
  fix l l' :: lane and r
  assume ok: "lane_ok l" and t: "timed l" and n: "ln_next l = (r, l')"
  have "set (ln_jobs l') \<subseteq> set (ln_jobs l)"
    using ln_next_ok [OF ok n] by (cases r) (simp_all, metis set_mset_add_mset_insert set_mset_mset subset_insertI)
  then show "timed l'" using t unfolding timed_def by blast
next
  fix l l' :: lane and r j
  assume ok: "lane_ok l" and t: "timed l" and n: "ln_remove j l = (r, l')"
  have "set (ln_jobs l') \<subseteq> set (ln_jobs l)"
    using ln_remove_ok [OF ok n] by (cases r) (simp_all, metis set_mset_add_mset_insert set_mset_mset subset_insertI)
  then show "timed l'" using t unfolding timed_def by blast
next
  fix l l' :: lane
  assume "timed l" "ln_urgent l' = ln_urgent l" "ln_pending l' = ln_pending l"
  then show "timed l'" by (simp add: timed_def ln_jobs_def)
qed

text \<open>
  A command that waited past its deadline writes nothing. When a command's turn comes it is
  run exactly if it waited no longer than the age it was given; an older one is told it
  expired, whatever running it would have answered.
\<close>

theorem stale_command_not_run:
  assumes "distinct (submitted ps)" and "serve_take key now (dp_run ps (dispatcher_init cap)) = (Some j, d)"
    and "jb_kind j \<noteq> ''revert''" and "jb_max_age j = Some a" and "a \<noteq> 0"
  shows "if a < now - jb_admitted j
    then (\<forall>out. verdict (ln_expired (lane_of key d)) out = (409, [(''status'', VStr ''expired'')]))
    else \<not> ln_expired (lane_of key d) \<and> jb_started j = Some now"
proof -
  let ?d = "dp_run ps (dispatcher_init cap)"
  from assms(2) obtain l k l' where g: "dict_get (dp_lanes ?d) key = Some l" and n: "ln_next l = (Some k, l')"
    and j: "j = (if (case jb_deadline k of None \<Rightarrow> False | Some t \<Rightarrow> t < now) then k else k\<lparr>jb_started := Some now\<rparr>)"
    and x: "ln_expired (lane_of key d) = (case jb_deadline k of None \<Rightarrow> False | Some t \<Rightarrow> t < now)"
    by (auto simp: serve_take_def Let_def lane_of_def set_lane_def dict_get_set split: option.splits if_splits prod.splits)
  have "timed l" by (rule deadline.reachable_lane [OF assms(1) g])
  moreover have "dp_ok ?d" using run_ledger [OF dispatcher_init_ok(1) assms(1)] by (simp add: dispatcher_init_ok(2))
  then have "k \<in> set (ln_jobs l)"
    using ln_next_ok [OF dp_okD(2) [OF _ g] n] by (simp flip: set_mset_mset)
  ultimately obtain t0 k0 where k: "k = admitted_at t0 k0" unfolding timed_def by blast
  have same: "jb_kind j = jb_kind k" "jb_max_age j = jb_max_age k" "jb_admitted j = jb_admitted k" using j by simp_all
  have "jb_deadline k = Some (jb_admitted k + a)"
    using assms(3-5) same unfolding k by (simp add: admitted_at_def)
  then show ?thesis using x j same by (auto simp: verdict_def)
qed

theorem stale_command_not_run_witness:
  "\<exists>j d. serve_take ''bus1'' 31 (dp_run [Submit 0 (job_of 1 ''d'' ''c'' ''set'' [] ''command'')] (dispatcher_init 8)) = (Some j, d)
     \<and> (\<forall>out. verdict (ln_expired (lane_of ''bus1'' d)) out = (409, [(''status'', VStr ''expired'')]))"
proof -
  let ?ps = "[Submit 0 (job_of 1 ''d'' ''c'' ''set'' [] ''command'')]"
  have "\<exists>j d. serve_take ''bus1'' 31 (dp_run ?ps (dispatcher_init 8)) = (Some j, d) \<and> jb_kind j = ''command''
      \<and> jb_max_age j = Some 30 \<and> jb_admitted j = 0"
    by (simp add: dp_do_def submit_def job_of_def KINDS_def admitted_at_def dispatcher_init_def lane_of_def ln_admit_def
        ln_slot_def ln_queue_def fresh_lane_def mergeable_def set_lane_def complete_all_def holds_job_def serve_take_def
        ln_next_def Let_def)
  then obtain j d where e: "serve_take ''bus1'' 31 (dp_run ?ps (dispatcher_init 8)) = (Some j, d)"
    and j: "jb_kind j = ''command''" "jb_max_age j = Some 30" "jb_admitted j = 0" by blast
  have "distinct (submitted ?ps)" by (simp add: job_of_def)
  from stale_command_not_run [OF this e] j e show ?thesis by simp
qed

end
