(* ===== verification/WriteLease.thy ===== *)
theory WriteLease
  imports Prelude
begin

text \<open>
  The dead-man switch of \<open>write_lease.py\<close>: a leased write whose lease is not renewed in time
  is reverted to its safe value.

  The manager's fields are \<open>lease_mgr\<close>; the file of the declarative records is \<open>lm_disk\<close>.
  A revert thread of a sweep is a \<open>lease_task\<close> with the point it has reached: the code takes the
  lock several times in one revert, and other calls run in between, so each critical section
  is a step of its own. The revert callable is the caller's: it asks \<open>is_current()\<close> and then
  writes the safe value, which fails or not (the contract in \<open>arm\<close>'s documentation);
  \<open>lm_written\<close> lists what was written. The clock is an argument. Logging, the wall-clock
  \<open>armed_ts\<close> and a failure to write the file are left out.
\<close>

section \<open>The manager\<close>

datatype lease_key = LeaseKey (key_device: string) (key_type: string) (key_address: int)

type_synonym lease_meta = "(string, pyval) dict"

record lease =
  le_expiry :: rat
  le_gen :: nat
  le_ms :: int
  le_meta :: "lease_meta option"

datatype lease_phase = Picked | Checked | Writing | Ended bool

type_synonym lease_task = "nat \<times> lease_phase"

record lease_mgr =
  lm_leases :: "(lease_key, lease) dict"
  lm_failing :: "lease_key set"
  lm_inflight :: "lease_key set"
  lm_gen :: nat
  lm_tick :: rat
  lm_path :: bool
  lm_disk :: "lease_meta list"
  lm_tasks :: "(lease_key, lease_task) dict"
  lm_written :: "(lease_key \<times> nat) list"

definition lease_init :: "rat \<Rightarrow> bool \<Rightarrow> lease_meta list \<Rightarrow> lease_mgr" where
  "lease_init tick path disk = \<lparr>lm_leases = [], lm_failing = {}, lm_inflight = {}, lm_gen = 0, lm_tick = tick,
     lm_path = path, lm_disk = disk, lm_tasks = [], lm_written = []\<rparr>"

definition lease_records :: "lease_mgr \<Rightarrow> lease_meta list" where
  "lease_records m = concat (map (\<lambda>(k, l). case le_meta l of None \<Rightarrow> [] | Some d \<Rightarrow> if d = [] then [] else [d]) (lm_leases m))"

definition lease_persist :: "lease_mgr \<Rightarrow> lease_mgr" where
  "lease_persist m = (if lm_path m then m\<lparr>lm_disk := lease_records m\<rparr> else m)"

definition load_persisted :: "lease_mgr \<Rightarrow> lease_meta list" where
  "load_persisted m = (if lm_path m then lm_disk m else [])"

definition lease_arm :: "lease_key \<Rightarrow> int \<Rightarrow> lease_meta option \<Rightarrow> bool \<Rightarrow> rat \<Rightarrow> lease_mgr \<Rightarrow> lease_mgr" where
  "lease_arm key ms meta fire_now now m =
     (let existed = (dict_get (lm_leases m) key \<noteq> None);
          l = \<lparr>le_expiry = now + (if fire_now then 0 else of_int ms / 1000), le_gen = lm_gen m + 1, le_ms = ms, le_meta = meta\<rparr>;
          m' = m\<lparr>lm_gen := lm_gen m + 1, lm_leases := dict_set key l (lm_leases m)\<rparr>
      in if existed then m' else lease_persist m')"

definition lease_clear :: "lease_key \<Rightarrow> lease_mgr \<Rightarrow> lease_mgr" where
  "lease_clear key m =
     (if dict_get (lm_leases m) key = None then m
      else lease_persist (m\<lparr>lm_leases := dict_del key (lm_leases m)\<rparr>))"

definition lease_clear_device :: "string \<Rightarrow> lease_mgr \<Rightarrow> lease_mgr" where
  "lease_clear_device dev m =
     (if filter (\<lambda>(k, l). key_device k = dev) (lm_leases m) = [] then m
      else lease_persist (m\<lparr>lm_leases := filter (\<lambda>(k, l). key_device k \<noteq> dev) (lm_leases m)\<rparr>))"

definition lease_drop_persisted :: "lease_mgr \<Rightarrow> lease_mgr" where
  "lease_drop_persisted m = lease_persist m"

definition lease_current :: "lease_key \<Rightarrow> nat \<Rightarrow> rat \<Rightarrow> lease_mgr \<Rightarrow> bool" where
  "lease_current key g now m = (case dict_get (lm_leases m) key of None \<Rightarrow> False | Some l \<Rightarrow> le_gen l = g \<and> le_expiry l \<le> now)"

text \<open>The mirror for a standby partner, and the listing: the time left of each lease.\<close>

definition lease_left :: "rat \<Rightarrow> lease \<Rightarrow> rat" where
  "lease_left now l = max 0 (le_expiry l - now)"

definition lease_export :: "rat \<Rightarrow> lease_mgr \<Rightarrow> lease_meta list" where
  "lease_export now m = concat (map (\<lambda>(k, l). case le_meta l of None \<Rightarrow> []
     | Some d \<Rightarrow> if d = [] then [] else [dict_set ''remaining_s'' (VFloat (py_round_dec (lease_left now l) 3)) d]) (lm_leases m))"

definition lease_snapshot :: "rat \<Rightarrow> lease_mgr \<Rightarrow> (lease_key \<times> rat \<times> int) list" where
  "lease_snapshot now m = map (\<lambda>(k, l). (k, py_round_dec (lease_left now l) 1, le_ms l)) (lm_leases m)"

section \<open>The sweep and its reverts\<close>

text \<open>
  One sweep fires every due lease that is not already in flight; a revert then checks, asks
  again and writes, and settles the lease.
\<close>

definition due_leases :: "rat \<Rightarrow> lease_mgr \<Rightarrow> (lease_key \<times> nat) list" where
  "due_leases now m = map (\<lambda>(k, l). (k, le_gen l)) (filter (\<lambda>(k, l). le_expiry l \<le> now) (lm_leases m))"

definition fire_lease :: "lease_key \<times> nat \<Rightarrow> lease_mgr \<Rightarrow> lease_mgr" where
  "fire_lease kg m =
     (if fst kg \<in> lm_inflight m then m
      else m\<lparr>lm_inflight := insert (fst kg) (lm_inflight m), lm_tasks := dict_set (fst kg) (snd kg, Picked) (lm_tasks m)\<rparr>)"

definition lease_sweep :: "rat \<Rightarrow> lease_mgr \<Rightarrow> lease_mgr" where
  "lease_sweep now m = fold fire_lease (due_leases now m) m"

definition task_over :: "lease_key \<Rightarrow> lease_mgr \<Rightarrow> lease_mgr" where
  "task_over key m = m\<lparr>lm_inflight := lm_inflight m - {key}, lm_tasks := dict_del key (lm_tasks m)\<rparr>"

definition revert_check :: "lease_key \<Rightarrow> rat \<Rightarrow> lease_mgr \<Rightarrow> lease_mgr" where
  "revert_check key now m =
     (case dict_get (lm_tasks m) key of
        Some (g, Picked) \<Rightarrow> if lease_current key g now m then m\<lparr>lm_tasks := dict_set key (g, Checked) (lm_tasks m)\<rparr> else task_over key m
      | _ \<Rightarrow> m)"

text \<open>The callable: a revert that is no longer current returns without writing, as a success.\<close>

definition revert_ask :: "lease_key \<Rightarrow> rat \<Rightarrow> lease_mgr \<Rightarrow> lease_mgr" where
  "revert_ask key now m =
     (case dict_get (lm_tasks m) key of
        Some (g, Checked) \<Rightarrow>
          m\<lparr>lm_tasks := dict_set key (g, if lease_current key g now m then Writing else Ended True) (lm_tasks m)\<rparr>
      | _ \<Rightarrow> m)"

definition revert_write :: "lease_key \<Rightarrow> bool \<Rightarrow> lease_mgr \<Rightarrow> lease_mgr" where
  "revert_write key ok m =
     (case dict_get (lm_tasks m) key of
        Some (g, Writing) \<Rightarrow>
          m\<lparr>lm_tasks := dict_set key (g, Ended ok) (lm_tasks m),
            lm_written := (if ok then (key, g) # lm_written m else lm_written m)\<rparr>
      | _ \<Rightarrow> m)"

definition retry_in :: "lease_mgr \<Rightarrow> rat" where
  "retry_in m = max 1 (lm_tick m * 3)"

definition revert_settle :: "lease_key \<Rightarrow> nat \<Rightarrow> bool \<Rightarrow> rat \<Rightarrow> lease_mgr \<Rightarrow> lease_mgr" where
  "revert_settle key g ok now m0 =
     (let m = m0\<lparr>lm_failing := (if ok then lm_failing m0 - {key} else insert key (lm_failing m0))\<rparr>
      in case dict_get (lm_leases m) key of
           None \<Rightarrow> m
         | Some l \<Rightarrow>
             if le_gen l \<noteq> g \<or> now < le_expiry l then m
             else if ok then lease_persist (m\<lparr>lm_leases := dict_del key (lm_leases m)\<rparr>)
             else m\<lparr>lm_leases := dict_set key (l\<lparr>le_expiry := now + retry_in m\<rparr>) (lm_leases m)\<rparr>)"

definition revert_end :: "lease_key \<Rightarrow> rat \<Rightarrow> lease_mgr \<Rightarrow> lease_mgr" where
  "revert_end key now m =
     (case dict_get (lm_tasks m) key of
        Some (g, Ended ok) \<Rightarrow> task_over key (revert_settle key g ok now m)
      | _ \<Rightarrow> m)"

section \<open>Shutdown\<close>

definition expire_all :: "rat \<Rightarrow> lease_mgr \<Rightarrow> lease_mgr" where
  "expire_all now m = m\<lparr>lm_leases := map (\<lambda>(k, l). (k, if now < le_expiry l then l\<lparr>le_expiry := now\<rparr> else l)) (lm_leases m)\<rparr>"

text \<open>
  \<open>_revert_all\<close>: each pending lease in turn, until the budget is spent. Each comes with the
  moment its turn starts and whether its safe write succeeds.
\<close>

fun revert_all :: "(lease_key \<times> nat) list \<Rightarrow> (rat \<times> bool) list \<Rightarrow> rat \<Rightarrow> lease_mgr \<Rightarrow> lease_mgr" where
  "revert_all ((key, g) # pending) ((now, ok) # outcomes) deadline m =
     (if deadline < now then m
      else let current = lease_current key g now m;
               m1 = (if current \<and> ok then m\<lparr>lm_written := (key, g) # lm_written m\<rparr> else m);
               returned = (\<not> current \<or> ok);
               m2 = (if returned
                     then case dict_get (lm_leases m1) key of
                            None \<Rightarrow> m1
                          | Some l \<Rightarrow> if le_gen l = g then lease_persist (m1\<lparr>lm_leases := dict_del key (lm_leases m1)\<rparr>) else m1
                     else m1)
           in revert_all pending outcomes deadline m2)"
| "revert_all _ _ _ m = m"

definition lease_stop :: "bool \<Rightarrow> rat \<Rightarrow> rat \<Rightarrow> (rat \<times> bool) list \<Rightarrow> lease_mgr \<Rightarrow> lease_mgr" where
  "lease_stop revert_now timeout now outcomes m =
     (if \<not> revert_now then m
      else let m1 = expire_all now m
           in revert_all (map (\<lambda>(k, l). (k, le_gen l)) (lm_leases m1)) outcomes (now + max 0 timeout) m1)"

section \<open>Runs\<close>

datatype lease_event = Arm lease_key int "lease_meta option" bool | Clear lease_key | ClearDevice string | DropPersisted
  | Sweep | Check lease_key | Ask lease_key | Write lease_key bool | End lease_key

fun lease_do :: "lease_event \<Rightarrow> rat \<Rightarrow> lease_mgr \<Rightarrow> lease_mgr" where
  "lease_do (Arm k ms meta fire) now m = lease_arm k ms meta fire now m"
| "lease_do (Clear k) now m = lease_clear k m"
| "lease_do (ClearDevice dev) now m = lease_clear_device dev m"
| "lease_do DropPersisted now m = lease_drop_persisted m"
| "lease_do Sweep now m = lease_sweep now m"
| "lease_do (Check k) now m = revert_check k now m"
| "lease_do (Ask k) now m = revert_ask k now m"
| "lease_do (Write k ok) now m = revert_write k ok m"
| "lease_do (End k) now m = revert_end k now m"

text \<open>The states a manager reaches, with the monotonic clock.\<close>

inductive lease_run :: "rat \<Rightarrow> lease_mgr \<Rightarrow> bool" where
  start: "lease_run t (lease_init tick path disk)"
| step: "lease_run t m \<Longrightarrow> t \<le> now \<Longrightarrow> lease_run now (lease_do e now m)"

definition has_gen :: "lease_key \<Rightarrow> nat \<Rightarrow> lease_mgr \<Rightarrow> bool" where
  "has_gen k g m = (\<exists>l. dict_get (lm_leases m) k = Some l \<and> le_gen l = g)"

definition lease_inv :: "rat \<Rightarrow> lease_mgr \<Rightarrow> bool" where
  "lease_inv t m = (dict_ok (lm_leases m)
     \<and> (\<forall>k l. dict_get (lm_leases m) k = Some l \<longrightarrow> le_gen l \<le> lm_gen m)
     \<and> (\<forall>k g ph. dict_get (lm_tasks m) k = Some (g, ph) \<longrightarrow> g \<le> lm_gen m \<and> k \<in> lm_inflight m
          \<and> (ph \<noteq> Picked \<longrightarrow> (\<forall>l. dict_get (lm_leases m) k = Some l \<longrightarrow> le_gen l = g \<longrightarrow> le_expiry l \<le> t))
          \<and> (ph = Ended True \<longrightarrow> has_gen k g m \<longrightarrow> (k, g) \<in> set (lm_written m))))"

lemma persist_simps [simp]:
  "lm_leases (lease_persist m) = lm_leases m" "lm_tasks (lease_persist m) = lm_tasks m"
  "lm_gen (lease_persist m) = lm_gen m" "lm_inflight (lease_persist m) = lm_inflight m"
  "lm_written (lease_persist m) = lm_written m" "lm_tick (lease_persist m) = lm_tick m" "lm_path (lease_persist m) = lm_path m"
  by (simp_all add: lease_persist_def)

lemma arm_simps [simp]:
  "lm_leases (lease_arm k ms meta fire now m) = dict_set k
     \<lparr>le_expiry = now + (if fire then 0 else of_int ms / 1000), le_gen = lm_gen m + 1, le_ms = ms, le_meta = meta\<rparr> (lm_leases m)"
  "lm_tasks (lease_arm k ms meta fire now m) = lm_tasks m" "lm_gen (lease_arm k ms meta fire now m) = lm_gen m + 1"
  "lm_inflight (lease_arm k ms meta fire now m) = lm_inflight m" "lm_written (lease_arm k ms meta fire now m) = lm_written m"
  by (simp_all add: lease_arm_def Let_def)

lemma clear_simps [simp]:
  "lm_tasks (lease_clear k m) = lm_tasks m" "lm_gen (lease_clear k m) = lm_gen m"
  "lm_inflight (lease_clear k m) = lm_inflight m" "lm_written (lease_clear k m) = lm_written m"
  "lm_tasks (lease_clear_device dev m) = lm_tasks m" "lm_gen (lease_clear_device dev m) = lm_gen m"
  "lm_inflight (lease_clear_device dev m) = lm_inflight m" "lm_written (lease_clear_device dev m) = lm_written m"
  by (simp_all add: lease_clear_def lease_clear_device_def)

lemma clear_leases: "dict_get (lm_leases (lease_clear k m)) k' = (if k' = k then None else dict_get (lm_leases m) k')"
  by (simp add: lease_clear_def dict_get_del)

lemma clear_device_leases:
  "dict_ok (lm_leases m) \<Longrightarrow> dict_get (lm_leases (lease_clear_device dev m)) k = (if key_device k = dev then None else dict_get (lm_leases m) k)"
  by (auto simp: lease_clear_device_def dict_get_filter filter_empty_conv split: option.splits dest!: dict_get_in)

lemma clear_ok: "dict_ok (lm_leases m) \<Longrightarrow> dict_ok (lm_leases (lease_clear k m))"
  "dict_ok (lm_leases m) \<Longrightarrow> dict_ok (lm_leases (lease_clear_device dev m))"
  by (simp_all add: lease_clear_def lease_clear_device_def dict_ok_del dict_filter_ok)

lemma fire_leases [simp]: "lm_leases (fire_lease kg m) = lm_leases m" "lm_gen (fire_lease kg m) = lm_gen m"
  "lm_written (fire_lease kg m) = lm_written m"
  by (simp_all add: fire_lease_def)

lemma fold_fire [simp]: "lm_leases (fold fire_lease kgs m) = lm_leases m" "lm_gen (fold fire_lease kgs m) = lm_gen m"
  "lm_written (fold fire_lease kgs m) = lm_written m"
  by (induction kgs arbitrary: m) simp_all

text \<open>The invariant only looks at leases and tasks, one key at a time.\<close>

lemma lease_invD:
  assumes "lease_inv t m"
  shows "dict_ok (lm_leases m)" "dict_get (lm_leases m) k = Some l \<Longrightarrow> le_gen l \<le> lm_gen m"
    "dict_get (lm_tasks m) k = Some (g, ph) \<Longrightarrow> g \<le> lm_gen m \<and> k \<in> lm_inflight m"
    "dict_get (lm_tasks m) k = Some (g, ph) \<Longrightarrow> ph \<noteq> Picked \<Longrightarrow> dict_get (lm_leases m) k = Some l \<Longrightarrow> le_gen l = g \<Longrightarrow> le_expiry l \<le> t"
    "dict_get (lm_tasks m) k = Some (g, Ended True) \<Longrightarrow> has_gen k g m \<Longrightarrow> (k, g) \<in> set (lm_written m)"
  using assms unfolding lease_inv_def by blast+

lemma lease_invI:
  assumes "dict_ok (lm_leases m)" "\<And>k l. dict_get (lm_leases m) k = Some l \<Longrightarrow> le_gen l \<le> lm_gen m"
    "\<And>k g ph. dict_get (lm_tasks m) k = Some (g, ph) \<Longrightarrow> g \<le> lm_gen m \<and> k \<in> lm_inflight m"
    "\<And>k g ph l. dict_get (lm_tasks m) k = Some (g, ph) \<Longrightarrow> ph \<noteq> Picked \<Longrightarrow> dict_get (lm_leases m) k = Some l \<Longrightarrow> le_gen l = g \<Longrightarrow> le_expiry l \<le> t"
    "\<And>k g. dict_get (lm_tasks m) k = Some (g, Ended True) \<Longrightarrow> has_gen k g m \<Longrightarrow> (k, g) \<in> set (lm_written m)"
  shows "lease_inv t m"
  unfolding lease_inv_def using assms by metis

lemma lease_inv_later: "lease_inv t m \<Longrightarrow> t \<le> now \<Longrightarrow> lease_inv now m"
  by (rule lease_invI) (auto dest: lease_invD intro: order_trans)

lemma inv_fewer_leases:
  assumes i: "lease_inv t m" and l: "\<And>k l. dict_get (lm_leases m') k = Some l \<Longrightarrow> dict_get (lm_leases m) k = Some l"
    and ok: "dict_ok (lm_leases m')" and r: "lm_tasks m' = lm_tasks m" "lm_gen m' = lm_gen m" "lm_inflight m' = lm_inflight m" "lm_written m' = lm_written m"
  shows "lease_inv t m'"
proof (rule lease_invI)
  show "(k, g) \<in> set (lm_written m')" if "dict_get (lm_tasks m') k = Some (g, Ended True)" "has_gen k g m'" for k g
  proof -
    have "has_gen k g m" using that(2) l unfolding has_gen_def by blast
    then show ?thesis using that(1) lease_invD(5) [OF i, of k g] by (simp add: r)
  qed
  show "le_expiry l' \<le> t" if "dict_get (lm_tasks m') k = Some (g, ph)" "ph \<noteq> Picked" "dict_get (lm_leases m') k = Some l'" "le_gen l' = g" for k g ph l'
    using that l lease_invD(4) [OF i, of k g ph l'] by (simp add: r)
  show "le_gen l' \<le> lm_gen m'" if "dict_get (lm_leases m') k = Some l'" for k l'
    unfolding r by (rule lease_invD(2) [OF i l [OF that]])
  show "g \<le> lm_gen m' \<and> k \<in> lm_inflight m'" if "dict_get (lm_tasks m') k = Some (g, ph)" for k g ph
    using that lease_invD(3) [OF i] unfolding r by blast
qed (rule ok)

lemma inv_task_over:
  assumes i: "lease_inv t m"
  shows "lease_inv t (task_over k m)"
proof (rule lease_invI)
  show "(k', g) \<in> set (lm_written (task_over k m))"
    if "dict_get (lm_tasks (task_over k m)) k' = Some (g, Ended True)" "has_gen k' g (task_over k m)" for k' g
    using that lease_invD(5) [OF i, of k' g] by (auto simp: task_over_def has_gen_def dict_get_del split: if_splits)
  show "le_expiry l' \<le> t" if "dict_get (lm_tasks (task_over k m)) k' = Some (g, ph)" "ph \<noteq> Picked"
      "dict_get (lm_leases (task_over k m)) k' = Some l'" "le_gen l' = g" for k' g ph l'
    using that lease_invD(4) [OF i, of k' g ph l'] by (auto simp: task_over_def dict_get_del split: if_splits)
  show "g \<le> lm_gen (task_over k m) \<and> k' \<in> lm_inflight (task_over k m)" if "dict_get (lm_tasks (task_over k m)) k' = Some (g, ph)" for k' g ph
    using that lease_invD(3) [OF i, of k' g ph] by (auto simp: task_over_def dict_get_del split: if_splits)
qed (use lease_invD(1,2) [OF i] in \<open>auto simp: task_over_def\<close>)

text \<open>A task moves on: the new phase must be justified for its own key.\<close>

lemma inv_set_task:
  assumes i: "lease_inv t m" and k: "k \<in> lm_inflight m'" and g: "g \<le> lm_gen m"
    and e: "\<And>l. ph \<noteq> Picked \<Longrightarrow> dict_get (lm_leases m) k = Some l \<Longrightarrow> le_gen l = g \<Longrightarrow> le_expiry l \<le> t"
    and w: "ph = Ended True \<Longrightarrow> has_gen k g m \<Longrightarrow> (k, g) \<in> set (lm_written m')"
    and r: "lm_tasks m' = dict_set k (g, ph) (lm_tasks m)" "lm_leases m' = lm_leases m" "lm_gen m' = lm_gen m"
      "lm_inflight m \<subseteq> lm_inflight m'" "set (lm_written m) \<subseteq> set (lm_written m')"
  shows "lease_inv t m'"
proof (rule lease_invI)
  show "(k', g') \<in> set (lm_written m')" if "dict_get (lm_tasks m') k' = Some (g', Ended True)" "has_gen k' g' m'" for k' g'
    using that w lease_invD(5) [OF i, of k' g'] r(5) by (auto simp: r(1,2) has_gen_def dict_get_set split: if_splits)
  show "le_expiry l' \<le> t" if "dict_get (lm_tasks m') k' = Some (g', ph')" "ph' \<noteq> Picked"
      "dict_get (lm_leases m') k' = Some l'" "le_gen l' = g'" for k' g' ph' l'
    using that e lease_invD(4) [OF i, of k' g' ph' l'] by (auto simp: r(1,2) dict_get_set split: if_splits)
  show "g' \<le> lm_gen m' \<and> k' \<in> lm_inflight m'" if "dict_get (lm_tasks m') k' = Some (g', ph')" for k' g' ph'
    using that g k lease_invD(3) [OF i, of k' g' ph'] r(4) by (auto simp: r(1,3) dict_get_set split: if_splits)
qed (use lease_invD(1,2) [OF i] r in auto)

lemma inv_arm:
  assumes i: "lease_inv t m"
  shows "lease_inv t (lease_arm k ms meta fire now m)"
proof (rule lease_invI)
  let ?m = "lease_arm k ms meta fire now m"
  show "(k', g) \<in> set (lm_written ?m)" if "dict_get (lm_tasks ?m) k' = Some (g, Ended True)" "has_gen k' g ?m" for k' g
    using that lease_invD(3) [OF i, of k' g "Ended True"] lease_invD(5) [OF i, of k' g] by (auto simp: has_gen_def dict_get_set split: if_splits)
  show "le_expiry l' \<le> t" if "dict_get (lm_tasks ?m) k' = Some (g, ph)" "ph \<noteq> Picked"
      "dict_get (lm_leases ?m) k' = Some l'" "le_gen l' = g" for k' g ph l'
    using that lease_invD(3) [OF i, of k' g ph] lease_invD(4) [OF i, of k' g ph l'] by (auto simp: dict_get_set split: if_splits)
qed (use lease_invD(1,2,3) [OF i] in \<open>auto simp: dict_get_set dict_ok_set split: if_splits intro: le_SucI\<close>)

lemma inv_fire:
  assumes i: "lease_inv t m" and g: "snd kg \<le> lm_gen m"
  shows "lease_inv t (fire_lease kg m)"
proof (cases "fst kg \<in> lm_inflight m")
  case True
  then show ?thesis using i by (simp add: fire_lease_def)
next
  case False
  show ?thesis
    by (rule inv_set_task [OF i, of "fst kg" _ "snd kg" Picked]) (use False g in \<open>simp_all add: fire_lease_def subset_insertI\<close>)
qed

lemma inv_sweep:
  assumes i: "lease_inv t m"
  shows "lease_inv t (lease_sweep now m)"
proof -
  have "lease_inv t (fold fire_lease kgs m')" if "lease_inv t m'" "\<forall>kg \<in> set kgs. snd kg \<le> lm_gen m'" for kgs m'
    using that by (induction kgs arbitrary: m') (simp_all add: inv_fire)
  moreover have "\<forall>kg \<in> set (due_leases now m). snd kg \<le> lm_gen m"
    using lease_invD(2) [OF i] dict_in_get [OF lease_invD(1) [OF i]] by (auto simp: due_leases_def)
  ultimately show ?thesis using i by (simp add: lease_sweep_def)
qed

lemma current_gen: "lease_current k g now m \<longleftrightarrow> (\<exists>l. dict_get (lm_leases m) k = Some l \<and> le_gen l = g \<and> le_expiry l \<le> now)"
  by (auto simp: lease_current_def split: option.split)

lemma inv_check:
  assumes i: "lease_inv t m"
  shows "lease_inv t (revert_check k t m)"
proof (cases "\<exists>g. dict_get (lm_tasks m) k = Some (g, Picked) \<and> lease_current k g t m")
  case True
  then obtain g where t: "dict_get (lm_tasks m) k = Some (g, Picked)" and c: "lease_current k g t m" by blast
  show ?thesis
    by (rule inv_set_task [OF i, of k _ g Checked])
      (use lease_invD(3) [OF i t] t c in \<open>auto simp: revert_check_def current_gen\<close>)
next
  case False
  then have "revert_check k t m = m \<or> revert_check k t m = task_over k m"
    by (auto simp: revert_check_def split: option.split prod.split lease_phase.split)
  then show ?thesis using i inv_task_over by auto
qed

lemma inv_ask:
  assumes i: "lease_inv t m"
  shows "lease_inv t (revert_ask k t m)"
proof (cases "\<exists>g. dict_get (lm_tasks m) k = Some (g, Checked)")
  case True
  then obtain g where t: "dict_get (lm_tasks m) k = Some (g, Checked)" by blast
  have e: "le_expiry l \<le> t" if "dict_get (lm_leases m) k = Some l" "le_gen l = g" for l
    using lease_invD(4) [OF i t _ that] by simp
  then have c: "has_gen k g m \<Longrightarrow> lease_current k g t m" by (auto simp: has_gen_def current_gen)
  show ?thesis
    by (rule inv_set_task [OF i, of k _ g "if lease_current k g t m then Writing else Ended True"])
      (use lease_invD(3) [OF i t] t c e in \<open>auto simp: revert_ask_def split: if_splits\<close>)
next
  case False
  then have "revert_ask k t m = m" by (auto simp: revert_ask_def split: option.split prod.split lease_phase.split)
  then show ?thesis using i by simp
qed

lemma inv_write:
  assumes i: "lease_inv t m"
  shows "lease_inv t (revert_write k ok m)"
proof (cases "\<exists>g. dict_get (lm_tasks m) k = Some (g, Writing)")
  case True
  then obtain g where t: "dict_get (lm_tasks m) k = Some (g, Writing)" by blast
  have e: "le_expiry l \<le> t" if "dict_get (lm_leases m) k = Some l" "le_gen l = g" for l
    using lease_invD(4) [OF i t _ that] by simp
  show ?thesis
    by (rule inv_set_task [OF i, of k _ g "Ended ok"])
      (use lease_invD(3) [OF i t] t e in \<open>auto simp: revert_write_def\<close>)
next
  case False
  then have "revert_write k ok m = m" by (auto simp: revert_write_def split: option.split prod.split lease_phase.split)
  then show ?thesis using i by simp
qed

lemma task_over_persist: "task_over k (lease_persist m) = (task_over k m)\<lparr>lm_disk := lm_disk (lease_persist m)\<rparr>"
  by (simp add: task_over_def lease_persist_def)

lemma settle_tasks [simp]:
  "lm_tasks (revert_settle k g ok now m) = lm_tasks m" "lm_gen (revert_settle k g ok now m) = lm_gen m"
  "lm_inflight (revert_settle k g ok now m) = lm_inflight m" "lm_written (revert_settle k g ok now m) = lm_written m"
  by (auto simp: revert_settle_def Let_def split: option.split)

lemma settle_leases:
  "dict_get (lm_leases (revert_settle k g ok now m)) k' =
     (if k' = k \<and> (\<exists>l. dict_get (lm_leases m) k = Some l \<and> le_gen l = g \<and> le_expiry l \<le> now)
      then if ok then None else map_option (\<lambda>l. l\<lparr>le_expiry := now + retry_in m\<rparr>) (dict_get (lm_leases m) k)
      else dict_get (lm_leases m) k')"
  by (auto simp: revert_settle_def Let_def dict_simps not_less retry_in_def split: option.split)

lemma settle_ok: "dict_ok (lm_leases m) \<Longrightarrow> dict_ok (lm_leases (revert_settle k g ok now m))"
  by (auto simp: revert_settle_def Let_def dict_ok_set dict_ok_del split: option.split)

lemma inv_end:
  assumes i: "lease_inv t m"
  shows "lease_inv t (revert_end k t m)"
proof (cases "\<exists>g ok. dict_get (lm_tasks m) k = Some (g, Ended ok)")
  case False
  then have "revert_end k t m = m" by (auto simp: revert_end_def split: option.split prod.split lease_phase.split)
  then show ?thesis using i by simp
next
  case True
  then obtain g ok where t: "dict_get (lm_tasks m) k = Some (g, Ended ok)" by blast
  let ?m = "task_over k (revert_settle k g ok t m)"
  have tasks: "dict_get (lm_tasks ?m) k' = (if k' = k then None else dict_get (lm_tasks m) k')" for k'
    by (simp add: task_over_def dict_get_del)
  have le: "lm_leases ?m = lm_leases (revert_settle k g ok t m)" "lm_gen ?m = lm_gen m" "lm_written ?m = lm_written m"
      "lm_inflight ?m = lm_inflight m - {k}"
    by (simp_all add: task_over_def)
  have other: "k' \<noteq> k \<Longrightarrow> dict_get (lm_leases ?m) k' = dict_get (lm_leases m) k'" for k'
    by (simp add: le settle_leases)
  have "lease_inv t ?m"
  proof (rule lease_invI)
    show "dict_ok (lm_leases ?m)" unfolding le by (rule settle_ok [OF lease_invD(1) [OF i]])
    show "le_gen l \<le> lm_gen ?m" if "dict_get (lm_leases ?m) k' = Some l" for k' l
      using that lease_invD(2) [OF i] by (auto simp: le settle_leases split: if_splits)
    show "g' \<le> lm_gen ?m \<and> k' \<in> lm_inflight ?m" if "dict_get (lm_tasks ?m) k' = Some (g', ph)" for k' g' ph
      using that lease_invD(3) [OF i, of k' g' ph] by (auto simp: tasks le split: if_splits)
    show "le_expiry l \<le> t" if "dict_get (lm_tasks ?m) k' = Some (g', ph)" "ph \<noteq> Picked"
        "dict_get (lm_leases ?m) k' = Some l" "le_gen l = g'" for k' g' ph l
      using that lease_invD(4) [OF i, of k' g' ph l] by (auto simp: tasks other split: if_splits)
    show "(k', g') \<in> set (lm_written ?m)" if "dict_get (lm_tasks ?m) k' = Some (g', Ended True)" "has_gen k' g' ?m" for k' g'
      using that lease_invD(5) [OF i, of k' g'] by (auto simp: tasks le(3) has_gen_def other split: if_splits)
  qed
  then show ?thesis using t by (simp add: revert_end_def)
qed

lemma lease_do_inv:
  assumes i: "lease_inv t m" and t: "t \<le> now"
  shows "lease_inv now (lease_do e now m)"
proof -
  note j = lease_inv_later [OF i t]
  note ok = lease_invD(1) [OF j]
  show ?thesis
  proof (cases e)
    case (Clear k)
    show ?thesis unfolding Clear lease_do.simps
      by (rule inv_fewer_leases [OF j]) (use clear_ok [OF ok] in \<open>auto simp: clear_leases split: if_splits\<close>)
  next
    case (ClearDevice dev)
    show ?thesis unfolding ClearDevice lease_do.simps
      by (rule inv_fewer_leases [OF j]) (use clear_ok [OF ok] in \<open>auto simp: clear_device_leases [OF ok] split: if_splits\<close>)
  next
    case DropPersisted
    show ?thesis unfolding DropPersisted lease_do.simps lease_drop_persisted_def
      by (rule inv_fewer_leases [OF j]) (use ok in simp_all)
  qed (use inv_arm [OF j] inv_sweep [OF j] inv_check [OF j] inv_ask [OF j] inv_write [OF j] inv_end [OF j] in simp_all)
qed

lemma lease_run_inv: "lease_run t m \<Longrightarrow> lease_inv t m"
proof (induction rule: lease_run.induct)
  case (start t tick path disk)
  then show ?case by (simp add: lease_inv_def lease_init_def)
qed (rule lease_do_inv)

section \<open>A dead-man ends renewed, cleared or written\<close>

lemma sweep_leases [simp]: "lm_leases (lease_sweep now m) = lm_leases m" "lm_gen (lease_sweep now m) = lm_gen m"
  "lm_written (lease_sweep now m) = lm_written m"
  by (simp_all add: lease_sweep_def)

lemma check_simps [simp]: "lm_leases (revert_check k now m) = lm_leases m" "lm_gen (revert_check k now m) = lm_gen m"
  "lm_written (revert_check k now m) = lm_written m"
  by (auto simp: revert_check_def task_over_def split: option.split prod.split lease_phase.split)

lemma ask_simps [simp]: "lm_leases (revert_ask k now m) = lm_leases m" "lm_gen (revert_ask k now m) = lm_gen m"
  "lm_written (revert_ask k now m) = lm_written m"
  by (auto simp: revert_ask_def split: option.split prod.split lease_phase.split)

lemma write_simps [simp]: "lm_leases (revert_write k ok m) = lm_leases m" "lm_gen (revert_write k ok m) = lm_gen m"
  by (auto simp: revert_write_def split: option.split prod.split lease_phase.split)

lemma end_cases:
  obtains (idle) "\<And>g ok. dict_get (lm_tasks m) k \<noteq> Some (g, Ended ok)" "revert_end k now m = m"
    | (settled) g ok where "dict_get (lm_tasks m) k = Some (g, Ended ok)" "revert_end k now m = task_over k (revert_settle k g ok now m)"
proof (cases "\<exists>g ok. dict_get (lm_tasks m) k = Some (g, Ended ok)")
  case False
  then have "revert_end k now m = m" by (auto simp: revert_end_def split: option.split prod.split lease_phase.split)
  then show ?thesis using False idle by blast
next
  case True
  then obtain g ok where "dict_get (lm_tasks m) k = Some (g, Ended ok)" by blast
  then show ?thesis by (intro settled) (simp_all add: revert_end_def)
qed

lemma task_over_simps [simp]: "lm_leases (task_over k m) = lm_leases m" "lm_gen (task_over k m) = lm_gen m"
  "lm_written (task_over k m) = lm_written m" "dict_get (lm_tasks (task_over k m)) k' = (if k' = k then None else dict_get (lm_tasks m) k')"
  by (simp_all add: task_over_def dict_get_del)


abbreviation limit_key :: lease_key where
  "limit_key \<equiv> LeaseKey ''inv1'' ''holding'' 40100"

definition due_manager :: lease_mgr where
  "due_manager = lease_do (Write limit_key True) 3 (lease_do (Ask limit_key) 3 (lease_do (Check limit_key) 3
     (lease_do Sweep 3 (lease_do (Arm limit_key 2000 None False) 0 (lease_init 1 True [])))))"

lemma due_manager_run: "lease_run 3 due_manager"
  unfolding due_manager_def
  by (intro lease_run.step [of 3] lease_run.step [of 0] lease_run.start) simp_all

lemma due_manager_parts:
  "lm_leases due_manager = [(limit_key, \<lparr>le_expiry = 2, le_gen = 1, le_ms = 2000, le_meta = None\<rparr>)]"
  "lm_tasks due_manager = [(limit_key, (1, Ended True))]" "lm_written due_manager = [(limit_key, 1)]"
  by (simp_all add: due_manager_def lease_arm_def lease_init_def lease_persist_def lease_records_def lease_sweep_def
      due_leases_def fire_lease_def revert_check_def revert_ask_def revert_write_def lease_current_def Let_def)


section \<open>A renewed setting is not reverted\<close>

definition gone :: "lease_key \<Rightarrow> nat \<Rightarrow> lease_mgr \<Rightarrow> bool" where
  "gone k g m = (\<not> has_gen k g m \<and> g \<le> lm_gen m \<and> dict_get (lm_tasks m) k \<noteq> Some (g, Writing))"

lemma fold_fire_tasks:
  "dict_get (lm_tasks (fold fire_lease kgs m)) k = dict_get (lm_tasks m) k \<or>
   (\<exists>g. (k, g) \<in> set kgs \<and> dict_get (lm_tasks (fold fire_lease kgs m)) k = Some (g, Picked))"
proof (induction kgs arbitrary: m)
  case (Cons kg kgs)
  have "dict_get (lm_tasks (fire_lease kg m)) k = dict_get (lm_tasks m) k \<or>
      k = fst kg \<and> dict_get (lm_tasks (fire_lease kg m)) k = Some (snd kg, Picked)"
    by (simp add: fire_lease_def dict_get_set)
  then show ?case using Cons.IH [of "fire_lease kg m"] by (cases kg) auto
qed simp

lemma gone_step:
  assumes ok: "dict_ok (lm_leases m)" and g: "gone k g m"
  shows "gone k g (lease_do e now m) \<and> ((k, g) \<in> set (lm_written (lease_do e now m)) \<longrightarrow> (k, g) \<in> set (lm_written m))"
proof (cases e)
  case (Arm k' ms meta fire)
  then show ?thesis using g by (auto simp: gone_def has_gen_def dict_get_set)
next
  case (Clear k')
  then show ?thesis using g by (auto simp: gone_def has_gen_def clear_leases split: if_splits)
next
  case (ClearDevice dev)
  then show ?thesis using g by (auto simp: gone_def has_gen_def clear_device_leases [OF ok] split: if_splits)
next
  case DropPersisted
  then show ?thesis using g by (auto simp: gone_def has_gen_def lease_drop_persisted_def)
next
  case Sweep
  have "dict_get (lm_tasks (lease_sweep now m)) k \<noteq> Some (g, Writing)"
    using fold_fire_tasks [of "due_leases now m" m k] g by (auto simp: lease_sweep_def gone_def)
  then show ?thesis using Sweep g by (simp add: gone_def has_gen_def)
next
  case (Check k')
  have "dict_get (lm_tasks (revert_check k' now m)) k \<noteq> Some (g, Writing)"
    using g by (auto simp: revert_check_def gone_def dict_get_set split: option.split prod.split lease_phase.split)
  then show ?thesis using Check g by (simp add: gone_def has_gen_def)
next
  case (Ask k')
  have "dict_get (lm_tasks (revert_ask k' now m)) k \<noteq> Some (g, Writing)"
    using g by (auto simp: revert_ask_def gone_def dict_get_set current_gen has_gen_def split: option.split prod.split lease_phase.split)
  then show ?thesis using Ask g by (simp add: gone_def has_gen_def)
next
  case (Write k' ok')
  then show ?thesis
    using g by (auto simp: revert_write_def gone_def has_gen_def dict_get_set split: option.splits prod.splits lease_phase.splits if_splits)
next
  case (End k')
  then show ?thesis
    using g by (cases rule: end_cases [of m k' now]) (auto simp: gone_def has_gen_def settle_leases split: if_splits)
qed

fun lease_runs :: "(lease_event \<times> rat) list \<Rightarrow> lease_mgr \<Rightarrow> lease_mgr" where
  "lease_runs [] m = m"
| "lease_runs ((e, now) # es) m = lease_runs es (lease_do e now m)"

text \<open>
  A revert never clobbers a renewed setting. Once a lease was armed again or cleared before its
  revert asked (the task has not been told to write), its safe value is not written any more,
  whatever happens afterwards.
\<close>

theorem superseded_lease_never_written:
  assumes "lease_run t m" and "sorted (t # map snd es)"
    and "dict_get (lm_tasks m) k = Some (g, Picked) \<or> dict_get (lm_tasks m) k = Some (g, Checked)"
    and "\<not> has_gen k g m"
    and "(k, g) \<notin> set (lm_written m)"
  shows "(k, g) \<notin> set (lm_written (lease_runs es m))"
proof -
  have "g \<le> lm_gen m" using assms(3) lease_invD(3) [OF lease_run_inv [OF assms(1)]] by blast
  then have "gone k g m" using assms(3,4) by (auto simp: gone_def)
  then show ?thesis
    using assms(1,2,5)
  proof (induction es arbitrary: t m)
    case (Cons p es)
    obtain e now where p: "p = (e, now)" by (cases p)
    note s = gone_step [OF lease_invD(1) [OF lease_run_inv [OF Cons.prems(2)]] Cons.prems(1), of e now]
    have r: "lease_run now (lease_do e now m)" by (rule lease_run.step [OF Cons.prems(2)]) (use Cons.prems(3) p in simp)
    have "sorted (now # map snd es)" using Cons.prems(3) p by simp
    then have "(k, g) \<notin> set (lm_written (lease_runs es (lease_do e now m)))"
      using Cons.IH [OF _ r] s Cons.prems(4) by blast
    then show ?case using p by simp
  qed simp
qed

definition renewed_manager :: lease_mgr where
  "renewed_manager = lease_do (Arm limit_key 2000 None False) 3 (lease_do Sweep 3 (lease_do (Arm limit_key 2000 None False) 0 (lease_init 1 True [])))"

theorem superseded_lease_never_written_witness:
  "(limit_key, 1) \<notin> set (lm_written (lease_runs [(Check limit_key, 4), (Ask limit_key, 9), (Write limit_key True, 9), (End limit_key, 9)] renewed_manager))"
proof (rule superseded_lease_never_written [where t = 3])
  show "lease_run 3 renewed_manager" unfolding renewed_manager_def
    by (intro lease_run.step [of 3] lease_run.step [of 0] lease_run.start) simp_all
  have "lm_leases renewed_manager = [(limit_key, \<lparr>le_expiry = 5, le_gen = 2, le_ms = 2000, le_meta = None\<rparr>)]
      \<and> lm_tasks renewed_manager = [(limit_key, (1, Picked))] \<and> lm_written renewed_manager = []"
    by (simp add: renewed_manager_def lease_arm_def lease_init_def lease_persist_def lease_records_def lease_sweep_def
        due_leases_def fire_lease_def Let_def)
  then show "dict_get (lm_tasks renewed_manager) limit_key = Some (1, Picked) \<or> dict_get (lm_tasks renewed_manager) limit_key = Some (1, Checked)"
    "\<not> has_gen limit_key 1 renewed_manager" "(limit_key, 1) \<notin> set (lm_written renewed_manager)"
    by (simp_all add: has_gen_def)
qed simp

section \<open>An expired lease is reverted, and tried again until it is\<close>

definition full_revert :: "lease_key \<Rightarrow> bool \<Rightarrow> rat \<Rightarrow> lease_mgr \<Rightarrow> lease_mgr" where
  "full_revert k ok now m = revert_end k now (revert_write k ok (revert_ask k now (revert_check k now (lease_sweep now m))))"

lemma tick_kept:
  "lm_tick (lease_sweep now m) = lm_tick m" "lm_tick (revert_check k now m) = lm_tick m" "lm_tick (revert_ask k now m) = lm_tick m"
proof -
  have f: "lm_tick (fire_lease kg m) = lm_tick m" for kg m by (simp add: fire_lease_def)
  have "lm_tick (fold fire_lease kgs m) = lm_tick m" for kgs by (induction kgs arbitrary: m) (simp_all add: f)
  then show "lm_tick (lease_sweep now m) = lm_tick m" by (simp add: lease_sweep_def)
  show "lm_tick (revert_check k now m) = lm_tick m"
    by (simp add: revert_check_def task_over_def split: option.split prod.split lease_phase.split)
  show "lm_tick (revert_ask k now m) = lm_tick m"
    by (simp add: revert_ask_def split: option.split prod.split lease_phase.split)
qed

lemma sweep_fires:
  assumes "dict_ok (lm_leases m)" "dict_get (lm_leases m) k = Some l" "le_expiry l \<le> now" "k \<notin> lm_inflight m"
  shows "dict_get (lm_tasks (lease_sweep now m)) k = Some (le_gen l, Picked)"
proof -
  have keys: "map fst (due_leases now m) = map fst (filter (\<lambda>(k, l). le_expiry l \<le> now) (lm_leases m))"
    by (simp add: due_leases_def case_prod_beta comp_def)
  have d: "distinct (map fst (due_leases now m))" unfolding keys by (rule dict_filter_ok [OF assms(1)])
  have i: "(k, le_gen l) \<in> set (due_leases now m)"
    using dict_get_in [OF assms(2)] assms(3) by (force simp: due_leases_def)
  have later: "k \<in> lm_inflight m' \<Longrightarrow> dict_get (lm_tasks (fold fire_lease kgs m')) k = dict_get (lm_tasks m') k" for kgs m'
  proof (induction kgs arbitrary: m')
    case (Cons kg kgs)
    have "k \<in> lm_inflight (fire_lease kg m')" "dict_get (lm_tasks (fire_lease kg m')) k = dict_get (lm_tasks m') k"
      using Cons.prems by (auto simp: fire_lease_def dict_get_set)
    then show ?case using Cons.IH by simp
  qed simp
  have "distinct (map fst kgs) \<Longrightarrow> (k, g) \<in> set kgs \<Longrightarrow> k \<notin> lm_inflight m' \<Longrightarrow>
      dict_get (lm_tasks (fold fire_lease kgs m')) k = Some (g, Picked)" for kgs m' g
  proof (induction kgs arbitrary: m')
    case (Cons kg kgs)
    show ?case
    proof (cases "fst kg = k")
      case True
      then have "kg = (k, g)" using Cons.prems by (cases kg) force
      then have "k \<in> lm_inflight (fire_lease kg m')" "dict_get (lm_tasks (fire_lease kg m')) k = Some (g, Picked)"
        using Cons.prems(3) by (simp_all add: fire_lease_def dict_get_set)
      then show ?thesis using later [of "fire_lease kg m'" kgs] by simp
    next
      case False
      then have "k \<notin> lm_inflight (fire_lease kg m')" using Cons.prems(3) by (simp add: fire_lease_def)
      then show ?thesis using Cons False by (cases kg) auto
    qed
  qed simp
  from this [OF d i assms(4)] show ?thesis by (simp add: lease_sweep_def)
qed

text \<open>
  C6 (liveness): The dead-man fires. In every reachable state a lease past its time that no revert is already
  working on is reverted by the next sweep: its safe value is written and the lease is done;
  or, when the device refuses, the lease stays and is due again after the retry time.
\<close>

theorem expired_lease_reverted:
  assumes "lease_run t m" and "dict_get (lm_leases m) k = Some l" and "le_expiry l \<le> now" and "k \<notin> lm_inflight m"
  shows "if ok
    then (k, le_gen l) \<in> set (lm_written (full_revert k ok now m)) \<and> dict_get (lm_leases (full_revert k ok now m)) k = None
    else dict_get (lm_leases (full_revert k ok now m)) k = Some (l\<lparr>le_expiry := now + retry_in m\<rparr>)
      \<and> k \<notin> lm_inflight (full_revert k ok now m)"
proof -
  let ?g = "le_gen l"
  let ?s = "lease_sweep now m" and ?c = "revert_check k now (lease_sweep now m)"
  let ?a = "revert_ask k now ?c"
  let ?w = "revert_write k ok ?a"
  have cur: "lease_current k ?g now m'" if "lm_leases m' = lm_leases m" for m'
    using assms(2,3) that by (simp add: lease_current_def)
  have "dict_get (lm_tasks ?s) k = Some (?g, Picked)"
    by (rule sweep_fires [OF lease_invD(1) [OF lease_run_inv [OF assms(1)]] assms(2-4)])
  then have "dict_get (lm_tasks ?c) k = Some (?g, Checked)"
    using cur [of ?s] by (simp add: revert_check_def dict_get_set)
  then have "dict_get (lm_tasks ?a) k = Some (?g, Writing)"
    using cur [of ?c] by (simp add: revert_ask_def dict_get_set)
  then have w: "dict_get (lm_tasks ?w) k = Some (?g, Ended ok)" "lm_written ?w = (if ok then (k, ?g) # lm_written m else lm_written m)"
    "lm_leases ?w = lm_leases m" "lm_tick ?w = lm_tick ?a"
    by (simp_all add: revert_write_def dict_get_set)
  have tick: "lm_tick ?a = lm_tick m"
    by (simp add: tick_kept)
  have f: "full_revert k ok now m = task_over k (revert_settle k ?g ok now ?w)"
    unfolding full_revert_def by (subst revert_end_def) (simp add: w(1))
  have rt: "retry_in ?w = retry_in m" by (simp add: retry_in_def w(4) tick)
  have a: "dict_get (lm_leases (full_revert k ok now m)) k = (if ok then None else Some (l\<lparr>le_expiry := now + retry_in m\<rparr>))"
    unfolding f task_over_simps settle_leases w(3) rt using assms(2,3) by simp
  have b: "lm_written (full_revert k ok now m) = (if ok then (k, ?g) # lm_written m else lm_written m)"
    unfolding f by (simp add: w(2))
  have c: "k \<notin> lm_inflight (full_revert k ok now m)" unfolding f by (simp add: task_over_def)
  show ?thesis using a b c by (cases ok) simp_all
qed

theorem expired_lease_reverted_witness:
  "(limit_key, 1) \<in> set (lm_written (full_revert limit_key True 5 (lease_do (Arm limit_key 2000 None False) 0 (lease_init 1 True []))))"
proof -
  let ?m = "lease_do (Arm limit_key 2000 None False) 0 (lease_init 1 True [])"
  have r: "lease_run 0 ?m" by (intro lease_run.step [of 0] lease_run.start) simp
  have "dict_get (lm_leases ?m) limit_key = Some \<lparr>le_expiry = 2, le_gen = 1, le_ms = 2000, le_meta = None\<rparr>"
    by (simp add: lease_init_def)
  from expired_lease_reverted [OF r this, of 5 True] show ?thesis by (simp add: lease_init_def)
qed

section \<open>What the file holds\<close>

definition same_record :: "lease_event \<Rightarrow> lease_mgr \<Rightarrow> bool" where
  "same_record e m = (case e of
     Arm k ms meta fire \<Rightarrow> (case dict_get (lm_leases m) k of None \<Rightarrow> True | Some l \<Rightarrow> le_meta l = meta)
   | _ \<Rightarrow> True)"

inductive steady_run :: "lease_mgr \<Rightarrow> bool" where
  start: "steady_run (lease_init tick True [])"
| step: "steady_run m \<Longrightarrow> same_record e m \<Longrightarrow> steady_run (lease_do e now m)"

definition lease_row :: "lease_key \<times> lease \<Rightarrow> lease_meta list" where
  "lease_row p = (case le_meta (snd p) of None \<Rightarrow> [] | Some d \<Rightarrow> if d = [] then [] else [d])"

lemma lease_records_rows: "lease_records m = concat (map lease_row (lm_leases m))"
  by (simp add: lease_records_def lease_row_def [abs_def] case_prod_unfold)

lemma rows_set_same:
  "dict_get d k = Some l \<Longrightarrow> le_meta l' = le_meta l \<Longrightarrow> concat (map lease_row (dict_set k l' d)) = concat (map lease_row d)"
  by (induction d) (auto simp: lease_row_def split: if_splits)

definition mirrored :: "lease_mgr \<Rightarrow> bool" where
  "mirrored m = (lm_path m \<and> lm_disk m = lease_records m)"

lemma mirrored_persist: "lm_path m \<Longrightarrow> mirrored (lease_persist m)"
  by (simp add: mirrored_def lease_persist_def lease_records_def)

lemma mirrored_cong: "mirrored m \<Longrightarrow> lm_leases m' = lm_leases m \<Longrightarrow> lm_disk m' = lm_disk m \<Longrightarrow> lm_path m' = lm_path m \<Longrightarrow> mirrored m'"
  by (simp add: mirrored_def lease_records_def)

lemma fold_fire_disk: "lm_disk (fold fire_lease kgs m) = lm_disk m \<and> lm_path (fold fire_lease kgs m) = lm_path m"
  by (induction kgs arbitrary: m) (simp_all add: fire_lease_def)

lemma mirrored_step:
  assumes m: "mirrored m" and s: "same_record e m"
  shows "mirrored (lease_do e now m)"
proof (cases e)
  case (Arm k ms meta fire)
  show ?thesis
  proof (cases "dict_get (lm_leases m) k")
    case None
    then show ?thesis using m Arm by (simp add: lease_arm_def Let_def mirrored_def [of m] mirrored_persist)
  next
    case (Some l)
    then have "le_meta l = meta" using s Arm by (simp add: same_record_def)
    then show ?thesis
      using m Arm Some by (simp add: lease_arm_def Let_def mirrored_def lease_records_rows rows_set_same)
  qed
next
  case (Clear k)
  then show ?thesis using m by (simp add: lease_clear_def mirrored_def [of m] mirrored_persist)
next
  case (ClearDevice dev)
  then show ?thesis using m by (simp add: lease_clear_device_def mirrored_def [of m] mirrored_persist)
next
  case DropPersisted
  then show ?thesis using m by (simp add: lease_drop_persisted_def mirrored_def [of m] mirrored_persist)
next
  case Sweep
  then show ?thesis using fold_fire_disk [of "due_leases now m" m] by (intro mirrored_cong [OF m]) (simp_all add: lease_sweep_def)
next
  case (Check k)
  then show ?thesis
    by (intro mirrored_cong [OF m]) (simp_all add: revert_check_def task_over_def split: option.split prod.split lease_phase.split)
next
  case (Ask k)
  then show ?thesis
    by (intro mirrored_cong [OF m]) (simp_all add: revert_ask_def split: option.split prod.split lease_phase.split)
next
  case (Write k ok)
  then show ?thesis
    by (intro mirrored_cong [OF m]) (simp_all add: revert_write_def split: option.split prod.split lease_phase.split)
next
  case (End k)
  show ?thesis
  proof (cases rule: end_cases [of m k now])
    case idle
    then show ?thesis using End m by simp
  next
    case (settled g ok)
    have "mirrored (revert_settle k g ok now m)"
      using m by (auto simp: revert_settle_def Let_def mirrored_persist mirrored_def [of m] split: option.split)
        (simp_all add: mirrored_def lease_records_rows rows_set_same)
    then show ?thesis using End settled(2) by (simp add: mirrored_cong task_over_def)
  qed
qed

text \<open>
  A crash strands no leased setting. As long as renewals repeat the record a lease was armed
  with, the file holds at every moment exactly the records of the live leases, so the next
  start finds, and reverts, precisely what was still held.
\<close>

theorem file_mirrors_leases:
  assumes "steady_run m"
  shows "load_persisted m = lease_records m"
proof -
  have "mirrored m" using assms
  proof (induction rule: steady_run.induct)
    case (start tick)
    then show ?case by (simp add: mirrored_def lease_init_def lease_records_def)
  qed (rule mirrored_step)
  then show ?thesis by (simp add: mirrored_def load_persisted_def)
qed

definition limit_record :: "int \<Rightarrow> lease_meta" where
  "limit_record safe = [(''device'', VStr ''inv1''), (''address'', VInt 40100), (''safe_value'', VInt safe)]"

theorem file_mirrors_leases_witness:
  "load_persisted (lease_do (Arm limit_key 2000 (Some (limit_record 100)) False) 5
     (lease_do (Arm limit_key 2000 (Some (limit_record 100)) False) 0 (lease_init 1 True []))) = [limit_record 100]"
proof -
  let ?m = "lease_do (Arm limit_key 2000 (Some (limit_record 100)) False) 5
     (lease_do (Arm limit_key 2000 (Some (limit_record 100)) False) 0 (lease_init 1 True []))"
  have "steady_run ?m"
    by (intro steady_run.step steady_run.start) (simp_all add: same_record_def lease_init_def)
  from file_mirrors_leases [OF this] show ?thesis by (simp add: lease_records_def lease_init_def limit_record_def)
qed

text \<open>
  A renewal with another safe value is not written to the file. However often a lease is
  renewed, and with whatever record, the file keeps the record it was first armed with: after
  a crash the register is reverted to the first safe value, not to the last one asked for.
\<close>

theorem recovery_uses_first_record:
  "load_persisted (fold (\<lambda>(ms, meta, now). lease_arm k ms (Some meta) False now) renewals
      (lease_arm k ms0 (Some (d # ds)) False t0 (lease_init tick True []))) = [d # ds]
   \<and> lease_records (fold (\<lambda>(ms, meta, now). lease_arm k ms (Some meta) False now) (renewals @ [(ms1, x # xs, t1)])
      (lease_arm k ms0 (Some (d # ds)) False t0 (lease_init tick True []))) = [x # xs]"
proof -
  let ?arm = "\<lambda>(ms, meta, now). lease_arm k ms (Some meta) False now"
  have f: "\<exists>l. lm_leases (fold ?arm rs m) = [(k, l)] \<and> lm_disk (fold ?arm rs m) = lm_disk m \<and> lm_path (fold ?arm rs m) = lm_path m"
    if "lm_leases m = [(k, l0)]" for rs m l0
    using that
  proof (induction rs arbitrary: m l0)
    case (Cons r rs)
    obtain ms meta now where r: "r = (ms, meta, now)" by (cases r)
    have "\<exists>l1. lm_leases (?arm r m) = [(k, l1)]" "lm_disk (?arm r m) = lm_disk m" "lm_path (?arm r m) = lm_path m"
      using Cons.prems by (simp_all add: r lease_arm_def Let_def)
    then show ?case using Cons.IH by fastforce
  qed simp
  let ?m0 = "lease_arm k ms0 (Some (d # ds)) False t0 (lease_init tick True [])"
  have m0: "\<exists>l0. lm_leases ?m0 = [(k, l0)]" "lm_disk ?m0 = [d # ds]" "lm_path ?m0"
    by (simp_all add: lease_arm_def Let_def lease_init_def lease_persist_def lease_records_def)
  then obtain l where "lm_leases (fold ?arm renewals ?m0) = [(k, l)]" "lm_disk (fold ?arm renewals ?m0) = [d # ds]"
    "lm_path (fold ?arm renewals ?m0)" using f [of ?m0 _ renewals] by auto
  then show ?thesis by (simp add: load_persisted_def lease_records_def)
qed

section \<open>Shutdown strands nothing\<close>

definition all_due :: "rat \<Rightarrow> lease_mgr \<Rightarrow> bool" where
  "all_due t m = (\<forall>k l. dict_get (lm_leases m) k = Some l \<longrightarrow> le_expiry l \<le> t)"

lemma all_due_current: "all_due t m \<Longrightarrow> t \<le> now \<Longrightarrow> lease_current k g now m \<longleftrightarrow> has_gen k g m"
  by (auto simp: all_due_def current_gen has_gen_def intro: order_trans)

lemma revert_all_keeps:
  assumes "all_due t m" and "\<forall>x \<in> set outcomes. t \<le> fst x" and "mirrored m"
  shows "mirrored (revert_all pending outcomes deadline m) \<and>
    set (lm_written m) \<subseteq> set (lm_written (revert_all pending outcomes deadline m)) \<and>
    (\<forall>k g. has_gen k g m \<longrightarrow> (k, g) \<in> set (lm_written (revert_all pending outcomes deadline m))
       \<or> has_gen k g (revert_all pending outcomes deadline m))"
  using assms
proof (induction pending outcomes deadline m rule: revert_all.induct)
  case (1 key g pending now ok outcomes deadline m)
  show ?case
  proof (cases "deadline < now")
    case True
    then show ?thesis using "1.prems" by simp
  next
    case False
    define m1 where "m1 = (if lease_current key g now m \<and> ok then m\<lparr>lm_written := (key, g) # lm_written m\<rparr> else m)"
    define m2 where "m2 = (if \<not> lease_current key g now m \<or> ok
       then (case dict_get (lm_leases m1) key of None \<Rightarrow> m1
             | Some l \<Rightarrow> if le_gen l = g then lease_persist (m1\<lparr>lm_leases := dict_del key (lm_leases m1)\<rparr>) else m1)
       else m1)"
    have c: "lease_current key g now m \<longleftrightarrow> has_gen key g m"
      by (rule all_due_current [OF "1.prems"(1)]) (use "1.prems"(2) in simp)
    have l1: "lm_leases m1 = lm_leases m" "lm_path m1 = lm_path m" "lm_disk m1 = lm_disk m" by (simp_all add: m1_def)
    have mir1: "mirrored m1" by (rule mirrored_cong [OF "1.prems"(3)]) (simp_all add: l1)
    have w: "set (lm_written m) \<subseteq> set (lm_written m1)" "has_gen key g m \<and> ok \<Longrightarrow> (key, g) \<in> set (lm_written m1)"
      by (auto simp: m1_def c)
    have m2: "m2 = m1 \<or> has_gen key g m \<and> ok \<and> m2 = lease_persist (m1\<lparr>lm_leases := dict_del key (lm_leases m1)\<rparr>)"
      by (auto simp: m2_def c has_gen_def l1 split: option.split)
    have "all_due t m2" using m2 "1.prems"(1) l1 by (auto simp: all_due_def dict_get_del split: if_splits)
    have "mirrored m2" using m2 mir1 by (auto simp: mirrored_persist mirrored_def [of m1])
    have IH: "mirrored (revert_all pending outcomes deadline m2) \<and>
      set (lm_written m2) \<subseteq> set (lm_written (revert_all pending outcomes deadline m2)) \<and>
      (\<forall>k g. has_gen k g m2 \<longrightarrow> (k, g) \<in> set (lm_written (revert_all pending outcomes deadline m2))
         \<or> has_gen k g (revert_all pending outcomes deadline m2))"
    proof -
      have "\<forall>x \<in> set outcomes. t \<le> fst x" using "1.prems"(2) by simp
      then show ?thesis
        using "1.IH" [OF False refl refl refl refl, folded m1_def, folded m2_def] \<open>all_due t m2\<close> \<open>mirrored m2\<close> by blast
    qed
    have run: "revert_all ((key, g) # pending) ((now, ok) # outcomes) deadline m = revert_all pending outcomes deadline m2"
      by (simp only: revert_all.simps(1) Let_def if_not_P [OF False] m2_def m1_def)
    have w2: "lm_written m2 = lm_written m1" using m2 by auto
    have "has_gen k g' m \<Longrightarrow> has_gen k g' m2 \<or> (k, g') \<in> set (lm_written m2)" for k g'
      using m2 w(2) by (auto simp: w2 has_gen_def l1 dict_get_del)
    moreover have "set (lm_written m) \<subseteq> set (lm_written m2)" unfolding w2 by (rule w(1))
    ultimately show ?thesis unfolding run using IH by blast
  qed
qed simp_all

text \<open>
  A clean shutdown loses no dead-man. Whatever the reverts answer and whenever the budget is
  spent, every lease that was live is either on the device at its safe value, or still in the
  table and in the file, for the next start to revert.
\<close>

theorem shutdown_strands_nothing:
  assumes "dict_get (lm_leases m) k = Some l" and "mirrored m" and "\<forall>x \<in> set outcomes. now \<le> fst x"
  shows "((k, le_gen l) \<in> set (lm_written (lease_stop True timeout now outcomes m))
      \<or> has_gen k (le_gen l) (lease_stop True timeout now outcomes m))
    \<and> load_persisted (lease_stop True timeout now outcomes m) = lease_records (lease_stop True timeout now outcomes m)"
proof -
  let ?f = "\<lambda>l. if now < le_expiry l then l\<lparr>le_expiry := now\<rparr> else l"
  have e: "dict_get (lm_leases (expire_all now m)) j = map_option ?f (dict_get (lm_leases m) j)" for j
    by (simp add: expire_all_def dict_get_map)
  have f: "le_expiry (?f z) \<le> now" for z :: lease by simp
  have "all_due now (expire_all now m)" unfolding all_due_def e map_option_eq_Some using f by blast
  moreover have "lease_records (expire_all now m) = lease_records m"
    unfolding lease_records_def expire_all_def
    by (simp add: comp_def) (rule arg_cong [of _ _ concat], rule map_cong, auto split: option.split)
  then have "mirrored (expire_all now m)" using assms(2) by (simp add: mirrored_def expire_all_def)
  moreover have "has_gen k (le_gen l) (expire_all now m)" using assms(1) by (auto simp: has_gen_def e)
  ultimately show ?thesis
    using revert_all_keeps [of now "expire_all now m" outcomes, OF _ assms(3)]
    by (auto simp: lease_stop_def Let_def load_persisted_def mirrored_def)
qed

theorem shutdown_strands_nothing_witness:
  "let m = lease_arm limit_key 60000 (Some (limit_record 100)) False 0 (lease_init 1 True [])
   in load_persisted (lease_stop True 10 5 [(5, False)] m) = [limit_record 100]"
proof -
  let ?m = "lease_arm limit_key 60000 (Some (limit_record 100)) False 0 (lease_init 1 True [])"
  have g: "dict_get (lm_leases ?m) limit_key = Some \<lparr>le_expiry = 60, le_gen = 1, le_ms = 60000, le_meta = Some (limit_record 100)\<rparr>"
    by (simp add: lease_init_def)
  have "mirrored ?m" by (simp add: mirrored_def lease_arm_def lease_init_def lease_persist_def lease_records_def Let_def)
  from shutdown_strands_nothing [OF g this, of "[(5, False)]" 5 10]
  have "load_persisted (lease_stop True 10 5 [(5, False)] ?m) = lease_records (lease_stop True 10 5 [(5, False)] ?m)" by simp
  also have "\<dots> = [limit_record 100]"
    by (simp add: lease_stop_def expire_all_def lease_arm_def lease_init_def lease_persist_def lease_records_def
        lease_current_def limit_record_def Let_def)
  finally show ?thesis by (simp add: Let_def)
qed

end
