(* ===== verification/FieldArbiter.thy ===== *)
theory FieldArbiter
  imports Prelude
begin

text \<open>
  Which source of a device owns a field (\<open>source_arbiter.py\<close>): the claims of the sources are
  decided one by one under the arbiter's lock; the clock is an argument.
\<close>

record claim =
  cm_rank :: int
  cm_at :: rat
  cm_source :: string
  cm_stale :: rat

record field_arbiter =
  ar_owner :: "(string, claim) dict"
  ar_handovers :: int

definition arbiter_init :: field_arbiter where
  "arbiter_init = \<lparr>ar_owner = [], ar_handovers = 0\<rparr>"

definition arb_claim :: "string \<Rightarrow> int \<Rightarrow> string \<Rightarrow> rat \<Rightarrow> rat \<Rightarrow> field_arbiter \<Rightarrow> bool \<times> field_arbiter" where
  "arb_claim field rank src stale now a =
     (let new = \<lparr>cm_rank = rank, cm_at = now, cm_source = src, cm_stale = stale\<rparr>;
          taken = a\<lparr>ar_owner := dict_set field new (ar_owner a)\<rparr>;
          handed = taken\<lparr>ar_handovers := ar_handovers a + 1\<rparr>
      in case dict_get (ar_owner a) field of
           None \<Rightarrow> (True, taken)
         | Some cur \<Rightarrow>
             if cm_rank cur = rank then (True, taken)
             else if rank < cm_rank cur then (True, handed)
             else if 0 < cm_stale cur \<and> cm_stale cur < now - cm_at cur then (True, handed)
             else (False, a))"

definition owner_of :: "string \<Rightarrow> field_arbiter \<Rightarrow> string option" where
  "owner_of field a = map_option cm_source (dict_get (ar_owner a) field)"

definition arb_snapshot :: "rat \<Rightarrow> field_arbiter \<Rightarrow> (string \<times> string \<times> int \<times> rat \<times> rat) list" where
  "arb_snapshot now a = map (\<lambda>(f, c). (f, cm_source c, cm_rank c, py_round_dec (now - cm_at c) 2, cm_stale c)) (ar_owner a)"

definition arb_forget :: "string \<Rightarrow> field_arbiter \<Rightarrow> field_arbiter" where
  "arb_forget src a = a\<lparr>ar_owner := filter (\<lambda>(f, c). cm_source c \<noteq> src) (ar_owner a)\<rparr>"

text \<open>\<open>field_of\<close>: the register's name, or the empty name for an item without one.\<close>

definition field_of :: "string option option \<Rightarrow> string" where
  "field_of reg = (case reg of None \<Rightarrow> [] | Some name \<Rightarrow> (case name of None \<Rightarrow> [] | Some n \<Rightarrow> n))"

section \<open>One field at a time\<close>

text \<open>
  The specification looks at one field and one rule: a claim is granted when nobody owns the
  field, when its rank is at least the owner's, or when the owner has been silent past its own
  positive window. The history is listed newest first.
\<close>

datatype arb_event = Claim string claim | Forget string

definition may_take :: "claim option \<Rightarrow> claim \<Rightarrow> bool" where
  "may_take ow c = (case ow of None \<Rightarrow> True
     | Some cur \<Rightarrow> cm_rank c \<le> cm_rank cur \<or> (0 < cm_stale cur \<and> cm_stale cur < cm_at c - cm_at cur))"

fun rightful :: "string \<Rightarrow> arb_event list \<Rightarrow> claim option" where
  "rightful f [] = None"
| "rightful f (Forget src # past) =
     (case rightful f past of None \<Rightarrow> None | Some c \<Rightarrow> if cm_source c = src then None else Some c)"
| "rightful f (Claim g c # past) = (if g = f \<and> may_take (rightful f past) c then Some c else rightful f past)"

definition arb_do :: "arb_event \<Rightarrow> field_arbiter \<Rightarrow> bool \<times> field_arbiter" where
  "arb_do e a = (case e of
     Claim f c \<Rightarrow> arb_claim f (cm_rank c) (cm_source c) (cm_stale c) (cm_at c) a
   | Forget src \<Rightarrow> (True, arb_forget src a))"

definition arb_run :: "arb_event list \<Rightarrow> field_arbiter \<Rightarrow> field_arbiter" where
  "arb_run es a = fold (\<lambda>e a. snd (arb_do e a)) es a"

lemma arb_claim_spec:
  "arb_claim f (cm_rank c) (cm_source c) (cm_stale c) (cm_at c) a =
     (if may_take (dict_get (ar_owner a) f) c
      then (True, a\<lparr>ar_owner := dict_set f c (ar_owner a),
              ar_handovers := ar_handovers a + (case dict_get (ar_owner a) f of None \<Rightarrow> 0 | Some cur \<Rightarrow> if cm_rank cur = cm_rank c then 0 else 1)\<rparr>)
      else (False, a))"
  by (cases c) (auto simp: arb_claim_def may_take_def Let_def split: option.split)

lemma arb_run_spec:
  "dict_ok (ar_owner (arb_run es arbiter_init)) \<and> dict_get (ar_owner (arb_run es arbiter_init)) f = rightful f (rev es)"
proof (induction es rule: rev_induct)
  case Nil
  then show ?case by (simp add: arb_run_def arbiter_init_def)
next
  case (snoc e es)
  let ?a = "arb_run es arbiter_init"
  have run: "arb_run (es @ [e]) arbiter_init = snd (arb_do e ?a)" by (simp add: arb_run_def)
  show ?case
  proof (cases e)
    case (Claim g c)
    then show ?thesis
      using snoc unfolding run by (auto simp: arb_do_def arb_claim_spec dict_simps)
  next
    case (Forget src)
    then show ?thesis
      using snoc unfolding run by (auto simp: arb_do_def arb_forget_def dict_filter_ok dict_get_filter split: option.split)
  qed
qed

text \<open>
  C32 (refinement): Ownership is decided by the declared order alone. After any sequence of claims and
  departures over any fields, the arbiter grants a claim exactly when the one-field rule grants
  it, and \<open>owner_of\<close> names the source the rule says owns the field: claims of other fields
  never matter, and a lower-ranked source gets a field only past the owner's window.
\<close>

theorem arbiter_follows_rule:
  "fst (arb_do (Claim f c) (arb_run es arbiter_init)) = may_take (rightful f (rev es)) c
   \<and> owner_of f (arb_run es arbiter_init) = map_option cm_source (rightful f (rev es))"
  using arb_run_spec [of es f] by (simp add: arb_do_def arb_claim_spec owner_of_def)

text \<open>A source with window zero keeps its field while nobody ranked as high speaks.\<close>

lemma rightful_kept:
  assumes "rightful f past = Some cur" "cm_stale cur = 0"
    and "\<forall>e \<in> set es. case e of Claim g c \<Rightarrow> g = f \<longrightarrow> cm_rank cur < cm_rank c | Forget src \<Rightarrow> src \<noteq> cm_source cur"
  shows "rightful f (rev es @ past) = Some cur"
  using assms
proof (induction es rule: rev_induct)
  case (snoc e es)
  then have "rightful f (rev es @ past) = Some cur" by simp
  then show ?case using snoc.prems by (cases e) (auto simp: may_take_def)
qed simp

text \<open>
  A window of zero never yields. Once a source with \<open>stale_after_s = 0\<close> owns a field, no
  lower-ranked source ever writes it, however long the owner is silent: an energy counter
  does not walk backwards between two sources.
\<close>

theorem zero_window_never_yields:
  assumes "dict_get (ar_owner (arb_run past arbiter_init)) f = Some cur" and "cm_stale cur = 0"
    and "\<forall>e \<in> set es. case e of Claim g c \<Rightarrow> g = f \<longrightarrow> cm_rank cur < cm_rank c | Forget src \<Rightarrow> src \<noteq> cm_source cur"
    and "cm_rank cur < cm_rank c"
  shows "fst (arb_do (Claim f c) (arb_run (past @ es) arbiter_init)) = False
    \<and> owner_of f (arb_run (past @ es) arbiter_init) = Some (cm_source cur)"
proof -
  have "rightful f (rev past) = Some cur" using arb_run_spec [of past f] assms(1) by simp
  from rightful_kept [OF this assms(2,3)] have "rightful f (rev (past @ es)) = Some cur" by simp
  then show ?thesis using arbiter_follows_rule [of f c "past @ es"] assms(2,4) by (simp add: may_take_def)
qed

theorem zero_window_never_yields_witness:
  "fst (arb_do (Claim ''energy'' \<lparr>cm_rank = 1, cm_at = 9000, cm_source = ''http'', cm_stale = 5\<rparr>)
     (arb_run [Claim ''energy'' \<lparr>cm_rank = 0, cm_at = 1, cm_source = ''tcp'', cm_stale = 0\<rparr>,
               Claim ''power'' \<lparr>cm_rank = 1, cm_at = 2, cm_source = ''http'', cm_stale = 5\<rparr>] arbiter_init)) = False"
  using zero_window_never_yields [of "[Claim ''energy'' \<lparr>cm_rank = 0, cm_at = 1, cm_source = ''tcp'', cm_stale = 0\<rparr>]" "''energy''"
      "\<lparr>cm_rank = 0, cm_at = 1, cm_source = ''tcp'', cm_stale = 0\<rparr>"
      "[Claim ''power'' \<lparr>cm_rank = 1, cm_at = 2, cm_source = ''http'', cm_stale = 5\<rparr>]"
      "\<lparr>cm_rank = 1, cm_at = 9000, cm_source = ''http'', cm_stale = 5\<rparr>"]
  by (simp add: arb_run_def arb_do_def arb_claim_def arbiter_init_def Let_def)

end
