(* ===== verification/ChannelArbiter.thy ===== *)
theory ChannelArbiter
  imports Prelude "HOL-Library.Multiset" "HOL-Library.Product_Lexorder" "HOL-Library.List_Lexorder" "HOL-Library.Char_ord"
begin

text \<open>
  The channel referee of \<open>arbiter.py\<close>: which rule writes a channel, and the protection of the
  equipment behind it (minimum run and stop time, starts per hour), whoever writes.

  The configuration of a channel is a dictionary of numbers; the texts that explain a hold are
  the cases of \<open>hold\<close> with the seconds left.
\<close>

section \<open>The referee\<close>

record candidate =
  cd_rule :: string
  cd_prio :: int
  cd_value :: "rat option"
  cd_forced :: bool

definition limit_rank :: "rat \<Rightarrow> candidate \<Rightarrow> rat \<times> int \<times> string" where
  "limit_rank sign c = (case cd_value c of None \<Rightarrow> 0 | Some v \<Rightarrow> sign * v, - cd_prio c, cd_rule c)"

definition prio_rank :: "candidate \<Rightarrow> int \<times> bool \<times> string" where
  "prio_rank c = (- cd_prio c, \<not> cd_forced c, cd_rule c)"

definition winner :: "candidate list \<Rightarrow> string \<Rightarrow> candidate option" where
  "winner cands combine =
     (if cands = [] then None
      else let valued = filter (\<lambda>c. cd_value c \<noteq> None) cands
           in if (combine = ''min'' \<or> combine = ''max'') \<and> valued \<noteq> []
              then Some (hd (sort_key (limit_rank (if combine = ''min'' then 1 else -1)) valued))
              else Some (hd (sort_key prio_rank cands)))"

text \<open>\<open>is\<close> compares identity: candidates of different rules are different objects.\<close>

definition beats :: "candidate \<Rightarrow> candidate \<Rightarrow> string \<Rightarrow> bool" where
  "beats other me combine = (winner [me, other] combine = Some other)"

lemma hd_sort_key_least: "x \<in> set xs \<Longrightarrow> f (hd (sort_key f xs)) \<le> f x"
proof -
  assume "x \<in> set xs"
  then have "x \<in> set (sort_key f xs)" by simp
  then obtain y ys where y: "sort_key f xs = y # ys" by (cases "sort_key f xs") auto
  have "sorted (map f (sort_key f xs))" by simp
  then show ?thesis using \<open>x \<in> set (sort_key f xs)\<close> unfolding y by auto
qed

lemma hd_sort_key_in: "xs \<noteq> [] \<Longrightarrow> hd (sort_key f xs) \<in> set xs"
proof -
  assume "xs \<noteq> []"
  then have "sort_key f xs \<noteq> []" by (metis set_empty set_sort)
  then have "hd (sort_key f xs) \<in> set (sort_key f xs)" by (rule hd_in_set)
  then show ?thesis by simp
qed

lemma rank_inj:
  assumes "inj_on cd_rule A"
  shows "inj_on (limit_rank s) A" "inj_on prio_rank A"
  using assms by (auto simp: inj_on_def limit_rank_def prio_rank_def)

lemma limit_rank_le: "limit_rank s w \<le> limit_rank s c \<Longrightarrow> cd_value w = Some v \<Longrightarrow> cd_value c = Some u \<Longrightarrow> s * v \<le> s * u"
  by (auto simp: limit_rank_def less_eq_prod_def)

lemma prio_rank_le:
  "prio_rank w \<le> prio_rank c \<Longrightarrow> cd_prio c < cd_prio w \<or> (cd_prio c = cd_prio w \<and> (cd_forced c \<longrightarrow> cd_forced w))"
  by (auto simp: prio_rank_def less_eq_prod_def)

lemma same_sorted:
  fixes f :: "candidate \<Rightarrow> 'a::linorder"
  assumes "mset xs = mset ys" "inj_on f (set xs)"
  shows "sort_key f ys = sort_key f xs"
proof (rule sort_key_inj_key_eq)
  show "mset ys = mset (sort_key f xs)" using assms(1) by simp
  show "inj_on f (set ys)" using assms(2) mset_eq_setD [OF assms(1)] by simp
qed simp

text \<open>
  The referee does not depend on who is asked first: two lists of the same candidates, one
  rule each, have the same winner, and it wins by right: with \<open>min\<close> or \<open>max\<close> no candidate asks
  for a lower (higher) value; otherwise none has a higher priority, nor an equal one with a
  force the winner does not have.
\<close>

theorem winner_by_right:
  assumes "mset cands = mset cands'" and "distinct (map cd_rule cands)" and "winner cands combine = Some w"
  shows "winner cands' combine = Some w \<and> w \<in> set cands \<and>
    (\<forall>c \<in> set cands. case (cd_value w, cd_value c) of
        (Some v, Some u) \<Rightarrow> (combine = ''min'' \<longrightarrow> v \<le> u) \<and> (combine = ''max'' \<longrightarrow> u \<le> v)
      | (None, Some u) \<Rightarrow> combine \<noteq> ''min'' \<and> combine \<noteq> ''max''
      | _ \<Rightarrow> True) \<and>
    (combine \<noteq> ''min'' \<and> combine \<noteq> ''max'' \<longrightarrow>
      (\<forall>c \<in> set cands. cd_prio c < cd_prio w \<or> (cd_prio c = cd_prio w \<and> (cd_forced c \<longrightarrow> cd_forced w))))"
proof -
  let ?v = "filter (\<lambda>c. cd_value c \<noteq> None)"
  have inj: "inj_on cd_rule (set cands)" using assms(2) by (simp add: distinct_map)
  have ne: "cands \<noteq> []" using assms(3) by (auto simp: winner_def)
  have vset: "mset (?v cands') = mset (?v cands)" using assms(1) by simp
  have vinj: "inj_on cd_rule (set (?v cands))" using inj by (auto simp: inj_on_def)
  have empty: "cands' = [] \<longleftrightarrow> cands = []" "?v cands' = [] \<longleftrightarrow> ?v cands = []"
    using assms(1) vset by (metis mset_zero_iff)+
  have "winner cands' combine = winner cands combine"
    unfolding winner_def Let_def empty same_sorted [OF assms(1) rank_inj(2) [OF inj]]
      same_sorted [OF vset [symmetric] rank_inj(1) [OF vinj]] ..
  moreover have "w \<in> set cands \<and>
    (\<forall>c \<in> set cands. case (cd_value w, cd_value c) of
        (Some v, Some u) \<Rightarrow> (combine = ''min'' \<longrightarrow> v \<le> u) \<and> (combine = ''max'' \<longrightarrow> u \<le> v)
      | (None, Some u) \<Rightarrow> combine \<noteq> ''min'' \<and> combine \<noteq> ''max''
      | _ \<Rightarrow> True) \<and>
    (combine \<noteq> ''min'' \<and> combine \<noteq> ''max'' \<longrightarrow>
      (\<forall>c \<in> set cands. cd_prio c < cd_prio w \<or> (cd_prio c = cd_prio w \<and> (cd_forced c \<longrightarrow> cd_forced w))))"
  proof (cases "(combine = ''min'' \<or> combine = ''max'') \<and> ?v cands \<noteq> []")
    case True
    let ?s = "if combine = ''min'' then 1 else -1 :: rat"
    have w: "w = hd (sort_key (limit_rank ?s) (?v cands))" using assms(3) True ne by (auto simp: winner_def Let_def split: if_splits)
    have wv: "w \<in> set (?v cands)" unfolding w by (rule hd_sort_key_in) (use True in blast)
    have "limit_rank ?s w \<le> limit_rank ?s c" if "c \<in> set (?v cands)" for c
      unfolding w by (rule hd_sort_key_least [OF that])
    then have rk: "limit_rank ?s w \<le> limit_rank ?s c" if "cd_value c = Some u" "c \<in> set cands" for c u
      using that by simp
    have le: "?s * v \<le> ?s * u" if "cd_value c = Some u" "c \<in> set cands" "cd_value w = Some v" for c u v
      by (rule limit_rank_le [OF rk [OF that(1,2)] that(3,1)])
    obtain v where v: "cd_value w = Some v" using wv by auto
    have "case cd_value c of Some u \<Rightarrow> (combine = ''min'' \<longrightarrow> v \<le> u) \<and> (combine = ''max'' \<longrightarrow> u \<le> v) | None \<Rightarrow> True"
      if "c \<in> set cands" for c
      using le [OF _ that v] by (auto split: option.split)
    moreover have "combine = ''min'' \<or> combine = ''max''" using True by blast
    ultimately show ?thesis using wv v by (cases "combine = ''min''") simp_all
  next
    case False
    have w: "w = hd (sort_key prio_rank cands)" using assms(3) False ne by (auto simp: winner_def Let_def split: if_splits)
    have wi: "w \<in> set cands" unfolding w by (rule hd_sort_key_in [OF ne])
    have "prio_rank w \<le> prio_rank c" if "c \<in> set cands" for c
      unfolding w by (rule hd_sort_key_least [OF that])
    then have le: "\<forall>c \<in> set cands. cd_prio c < cd_prio w \<or> (cd_prio c = cd_prio w \<and> (cd_forced c \<longrightarrow> cd_forced w))"
      using prio_rank_le by blast
    show ?thesis
    proof (cases "combine = ''min'' \<or> combine = ''max''")
      case True
      then have "\<forall>c \<in> set cands. cd_value c = None" using False by (simp add: filter_empty_conv)
      then show ?thesis using wi True by (cases "combine = ''min''") simp_all
    next
      case False
      then show ?thesis using wi le by (auto split: option.split)
    qed
  qed
  ultimately show ?thesis using assms(3) by simp
qed

theorem winner_by_right_witness:
  "winner [\<lparr>cd_rule = ''b'', cd_prio = 1, cd_value = Some 4, cd_forced = False\<rparr>,
           \<lparr>cd_rule = ''a'', cd_prio = 5, cd_value = Some 9, cd_forced = True\<rparr>] ''min''
     = Some \<lparr>cd_rule = ''b'', cd_prio = 1, cd_value = Some 4, cd_forced = False\<rparr>"
proof -
  let ?a = "\<lparr>cd_rule = ''a'', cd_prio = 5, cd_value = Some 9, cd_forced = True\<rparr>"
  let ?b = "\<lparr>cd_rule = ''b'', cd_prio = 1, cd_value = Some 4, cd_forced = False\<rparr>"
  have w: "winner [?a, ?b] ''min'' = Some ?b" by (simp add: winner_def limit_rank_def less_eq_prod_def)
  have "mset [?a, ?b] = mset [?b, ?a]" by simp
  from winner_by_right [OF this _ w] show ?thesis by simp
qed

section \<open>The channel's state\<close>

record channel_state =
  ch_on :: "bool option"
  ch_on_since :: "rat option"
  ch_off_since :: "rat option"
  ch_starts :: "rat list"
  ch_last_write :: "rat option"
  ch_seq :: "int option"

definition channel_init :: channel_state where
  "channel_init = \<lparr>ch_on = None, ch_on_since = None, ch_off_since = None, ch_starts = [], ch_last_write = None, ch_seq = None\<rparr>"

definition starts_last_h :: "rat \<Rightarrow> channel_state \<Rightarrow> nat \<times> channel_state" where
  "starts_last_h now c = (let kept = dropWhile (\<lambda>s. 3600 \<le> now - s) (ch_starts c) in (length kept, c\<lparr>ch_starts := kept\<rparr>))"

type_synonym channel_cfg = "(string, rat) dict"

definition cfg_num :: "channel_cfg \<Rightarrow> string \<Rightarrow> rat" where
  "cfg_num cfg k = (case dict_get cfg k of None \<Rightarrow> 0 | Some q \<Rightarrow> q)"

text \<open>
  The last case is the exception the code raises for a negative limit with no start to look at.
\<close>

datatype hold = NextWrite rat | RunTime rat | StopTime rat | TooManyStarts nat rat | NoFirstStart

definition too_soon :: "rat \<Rightarrow> rat option \<Rightarrow> rat \<Rightarrow> bool" where
  "too_soon wait since now = (wait \<noteq> 0 \<and> (case since of None \<Rightarrow> False | Some t \<Rightarrow> now - t < wait))"

definition left_of :: "rat \<Rightarrow> rat option \<Rightarrow> rat \<Rightarrow> rat" where
  "left_of wait since now = (case since of None \<Rightarrow> 0 | Some t \<Rightarrow> wait - (now - t))"

text \<open>\<open>hold_s\<close> forgets the starts older than an hour when it counts them.\<close>

definition hold_s :: "channel_cfg \<Rightarrow> bool option \<Rightarrow> rat \<Rightarrow> channel_state \<Rightarrow> hold option \<times> channel_state" where
  "hold_s cfg turns_on now c =
     (let mi = cfg_num cfg ''min_interval_s''; mo = cfg_num cfg ''min_on_s''; mf = cfg_num cfg ''min_off_s'';
          ms = py_trunc (cfg_num cfg ''max_starts_per_h'')
      in if too_soon mi (ch_last_write c) now then (Some (NextWrite (left_of mi (ch_last_write c) now)), c)
         else if turns_on = None \<or> turns_on = ch_on c then (None, c)
         else if turns_on = Some False
         then (if too_soon mo (ch_on_since c) now then (Some (RunTime (left_of mo (ch_on_since c) now)), c) else (None, c))
         else if too_soon mf (ch_off_since c) now then (Some (StopTime (left_of mf (ch_off_since c) now)), c)
         else if ms = 0 then (None, c)
         else (let (n, c') = starts_last_h now c
               in if ms \<le> int n
                  then (Some (case ch_starts c' of [] \<Rightarrow> NoFirstStart | s # _ \<Rightarrow> TooManyStarts n (3600 - (now - s))), c')
                  else (None, c')))"

definition channel_hold :: "channel_cfg \<Rightarrow> bool option \<Rightarrow> rat \<Rightarrow> channel_state \<Rightarrow> bool" where
  "channel_hold cfg turns_on now c = (fst (hold_s cfg turns_on now c) \<noteq> None)"

definition reconcile :: "bool option \<Rightarrow> rat \<Rightarrow> channel_state \<Rightarrow> bool \<times> channel_state" where
  "reconcile turns_on now c =
     (if turns_on = None \<or> ch_on c \<noteq> None then (False, c)
      else if turns_on = Some True then (True, c\<lparr>ch_on := turns_on, ch_on_since := Some now\<rparr>)
      else (True, c\<lparr>ch_on := turns_on, ch_off_since := Some now\<rparr>))"

definition channel_note :: "bool option \<Rightarrow> rat \<Rightarrow> channel_state \<Rightarrow> channel_state" where
  "channel_note turns_on now c0 =
     (let c = c0\<lparr>ch_last_write := Some now\<rparr>
      in case turns_on of
           None \<Rightarrow> c
         | Some True \<Rightarrow>
             (if ch_on c \<noteq> Some True
              then c\<lparr>ch_on_since := Some now, ch_off_since := None, ch_starts := ch_starts c @ [now], ch_on := Some True\<rparr>
              else c)
         | Some False \<Rightarrow>
             (if ch_on c \<noteq> Some False then c\<lparr>ch_off_since := Some now, ch_on_since := None, ch_on := Some False\<rparr> else c))"

text \<open>The copy for a partner gateway: instants travel as ages.\<close>

record channel_mirror =
  mi_on :: "bool option"
  mi_on_since :: "rat option"
  mi_off_since :: "rat option"
  mi_last_write :: "rat option"
  mi_starts :: "rat list"

definition export_mirror :: "rat \<Rightarrow> channel_state \<Rightarrow> channel_mirror" where
  "export_mirror now c = \<lparr>mi_on = ch_on c, mi_on_since = map_option (\<lambda>t. now - t) (ch_on_since c),
     mi_off_since = map_option (\<lambda>t. now - t) (ch_off_since c), mi_last_write = map_option (\<lambda>t. now - t) (ch_last_write c),
     mi_starts = map (\<lambda>t. now - t) (ch_starts c)\<rparr>"

definition from_mirror :: "channel_mirror \<Rightarrow> rat \<Rightarrow> channel_state" where
  "from_mirror d now = channel_init\<lparr>ch_on := mi_on d, ch_on_since := map_option (\<lambda>a. now - a) (mi_on_since d),
     ch_off_since := map_option (\<lambda>a. now - a) (mi_off_since d), ch_last_write := map_option (\<lambda>a. now - a) (mi_last_write d),
     ch_starts := map (\<lambda>a. now - a) (mi_starts d)\<rparr>"

definition channel_snapshot :: "rat \<Rightarrow> channel_state \<Rightarrow> bool option \<times> int option \<times> int option \<times> nat" where
  "channel_snapshot now c = (ch_on c, map_option (\<lambda>t. py_round (now - t)) (ch_on_since c),
     map_option (\<lambda>t. py_round (now - t)) (ch_off_since c), fst (starts_last_h now c))"

section \<open>A partner holds the same\<close>

definition shift_channel :: "rat \<Rightarrow> channel_state \<Rightarrow> channel_state" where
  "shift_channel d c = c\<lparr>ch_on_since := map_option (\<lambda>t. t + d) (ch_on_since c), ch_off_since := map_option (\<lambda>t. t + d) (ch_off_since c),
     ch_last_write := map_option (\<lambda>t. t + d) (ch_last_write c), ch_starts := map (\<lambda>t. t + d) (ch_starts c), ch_seq := None\<rparr>"

lemma mirror_shifts: "from_mirror (export_mirror now1 c) now2 = shift_channel (now2 - now1) c"
  by (cases c) (simp add: from_mirror_def export_mirror_def shift_channel_def channel_init_def option.map_comp comp_def algebra_simps)

lemma shift_too_soon [simp]:
  "too_soon w (map_option (\<lambda>t. t + d) s) (now + d) = too_soon w s now"
  "left_of w (map_option (\<lambda>t. t + d) s) (now + d) = left_of w s now"
  by (cases s; simp add: too_soon_def left_of_def)+

lemma shift_starts: "dropWhile (\<lambda>s. (3600 :: rat) \<le> now + d - s) (map (\<lambda>t. t + d) xs) = map (\<lambda>t. t + d) (dropWhile (\<lambda>s. 3600 \<le> now - s) xs)"
  by (induction xs) (simp_all add: algebra_simps)

lemma shift_fields [simp]:
  "ch_on (shift_channel d c) = ch_on c" "ch_last_write (shift_channel d c) = map_option (\<lambda>t. t + d) (ch_last_write c)"
  "ch_on_since (shift_channel d c) = map_option (\<lambda>t. t + d) (ch_on_since c)"
  "ch_off_since (shift_channel d c) = map_option (\<lambda>t. t + d) (ch_off_since c)"
  "ch_starts (shift_channel d c) = map (\<lambda>t. t + d) (ch_starts c)"
  by (simp_all add: shift_channel_def)

lemma hold_shift: "fst (hold_s cfg turns_on (now + d) (shift_channel d c)) = fst (hold_s cfg turns_on now c)"
proof -
  have s: "starts_last_h (now + d) (shift_channel d c) =
      (fst (starts_last_h now c), (shift_channel d c)\<lparr>ch_starts := map (\<lambda>t. t + d) (ch_starts (snd (starts_last_h now c)))\<rparr>)"
    by (simp add: starts_last_h_def Let_def shift_starts)
  show ?thesis
    by (simp add: hold_s_def Let_def s case_prod_beta split: list.split)
qed

text \<open>
  A partner gateway that takes over holds exactly what the first one would have held. The
  mirrored state, loaded on a machine with another clock, answers every intended write at every
  later moment with the same verdict and the same seconds to go.
\<close>

theorem mirror_keeps_holds:
  "fst (hold_s cfg turns_on (now2 + dt) (from_mirror (export_mirror now1 c) now2)) = fst (hold_s cfg turns_on (now1 + dt) c)"
proof -
  have "now2 + dt = (now1 + dt) + (now2 - now1)" by simp
  then show ?thesis unfolding mirror_shifts using hold_shift [of cfg turns_on "now1 + dt" "now2 - now1" c] by (simp only:)
qed

section \<open>The equipment is protected\<close>

text \<open>
  A channel as the runtime drives it: a write goes out only when no hold speaks against it, and
  is stamped at that moment. The log lists, newest first, each change of the channel: when, to
  what, and whether a write made it (or the device was found so).
\<close>

record switch =
  sw_at :: rat
  sw_on :: bool
  sw_written :: bool

definition switches :: "bool option \<Rightarrow> rat \<Rightarrow> channel_state \<Rightarrow> switch list" where
  "switches turns_on now c = (case turns_on of None \<Rightarrow> []
     | Some b \<Rightarrow> if ch_on c = Some b then [] else [\<lparr>sw_at = now, sw_on = b, sw_written = True\<rparr>])"

inductive channel_run :: "channel_cfg \<Rightarrow> rat \<Rightarrow> channel_state \<Rightarrow> switch list \<Rightarrow> bool" for cfg where
  start: "channel_run cfg t channel_init []"
| written: "channel_run cfg t c lg \<Longrightarrow> t \<le> now \<Longrightarrow> hold_s cfg turns_on now c = (None, c') \<Longrightarrow>
    channel_run cfg now (channel_note turns_on now c') (switches turns_on now c @ lg)"
| held: "channel_run cfg t c lg \<Longrightarrow> t \<le> now \<Longrightarrow> hold_s cfg turns_on now c = (Some h, c') \<Longrightarrow> channel_run cfg now c' lg"
| learnt: "channel_run cfg t c lg \<Longrightarrow> t \<le> now \<Longrightarrow> reconcile (Some b) now c = (True, c') \<Longrightarrow>
    channel_run cfg now c' (\<lparr>sw_at = now, sw_on = b, sw_written = False\<rparr> # lg)"

definition starts_in :: "switch list \<Rightarrow> rat list" where
  "starts_in lg = map sw_at (filter (\<lambda>s. sw_on s \<and> sw_written s) lg)"

definition rested :: "channel_cfg \<Rightarrow> switch \<Rightarrow> switch \<Rightarrow> bool" where
  "rested cfg newer older = (
     (sw_on older \<and> \<not> sw_on newer \<longrightarrow> cfg_num cfg ''min_on_s'' \<le> sw_at newer - sw_at older) \<and>
     (\<not> sw_on older \<and> sw_on newer \<longrightarrow> cfg_num cfg ''min_off_s'' \<le> sw_at newer - sw_at older))"

text \<open>The invariant: the state is the newest change, and the starts kept are the recent ones.\<close>

definition newest :: "switch list \<Rightarrow> channel_state \<Rightarrow> bool" where
  "newest lg c = (case lg of [] \<Rightarrow> ch_on c = None
     | s # _ \<Rightarrow> ch_on c = Some (sw_on s) \<and> (if sw_on s then ch_on_since c = Some (sw_at s) else ch_off_since c = Some (sw_at s)))"

definition recent :: "rat \<Rightarrow> switch list \<Rightarrow> rat list \<Rightarrow> bool" where
  "recent t lg kept = (\<exists>old. rev (starts_in lg) = old @ kept \<and> (\<forall>s \<in> set old. 3600 \<le> t - s))"

definition window :: "rat \<Rightarrow> rat list \<Rightarrow> nat" where
  "window u xs = length (filter (\<lambda>s. u - 3600 < s \<and> s \<le> u) xs)"

definition channel_inv :: "channel_cfg \<Rightarrow> rat \<Rightarrow> channel_state \<Rightarrow> switch list \<Rightarrow> bool" where
  "channel_inv cfg t c lg = (newest lg c \<and> recent t lg (ch_starts c) \<and> (\<forall>s \<in> set lg. sw_at s \<le> t) \<and>
     successively (rested cfg) lg \<and>
     (0 < py_trunc (cfg_num cfg ''max_starts_per_h'') \<longrightarrow>
        (\<forall>u. int (window u (starts_in lg)) \<le> py_trunc (cfg_num cfg ''max_starts_per_h''))))"

lemma recent_later: "recent t lg kept \<Longrightarrow> t \<le> now \<Longrightarrow> recent now lg kept"
  unfolding recent_def by (metis diff_right_mono order_trans)

lemma recent_popped:
  assumes "recent now lg (ch_starts c)"
  shows "recent now lg (ch_starts (snd (starts_last_h now c)))"
proof -
  from assms obtain old where o: "rev (starts_in lg) = old @ ch_starts c" "\<forall>s \<in> set old. 3600 \<le> now - s"
    unfolding recent_def by blast
  let ?P = "\<lambda>s. 3600 \<le> now - s"
  have "rev (starts_in lg) = (old @ takeWhile ?P (ch_starts c)) @ dropWhile ?P (ch_starts c)" using o(1) by simp
  moreover have "\<forall>s \<in> set (old @ takeWhile ?P (ch_starts c)). ?P s" using o(2) by (auto dest: set_takeWhileD)
  moreover have "ch_starts (snd (starts_last_h now c)) = dropWhile ?P (ch_starts c)" by (simp add: starts_last_h_def Let_def)
  ultimately show ?thesis unfolding recent_def by (metis (no_types))
qed

lemma hold_state:
  assumes "hold_s cfg turns_on now c = (h, c')" "recent now lg (ch_starts c)"
  shows "recent now lg (ch_starts c') \<and> ch_on c' = ch_on c \<and> ch_on_since c' = ch_on_since c \<and> ch_off_since c' = ch_off_since c"
proof -
  have "c' = c \<or> c' = snd (starts_last_h now c)"
    using assms(1) by (auto simp: hold_s_def Let_def case_prod_beta split: if_splits)
  then show ?thesis using assms(2) recent_popped by (auto simp: starts_last_h_def Let_def)
qed

text \<open>What a write that is not held has waited for.\<close>

lemma hold_none:
  assumes "hold_s cfg (Some b) now c = (None, c')" "ch_on c \<noteq> Some b"
  shows "\<not> b \<Longrightarrow> \<not> too_soon (cfg_num cfg ''min_on_s'') (ch_on_since c) now"
    "b \<Longrightarrow> \<not> too_soon (cfg_num cfg ''min_off_s'') (ch_off_since c) now"
    "b \<Longrightarrow> py_trunc (cfg_num cfg ''max_starts_per_h'') \<noteq> 0 \<Longrightarrow>
       c' = snd (starts_last_h now c) \<and> int (length (ch_starts c')) < py_trunc (cfg_num cfg ''max_starts_per_h'')"
  using assms by (auto simp: hold_s_def Let_def case_prod_beta starts_last_h_def split: if_splits)

lemma not_too_soon: "\<not> too_soon w (Some t) now \<Longrightarrow> t \<le> now \<Longrightarrow> w \<le> now - t"
  by (auto simp: too_soon_def not_less)

lemma window_start:
  assumes r: "recent now lg kept" and le: "\<forall>s \<in> set lg. sw_at s \<le> now" and u: "now \<le> u"
  shows "window u (starts_in lg) \<le> length kept"
proof -
  from r obtain old where o: "rev (starts_in lg) = old @ kept" "\<forall>s \<in> set old. 3600 \<le> now - s" unfolding recent_def by blast
  have "window u (starts_in lg) = length (filter (\<lambda>s. u - 3600 < s \<and> s \<le> u) (rev (starts_in lg)))"
    by (simp add: window_def flip: rev_filter)
  also have "\<dots> = length (filter (\<lambda>s. u - 3600 < s \<and> s \<le> u) kept)"
    unfolding o(1) using o(2) u by (fastforce simp: filter_empty_conv)
  finally show ?thesis by simp
qed

lemma successive_Cons: "successively P (x # xs) \<longleftrightarrow> successively P xs \<and> (xs = [] \<or> P x (hd xs))"
  by (cases xs) auto

lemma newest_switch:
  assumes "newest lg c" "\<forall>s \<in> set lg. sw_at s \<le> now" "hold_s cfg (Some b) now c = (None, c')" "ch_on c \<noteq> Some b"
  shows "lg = [] \<or> rested cfg \<lparr>sw_at = now, sw_on = b, sw_written = True\<rparr> (hd lg)"
proof (cases lg)
  case (Cons s r)
  have at: "sw_at s \<le> now" using assms(2) Cons by simp
  have st: "ch_on c = Some (sw_on s)" "if sw_on s then ch_on_since c = Some (sw_at s) else ch_off_since c = Some (sw_at s)"
    using assms(1) Cons by (simp_all add: newest_def)
  then have b: "b = (\<not> sw_on s)" using assms(4) by auto
  show ?thesis
  proof (cases b)
    case True
    then have "\<not> too_soon (cfg_num cfg ''min_off_s'') (Some (sw_at s)) now"
      using hold_none(2) [OF assms(3,4)] st(2) b by simp
    from not_too_soon [OF this at] show ?thesis using Cons b True by (simp add: rested_def)
  next
    case False
    then have "\<not> too_soon (cfg_num cfg ''min_on_s'') (Some (sw_at s)) now"
      using hold_none(1) [OF assms(3,4)] st(2) b by simp
    from not_too_soon [OF this at] show ?thesis using Cons b False by (simp add: rested_def)
  qed
qed simp

lemma channel_run_inv: "channel_run cfg t c lg \<Longrightarrow> channel_inv cfg t c lg"
proof (induction rule: channel_run.induct)
  case (start t)
  then show ?case by (simp add: channel_inv_def newest_def recent_def channel_init_def starts_in_def window_def)
next
  case (held t c lg now turns_on h c')
  then have "recent now lg (ch_starts c)" by (auto simp: channel_inv_def intro: recent_later)
  note hs = hold_state [OF held.hyps(3) this]
  then have "newest lg c'" using held.IH by (auto simp: channel_inv_def newest_def split: list.splits)
  then show ?case using held.IH held.hyps(2) hs by (auto simp: channel_inv_def intro: order_trans)
next
  case (learnt t c lg now b c')
  have on: "ch_on c = None" and c': "ch_on c' = Some b" "if b then ch_on_since c' = Some now else ch_off_since c' = Some now"
      "ch_starts c' = ch_starts c"
    using learnt.hyps(3) by (auto simp: reconcile_def split: if_splits)
  then have nil: "lg = []" using learnt.IH by (auto simp: channel_inv_def newest_def split: list.splits)
  then show ?case
    using learnt.IH c' learnt.hyps(2)
    by (auto simp: channel_inv_def newest_def recent_def starts_in_def window_def intro: order_trans)
next
  case (written t c lg now turns_on c')
  have rec: "recent now lg (ch_starts c)" using written by (auto simp: channel_inv_def intro: recent_later)
  note hs = hold_state [OF written.hyps(3) rec]
  have le: "\<forall>s \<in> set lg. sw_at s \<le> now" using written by (auto simp: channel_inv_def intro: order_trans)
  show ?case
  proof (cases "\<exists>b. turns_on = Some b \<and> ch_on c \<noteq> Some b")
    case False
    then have sw: "switches turns_on now c = []" by (auto simp: switches_def split: option.split)
    have same: "ch_on (channel_note turns_on now c') = ch_on c" "ch_on_since (channel_note turns_on now c') = ch_on_since c"
        "ch_off_since (channel_note turns_on now c') = ch_off_since c" "ch_starts (channel_note turns_on now c') = ch_starts c'"
      using False hs by (auto simp: channel_note_def Let_def split: option.split bool.split)
    then have "newest lg (channel_note turns_on now c')" using written.IH by (auto simp: channel_inv_def newest_def split: list.splits)
    then show ?thesis using written.IH hs le by (simp add: sw same(4) channel_inv_def)
  next
    case True
    then obtain b where b: "turns_on = Some b" "ch_on c \<noteq> Some b" by blast
    let ?s = "\<lparr>sw_at = now, sw_on = b, sw_written = True\<rparr>"
    have sw: "switches turns_on now c = [?s]" using b by (simp add: switches_def)
    have n: "newest (?s # lg) (channel_note turns_on now c')"
      using b hs by (cases b) (simp_all add: newest_def channel_note_def)
    have hold: "hold_s cfg (Some b) now c = (None, c')" using written.hyps(3) b by simp
    have r: "lg = [] \<or> rested cfg ?s (hd lg)"
      using newest_switch [OF _ le hold b(2)] written.IH by (simp add: channel_inv_def)
    have st: "ch_starts (channel_note turns_on now c') = (if b then ch_starts c' @ [now] else ch_starts c')"
      using b hs by (cases b) (simp_all add: channel_note_def)
    have rc: "recent now (?s # lg) (ch_starts (channel_note turns_on now c'))"
      using hs unfolding recent_def st by (auto simp: starts_in_def)
    have win: "int (window u (starts_in (?s # lg))) \<le> py_trunc (cfg_num cfg ''max_starts_per_h'')"
      if ms: "0 < py_trunc (cfg_num cfg ''max_starts_per_h'')" for u
    proof (cases "b \<and> now \<le> u")
      case False
      then have "window u (starts_in (?s # lg)) = window u (starts_in lg)"
        by (auto simp: window_def starts_in_def)
      then show ?thesis using written.IH ms by (simp add: channel_inv_def)
    next
      case True
      then have "int (length (ch_starts c')) < py_trunc (cfg_num cfg ''max_starts_per_h'')"
        using hold_none(3) [OF hold b(2)] ms by linarith
      moreover have "window u (starts_in lg) \<le> length (ch_starts c')"
        by (rule window_start [OF conjunct1 [OF hs] le]) (use True in simp)
      moreover have "window u (starts_in (?s # lg)) \<le> Suc (window u (starts_in lg))"
        by (simp add: window_def starts_in_def)
      ultimately show ?thesis by linarith
    qed
    show ?thesis
      using written.IH n rc le r win by (simp add: sw channel_inv_def successive_Cons)
  qed
qed

text \<open>
  C18 (safety): The equipment is protected whoever writes. As long as writes go out only when nothing holds
  them, a motor runs at least its minimum run time before it is stopped, rests at least its
  minimum stop time before it is started, and in no hour, wherever it begins, are there more
  starts than the limit.
\<close>

theorem equipment_protected:
  assumes "channel_run cfg t c lg"
  shows "successively (rested cfg) lg \<and>
    (0 < py_trunc (cfg_num cfg ''max_starts_per_h'') \<longrightarrow>
       (\<forall>u. int (window u (starts_in lg)) \<le> py_trunc (cfg_num cfg ''max_starts_per_h'')))"
  using channel_run_inv [OF assms] by (simp add: channel_inv_def)

theorem equipment_protected_witness:
  "window 10 (starts_in (switches (Some True) 5 channel_init)) \<le> 1"
proof -
  let ?cfg = "[(''max_starts_per_h'', 1)] :: channel_cfg"
  have "hold_s ?cfg (Some True) 5 channel_init = (None, channel_init)"
    by (simp add: hold_s_def cfg_num_def channel_init_def too_soon_def starts_last_h_def py_trunc_def Let_def)
  from channel_run.written [OF channel_run.start _ this, of 5]
  have "channel_run ?cfg 5 (channel_note (Some True) 5 channel_init) (switches (Some True) 5 channel_init)" by simp
  from equipment_protected [OF this] show ?thesis by (simp add: cfg_num_def py_trunc_def)
qed

end
