(* ===== verification/ThresholdEngine.thy ===== *)
theory ThresholdEngine
  imports Prelude
begin

text \<open>
  Alerts from a register's thresholds (\<open>threshold_engine.py\<close>): the band of each value with the
  hysteresis on the way back, and the event of each change of band.

  An event's message text is represented by what it is made of: name, value, unit and the
  bound it names. A threshold set is the dictionary of its fields, with \<open>onlyWhen\<close> apart.
\<close>

datatype band = DangerLow | WarningLow | Normal | WarningHigh | DangerHigh

datatype severity = Error | Warn | Info

fun band_severity :: "band \<Rightarrow> severity" where
  "band_severity DangerLow = Error"
| "band_severity WarningLow = Warn"
| "band_severity Normal = Info"
| "band_severity WarningHigh = Warn"
| "band_severity DangerHigh = Error"

text \<open>\<open>_num\<close>: a number, or text that reads as one.\<close>

fun to_num :: "pyval \<Rightarrow> rat option" where
  "to_num VNone = None"
| "to_num (VBool b) = None"
| "to_num (VInt n) = Some (of_int n)"
| "to_num (VFloat q) = Some q"
| "to_num (VStr s) = py_float_of_string s"

record threshold_set =
  th_fields :: "(string, pyval) dict"
  th_only_when :: "(string, pyval) dict option"

definition field_or_none :: "(string, pyval) dict \<Rightarrow> string \<Rightarrow> pyval" where
  "field_or_none d k = (case dict_get d k of None \<Rightarrow> VNone | Some v \<Rightarrow> v)"

definition gate_open :: "threshold_set option \<Rightarrow> (pyval \<Rightarrow> pyval) \<Rightarrow> bool" where
  "gate_open t value_of =
     (case t of None \<Rightarrow> True
      | Some t \<Rightarrow> (case th_only_when t of None \<Rightarrow> True
         | Some cond \<Rightarrow>
             if \<not> truthy (field_or_none cond ''field'') then True
             else (case to_num (value_of (field_or_none cond ''field'')) of
                 None \<Rightarrow> False
               | Some v \<Rightarrow> (case to_num (field_or_none cond ''above'') of None \<Rightarrow> True | Some a \<Rightarrow> a < v))))"

record threshold_engine =
  te_deadband_pct :: rat
  te_alert_on_start :: bool
  te_band :: "(string, band) dict"

definition engine_init :: "rat \<Rightarrow> bool \<Rightarrow> threshold_engine" where
  "engine_init pct on_start = \<lparr>te_deadband_pct = max 0 pct, te_alert_on_start = on_start, te_band = []\<rparr>"

definition deadband :: "rat \<Rightarrow> rat \<Rightarrow> rat" where
  "deadband pct boundary = \<bar>boundary\<bar> * pct / 100"

definition above :: "rat \<Rightarrow> rat option \<Rightarrow> bool" where
  "above v b = (case b of None \<Rightarrow> False | Some x \<Rightarrow> x < v)"

definition below :: "rat \<Rightarrow> rat option \<Rightarrow> bool" where
  "below v b = (case b of None \<Rightarrow> False | Some x \<Rightarrow> v < x)"

definition sticky_high :: "rat \<Rightarrow> rat \<Rightarrow> rat option \<Rightarrow> bool" where
  "sticky_high pct v b = (case b of None \<Rightarrow> False | Some x \<Rightarrow> x - deadband pct x < v)"

definition sticky_low :: "rat \<Rightarrow> rat \<Rightarrow> rat option \<Rightarrow> bool" where
  "sticky_low pct v b = (case b of None \<Rightarrow> False | Some x \<Rightarrow> v < x + deadband pct x)"

definition classify :: "rat \<Rightarrow> rat \<Rightarrow> rat option \<Rightarrow> rat option \<Rightarrow> rat option \<Rightarrow> rat option \<Rightarrow> band \<Rightarrow> band" where
  "classify pct v dl wl wh dh cur =
     (if above v dh then DangerHigh
      else if above v wh then (if cur = DangerHigh \<and> sticky_high pct v dh then DangerHigh else WarningHigh)
      else if below v dl then DangerLow
      else if below v wl then (if cur = DangerLow \<and> sticky_low pct v dl then DangerLow else WarningLow)
      else if (cur = WarningHigh \<or> cur = DangerHigh) \<and> sticky_high pct v wh then WarningHigh
      else if (cur = WarningLow \<or> cur = DangerLow) \<and> sticky_low pct v wl then WarningLow
      else if cur = DangerHigh \<and> wh = None \<and> sticky_high pct v dh then DangerHigh
      else if cur = DangerLow \<and> wl = None \<and> sticky_low pct v dl then DangerLow
      else Normal)"

record alert_event =
  ev_severity :: severity
  ev_key :: string
  ev_source :: string
  ev_name :: string
  ev_value :: rat
  ev_unit :: string
  ev_bound :: "rat option"
  ev_band :: band

definition event_of :: "string \<Rightarrow> band \<Rightarrow> rat \<Rightarrow> string \<Rightarrow> string \<Rightarrow> string \<Rightarrow> rat option \<Rightarrow> rat option \<Rightarrow> rat option \<Rightarrow> rat option \<Rightarrow> alert_event" where
  "event_of key b v source label unit dl wl wh dh =
     \<lparr>ev_severity = band_severity b, ev_key = key, ev_source = source, ev_name = (if label = [] then key else label),
      ev_value = v, ev_unit = unit,
      ev_bound = (case b of DangerHigh \<Rightarrow> dh | WarningHigh \<Rightarrow> wh | WarningLow \<Rightarrow> wl | DangerLow \<Rightarrow> dl | Normal \<Rightarrow> None),
      ev_band = b\<rparr>"

definition band_of :: "string \<Rightarrow> threshold_engine \<Rightarrow> band" where
  "band_of key e = (case dict_get (te_band e) key of None \<Rightarrow> Normal | Some b \<Rightarrow> b)"

definition bound_of :: "threshold_set \<Rightarrow> string \<Rightarrow> rat option" where
  "bound_of t k = to_num (field_or_none (th_fields t) k)"

definition evaluate :: "string \<Rightarrow> pyval \<Rightarrow> threshold_set option \<Rightarrow> string \<Rightarrow> string \<Rightarrow> string \<Rightarrow> bool \<Rightarrow> threshold_engine
    \<Rightarrow> alert_event option \<times> threshold_engine" where
  "evaluate key value thresholds source label unit gated e =
     (let t = (case thresholds of None \<Rightarrow> \<lparr>th_fields = [], th_only_when = None\<rparr> | Some t \<Rightarrow> t);
          dl = bound_of t ''dangerLow''; wl = bound_of t ''warningLow'';
          wh = bound_of t ''warningHigh''; dh = bound_of t ''dangerHigh'';
          dropped = e\<lparr>te_band := dict_del key (te_band e)\<rparr>
      in case to_num value of
           None \<Rightarrow> (None, dropped)
         | Some v \<Rightarrow>
             if \<not> truthy (field_or_none (th_fields t) ''enabled'') then (None, dropped)
             else if dl = None \<and> wl = None \<and> wh = None \<and> dh = None then (None, dropped)
             else if gated
             then (if band_of key e = Normal then None else Some (event_of key Normal v source label unit dl wl wh dh),
                   e\<lparr>te_band := dict_set key Normal (te_band e)\<rparr>)
             else let first = (dict_get (te_band e) key = None);
                      cur = band_of key e;
                      new = classify (te_deadband_pct e) v dl wl wh dh cur;
                      e' = e\<lparr>te_band := dict_set key new (te_band e)\<rparr>
                  in if first \<and> (new = Normal \<or> \<not> te_alert_on_start e) then (None, e')
                     else if \<not> first \<and> new = cur then (None, e')
                     else (Some (event_of key new v source label unit dl wl wh dh), e'))"

definition te_forget :: "string \<Rightarrow> threshold_engine \<Rightarrow> threshold_engine" where
  "te_forget key e = e\<lparr>te_band := dict_del key (te_band e)\<rparr>"

definition te_retain :: "string set \<Rightarrow> threshold_engine \<Rightarrow> threshold_engine" where
  "te_retain keep e = e\<lparr>te_band := filter (\<lambda>(k, b). k \<in> keep) (te_band e)\<rparr>"

section \<open>Bands\<close>

lemma deadband_nonneg: "0 \<le> pct \<Longrightarrow> 0 \<le> deadband pct x"
  by (simp add: deadband_def)

text \<open>
  The alarm is immediate: whatever was before, a value beyond a danger bound is in that danger
  band at once, and a value beyond a warning bound is not in the normal band.
\<close>

lemma classify_escalates:
  "above v dh \<Longrightarrow> classify pct v dl wl wh dh cur = DangerHigh"
  "above v wh \<Longrightarrow> classify pct v dl wl wh dh cur \<in> {WarningHigh, DangerHigh}"
  "\<not> above v dh \<Longrightarrow> \<not> above v wh \<Longrightarrow> below v dl \<Longrightarrow> classify pct v dl wl wh dh cur = DangerLow"
  "\<not> above v dh \<Longrightarrow> \<not> above v wh \<Longrightarrow> below v wl \<Longrightarrow> classify pct v dl wl wh dh cur \<in> {WarningLow, DangerLow}"
  by (auto simp: classify_def)

definition band_fits :: "rat option \<Rightarrow> rat option \<Rightarrow> rat option \<Rightarrow> rat option \<Rightarrow> band \<Rightarrow> bool" where
  "band_fits dl wl wh dh b = (case b of DangerHigh \<Rightarrow> dh \<noteq> None | WarningHigh \<Rightarrow> wh \<noteq> None
     | WarningLow \<Rightarrow> wl \<noteq> None | DangerLow \<Rightarrow> dl \<noteq> None | Normal \<Rightarrow> True)"

lemma classify_fits: "band_fits dl wl wh dh cur \<Longrightarrow> band_fits dl wl wh dh (classify pct v dl wl wh dh cur)"
  by (auto simp: classify_def band_fits_def above_def below_def sticky_high_def sticky_low_def split: option.splits band.splits)

text \<open>The nearest bound of a side: warning where there is one, else danger.\<close>

definition nearest :: "rat option \<Rightarrow> rat option \<Rightarrow> rat option" where
  "nearest w d = (if w = None then d else w)"

lemma clears_past_deadband:
  assumes "band_fits dl wl wh dh cur" "classify pct v dl wl wh dh cur = Normal"
  shows "cur \<in> {WarningHigh, DangerHigh} \<Longrightarrow> (\<exists>x. nearest wh dh = Some x \<and> v \<le> x - deadband pct x)"
    "cur \<in> {WarningLow, DangerLow} \<Longrightarrow> (\<exists>x. nearest wl dl = Some x \<and> x + deadband pct x \<le> v)"
  using assms
  by (auto simp: classify_def band_fits_def nearest_def sticky_high_def sticky_low_def not_less split: if_splits option.splits)

section \<open>Runs of readings\<close>

fun eval_run :: "string \<Rightarrow> threshold_set \<Rightarrow> pyval list \<Rightarrow> threshold_engine \<Rightarrow> alert_event list \<times> threshold_engine" where
  "eval_run key t [] e = ([], e)"
| "eval_run key t (v # vs) e =
     (let (ev, e1) = evaluate key v (Some t) [] [] [] False e; (evs, e2) = eval_run key t vs e1
      in ((case ev of None \<Rightarrow> [] | Some x \<Rightarrow> [x]) @ evs, e2))"

definition judged :: "threshold_set \<Rightarrow> bool" where
  "judged t = (truthy (field_or_none (th_fields t) ''enabled'') \<and>
     (bound_of t ''dangerLow'' \<noteq> None \<or> bound_of t ''warningLow'' \<noteq> None \<or> bound_of t ''warningHigh'' \<noteq> None \<or> bound_of t ''dangerHigh'' \<noteq> None))"

definition classify_by :: "rat \<Rightarrow> threshold_set \<Rightarrow> rat \<Rightarrow> band \<Rightarrow> band" where
  "classify_by pct t v cur = classify pct v (bound_of t ''dangerLow'') (bound_of t ''warningLow'') (bound_of t ''warningHigh'') (bound_of t ''dangerHigh'') cur"

definition fits :: "threshold_set \<Rightarrow> band \<Rightarrow> bool" where
  "fits t b = band_fits (bound_of t ''dangerLow'') (bound_of t ''warningLow'') (bound_of t ''warningHigh'') (bound_of t ''dangerHigh'') b"

lemma band_of_set: "band_of k (e\<lparr>te_band := dict_set key b (te_band e)\<rparr>) = (if k = key then b else band_of k e)"
  by (simp add: band_of_def dict_get_set)

lemma band_of_del: "band_of k (e\<lparr>te_band := dict_del key (te_band e)\<rparr>) = (if k = key then Normal else band_of k e)"
  by (simp add: band_of_def dict_get_del)

text \<open>One judged reading: the new band, and an event exactly when it speaks.\<close>

lemma ev_band_of [simp]: "ev_band (event_of key b v source label unit dl wl wh dh) = b"
  by (simp add: event_of_def)

lemma evaluate_form:
  assumes "judged t" "to_num value = Some v"
  shows "\<exists>ev. evaluate key value (Some t) src lab un False e =
     ((if dict_get (te_band e) key = None \<and> (classify_by (te_deadband_pct e) t v (band_of key e) = Normal \<or> \<not> te_alert_on_start e)
         \<or> dict_get (te_band e) key \<noteq> None \<and> classify_by (te_deadband_pct e) t v (band_of key e) = band_of key e then None else Some ev),
      e\<lparr>te_band := dict_set key (classify_by (te_deadband_pct e) t v (band_of key e)) (te_band e)\<rparr>)
     \<and> ev_band ev = classify_by (te_deadband_pct e) t v (band_of key e)"
proof -
  let ?n = "classify_by (te_deadband_pct e) t v (band_of key e)"
  let ?ev = "event_of key ?n v src lab un (bound_of t ''dangerLow'') (bound_of t ''warningLow'') (bound_of t ''warningHigh'') (bound_of t ''dangerHigh'')"
  have no: "\<not> (bound_of t ''dangerLow'' = None \<and> bound_of t ''warningLow'' = None \<and> bound_of t ''warningHigh'' = None \<and> bound_of t ''dangerHigh'' = None)"
    and en: "truthy (field_or_none (th_fields t) ''enabled'')" using assms(1) unfolding judged_def by blast+
  have "evaluate key value (Some t) src lab un False e =
     (let new = ?n; e' = e\<lparr>te_band := dict_set key new (te_band e)\<rparr>
      in if dict_get (te_band e) key = None \<and> (new = Normal \<or> \<not> te_alert_on_start e) then (None, e')
         else if dict_get (te_band e) key \<noteq> None \<and> new = band_of key e then (None, e') else (Some ?ev, e'))"
    unfolding evaluate_def Let_def option.case assms(2) if_not_P [OF no] classify_by_def [symmetric] using en by simp
  then show ?thesis by (intro exI [of _ ?ev]) (simp add: Let_def)
qed

lemma evaluate_judged:
  assumes "judged t" "to_num value = Some v"
  shows "band_of key (snd (evaluate key value (Some t) src lab un False e)) = classify_by (te_deadband_pct e) t v (band_of key e)"
    "te_deadband_pct (snd (evaluate key value (Some t) src lab un False e)) = te_deadband_pct e"
    "te_alert_on_start (snd (evaluate key value (Some t) src lab un False e)) = te_alert_on_start e"
    "fst (evaluate key value (Some t) src lab un False e) = Some ev \<Longrightarrow>
       ev_band ev = classify_by (te_deadband_pct e) t v (band_of key e) \<and> ev_band ev \<noteq> band_of key e"
    "fst (evaluate key value (Some t) src lab un False e) = None \<Longrightarrow>
       classify_by (te_deadband_pct e) t v (band_of key e) = band_of key e \<or> \<not> te_alert_on_start e \<and> dict_get (te_band e) key = None"
  using evaluate_form [OF assms, of key src lab un e]
  by (auto simp: band_of_set) (auto simp: band_of_def split: if_splits)

lemma evaluate_unread:
  assumes "to_num value = None"
  shows "evaluate key value thr src lab un g e = (None, e\<lparr>te_band := dict_del key (te_band e)\<rparr>)"
  using assms by (simp add: evaluate_def Let_def)

lemma eval_run_fits:
  assumes "judged t" "fits t (band_of key e)"
  shows "fits t (band_of key (snd (eval_run key t vs e))) \<and> te_deadband_pct (snd (eval_run key t vs e)) = te_deadband_pct e"
  using assms(2)
proof (induction vs arbitrary: e)
  case (Cons x vs)
  obtain ev e1 where s: "evaluate key x (Some t) [] [] [] False e = (ev, e1)" by fastforce
  have "fits t (band_of key e1) \<and> te_deadband_pct e1 = te_deadband_pct e"
  proof (cases "to_num x")
    case None
    then have "e1 = e\<lparr>te_band := dict_del key (te_band e)\<rparr>" using evaluate_unread [OF None] s by simp
    then show ?thesis by (simp add: band_of_del fits_def band_fits_def)
  next
    case (Some v)
    note j = evaluate_judged [OF assms(1) Some, of key "[]" "[]" "[]" e]
    have "fits t (classify_by (te_deadband_pct e) t v (band_of key e))"
      using Cons.prems unfolding fits_def classify_by_def by (rule classify_fits)
    then show ?thesis using j(1,2) s by simp
  qed
  then show ?case using Cons.IH [of e1] s by (simp add: Let_def case_prod_beta)
qed simp

text \<open>
  Fast to alarm, slow to clear. After any readings of a register, one beyond a bound raises or
  keeps an alarm at once (danger beyond a danger bound); and "back to normal" is said only by a
  reading that has come back past the nearest bound of the side that alarmed by the whole
  deadband.
\<close>

theorem fast_to_alarm_slow_to_clear:
  assumes "judged t" and "to_num value = Some v" and "0 \<le> pct"
    and "e = snd (eval_run key t vs (engine_init pct on_start))"
    and "evaluate key value (Some t) src lab un False e = (ev, e')"
  shows "(above v (bound_of t ''dangerHigh'') \<longrightarrow> band_of key e' = DangerHigh) \<and>
    (above v (bound_of t ''warningHigh'') \<longrightarrow> band_of key e' \<in> {WarningHigh, DangerHigh}) \<and>
    (ev = Some a \<longrightarrow> ev_band a = Normal \<longrightarrow>
       (\<exists>x. nearest (bound_of t ''warningHigh'') (bound_of t ''dangerHigh'') = Some x \<and> v \<le> x - deadband pct x) \<or>
       (\<exists>x. nearest (bound_of t ''warningLow'') (bound_of t ''dangerLow'') = Some x \<and> x + deadband pct x \<le> v))"
proof -
  have "fits t (band_of key (engine_init pct on_start))"
    by (simp add: engine_init_def band_of_def fits_def band_fits_def)
  from eval_run_fits [OF assms(1) this, of vs] have f: "fits t (band_of key e)" and p: "te_deadband_pct e = pct"
    using assms(3,4) by (simp_all add: engine_init_def)
  note j = evaluate_judged [OF assms(1,2), of key src lab un e, unfolded assms(5) p fst_conv snd_conv]
  have clear: "(\<exists>x. nearest (bound_of t ''warningHigh'') (bound_of t ''dangerHigh'') = Some x \<and> v \<le> x - deadband pct x) \<or>
       (\<exists>x. nearest (bound_of t ''warningLow'') (bound_of t ''dangerLow'') = Some x \<and> x + deadband pct x \<le> v)"
    if "ev = Some a" "ev_band a = Normal"
  proof -
    have n: "classify_by pct t v (band_of key e) = Normal" "band_of key e \<noteq> Normal" using j(4) that by auto
    then have "band_of key e \<in> {WarningHigh, DangerHigh} \<or> band_of key e \<in> {WarningLow, DangerLow}"
      by (cases "band_of key e") simp_all
    then show ?thesis
      using clears_past_deadband [OF f [unfolded fits_def] n(1) [unfolded classify_by_def]] by blast
  qed
  show ?thesis
    using clear classify_escalates(1,2) unfolding j(1) classify_by_def by blast
qed

definition high_limit :: threshold_set where
  "high_limit = \<lparr>th_fields = [(''enabled'', VBool True), (''warningHigh'', VInt 100)], th_only_when = None\<rparr>"

lemma high_limit_parts [simp]:
  "judged high_limit" "bound_of high_limit ''warningHigh'' = Some 100" "bound_of high_limit ''dangerHigh'' = None"
  "bound_of high_limit ''warningLow'' = None" "bound_of high_limit ''dangerLow'' = None"
  by (simp_all add: judged_def high_limit_def bound_of_def field_or_none_def)

theorem fast_to_alarm_slow_to_clear_witness:
  "band_of ''u'' (snd (evaluate ''u'' (VInt 104) (Some high_limit) [] [] [] False (engine_init 2 True))) \<in> {WarningHigh, DangerHigh}"
proof -
  obtain ev e' where s: "evaluate ''u'' (VInt 104) (Some high_limit) [] [] [] False (engine_init 2 True) = (ev, e')" by fastforce
  have "above 104 (bound_of high_limit ''warningHigh'')" by (simp add: above_def)
  then show ?thesis
    using fast_to_alarm_slow_to_clear [of high_limit "VInt 104" 104 2 "engine_init 2 True" "''u''" "[]" True "[]" "[]" "[]" ev e'] s
    by simp
qed

text \<open>
  A value that flutters around a limit notifies once. While the readings stay within the
  deadband below the nearest high bound or beyond it (and cross no other bound), there is at
  most one event, however often they cross the bound itself.
\<close>

theorem flutter_notifies_once:
  assumes "judged t" and "band_of key e = Normal" and "te_deadband_pct e = pct"
    and "nearest (bound_of t ''warningHigh'') (bound_of t ''dangerHigh'') = Some x"
    and "\<forall>value \<in> set vs. \<exists>v. to_num value = Some v \<and> x - deadband pct x < v \<and>
           (bound_of t ''warningHigh'' \<noteq> None \<longrightarrow> \<not> above v (bound_of t ''dangerHigh'')) \<and>
           \<not> below v (bound_of t ''warningLow'') \<and> \<not> below v (bound_of t ''dangerLow'')"
  shows "length (fst (eval_run key t vs e)) \<le> 1"
proof -
  define H where "H = (if bound_of t ''warningHigh'' = None then DangerHigh else WarningHigh)"
  have stay: "classify_by pct t v H = H" and rise: "classify_by pct t v Normal \<in> {Normal, H}"
    if "x - deadband pct x < v" "bound_of t ''warningHigh'' \<noteq> None \<longrightarrow> \<not> above v (bound_of t ''dangerHigh'')"
      "\<not> below v (bound_of t ''warningLow'')" "\<not> below v (bound_of t ''dangerLow'')" for v
    using that assms(4) by (auto simp: H_def classify_by_def classify_def nearest_def sticky_high_def above_def split: if_splits option.splits)
  have run: "length (fst (eval_run key t ws e')) \<le> (if band_of key e' = H then 0 else 1)"
    if "band_of key e' \<in> {Normal, H}" "te_deadband_pct e' = pct" "set ws \<subseteq> set vs" for ws e'
    using that
  proof (induction ws arbitrary: e')
    case (Cons w ws)
    have "w \<in> set vs" using Cons.prems(3) by simp
    with assms(5) obtain v where v: "to_num w = Some v" "x - deadband pct x < v"
        "bound_of t ''warningHigh'' \<noteq> None \<longrightarrow> \<not> above v (bound_of t ''dangerHigh'')"
        "\<not> below v (bound_of t ''warningLow'')" "\<not> below v (bound_of t ''dangerLow'')" by blast
    obtain ev e1 where s: "evaluate key w (Some t) [] [] [] False e' = (ev, e1)" by fastforce
    note j = evaluate_judged [OF assms(1) v(1), of key "[]" "[]" "[]" e', unfolded s Cons.prems(2) fst_conv snd_conv]
    have b: "band_of key e1 \<in> {Normal, H}" "band_of key e' = H \<Longrightarrow> band_of key e1 = H"
      using Cons.prems(1) stay [OF v(2-5)] rise [OF v(2-5)] by (auto simp: j(1))
    have "length (fst (eval_run key t ws e1)) \<le> (if band_of key e1 = H then 0 else 1)"
      using Cons.prems(2,3) b(1) j(2) by (intro Cons.IH) simp_all
    moreover have "H \<noteq> Normal" by (simp add: H_def)
    then have "ev = Some a \<Longrightarrow> band_of key e' \<noteq> H \<and> band_of key e1 = H" for a
      using j(4) [of a] b Cons.prems(1) by (auto simp: j(1) [symmetric])
    ultimately show ?case using s b(2) by (cases ev) (auto simp: Let_def case_prod_beta split: if_splits)
  qed simp
  show ?thesis using run [of e vs] assms(2,3) by (auto split: if_splits)
qed

theorem flutter_notifies_once_witness:
  "length (fst (eval_run ''u'' high_limit [VInt 101, VInt 99, VInt 102, VInt 99, VInt 101] (engine_init 2 True))) \<le> 1"
  by (rule flutter_notifies_once [where x = 100 and pct = 2])
    (simp_all add: nearest_def deadband_def above_def below_def engine_init_def band_of_def)

end
