(* ===== verification/ModbusPolling.thy ===== *)
theory ModbusPolling
  imports RegisterCodec
begin

text \<open>
  Three parts of the Modbus client (\<open>modbus_client.py\<close>): how busy a wire is (\<open>_WireMeter\<close>), the
  queue in front of an endpoint (\<open>_EndpointArbiter\<close>), and how the registers of a device are
  gathered into batch reads (\<open>_create_read_groups\<close>). The clock is an argument.
\<close>

section \<open>The meter of a wire\<close>

definition BUSY_WINDOW_S :: rat where "BUSY_WINDOW_S = 60"

definition BUSY_MIN_S :: rat where "BUSY_MIN_S = 5"

record wire_meter =
  wm_held :: "(rat \<times> rat) list"
  wm_sum :: rat
  wm_missed :: "rat list"
  wm_born :: rat

definition meter_init :: "rat \<Rightarrow> wire_meter" where
  "meter_init now = \<lparr>wm_held = [], wm_sum = 0, wm_missed = [], wm_born = now\<rparr>"

fun trim_held :: "rat \<Rightarrow> (rat \<times> rat) list \<Rightarrow> rat \<Rightarrow> (rat \<times> rat) list \<times> rat" where
  "trim_held start [] busy = ([], busy)"
| "trim_held start ((t, h) # held) busy = (if t < start then trim_held start held (busy - h) else ((t, h) # held, busy))"

definition meter_trim :: "rat \<Rightarrow> wire_meter \<Rightarrow> wire_meter" where
  "meter_trim now m =
     (let start = now - BUSY_WINDOW_S; (held, busy) = trim_held start (wm_held m) (wm_sum m)
      in m\<lparr>wm_held := held, wm_sum := busy, wm_missed := dropWhile (\<lambda>t. t < start) (wm_missed m)\<rparr>)"

definition meter_add :: "rat \<Rightarrow> rat \<Rightarrow> wire_meter \<Rightarrow> wire_meter" where
  "meter_add held now m = meter_trim now (m\<lparr>wm_held := wm_held m @ [(now, held)], wm_sum := wm_sum m + held\<rparr>)"

definition meter_miss :: "rat \<Rightarrow> wire_meter \<Rightarrow> wire_meter" where
  "meter_miss now m = meter_trim now (m\<lparr>wm_missed := wm_missed m @ [now]\<rparr>)"

record occupancy =
  oc_busy :: rat
  oc_window :: rat
  oc_missed :: nat

definition meter_snapshot :: "rat \<Rightarrow> wire_meter \<Rightarrow> occupancy option \<times> wire_meter" where
  "meter_snapshot now m0 =
     (let m = meter_trim now m0; window = min BUSY_WINDOW_S (now - wm_born m)
      in if window < BUSY_MIN_S then (None, m)
         else let busy = (case wm_held m of [] \<Rightarrow> wm_sum m
                | (t, h) # _ \<Rightarrow> wm_sum m - max 0 ((now - window) - (t - h)))
              in (Some \<lparr>oc_busy = max 0 busy, oc_window = window, oc_missed = length (wm_missed m)\<rparr>, m))"

definition meter_share :: "rat \<Rightarrow> wire_meter \<Rightarrow> rat option" where
  "meter_share now m = map_option (\<lambda>s. min 1 (oc_busy s / oc_window s)) (fst (meter_snapshot now m))"

section \<open>The queue of an endpoint\<close>

text \<open>
  \<open>acquire\<close> is three moments: the caller joins the queue, its turn comes (it is first, the wire
  is free and the cooldown, in which it waited \<open>waited\<close>, has passed), or its patience ends first.
\<close>

record endpoint =
  ep_waiting :: "nat list"
  ep_busy :: bool
  ep_turns :: int
  ep_timeouts :: int
  ep_min_gap :: rat
  ep_free_at :: rat
  ep_gap_waited :: rat
  ep_samples :: "rat list"
  ep_wire :: wire_meter

definition endpoint_init :: "rat \<Rightarrow> rat \<Rightarrow> endpoint" where
  "endpoint_init gap now = \<lparr>ep_waiting = [], ep_busy = False, ep_turns = 0, ep_timeouts = 0, ep_min_gap = gap,
     ep_free_at = 0, ep_gap_waited = 0, ep_samples = [], ep_wire = meter_init now\<rparr>"

definition ep_join :: "nat \<Rightarrow> endpoint \<Rightarrow> endpoint" where
  "ep_join me e = e\<lparr>ep_waiting := ep_waiting e @ [me]\<rparr>"

definition ep_ready :: "nat \<Rightarrow> rat \<Rightarrow> endpoint \<Rightarrow> bool" where
  "ep_ready me now e = (\<not> ep_busy e \<and> ep_waiting e \<noteq> [] \<and> hd (ep_waiting e) = me \<and> (0 < ep_min_gap e \<longrightarrow> ep_free_at e \<le> now))"

definition ep_enter :: "rat \<Rightarrow> endpoint \<Rightarrow> endpoint" where
  "ep_enter waited e = e\<lparr>ep_waiting := tl (ep_waiting e), ep_busy := True, ep_turns := ep_turns e + 1,
     ep_gap_waited := (if 0 < ep_min_gap e then ep_gap_waited e + waited else ep_gap_waited e)\<rparr>"

definition ep_give_up :: "nat \<Rightarrow> rat \<Rightarrow> endpoint \<Rightarrow> endpoint" where
  "ep_give_up me now e = e\<lparr>ep_waiting := remove1 me (ep_waiting e), ep_timeouts := ep_timeouts e + 1, ep_wire := meter_miss now (ep_wire e)\<rparr>"

definition keep_samples :: "rat list \<Rightarrow> rat list" where
  "keep_samples xs = drop (length xs - 200) xs"

definition ep_release :: "rat option \<Rightarrow> rat \<Rightarrow> endpoint \<Rightarrow> endpoint" where
  "ep_release held now e =
     (let e1 = e\<lparr>ep_busy := False, ep_free_at := (if 0 < ep_min_gap e then now + ep_min_gap e else ep_free_at e)\<rparr>
      in case held of None \<Rightarrow> e1
         | Some h \<Rightarrow> e1\<lparr>ep_samples := keep_samples (ep_samples e1 @ [h]), ep_wire := meter_add h now (ep_wire e1)\<rparr>)"

definition ep_cost :: "endpoint \<Rightarrow> (rat \<times> rat) option \<times> nat" where
  "ep_cost e = (let xs = sort (ep_samples e); n = length xs
     in if xs = [] then (None, 0)
        else (Some (xs ! (n div 2), xs ! min (n - 1) (nat (py_trunc (of_nat n * (95 / 100))))), n))"

section \<open>Batch reads\<close>

record poll_register =
  pr_address :: int
  pr_type :: string
  pr_data_type :: string
  pr_name :: string

record read_group =
  rg_start :: int
  rg_end :: int
  rg_type :: string
  rg_regs :: "poll_register list"

record group_cfg =
  gc_max_read :: int
  gc_max_gap :: int
  gc_illegal :: "int list"
  gc_ranges :: "(int \<times> int) list"

definition MAX_READ :: "group_cfg \<Rightarrow> int" where
  "MAX_READ c = (if 0 < gc_max_read c \<and> gc_max_read c < 120 then gc_max_read c else 120)"

fun seg_from :: "int \<Rightarrow> (int \<times> int) list \<Rightarrow> int \<Rightarrow> int" where
  "seg_from i [] a = -1"
| "seg_from i ((lo, hi) # rs) a = (if lo \<le> a \<and> a \<le> hi then i else seg_from (i + 1) rs a)"

definition seg :: "group_cfg \<Rightarrow> int \<Rightarrow> int" where
  "seg c a = seg_from 0 (gc_ranges c) a"

definition spans_illegal :: "group_cfg \<Rightarrow> int \<Rightarrow> int \<Rightarrow> bool" where
  "spans_illegal c lo hi = list_ex (\<lambda>a. lo \<le> a \<and> a < hi) (gc_illegal c)"

definition reg_count :: "poll_register \<Rightarrow> int" where
  "reg_count r = (if pr_type r = ''coil'' \<or> pr_type r = ''discrete'' then 1 else int (get_register_count (pr_data_type r)))"

definition new_group :: "poll_register \<Rightarrow> read_group" where
  "new_group r = \<lparr>rg_start = pr_address r, rg_end = pr_address r + reg_count r, rg_type = pr_type r, rg_regs = [r]\<rparr>"

definition fits_group :: "group_cfg \<Rightarrow> poll_register \<Rightarrow> read_group \<Rightarrow> bool" where
  "fits_group c r g = (pr_type r = rg_type g \<and> seg c (pr_address r) = seg c (rg_start g)
     \<and> pr_address r \<le> rg_end g + max 0 (gc_max_gap c)
     \<and> max (rg_end g) (pr_address r + reg_count r) - rg_start g \<le> MAX_READ c
     \<and> \<not> spans_illegal c (rg_end g) (pr_address r))"

definition extend_group :: "poll_register \<Rightarrow> read_group \<Rightarrow> read_group" where
  "extend_group r g = g\<lparr>rg_end := max (rg_end g) (pr_address r + reg_count r), rg_regs := rg_regs g @ [r]\<rparr>"

fun group_step :: "group_cfg \<Rightarrow> poll_register \<Rightarrow> read_group list \<times> read_group option \<Rightarrow> read_group list \<times> read_group option" where
  "group_step c r (gs, cur) =
     (if spans_illegal c (pr_address r) (pr_address r + reg_count r) then (gs, cur)
      else case cur of
          None \<Rightarrow> (gs, Some (new_group r))
        | Some g \<Rightarrow> if fits_group c r g then (gs, Some (extend_group r g)) else (gs @ [g], Some (new_group r)))"

definition read_groups :: "group_cfg \<Rightarrow> poll_register list \<Rightarrow> read_group list" where
  "read_groups c regs =
     (let (gs, cur) = fold (group_step c) (sort_key pr_address regs) ([], None)
      in gs @ (case cur of None \<Rightarrow> [] | Some g \<Rightarrow> [g]))"

section \<open>Batches are right\<close>

definition readable :: "group_cfg \<Rightarrow> poll_register \<Rightarrow> bool" where
  "readable c r = (\<not> spans_illegal c (pr_address r) (pr_address r + reg_count r))"

definition group_ok :: "group_cfg \<Rightarrow> read_group \<Rightarrow> bool" where
  "group_ok c g = (rg_regs g \<noteq> [] \<and>
     (\<forall>r \<in> set (rg_regs g). rg_start g \<le> pr_address r \<and> pr_address r + reg_count r \<le> rg_end g \<and> pr_type r = rg_type g
        \<and> seg c (pr_address r) = seg c (rg_start g)) \<and>
     (length (rg_regs g) = 1 \<or> rg_end g - rg_start g \<le> MAX_READ c) \<and>
     (\<forall>a \<in> set (gc_illegal c). \<not> (rg_start g \<le> a \<and> a < rg_end g)))"

lemma spans_illegal_iff: "spans_illegal c lo hi \<longleftrightarrow> (\<exists>a \<in> set (gc_illegal c). lo \<le> a \<and> a < hi)"
  by (auto simp: spans_illegal_def list_ex_iff)

lemma new_group_ok: "readable c r \<Longrightarrow> group_ok c (new_group r)"
  by (auto simp: group_ok_def new_group_def readable_def spans_illegal_iff)

lemma extend_group_ok:
  assumes g: "group_ok c g" and r: "readable c r" and f: "fits_group c r g" and o: "rg_start g \<le> pr_address r"
  shows "group_ok c (extend_group r g)"
proof -
  have "\<not> (rg_start g \<le> a \<and> a < max (rg_end g) (pr_address r + reg_count r))" if "a \<in> set (gc_illegal c)" for a
    using g r f that unfolding group_ok_def readable_def fits_group_def spans_illegal_iff
    by (meson less_max_iff_disj linorder_not_le)
  then show ?thesis using g f o unfolding group_ok_def extend_group_def fits_group_def by auto
qed

lemma fold_groups:
  assumes "sorted (map pr_address (regs @ rest))" "fold (group_step c) regs ([], None) = (gs, cur)"
  shows "(\<forall>g \<in> set gs. group_ok c g) \<and> (\<forall>g. cur = Some g \<longrightarrow> group_ok c g) \<and>
    concat (map rg_regs gs) @ (case cur of None \<Rightarrow> [] | Some g \<Rightarrow> rg_regs g) = filter (readable c) regs \<and>
    (\<forall>g r. cur = Some g \<longrightarrow> r \<in> set rest \<longrightarrow> rg_start g \<le> pr_address r)"
  using assms
proof (induction regs arbitrary: rest gs cur rule: rev_induct)
  case (snoc r regs)
  obtain gs1 cur1 where s: "fold (group_step c) regs ([], None) = (gs1, cur1)" by fastforce
  have sorted: "sorted (map pr_address (regs @ (r # rest)))" using snoc.prems(1) by simp
  from snoc.IH [OF sorted s] have IH: "\<forall>g \<in> set gs1. group_ok c g" "\<And>g. cur1 = Some g \<Longrightarrow> group_ok c g"
    "concat (map rg_regs gs1) @ (case cur1 of None \<Rightarrow> [] | Some g \<Rightarrow> rg_regs g) = filter (readable c) regs"
    "\<And>g q. cur1 = Some g \<Longrightarrow> q \<in> set (r # rest) \<Longrightarrow> rg_start g \<le> pr_address q" by blast+
  have st: "group_step c r (gs1, cur1) = (gs, cur)" using snoc.prems(2) s by simp
  have later: "\<And>q. q \<in> set rest \<Longrightarrow> pr_address r \<le> pr_address q" using snoc.prems(1) by (auto simp: sorted_append)
  show ?case
  proof (cases "readable c r")
    case False
    then have "gs = gs1" "cur = cur1" using st by (simp_all add: readable_def)
    then show ?thesis using IH False by auto
  next
    case rd: True
    show ?thesis
    proof (cases cur1)
      case None
      then have "gs = gs1" "cur = Some (new_group r)" using st rd by (simp_all add: readable_def)
      then show ?thesis using IH None rd new_group_ok [OF rd] later by (auto simp: new_group_def)
    next
      case (Some g)
      show ?thesis
      proof (cases "fits_group c r g")
        case True
        then have "gs = gs1" "cur = Some (extend_group r g)" using st rd Some by (simp_all add: readable_def)
        then show ?thesis
          using IH(1,3) IH(4) [OF Some] Some rd extend_group_ok [OF IH(2) [OF Some] rd True] by (auto simp: extend_group_def)
      next
        case False
        then have "gs = gs1 @ [g]" "cur = Some (new_group r)" using st rd Some by (simp_all add: readable_def)
        then show ?thesis using IH Some rd new_group_ok [OF rd] later by (auto simp: new_group_def)
      qed
    qed
  qed
qed simp

text \<open>
  C34 (functional): The batch reads are right. Every register that can be read at all is in exactly one batch, in
  the order of the addresses; a batch covers each of its registers, holds one table and one
  setup range, stays within one legal read unless it is a single register, and never touches an
  address the device rejects.
\<close>

theorem read_groups_right:
  "concat (map rg_regs (read_groups c regs)) = filter (readable c) (sort_key pr_address regs)
   \<and> list_all (group_ok c) (read_groups c regs)"
proof -
  obtain gs cur where f: "fold (group_step c) (sort_key pr_address regs) ([], None) = (gs, cur)" by fastforce
  have "sorted (map pr_address (sort_key pr_address regs @ []))" by simp
  from fold_groups [OF this f] show ?thesis
    by (cases cur) (auto simp: read_groups_def f list_all_iff)
qed

definition voltage_reg :: "int \<Rightarrow> poll_register" where
  "voltage_reg a = \<lparr>pr_address = a, pr_type = ''holding'', pr_data_type = ''uint16'', pr_name = ''u''\<rparr>"

text \<open>
  But a batch may bridge the gap over a range that exists only once a setup step is written:
  only the two ends are compared, not what lies between. Until the setup is written the device
  refuses the whole read, and both registers it always answers are lost.
\<close>

theorem batch_bridges_setup_range:
  "read_groups \<lparr>gc_max_read = 0, gc_max_gap = 10, gc_illegal = [], gc_ranges = [(12, 13)]\<rparr> [voltage_reg 10, voltage_reg 15]
     = [\<lparr>rg_start = 10, rg_end = 16, rg_type = ''holding'', rg_regs = [voltage_reg 10, voltage_reg 15]\<rparr>]"
  by code_simp

section \<open>The meter measures the time the wire was held\<close>

datatype meter_op = Held rat rat | Missed rat

fun op_at :: "meter_op \<Rightarrow> rat" where
  "op_at (Held h t) = t"
| "op_at (Missed t) = t"

fun meter_do :: "meter_op \<Rightarrow> wire_meter \<Rightarrow> wire_meter" where
  "meter_do (Held h t) m = meter_add h t m"
| "meter_do (Missed t) m = meter_miss t m"

definition meter_run :: "meter_op list \<Rightarrow> rat \<Rightarrow> wire_meter" where
  "meter_run ops born = fold meter_do ops (meter_init born)"

fun transactions :: "meter_op list \<Rightarrow> (rat \<times> rat) list" where
  "transactions [] = []"
| "transactions (Held h t # ops) = (t, h) # transactions ops"
| "transactions (Missed t # ops) = transactions ops"

text \<open>One transaction at a time holds the wire, the first after the meter was made.\<close>

fun one_at_a_time :: "rat \<Rightarrow> (rat \<times> rat) list \<Rightarrow> bool" where
  "one_at_a_time b [] = True"
| "one_at_a_time b ((t, h) # xs) = (0 \<le> h \<and> b \<le> t - h \<and> one_at_a_time t xs)"

text \<open>How long a transaction held the wire after the instant \<open>s\<close>.\<close>

definition held_after :: "rat \<Rightarrow> rat \<times> rat \<Rightarrow> rat" where
  "held_after s p = max 0 (fst p - max (fst p - snd p) s)"

definition busy_after :: "rat \<Rightarrow> (rat \<times> rat) list \<Rightarrow> rat" where
  "busy_after s xs = sum_list (map (held_after s) xs)"

lemma busy_after_simps [simp]: "busy_after s [] = 0" "busy_after s (p # xs) = held_after s p + busy_after s xs"
  "busy_after s (xs @ ys) = busy_after s xs + busy_after s ys"
  by (simp_all add: busy_after_def)

lemma trim_held_split:
  "trim_held start xs b = (dropWhile (\<lambda>p. fst p < start) xs, b - sum_list (map snd (takeWhile (\<lambda>p. fst p < start) xs)))"
  by (induction start xs b rule: trim_held.induct) simp_all

definition meter_ok :: "rat \<Rightarrow> (rat \<times> rat) list \<Rightarrow> wire_meter \<Rightarrow> bool" where
  "meter_ok t xs m = ((\<exists>old. xs = old @ wm_held m \<and> (\<forall>p \<in> set old. fst p < t - BUSY_WINDOW_S)) \<and>
     wm_sum m = sum_list (map snd (wm_held m)))"

lemma meter_ok_later: "meter_ok t xs m \<Longrightarrow> t \<le> now \<Longrightarrow> meter_ok now xs m"
proof -
  assume a: "meter_ok t xs m" "t \<le> now"
  then obtain old where o: "xs = old @ wm_held m" "\<forall>p \<in> set old. fst p < t - BUSY_WINDOW_S"
    and "wm_sum m = sum_list (map snd (wm_held m))" unfolding meter_ok_def by blast
  moreover have "\<forall>p \<in> set old. fst p < now - BUSY_WINDOW_S"
  proof
    fix p assume "p \<in> set old"
    then have "fst p < t - BUSY_WINDOW_S" using o(2) by blast
    then show "fst p < now - BUSY_WINDOW_S" using a(2) by linarith
  qed
  ultimately show "meter_ok now xs m" unfolding meter_ok_def by blast
qed

lemma meter_trim_ok:
  assumes "meter_ok now xs m"
  shows "meter_ok now xs (meter_trim now m)"
proof -
  let ?P = "\<lambda>p :: rat \<times> rat. fst p < now - BUSY_WINDOW_S"
  from assms obtain old where o: "xs = old @ wm_held m" "\<forall>p \<in> set old. ?P p" and s: "wm_sum m = sum_list (map snd (wm_held m))"
    unfolding meter_ok_def by blast
  have "xs = (old @ takeWhile ?P (wm_held m)) @ dropWhile ?P (wm_held m)" using o(1) by simp
  moreover have "\<forall>p \<in> set (old @ takeWhile ?P (wm_held m)). ?P p" using o(2) by (auto dest: set_takeWhileD)
  moreover have "sum_list (map snd (wm_held m)) =
      sum_list (map snd (takeWhile ?P (wm_held m))) + sum_list (map snd (dropWhile ?P (wm_held m)))"
    by (metis map_append sum_list_append takeWhile_dropWhile_id)
  moreover have "wm_held (meter_trim now m) = dropWhile ?P (wm_held m)"
    "wm_sum (meter_trim now m) = wm_sum m - sum_list (map snd (takeWhile ?P (wm_held m)))"
    by (simp_all add: meter_trim_def Let_def trim_held_split)
  ultimately show ?thesis unfolding meter_ok_def s by (metis add_diff_cancel_left')
qed

lemma meter_run_ok:
  "sorted (map op_at ops) \<Longrightarrow> \<forall>p \<in> set ops. op_at p \<le> t \<Longrightarrow> meter_ok t (transactions ops) (meter_run ops born)"
proof (induction ops arbitrary: t rule: rev_induct)
  case Nil
  then show ?case by (simp add: meter_run_def meter_init_def meter_ok_def)
next
  case (snoc p ops)
  have app: "transactions (ops @ qs) = transactions ops @ transactions qs" for qs
    by (induction ops rule: transactions.induct) simp_all
  have IH: "meter_ok (op_at p) (transactions ops) (meter_run ops born)"
    using snoc.prems by (intro snoc.IH) (auto simp: sorted_append)
  have run: "meter_run (ops @ [p]) born = meter_do p (meter_run ops born)" by (simp add: meter_run_def)
  have "meter_ok (op_at p) (transactions (ops @ [p])) (meter_run (ops @ [p]) born)"
  proof (cases p)
    case (Held h u)
    have "meter_ok u (transactions ops @ [(u, h)])
        ((meter_run ops born)\<lparr>wm_held := wm_held (meter_run ops born) @ [(u, h)], wm_sum := wm_sum (meter_run ops born) + h\<rparr>)"
      using IH Held unfolding meter_ok_def by auto
    then show ?thesis unfolding run [unfolded Held] Held by (simp add: app meter_add_def meter_trim_ok)
  next
    case (Missed u)
    have "meter_ok u (transactions ops) ((meter_run ops born)\<lparr>wm_missed := wm_missed (meter_run ops born) @ [u]\<rparr>)"
      using IH Missed unfolding meter_ok_def by auto
    then show ?thesis unfolding run [unfolded Missed] Missed by (simp add: app meter_miss_def meter_trim_ok)
  qed
  moreover have "op_at p \<le> t" using snoc.prems(2) by simp
  ultimately show ?case by (rule meter_ok_later)
qed

lemma one_at_a_time_append: "one_at_a_time b (xs @ ys) \<Longrightarrow> \<exists>c \<ge> b. one_at_a_time c ys"
proof (induction xs arbitrary: b)
  case (Cons p xs)
  obtain t h where p: "p = (t, h)" by (cases p)
  have "b \<le> t" using Cons.prems p by simp
  moreover obtain c where "t \<le> c" "one_at_a_time c ys" using Cons.IH [of t] Cons.prems p by auto
  ultimately show ?case by (intro exI [of _ c]) simp
qed auto

lemma one_at_a_time_ends: "one_at_a_time b xs \<Longrightarrow> p \<in> set xs \<Longrightarrow> b \<le> fst p"
proof (induction xs arbitrary: b)
  case (Cons q xs)
  obtain t h where q: "q = (t, h)" by (cases q)
  have "b \<le> t" using Cons.prems q by simp
  then show ?case using Cons.IH [of t] Cons.prems q by (auto intro: order_trans)
qed simp

lemma busy_full: "one_at_a_time b xs \<Longrightarrow> s \<le> b \<Longrightarrow> busy_after s xs = sum_list (map snd xs)"
proof (induction xs arbitrary: b)
  case (Cons p xs)
  obtain t h where p: "p = (t, h)" by (cases p)
  then have "0 \<le> h" "s \<le> t - h" "s \<le> t" "one_at_a_time t xs" using Cons.prems by auto
  then show ?case using Cons.IH [of t] p by (simp add: held_after_def)
qed simp

lemma busy_at_most: "one_at_a_time b xs \<Longrightarrow> \<forall>p \<in> set xs. fst p \<le> T \<Longrightarrow> s \<le> T \<Longrightarrow> b \<le> T \<Longrightarrow> busy_after s xs \<le> T - max b s"
proof (induction xs arbitrary: b)
  case (Cons p xs)
  obtain t h where p: "p = (t, h)" by (cases p)
  then have c: "0 \<le> h" "b \<le> t - h" "one_at_a_time t xs" "t \<le> T" using Cons.prems by auto
  have "busy_after s xs \<le> T - max t s" using Cons c by (intro Cons.IH) auto
  moreover have "held_after s p \<le> max t s - max b s" using c p by (auto simp: held_after_def)
  ultimately show ?case by simp
qed simp

text \<open>
  The occupancy of a wire is what it was held. When the transactions of a wire follow one
  another, what the meter says at any moment is exactly the time they held the wire within the
  window it names (the part of the oldest one before the window left out), so a wire is never
  more than a hundred percent busy.
\<close>

theorem meter_measures_held_time:
  assumes "sorted (map op_at ops)" and "\<forall>p \<in> set ops. op_at p \<le> now" and "one_at_a_time born (transactions ops)"
    and "fst (meter_snapshot now (meter_run ops born)) = Some oc"
  shows "oc_busy oc = busy_after (now - oc_window oc) (transactions ops) \<and> oc_busy oc \<le> oc_window oc"
proof -
  let ?m = "meter_trim now (meter_run ops born)" and ?xs = "transactions ops"
  have ok: "meter_ok now ?xs ?m" by (rule meter_trim_ok [OF meter_run_ok [OF assms(1,2)]])
  have b0: "wm_born (meter_run ops born) = born"
  proof -
    have "wm_born (meter_do p m) = wm_born m" for p m
      by (cases p) (simp_all add: meter_add_def meter_miss_def meter_trim_def Let_def case_prod_beta)
    then have "wm_born (fold meter_do ops m) = wm_born m" for m by (induction ops arbitrary: m) simp_all
    then show ?thesis by (simp add: meter_run_def meter_init_def)
  qed
  then have born: "wm_born ?m = born" by (simp add: meter_trim_def Let_def case_prod_beta)
  let ?w = "min BUSY_WINDOW_S (now - born)"
  define s where "s = now - ?w"
  from ok obtain old where o: "?xs = old @ wm_held ?m" "\<forall>p \<in> set old. fst p < now - BUSY_WINDOW_S"
    and sm: "wm_sum ?m = sum_list (map snd (wm_held ?m))" unfolding meter_ok_def by blast
  have s1: "now - BUSY_WINDOW_S \<le> s" "born \<le> s" "s \<le> now"
    using assms(4) born by (auto simp: s_def meter_snapshot_def Let_def BUSY_MIN_S_def split: if_splits)
  have old0: "busy_after s old = 0"
    using o(2) s1(1)
  proof (induction old)
    case (Cons p old)
    then have "fst p < s" by auto
    then have "held_after s p = 0" by (simp add: held_after_def max_def)
    then show ?case using Cons by simp
  qed simp
  have s2: "s = born \<or> s = now - BUSY_WINDOW_S" by (auto simp: s_def min_def)
  obtain c where c: "born \<le> c" "one_at_a_time c (wm_held ?m)" using one_at_a_time_append [of born old] assms(3) o(1) by auto
  have held: "\<forall>p \<in> set (wm_held ?m). fst p \<le> now"
  proof -
    have "fst p \<le> now" if "p \<in> set (transactions ps)" "\<forall>q \<in> set ps. op_at q \<le> now" for p ps
      using that by (induction ps rule: transactions.induct) auto
    then show ?thesis using o(1) assms(2) by (metis UnCI set_append)
  qed
  have first: "p = hd (wm_held ?m) \<Longrightarrow> wm_held ?m \<noteq> [] \<Longrightarrow> s \<le> fst p" for p
  proof -
    assume p: "p = hd (wm_held ?m)" "wm_held ?m \<noteq> []"
    have "\<not> fst p < now - BUSY_WINDOW_S"
      using p hd_dropWhile [of "\<lambda>p :: rat \<times> rat. fst p < now - BUSY_WINDOW_S"]
      by (auto simp: meter_trim_def Let_def trim_held_split)
    moreover have "born \<le> fst p" using one_at_a_time_ends [OF c(2), of p] p c(1) by (auto intro: order_trans)
    ultimately show "s \<le> fst p" using s2 by auto
  qed
  have busy: "busy_after s (wm_held ?m) = (case wm_held ?m of [] \<Rightarrow> wm_sum ?m | (t, h) # _ \<Rightarrow> wm_sum ?m - max 0 (s - (t - h)))"
  proof (cases "wm_held ?m")
    case (Cons p ys)
    obtain t h where p: "p = (t, h)" by (cases p)
    have t: "s \<le> t" using first [of p] Cons p by simp
    have "one_at_a_time t ys" "0 \<le> h" using c(2) Cons p by auto
    then have "busy_after s ys = sum_list (map snd ys)" using t by (intro busy_full)
    then show ?thesis using Cons p t \<open>0 \<le> h\<close> sm by (auto simp: held_after_def max_def)
  qed (simp add: sm)
  have nn: "0 \<le> busy_after s zs" for zs by (induction zs) (auto simp: held_after_def)
  have "fst (meter_snapshot now (meter_run ops born)) = (if ?w < BUSY_MIN_S then None
      else Some \<lparr>oc_busy = max 0 (busy_after s (wm_held ?m)), oc_window = ?w, oc_missed = length (wm_missed ?m)\<rparr>)"
    unfolding meter_snapshot_def Let_def born s_def [symmetric] busy [symmetric] by simp
  then have oc: "oc_window oc = ?w" "oc_busy oc = busy_after s (wm_held ?m)"
    using assms(4) nn by (auto simp: max_absorb2 split: if_splits)
  have "busy_after s (wm_held ?m) = busy_after s ?xs" using o(1) old0 by simp
  moreover have "busy_after s (wm_held ?m) \<le> ?w"
  proof (cases "wm_held ?m")
    case (Cons p ys)
    then have "c \<le> now" using one_at_a_time_ends [OF c(2), of p] held by (auto intro: order_trans)
    then have "busy_after s (wm_held ?m) \<le> now - max c s" using busy_at_most [OF c(2) held s1(3)] by simp
    moreover have "now - max c s \<le> now - s" by (rule diff_left_mono) (rule max.cobounded2)
    moreover have "?w = now - s" by (simp add: s_def)
    ultimately show ?thesis by linarith
  qed (use s1 s_def in simp)
  ultimately show ?thesis using oc s_def by simp
qed

theorem meter_measures_held_time_witness:
  "\<exists>oc. fst (meter_snapshot 70 (meter_run [Held 4 12, Missed 20, Held 10 50] 0)) = Some oc \<and> oc_busy oc = 12 \<and> oc_busy oc \<le> oc_window oc"
proof -
  let ?ops = "[Held 4 12, Missed 20, Held 10 50]"
  have e: "fst (meter_snapshot 70 (meter_run ?ops 0)) = Some \<lparr>oc_busy = 12, oc_window = 60, oc_missed = 1\<rparr>"
    by (simp add: meter_snapshot_def meter_run_def meter_add_def meter_miss_def meter_trim_def meter_init_def
        BUSY_WINDOW_S_def BUSY_MIN_S_def Let_def)
  from meter_measures_held_time [OF _ _ _ e] e show ?thesis by simp
qed

section \<open>Turns in the order asked\<close>

text \<open>
  The endpoint with what has happened at it: who joined (each with a ticket of its own), who got
  a turn, who gave up, and when the wire was last given back.
\<close>

inductive ep_run :: "rat \<Rightarrow> endpoint \<Rightarrow> nat list \<Rightarrow> nat list \<Rightarrow> nat set \<Rightarrow> rat option \<Rightarrow> bool" for gap where
  start: "ep_run gap (endpoint_init gap t) [] [] {} None"
| joined: "ep_run gap e js gs us rel \<Longrightarrow> me \<notin> set js \<Longrightarrow> ep_run gap (ep_join me e) (js @ [me]) gs us rel"
| entered: "ep_run gap e js gs us rel \<Longrightarrow> ep_ready me now e \<Longrightarrow> ep_run gap (ep_enter waited e) js (gs @ [me]) us rel"
| gave_up: "ep_run gap e js gs us rel \<Longrightarrow> me \<in> set (ep_waiting e) \<Longrightarrow> ep_run gap (ep_give_up me now e) js gs (insert me us) rel"
| released: "ep_run gap e js gs us rel \<Longrightarrow> ep_busy e \<Longrightarrow> ep_run gap (ep_release held now e) js gs us (Some now)"

lemma ep_simps [simp]:
  "ep_waiting (ep_release h now e) = ep_waiting e" "ep_turns (ep_release h now e) = ep_turns e" "ep_min_gap (ep_release h now e) = ep_min_gap e"
  "ep_free_at (ep_release h now e) = (if 0 < ep_min_gap e then now + ep_min_gap e else ep_free_at e)"
  by (simp_all add: ep_release_def Let_def split: option.split)

lemma ep_run_inv:
  "ep_run gap e js gs us rel \<Longrightarrow>
   gs @ ep_waiting e = filter (\<lambda>m. m \<notin> us) js \<and> distinct js \<and> us \<subseteq> set js \<and> ep_turns e = int (length gs) \<and>
   ep_min_gap e = gap \<and> (\<forall>r. rel = Some r \<longrightarrow> 0 < gap \<longrightarrow> ep_free_at e = r + gap)"
proof (induction rule: ep_run.induct)
  case (start t)
  then show ?case by (simp add: endpoint_init_def)
next
  case (joined e js gs us rel me)
  then show ?case by (auto simp: ep_join_def)
next
  case (entered e js gs us rel me now waited)
  then have "gs @ [me] @ tl (ep_waiting e) = gs @ ep_waiting e" by (simp add: ep_ready_def) (metis list.collapse)
  then show ?case using entered by (simp add: ep_enter_def)
next
  case (gave_up e js gs us rel me now)
  have d: "distinct (gs @ ep_waiting e)" using gave_up.IH by simp
  have "filter (\<lambda>m. me \<noteq> m) gs = gs" by (rule filter_True) (use d gave_up.hyps(2) in auto)
  moreover have "remove1 me (ep_waiting e) = filter (\<lambda>m. me \<noteq> m) (ep_waiting e)"
    using d by (simp add: distinct_remove1_removeAll removeAll_filter_not_eq)
  ultimately have "gs @ remove1 me (ep_waiting e) = filter (\<lambda>m. me \<noteq> m) (gs @ ep_waiting e)" by simp
  also have "\<dots> = filter (\<lambda>m. m \<notin> insert me us) js"
    using gave_up.IH by (auto intro!: filter_cong)
  finally have "gs @ remove1 me (ep_waiting e) = filter (\<lambda>m. m \<notin> insert me us) js" .
  moreover have "me \<in> set js" using gave_up.IH gave_up.hyps(2) by (metis UnCI filter_is_subset set_append subsetD)
  ultimately show ?case using gave_up.IH by (simp add: ep_give_up_def)
next
  case (released e js gs us rel held now)
  then show ?case by simp
qed

text \<open>
  C33 (safety): Everyone gets a turn in the order asked. The turns given and the queue that waits are exactly
  the callers in the order they came, less those who gave up; and after the wire is given back
  nobody's turn begins before the endpoint's cooldown is over.
\<close>

theorem turns_in_order:
  assumes "ep_run gap e js gs us rel"
  shows "gs @ ep_waiting e = filter (\<lambda>m. m \<notin> us) js \<and> ep_turns e = int (length gs) \<and>
    (\<forall>me now r. ep_ready me now e \<longrightarrow> rel = Some r \<longrightarrow> 0 < gap \<longrightarrow> r + gap \<le> now)"
  using ep_run_inv [OF assms] by (auto simp: ep_ready_def)

theorem turns_in_order_witness:
  "\<not> ep_ready 8 3 (ep_release None 2 (ep_enter 0 (ep_join 8 (ep_join 7 (endpoint_init 2 0)))))"
proof -
  have "ep_run 2 (ep_join 8 (ep_join 7 (endpoint_init 2 0))) ([] @ [7] @ [8]) [] {} None"
    using ep_run.joined [OF ep_run.joined [OF ep_run.start [of 2 0], of 7], of 8] by simp
  from ep_run.entered [OF this, of 7 0 0]
  have "ep_run 2 (ep_enter 0 (ep_join 8 (ep_join 7 (endpoint_init 2 0)))) [7, 8] [7] {} None"
    by (simp add: ep_ready_def ep_join_def endpoint_init_def)
  from ep_run.released [OF this, of None 2]
  have "ep_run 2 (ep_release None 2 (ep_enter 0 (ep_join 8 (ep_join 7 (endpoint_init 2 0))))) [7, 8] [7] {} (Some 2)"
    by (simp add: ep_enter_def)
  from turns_in_order [OF this] show ?thesis by fastforce
qed

end
