(* ===== verification/BusClaims.thy ===== *)
theory BusClaims
  imports Prelude
begin

text \<open>
  Who listens on a bus and who transmits on it (\<open>bus_claims.py\<close>), with \<open>template_listens\<close> of
  \<open>device_template.py\<close> and the protocol lists of \<open>config.py\<close>. What the operating system says of a
  path (\<open>os.stat\<close>, \<open>os.path.realpath\<close>) is an argument. The sentences shown to people
  (\<open>where_of\<close>, \<open>refusal\<close>) are left out: a conflict carries the ids they would name.
\<close>

section \<open>Protocols\<close>

definition SERIAL_PROTOCOLS :: "string list" where "SERIAL_PROTOCOLS = [''rtu'', ''ascii'']"

definition NETWORK_PROTOCOLS :: "string list" where
  "NETWORK_PROTOCOLS = [''tcp'', ''udp'', ''rtu-tcp'', ''ascii-tcp'']"

definition MODBUS_PROTOCOLS :: "string list" where
  "MODBUS_PROTOCOLS = NETWORK_PROTOCOLS @ SERIAL_PROTOCOLS @ [''rtu_tap'']"

definition VIRTUAL_MAP_SERIAL :: "string list" where "VIRTUAL_MAP_SERIAL = [''seplos_v2'']"

definition VIRTUAL_MAP_PROTOCOLS :: "string list" where
  "VIRTUAL_MAP_PROTOCOLS = VIRTUAL_MAP_SERIAL @ [''seplos_v2-tcp'']"

definition CAN_PROTOCOLS :: "string list" where "CAN_PROTOCOLS = [''can'']"

definition SERIAL_LINE :: "string list" where
  "SERIAL_LINE = SERIAL_PROTOCOLS @ [''rtu_tap''] @ VIRTUAL_MAP_SERIAL"

definition NO_BUS :: "string list" where "NO_BUS = [''http'', ''mqtt'', ''none''] @ CAN_PROTOCOLS"

definition TAPPED_ON_STANDBY :: "string list" where "TAPPED_ON_STANDBY = [''rtu'', ''rtu-tcp'']"

lemmas protocol_lists = SERIAL_PROTOCOLS_def NETWORK_PROTOCOLS_def MODBUS_PROTOCOLS_def VIRTUAL_MAP_SERIAL_def
  VIRTUAL_MAP_PROTOCOLS_def CAN_PROTOCOLS_def SERIAL_LINE_def NO_BUS_def TAPPED_ON_STANDBY_def

section \<open>The bus of a connection\<close>

datatype path_stat = NoSuchPath | CharDevice nat nat | OtherFile string

record connection =
  cn_serial_port :: string
  cn_host :: string
  cn_port :: pyval
  cn_mode :: string

definition canonical_serial :: "(string \<Rightarrow> path_stat) \<Rightarrow> string \<Rightarrow> string" where
  "canonical_serial stat path =
     (let sp = py_strip path
      in if sp = [] then []
         else case stat sp of
             NoSuchPath \<Rightarrow> sp
           | CharDevice major minor \<Rightarrow> ''chr:'' @ nat_str major @ '':'' @ nat_str minor
           | OtherFile target \<Rightarrow> target)"

definition port_of :: "pyval \<Rightarrow> int" where
  "port_of v = (if truthy v then (case py_int v of Some n \<Rightarrow> n | None \<Rightarrow> 0) else 0)"

definition bus_of :: "(string \<Rightarrow> path_stat) \<Rightarrow> string \<Rightarrow> connection \<Rightarrow> string" where
  "bus_of stat protocol conn =
     (let p = py_lower protocol
      in if p \<in> set NO_BUS then []
         else if p \<in> set SERIAL_LINE \<and> py_strip (cn_serial_port conn) \<noteq> [] then canonical_serial stat (cn_serial_port conn)
         else let host = py_lower (py_strip (cn_host conn))
              in if host = [] then [] else host @ '':'' @ int_str (port_of (cn_port conn)))"

section \<open>Who claims it\<close>

text \<open>The \<open>protocol\<close> block of a template: whether \<open>listen_only\<close> is exactly true, and its transports.\<close>

record map_template =
  mt_listen_only :: bool
  mt_transports :: "string list"

definition template_listens :: "map_template \<Rightarrow> bool" where
  "template_listens t = (mt_listen_only t \<or>
     (let transports = map py_lower (mt_transports t) in transports \<noteq> [] \<and> list_all (\<lambda>x. x = ''rtu_tap'') transports))"

definition listens_on :: "string \<Rightarrow> connection \<Rightarrow> map_template option \<Rightarrow> bool \<Rightarrow> bool" where
  "listens_on protocol conn tpl standby =
     (let p = py_lower protocol
      in if p = ''rtu_tap'' \<or> standby \<and> p \<in> set TAPPED_ON_STANDBY then True
         else if p \<in> set VIRTUAL_MAP_PROTOCOLS \<and> py_lower (if cn_mode conn = [] then ''poll'' else cn_mode conn) = ''listen'' then True
         else case tpl of
             None \<Rightarrow> False
           | Some t \<Rightarrow> if p \<in> set (MODBUS_PROTOCOLS @ VIRTUAL_MAP_PROTOCOLS) then template_listens t else False)"

record bus_source =
  bs_protocol :: string
  bs_connection :: connection
  bs_template :: string
  bs_enabled :: bool

record bus_device =
  bd_id :: string
  bd_enabled :: bool
  bd_protocol :: string
  bd_connection :: connection
  bd_template :: string
  bd_sources :: "bus_source list"

definition sources_of :: "bus_device \<Rightarrow> (nat \<times> string \<times> connection \<times> string) list" where
  "sources_of dev =
     (if bd_sources dev \<noteq> []
      then map (\<lambda>(i, s). (i, bs_protocol s, bs_connection s, if bs_template s = [] then bd_template dev else bs_template s))
             (filter (\<lambda>(i, s). bs_enabled s) (enumerate 0 (bd_sources dev)))
      else [(0, bd_protocol dev, bd_connection dev, bd_template dev)])"

definition tpl_of :: "(string, map_template) dict option \<Rightarrow> string \<Rightarrow> map_template option" where
  "tpl_of templates tid = (case templates of Some ts \<Rightarrow> if tid = [] then None else dict_get ts tid | None \<Rightarrow> None)"

definition source_claims :: "(string \<Rightarrow> path_stat) \<Rightarrow> (string, map_template) dict option \<Rightarrow> bool \<Rightarrow> bus_device
    \<Rightarrow> (nat \<times> string \<times> bool) list" where
  "source_claims stat templates standby dev =
     map (\<lambda>(i, proto, conn, tid). (i, bus_of stat proto conn, listens_on proto conn (tpl_of templates tid) standby))
       (filter (\<lambda>(i, proto, conn, tid). bus_of stat proto conn \<noteq> []) (sources_of dev))"

definition claims_bus :: "(string \<Rightarrow> path_stat) \<Rightarrow> (string, map_template) dict option \<Rightarrow> bool \<Rightarrow> string \<Rightarrow> bool \<Rightarrow> bus_device \<Rightarrow> bool" where
  "claims_bus stat templates standby bus listening dev =
     list_ex (\<lambda>(i, b, lis). b = bus \<and> lis = listening) (source_claims stat templates standby dev)"

definition holders :: "(string \<Rightarrow> path_stat) \<Rightarrow> bus_device list \<Rightarrow> string \<Rightarrow> (string, map_template) dict option \<Rightarrow> string list
    \<Rightarrow> bool \<Rightarrow> bool \<Rightarrow> string list" where
  "holders stat devices bus templates exclude listening standby =
     (if bus = [] then []
      else fold (\<lambda>dev out. if \<not> bd_enabled dev \<or> bd_id dev \<in> set exclude \<or> bd_id dev \<in> set out then out
                           else if claims_bus stat templates standby bus listening dev then out @ [bd_id dev] else out)
             devices [])"

definition listeners :: "(string \<Rightarrow> path_stat) \<Rightarrow> bus_device list \<Rightarrow> string \<Rightarrow> (string, map_template) dict option \<Rightarrow> string list
    \<Rightarrow> bool \<Rightarrow> string list" where
  "listeners stat devices bus templates exclude standby = holders stat devices bus templates exclude True standby"

definition pollers :: "(string \<Rightarrow> path_stat) \<Rightarrow> bus_device list \<Rightarrow> string \<Rightarrow> (string, map_template) dict option \<Rightarrow> string list \<Rightarrow> string list" where
  "pollers stat devices bus templates exclude = holders stat devices bus templates exclude False False"

section \<open>A save\<close>

record conflict =
  cf_device :: bus_device
  cf_source :: nat
  cf_polled :: bool
  cf_ids :: "string list"

definition source_conflict :: "(string \<Rightarrow> path_stat) \<Rightarrow> bus_device list \<Rightarrow> (string, map_template) dict option \<Rightarrow> string list
    \<Rightarrow> bus_device \<Rightarrow> nat \<times> string \<times> bool \<Rightarrow> conflict list" where
  "source_conflict stat devices templates exclude dev c =
     (case c of (i, bus, listening) \<Rightarrow>
        let ids = (if listening then pollers stat devices bus templates exclude
                   else listeners stat devices bus templates exclude False)
        in if ids = [] then [] else [\<lparr>cf_device = dev, cf_source = i, cf_polled = listening, cf_ids = ids\<rparr>])"

definition save_conflicts :: "(string \<Rightarrow> path_stat) \<Rightarrow> bus_device list \<Rightarrow> bus_device list \<Rightarrow> (string, map_template) dict option
    \<Rightarrow> string list \<Rightarrow> conflict list" where
  "save_conflicts stat devices built templates exclude =
     concat (map (\<lambda>dev. concat (map (source_conflict stat devices templates exclude dev) (source_claims stat templates False dev))) built)"

section \<open>Each holder once, in order\<close>

definition holds_bus :: "(string \<Rightarrow> path_stat) \<Rightarrow> (string, map_template) dict option \<Rightarrow> string list \<Rightarrow> bool \<Rightarrow> string \<Rightarrow> bool \<Rightarrow> bus_device \<Rightarrow> bool" where
  "holds_bus stat templates exclude standby bus listening dev =
     (bd_enabled dev \<and> bd_id dev \<notin> set exclude \<and> claims_bus stat templates standby bus listening dev)"

lemma holders_fold:
  "fold (\<lambda>dev out. if \<not> bd_enabled dev \<or> bd_id dev \<in> set exclude \<or> bd_id dev \<in> set out then out
                   else if claims_bus stat templates standby bus listening dev then out @ [bd_id dev] else out) devices []
   = first_seen (map bd_id (filter (holds_bus stat templates exclude standby bus listening) devices))"
proof (induction devices rule: rev_induct)
  case Nil
  then show ?case by (simp add: first_seen_def)
next
  case (snoc dev devices)
  then show ?case by (simp add: first_seen_snoc holds_bus_def)
qed

lemma holders_seen:
  "bus \<noteq> [] \<Longrightarrow> holders stat devices bus templates exclude listening standby
     = first_seen (map bd_id (filter (holds_bus stat templates exclude standby bus listening) devices))"
  by (simp only: holders_def holders_fold if_False)

lemma holders_empty:
  "bus \<noteq> [] \<Longrightarrow> holders stat devices bus templates exclude listening standby = [] \<longleftrightarrow>
     (\<forall>dev\<in>set devices. \<not> holds_bus stat templates exclude standby bus listening dev)"
  using set_first_seen [of "map bd_id (filter (holds_bus stat templates exclude standby bus listening) devices)"]
  by (auto simp: holders_seen filter_empty_conv simp flip: set_empty simp del: set_first_seen)

text \<open>
  The question a test, a scan or a save asks of a bus has a complete answer. \<open>listeners\<close> names
  exactly the enabled devices, other than those excluded, one of whose sources listens on the
  bus, each once and in the order of the configuration.
\<close>

theorem listeners_complete:
  assumes "bus \<noteq> []"
  shows "listeners stat devices bus templates exclude standby
    = first_seen (map bd_id (filter (\<lambda>dev. bd_enabled dev \<and> bd_id dev \<notin> set exclude \<and>
        (\<exists>i. (i, bus, True) \<in> set (source_claims stat templates standby dev))) devices))"
proof -
  have "holds_bus stat templates exclude standby bus True = (\<lambda>dev. bd_enabled dev \<and> bd_id dev \<notin> set exclude \<and>
      (\<exists>i. (i, bus, True) \<in> set (source_claims stat templates standby dev)))"
    by (rule ext) (auto simp: holds_bus_def claims_bus_def list_ex_iff)
  then show ?thesis using assms by (simp add: listeners_def holders_seen)
qed

definition line_a :: connection where
  "line_a = \<lparr>cn_serial_port = ''/dev/ttyA'', cn_host = [], cn_port = VNone, cn_mode = []\<rparr>"

definition one_line :: "string \<Rightarrow> string \<Rightarrow> bus_device" where
  "one_line i p = \<lparr>bd_id = i, bd_enabled = True, bd_protocol = p, bd_connection = line_a, bd_template = [], bd_sources = []\<rparr>"

lemmas line_eval = one_line_def line_a_def source_claims_def sources_of_def bus_of_def listens_on_def canonical_serial_def
  protocol_lists tpl_of_def py_lower_def lower_char_def py_strip_def py_lstrip_def is_space_def claims_bus_def

lemma numbers_4_7 [simp]: "nat_str 4 = ''4''" "nat_str 7 = ''7''"
  by code_simp+

lemma one_line_claims [simp]:
  "source_claims (\<lambda>_. CharDevice 4 7) None standby (one_line d ''rtu'') = [(0, ''chr:4:7'', standby)]"
  "source_claims (\<lambda>_. CharDevice 4 7) None standby (one_line d ''ascii'') = [(0, ''chr:4:7'', False)]"
  "source_claims (\<lambda>_. CharDevice 4 7) None standby (one_line d ''rtu_tap'') = [(0, ''chr:4:7'', True)]"
  "bd_id (one_line d p) = d" "bd_enabled (one_line d p)"
  by (simp_all add: line_eval)

theorem listeners_complete_witness:
  "listeners (\<lambda>_. CharDevice 4 7) [one_line ''m'' ''rtu'', one_line ''t'' ''rtu_tap''] ''chr:4:7'' None [] False = [''t'']"
  by (subst listeners_complete) (simp_all add: first_seen_def)

section \<open>A bus is polled or listened to\<close>

definition claims :: "(string \<Rightarrow> path_stat) \<Rightarrow> (string, map_template) dict option \<Rightarrow> string \<Rightarrow> bool \<Rightarrow> bus_device \<Rightarrow> bool" where
  "claims stat templates bus listening dev = (bd_enabled dev \<and> claims_bus stat templates False bus listening dev)"

definition buses_apart :: "(string \<Rightarrow> path_stat) \<Rightarrow> (string, map_template) dict option \<Rightarrow> bus_device list \<Rightarrow> bool" where
  "buses_apart stat templates devices =
     (\<forall>a\<in>set devices. \<forall>b\<in>set devices. \<forall>bus. \<not> (claims stat templates bus True a \<and> claims stat templates bus False b))"

lemma claimed_named: "claims_bus stat templates standby bus listening dev \<Longrightarrow> bus \<noteq> []"
  by (auto simp: claims_bus_def list_ex_iff source_claims_def)

lemma no_conflict_other:
  assumes "save_conflicts stat devices built templates exclude = []" "a \<in> set built" "claims_bus stat templates False bus listening a"
  shows "\<forall>b\<in>set devices. \<not> holds_bus stat templates exclude False bus (\<not> listening) b"
proof -
  obtain i where i: "(i, bus, listening) \<in> set (source_claims stat templates False a)"
    using assms(3) by (auto simp: claims_bus_def list_ex_iff)
  then have "source_conflict stat devices templates exclude a (i, bus, listening) = []"
    using assms(1,2) by (fastforce simp: save_conflicts_def)
  then show ?thesis using holders_empty [OF claimed_named [OF assms(3)]]
    by (auto simp: source_conflict_def Let_def pollers_def listeners_def split: if_splits)
qed

text \<open>
  C31 (invariant): A save that is let through never makes a bus both polled and listened to. When no bus of the
  configuration is held both ways, nor any among the devices being saved themselves, then none
  is after they have taken the place of the excluded ones.
\<close>

theorem save_keeps_buses_apart:
  assumes "buses_apart stat templates devices" "buses_apart stat templates built"
    and "save_conflicts stat devices built templates exclude = []"
  shows "buses_apart stat templates (filter (\<lambda>d. bd_id d \<notin> set exclude) devices @ built)"
proof -
  have "\<not> (claims stat templates bus True a \<and> claims stat templates bus False b)"
    if ab: "a \<in> set (filter (\<lambda>d. bd_id d \<notin> set exclude) devices @ built)" "b \<in> set (filter (\<lambda>d. bd_id d \<notin> set exclude) devices @ built)"
    for a b bus
  proof
    assume c: "claims stat templates bus True a \<and> claims stat templates bus False b"
    note apart = assms(1,2) [unfolded buses_apart_def]
    show False
    proof (cases "a \<in> set built")
      case True
      with c apart have "b \<notin> set built" by blast
      then show False using ab no_conflict_other [OF assms(3) True, of bus True] c
        by (auto simp: claims_def holds_bus_def)
    next
      case False
      show False
      proof (cases "b \<in> set built")
        case True
        then show False using ab False no_conflict_other [OF assms(3) True, of bus False] c
          by (auto simp: claims_def holds_bus_def)
      qed (use False ab c apart in auto)
    qed
  qed
  then show ?thesis unfolding buses_apart_def by blast
qed

theorem save_keeps_buses_apart_witness:
  "buses_apart (\<lambda>_. CharDevice 4 7) None (filter (\<lambda>d. bd_id d \<notin> {''t''}) [one_line ''m'' ''rtu'', one_line ''t'' ''rtu''] @ [one_line ''t'' ''ascii''])"
proof -
  have "save_conflicts (\<lambda>_. CharDevice 4 7) [one_line ''m'' ''rtu'', one_line ''t'' ''rtu''] [one_line ''t'' ''ascii''] None [''t''] = []"
    by (simp add: save_conflicts_def source_conflict_def listeners_def holders_def claims_bus_def Let_def)
  moreover have "buses_apart (\<lambda>_. CharDevice 4 7) None [one_line ''m'' ''rtu'', one_line ''t'' ''rtu'']"
    "buses_apart (\<lambda>_. CharDevice 4 7) None [one_line ''t'' ''ascii'']"
    by (simp_all add: buses_apart_def claims_def claims_bus_def)
  ultimately show ?thesis using save_keeps_buses_apart [of "\<lambda>_. CharDevice 4 7" None "[one_line ''m'' ''rtu'', one_line ''t'' ''rtu'']"
      "[one_line ''t'' ''ascii'']" "[''t'']"] by simp
qed

definition poll_and_tap :: bus_device where
  "poll_and_tap = \<lparr>bd_id = ''d'', bd_enabled = True, bd_protocol = ''rtu'', bd_connection = line_a, bd_template = [],
     bd_sources = [\<lparr>bs_protocol = ''rtu'', bs_connection = line_a, bs_template = [], bs_enabled = True\<rparr>,
       \<lparr>bs_protocol = ''rtu_tap'', bs_connection = line_a, bs_template = [], bs_enabled = True\<rparr>]\<rparr>"

lemma poll_and_tap_claims [simp]:
  "source_claims (\<lambda>_. CharDevice 4 7) None standby poll_and_tap = [(0, ''chr:4:7'', standby), (1, ''chr:4:7'', True)]"
  "bd_id poll_and_tap = ''d''" "bd_enabled poll_and_tap"
  by (simp_all add: poll_and_tap_def line_eval enumerate_simps)

text \<open>
  The sources of what is being saved are not compared with one another. A device whose first
  source polls a serial line and whose second taps the same line is let through, and the bus is
  held both ways by one device.
\<close>

theorem own_sources_not_compared:
  "save_conflicts (\<lambda>_. CharDevice 4 7) [] [poll_and_tap] None [''d''] = [] \<and>
   pollers (\<lambda>_. CharDevice 4 7) [poll_and_tap] ''chr:4:7'' None [] = [''d''] \<and>
   listeners (\<lambda>_. CharDevice 4 7) [poll_and_tap] ''chr:4:7'' None [] False = [''d'']"
  by (simp add: save_conflicts_def source_conflict_def pollers_def listeners_def holders_def claims_bus_def)

end
