(* ===== verification/ExprValues.thy ===== *)
theory ExprValues
  imports Prelude
begin

text \<open>
  The values a formula computes with (\<open>expressions.py\<close>): Python's numbers and the operators and
  functions of \<open>_BINOPS\<close>, \<open>_UNARYOPS\<close>, \<open>_CMPOPS\<close> and \<open>_FUNCS\<close> on them, every raise a value.
  A complex number (a negative base to a fractional power) and a text (a previous value) can
  arise, so they are here too. Roots, exponentials and fractional powers have no exact value:
  the functions of \<open>math\<close> that compute them are arguments (\<open>env\<close>).
\<close>

section \<open>Values and errors\<close>

datatype pnum = NBool bool | NInt int | NFloat rat | NComplex rat rat | NStr string

datatype eval_error = Missing | ExprError | ZeroDiv | ValueErr | TypeErr | Crash

type_synonym 'a res = "eval_error + 'a"

text \<open>
  \<open>Missing\<close> and \<open>ExprError\<close> are the module's own exceptions; \<open>Crash\<close> stands for the
  \<open>AttributeError\<close>, \<open>KeyError\<close> and \<open>IndexError\<close> nothing catches.
\<close>

record env =
  ev_pi :: rat
  ev_e :: rat
  ev_sqrt :: "rat \<Rightarrow> rat"
  ev_exp :: "rat \<Rightarrow> rat"
  ev_pow :: "rat \<Rightarrow> rat \<Rightarrow> rat"
  ev_cpow :: "rat \<times> rat \<Rightarrow> rat \<times> rat \<Rightarrow> rat \<times> rat"
  ev_hypot :: "rat \<Rightarrow> rat \<Rightarrow> rat"
  ev_strmod :: "string \<Rightarrow> pnum \<Rightarrow> string option"
  ev_hour :: int
  ev_minute :: int
  ev_second :: int
  ev_weekday :: int
  ev_day :: int
  ev_month :: int
  ev_mono :: rat

fun as_int :: "pnum \<Rightarrow> int option" where
  "as_int (NBool b) = Some (if b then 1 else 0)"
| "as_int (NInt n) = Some n"
| "as_int _ = None"

fun as_rat :: "pnum \<Rightarrow> rat option" where
  "as_rat (NBool b) = Some (if b then 1 else 0)"
| "as_rat (NInt n) = Some (of_int n)"
| "as_rat (NFloat q) = Some q"
| "as_rat _ = None"

fun as_complex :: "pnum \<Rightarrow> (rat \<times> rat) option" where
  "as_complex (NComplex x y) = Some (x, y)"
| "as_complex v = map_option (\<lambda>q. (q, 0)) (as_rat v)"

fun truth :: "pnum \<Rightarrow> bool" where
  "truth (NBool b) = b"
| "truth (NInt n) = (n \<noteq> 0)"
| "truth (NFloat q) = (q \<noteq> 0)"
| "truth (NComplex x y) = (x \<noteq> 0 \<or> y \<noteq> 0)"
| "truth (NStr s) = (s \<noteq> [])"

text \<open>\<open>isinstance(v, (int, float)) and not isinstance(v, bool)\<close>, with the number.\<close>

fun plain_number :: "pnum \<Rightarrow> rat option" where
  "plain_number (NInt n) = Some (of_int n)"
| "plain_number (NFloat q) = Some q"
| "plain_number _ = None"

fun of_pyval :: "pyval \<Rightarrow> pnum option" where
  "of_pyval VNone = None"
| "of_pyval (VBool b) = Some (NBool b)"
| "of_pyval (VInt n) = Some (NInt n)"
| "of_pyval (VFloat q) = Some (NFloat q)"
| "of_pyval (VStr s) = Some (NStr s)"

section \<open>Operators\<close>

definition numeric :: "(int \<Rightarrow> int \<Rightarrow> pnum res) \<Rightarrow> (rat \<Rightarrow> rat \<Rightarrow> pnum res) \<Rightarrow> (rat \<times> rat \<Rightarrow> rat \<times> rat \<Rightarrow> pnum res) \<Rightarrow> pnum \<Rightarrow> pnum \<Rightarrow> pnum res" where
  "numeric f g h a b =
     (case (as_int a, as_int b) of (Some x, Some y) \<Rightarrow> f x y
      | _ \<Rightarrow> (case (as_rat a, as_rat b) of (Some x, Some y) \<Rightarrow> g x y
         | _ \<Rightarrow> (case (as_complex a, as_complex b) of (Some x, Some y) \<Rightarrow> h x y
            | _ \<Rightarrow> Inl TypeErr)))"

definition py_add :: "pnum \<Rightarrow> pnum \<Rightarrow> pnum res" where
  "py_add a b = (case (a, b) of (NStr s, NStr t) \<Rightarrow> Inr (NStr (s @ t))
     | _ \<Rightarrow> numeric (\<lambda>x y. Inr (NInt (x + y))) (\<lambda>x y. Inr (NFloat (x + y)))
              (\<lambda>(x, y) (u, v). Inr (NComplex (x + u) (y + v))) a b)"

definition py_sub :: "pnum \<Rightarrow> pnum \<Rightarrow> pnum res" where
  "py_sub a b = numeric (\<lambda>x y. Inr (NInt (x - y))) (\<lambda>x y. Inr (NFloat (x - y)))
     (\<lambda>(x, y) (u, v). Inr (NComplex (x - u) (y - v))) a b"

definition repeat_text :: "string \<Rightarrow> int \<Rightarrow> string" where
  "repeat_text s n = concat (replicate (nat n) s)"

definition py_mul :: "pnum \<Rightarrow> pnum \<Rightarrow> pnum res" where
  "py_mul a b =
     (case (a, b) of
        (NStr s, NStr t) \<Rightarrow> Inl TypeErr
      | (NStr s, _) \<Rightarrow> (case as_int b of Some n \<Rightarrow> Inr (NStr (repeat_text s n)) | None \<Rightarrow> Inl TypeErr)
      | (_, NStr t) \<Rightarrow> (case as_int a of Some n \<Rightarrow> Inr (NStr (repeat_text t n)) | None \<Rightarrow> Inl TypeErr)
      | _ \<Rightarrow> numeric (\<lambda>x y. Inr (NInt (x * y))) (\<lambda>x y. Inr (NFloat (x * y)))
              (\<lambda>(x, y) (u, v). Inr (NComplex (x * u - y * v) (x * v + y * u))) a b)"

definition py_div :: "pnum \<Rightarrow> pnum \<Rightarrow> pnum res" where
  "py_div a b = numeric
     (\<lambda>x y. if y = 0 then Inl ZeroDiv else Inr (NFloat (of_int x / of_int y)))
     (\<lambda>x y. if y = 0 then Inl ZeroDiv else Inr (NFloat (x / y)))
     (\<lambda>(x, y) (u, v). let d = u * u + v * v
        in if d = 0 then Inl ZeroDiv else Inr (NComplex ((x * u + y * v) / d) ((y * u - x * v) / d))) a b"

definition py_mod :: "env \<Rightarrow> pnum \<Rightarrow> pnum \<Rightarrow> pnum res" where
  "py_mod ev a b = (case a of
        NStr s \<Rightarrow> (case ev_strmod ev s b of Some t \<Rightarrow> Inr (NStr t) | None \<Rightarrow> Inl TypeErr)
      | _ \<Rightarrow> numeric
          (\<lambda>x y. if y = 0 then Inl ZeroDiv else Inr (NInt (x mod y)))
          (\<lambda>x y. if y = 0 then Inl ZeroDiv else Inr (NFloat (x - y * of_int \<lfloor>x / y\<rfloor>)))
          (\<lambda>_ _. Inl TypeErr) a b)"

definition py_floordiv :: "pnum \<Rightarrow> pnum \<Rightarrow> pnum res" where
  "py_floordiv a b = numeric
     (\<lambda>x y. if y = 0 then Inl ZeroDiv else Inr (NInt (x div y)))
     (\<lambda>x y. if y = 0 then Inl ZeroDiv else Inr (NFloat (of_int \<lfloor>x / y\<rfloor>)))
     (\<lambda>_ _. Inl TypeErr) a b"

text \<open>\<open>base ** exp\<close>: exact for a whole exponent.\<close>

definition rat_power :: "rat \<Rightarrow> int \<Rightarrow> rat" where
  "rat_power b n = (if 0 \<le> n then b ^ nat n else 1 / b ^ nat (- n))"

definition whole :: "rat \<Rightarrow> bool" where
  "whole q = (of_int \<lfloor>q\<rfloor> = q)"

definition py_power :: "env \<Rightarrow> pnum \<Rightarrow> pnum \<Rightarrow> pnum res" where
  "py_power ev a b = numeric
     (\<lambda>x y. if 0 \<le> y then Inr (NInt (x ^ nat y))
            else if x = 0 then Inl ZeroDiv else Inr (NFloat (rat_power (of_int x) y)))
     (\<lambda>x y. if x = 0 \<and> y < 0 then Inl ZeroDiv
            else if whole y then Inr (NFloat (rat_power x \<lfloor>y\<rfloor>))
            else if x < 0 then (let (u, v) = ev_cpow ev (x, 0) (y, 0) in Inr (NComplex u v))
            else Inr (NFloat (ev_pow ev x y)))
     (\<lambda>x y. if x = (0, 0) \<and> (snd y \<noteq> 0 \<or> fst y < 0) then Inl ZeroDiv
            else (let (u, v) = ev_cpow ev x y in Inr (NComplex u v))) a b"

definition py_neg :: "pnum \<Rightarrow> pnum res" where
  "py_neg a = (case a of NFloat q \<Rightarrow> Inr (NFloat (- q)) | NComplex x y \<Rightarrow> Inr (NComplex (- x) (- y))
     | _ \<Rightarrow> (case as_int a of Some n \<Rightarrow> Inr (NInt (- n)) | None \<Rightarrow> Inl TypeErr))"

definition py_pos :: "pnum \<Rightarrow> pnum res" where
  "py_pos a = (case a of NStr _ \<Rightarrow> Inl TypeErr | NBool b \<Rightarrow> Inr (NInt (if b then 1 else 0)) | _ \<Rightarrow> Inr a)"

definition same_value :: "pnum \<Rightarrow> pnum \<Rightarrow> bool" where
  "same_value a b = (case (a, b) of (NStr s, NStr t) \<Rightarrow> s = t
     | _ \<Rightarrow> as_complex a \<noteq> None \<and> as_complex a = as_complex b)"

definition less :: "pnum \<Rightarrow> pnum \<Rightarrow> bool res" where
  "less a b = (case (a, b) of (NStr s, NStr t) \<Rightarrow> Inr (text_less s t)
     | _ \<Rightarrow> (case (as_rat a, as_rat b) of (Some x, Some y) \<Rightarrow> Inr (x < y) | _ \<Rightarrow> Inl TypeErr))"

definition less_eq :: "pnum \<Rightarrow> pnum \<Rightarrow> bool res" where
  "less_eq a b = ebind (less b a) (\<lambda>g. Inr (\<not> g))"

section \<open>Functions\<close>

fun py_best :: "(pnum \<Rightarrow> pnum \<Rightarrow> bool res) \<Rightarrow> pnum \<Rightarrow> pnum list \<Rightarrow> pnum res" where
  "py_best better best [] = Inr best"
| "py_best better best (x # xs) =
     (case better x best of Inl e \<Rightarrow> Inl e | Inr g \<Rightarrow> py_best better (if g then x else best) xs)"

definition py_extreme :: "(pnum \<Rightarrow> pnum \<Rightarrow> bool res) \<Rightarrow> pnum list \<Rightarrow> pnum res" where
  "py_extreme better args =
     (case args of
        [] \<Rightarrow> Inl TypeErr
      | [NStr s] \<Rightarrow> (case map (\<lambda>c. NStr [c]) s of [] \<Rightarrow> Inl ValueErr | c # cs \<Rightarrow> py_best better c cs)
      | [_] \<Rightarrow> Inl TypeErr
      | x # xs \<Rightarrow> py_best better x xs)"

definition py_min :: "pnum list \<Rightarrow> pnum res" where
  "py_min = py_extreme less"

definition py_max :: "pnum list \<Rightarrow> pnum res" where
  "py_max = py_extreme (\<lambda>x y. less y x)"

definition py_abs :: "env \<Rightarrow> pnum \<Rightarrow> pnum res" where
  "py_abs ev a = (case a of NFloat q \<Rightarrow> Inr (NFloat \<bar>q\<bar>) | NComplex x y \<Rightarrow> Inr (NFloat (ev_hypot ev x y))
     | _ \<Rightarrow> (case as_int a of Some n \<Rightarrow> Inr (NInt \<bar>n\<bar>) | None \<Rightarrow> Inl TypeErr))"

definition round_num :: "pnum \<Rightarrow> pnum res" where
  "round_num a = (case a of NFloat q \<Rightarrow> Inr (NInt (py_round q))
     | _ \<Rightarrow> (case as_int a of Some n \<Rightarrow> Inr (NInt n) | None \<Rightarrow> Inl TypeErr))"

definition round_to :: "pnum \<Rightarrow> int \<Rightarrow> pnum res" where
  "round_to a n = (case a of NFloat q \<Rightarrow> Inr (NFloat (py_round_dec q n))
     | _ \<Rightarrow> (case as_int a of Some x \<Rightarrow> Inr (NInt (if 0 \<le> n then x else \<lfloor>py_round_dec (of_int x) n\<rfloor>)) | None \<Rightarrow> Inl TypeErr))"

definition float_of :: "pnum \<Rightarrow> rat res" where
  "float_of a = (case a of
        NStr s \<Rightarrow> (case py_float_of_string s of Some q \<Rightarrow> Inr q | None \<Rightarrow> Inl ValueErr)
      | _ \<Rightarrow> (case as_rat a of Some q \<Rightarrow> Inr q | None \<Rightarrow> Inl TypeErr))"

text \<open>What the functions of \<open>math\<close> take: a number, no text.\<close>

definition real_arg :: "pnum \<Rightarrow> rat res" where
  "real_arg a = (case as_rat a of Some q \<Rightarrow> Inr q | None \<Rightarrow> Inl TypeErr)"

definition math_pow :: "env \<Rightarrow> rat \<Rightarrow> rat \<Rightarrow> pnum res" where
  "math_pow ev x y =
     (if x = 0 \<and> y < 0 then Inl ValueErr
      else if whole y then Inr (NFloat (rat_power x \<lfloor>y\<rfloor>))
      else if x < 0 then Inl ValueErr else Inr (NFloat (ev_pow ev x y)))"

definition int_of :: "pnum \<Rightarrow> int res" where
  "int_of a = (case a of
        NFloat q \<Rightarrow> Inr (py_trunc q)
      | NStr s \<Rightarrow> (case py_int_of_string s of Some n \<Rightarrow> Inr n | None \<Rightarrow> Inl ValueErr)
      | _ \<Rightarrow> (case as_int a of Some n \<Rightarrow> Inr n | None \<Rightarrow> Inl TypeErr))"

definition count_bits :: "int \<Rightarrow> int" where
  "count_bits n = int (length (filter (bit n) [0..<64]))"

definition popcount :: "env \<Rightarrow> pnum \<Rightarrow> pnum \<Rightarrow> pnum res" where
  "popcount ev x msk =
     ebind (py_abs ev x) (\<lambda>a. ebind (round_num a) (\<lambda>r. ebind (int_of r) (\<lambda>n.
       ebind (if same_value msk (NInt (-1)) then Inr (-1) else int_of msk) (\<lambda>m.
         Inr (NInt (count_bits (n AND m)))))))"

fun py_sum :: "pnum \<Rightarrow> pnum list \<Rightarrow> pnum res" where
  "py_sum acc [] = Inr acc"
| "py_sum acc (x # xs) = (case py_add acc x of Inl e \<Rightarrow> Inl e | Inr s \<Rightarrow> py_sum s xs)"

definition py_avg :: "pnum list \<Rightarrow> pnum res" where
  "py_avg args = (if args = [] then Inr (NFloat 0) else ebind (py_sum (NInt 0) args) (\<lambda>s. py_div s (NInt (int (length args)))))"

definition clamp :: "pnum \<Rightarrow> pnum \<Rightarrow> pnum \<Rightarrow> pnum res" where
  "clamp x lo hi = ebind (py_min [hi, x]) (\<lambda>m. py_max [lo, m])"

definition constant_of :: "env \<Rightarrow> string \<Rightarrow> pnum option" where
  "constant_of ev x = (if x = ''pi'' then Some (NFloat (ev_pi ev)) else if x = ''e'' then Some (NFloat (ev_e ev))
     else if x = ''true'' then Some (NBool True) else if x = ''false'' then Some (NBool False) else None)"

definition CONST_NAMES :: "string list" where "CONST_NAMES = [''pi'', ''e'', ''true'', ''false'']"

definition FUNC_NAMES :: "string list" where
  "FUNC_NAMES = [''min'', ''max'', ''abs'', ''round'', ''sqrt'', ''pow'', ''floor'', ''ceil'', ''avg'', ''clamp'',
     ''popcount'', ''hour'', ''minute'', ''weekday'', ''day'', ''month'']"

definition apply_func :: "env \<Rightarrow> string \<Rightarrow> pnum list \<Rightarrow> pnum res" where
  "apply_func ev f args =
     (if f = ''min'' then py_min args
      else if f = ''max'' then py_max args
      else if f = ''abs'' then (case args of [x] \<Rightarrow> py_abs ev x | _ \<Rightarrow> Inl TypeErr)
      else if f = ''round'' then (case args of [x] \<Rightarrow> round_num x
         | [x, n] \<Rightarrow> (case as_int n of Some k \<Rightarrow> round_to x k | None \<Rightarrow> Inl TypeErr) | _ \<Rightarrow> Inl TypeErr)
      else if f = ''sqrt'' then (case args of [x] \<Rightarrow> ebind (real_arg x) (\<lambda>q. if q < 0 then Inl ValueErr else Inr (NFloat (ev_sqrt ev q))) | _ \<Rightarrow> Inl TypeErr)
      else if f = ''pow'' then (case args of [x, y] \<Rightarrow> ebind (real_arg x) (\<lambda>p. ebind (real_arg y) (\<lambda>q. math_pow ev p q)) | _ \<Rightarrow> Inl TypeErr)
      else if f = ''floor'' then (case args of [x] \<Rightarrow> ebind (real_arg x) (\<lambda>q. Inr (NInt \<lfloor>q\<rfloor>)) | _ \<Rightarrow> Inl TypeErr)
      else if f = ''ceil'' then (case args of [x] \<Rightarrow> ebind (real_arg x) (\<lambda>q. Inr (NInt \<lceil>q\<rceil>)) | _ \<Rightarrow> Inl TypeErr)
      else if f = ''avg'' then py_avg args
      else if f = ''clamp'' then (case args of [x, lo, hi] \<Rightarrow> clamp x lo hi | _ \<Rightarrow> Inl TypeErr)
      else if f = ''popcount'' then (case args of [x] \<Rightarrow> popcount ev x (NInt (-1)) | [x, m] \<Rightarrow> popcount ev x m | _ \<Rightarrow> Inl TypeErr)
      else if f = ''hour'' then (if args = [] then Inr (NInt (ev_hour ev)) else Inl TypeErr)
      else if f = ''minute'' then (if args = [] then Inr (NInt (ev_minute ev)) else Inl TypeErr)
      else if f = ''weekday'' then (if args = [] then Inr (NInt (ev_weekday ev)) else Inl TypeErr)
      else if f = ''day'' then (if args = [] then Inr (NInt (ev_day ev)) else Inl TypeErr)
      else if f = ''month'' then (if args = [] then Inr (NInt (ev_month ev)) else Inl TypeErr)
      else Inl Crash)"

text \<open>The local day (\<open>clock.py\<close>): \<open>"10:30"\<close> as hours, and a window that may cross midnight.\<close>

definition hours_of :: "string \<Rightarrow> rat res" where
  "hours_of txt =
     (let s = py_strip txt; hs = takeWhile (\<lambda>c. c \<noteq> CHR '':'') s; rest = dropWhile (\<lambda>c. c \<noteq> CHR '':'') s
      in if rest = [] \<or> CHR '':'' \<in> set (tl rest) then Inl ValueErr
         else (case (py_int_of_string hs, py_int_of_string (tl rest)) of
             (Some h, Some m) \<Rightarrow> if \<not> (0 \<le> h \<and> h \<le> 24 \<and> 0 \<le> m \<and> m < 60) \<or> h = 24 \<and> m \<noteq> 0 then Inl ValueErr
                                else Inr (of_int h + of_int m / 60)
           | _ \<Rightarrow> Inl ValueErr))"

definition between :: "env \<Rightarrow> rat \<Rightarrow> rat \<Rightarrow> bool" where
  "between ev start stop =
     (let h = of_int (ev_hour ev) + of_int (ev_minute ev) / 60 + of_int (ev_second ev) / 3600
      in if start = stop then False
         else if start < stop then start \<le> h \<and> h < stop else start \<le> h \<or> h < stop)"

end
