(* ===== verification/Expressions.thy ===== *)
theory Expressions
  imports ExprValues "HOL-Library.Char_ord" "HOL-Library.List_Lexorder"
begin

text \<open>
  The formulas of calculated fields and rules (\<open>expressions.py\<close>), from the tree that Python's
  parser gives to the value: \<open>_ref_name\<close>, \<open>_collect_refs\<close>, \<open>validate_expression\<close> and
  \<open>_eval\<close> with everything it calls. A call carries its place in the text, which \<open>ema()\<close> and
  \<open>hysteresis()\<close> remember by. The parser, the rewriting of hyphenated device ids before it, and
  the sentences of a refusal are not modelled.
\<close>

section \<open>Trees\<close>

datatype const = CBool bool | CInt int | CFloat rat | CStr string | COther

datatype bin_op = Add | Sub | Mult | Div | Mod | Pow | FloorDiv | OtherBin

datatype unary_op = UAdd | USub | OtherUnary

datatype cmp_op = Gt | GtE | Lt | LtE | CmpEq | NotEq | OtherCmp

datatype expr =
    Constant const
  | Name string
  | Attribute expr string
  | Subscript expr expr
  | BinOp expr bin_op expr
  | UnaryOp unary_op expr
  | BoolOp bool "expr list"
  | Compare expr "(cmp_op \<times> expr) list"
  | IfExp expr expr expr
  | Call expr "expr list" bool "nat \<times> nat"
  | OtherNode "expr list"

text \<open>\<open>BoolOp True\<close> is \<open>and\<close>; the bool of a call says whether it has keyword arguments.\<close>

definition const_int :: "expr \<Rightarrow> int option" where
  "const_int e = (case e of Constant (CInt n) \<Rightarrow> Some n | _ \<Rightarrow> None)"

fun ref_name :: "expr \<Rightarrow> string option" where
  "ref_name (Name x) = Some x"
| "ref_name (Attribute e a) = (case e of Name x \<Rightarrow> Some (x @ ''.'' @ a) | _ \<Rightarrow> None)"
| "ref_name (Subscript e i) =
     (case (ref_name e, const_int i) of (Some base, Some n) \<Rightarrow> Some (base @ ''['' @ int_str n @ '']'') | _ \<Rightarrow> None)"
| "ref_name _ = None"

definition plain_name :: "string \<Rightarrow> bool" where
  "plain_name x = (x \<in> set FUNC_NAMES \<or> x \<in> set CONST_NAMES \<or> x = ''dt'')"

text \<open>The names a tree reads (\<open>_collect_refs\<close>).\<close>

fun refs :: "expr \<Rightarrow> string list" where
  "refs (Constant k) = []"
| "refs (Name x) = (if plain_name x then [] else [x])"
| "refs (Attribute e a) = (case ref_name (Attribute e a) of Some r \<Rightarrow> [r] | None \<Rightarrow> refs e)"
| "refs (Subscript e i) = (case ref_name (Subscript e i) of Some r \<Rightarrow> [r] | None \<Rightarrow> refs e @ refs i)"
| "refs (BinOp l op r) = refs l @ refs r"
| "refs (UnaryOp op e) = refs e"
| "refs (BoolOp b es) = concat (map refs es)"
| "refs (Compare l cs) = refs l @ concat (map (\<lambda>(op, e). refs e) cs)"
| "refs (IfExp b t e) = refs t @ refs b @ refs e"
| "refs (Call f args kw p) = concat (map refs args)"
| "refs (OtherNode es) = concat (map refs es)"

section \<open>Evaluation\<close>

text \<open>What a formula remembers between two evaluations, by the place of the call.\<close>

record memo =
  mm_ema :: "(nat \<times> nat, rat \<times> rat) dict"
  mm_hysteresis :: "(nat \<times> nat, int) dict"

text \<open>\<open>ctx\<close>, with the providers the module is given.\<close>

record eval_ctx =
  cx_env :: env
  cx_resolve :: "string \<Rightarrow> pyval"
  cx_prev :: "(string \<Rightarrow> pyval) option"
  cx_dt :: rat
  cx_stale :: "(string \<Rightarrow> bool) option"
  cx_fresh_stale :: "(string \<Rightarrow> bool) option"
  cx_age :: "(string \<Rightarrow> rat option) option"
  cx_sun :: "const \<Rightarrow> (rat \<times> rat \<times> rat) option"
  cx_attr :: "const \<Rightarrow> const \<Rightarrow> const \<Rightarrow> pyval"
  cx_rule_stats :: "string \<Rightarrow> string \<Rightarrow> pyval"

definition RULE_STATS :: "string list" where
  "RULE_STATS = [''run_today_h'', ''run_total_h'', ''starts_today'', ''starts_last_h'']"

definition SUN_FUNCS :: "string list" where "SUN_FUNCS = [''sun_elevation'', ''sun_azimuth'', ''is_day'']"

definition MAX_POW_EXP :: rat where "MAX_POW_EXP = 64"
definition MAX_ROUND_DIGITS :: rat where "MAX_ROUND_DIGITS = 15"
definition MAX_RESULT_BITS :: nat where "MAX_RESULT_BITS = 63"
definition SUNRISE_DEG :: rat where "SUNRISE_DEG = - 833 / 1000"

definition is_lower :: "char \<Rightarrow> bool" where
  "is_lower c = (let n = of_char c :: nat in 97 \<le> n \<and> n \<le> 122)"

text \<open>The patterns of text arguments: a time of day, a rule id, a place, an attribute name.\<close>

definition id_char :: "char \<Rightarrow> bool" where
  "id_char c = (is_lower c \<or> is_digit c \<or> c = CHR ''_'' \<or> c = CHR ''-'')"

definition time_arg :: "string \<Rightarrow> bool" where
  "time_arg s0 = (let s = pat_end s0; n = length s in (n = 4 \<or> n = 5) \<and> s ! (n - 3) = CHR '':'' \<and>
     list_all is_digit (take (n - 3) s) \<and> list_all is_digit (drop (n - 2) s))"

definition rule_arg :: "string \<Rightarrow> bool" where
  "rule_arg s0 = (case pat_end s0 of [] \<Rightarrow> False | c # r \<Rightarrow> is_lower c \<and> length r \<le> 47 \<and> list_all id_char r)"

definition place_arg :: "string \<Rightarrow> bool" where
  "place_arg s0 = (case pat_end s0 of [] \<Rightarrow> False | c # r \<Rightarrow> (is_lower c \<or> is_digit c) \<and> length r \<le> 63 \<and> list_all id_char r)"

definition attr_name_arg :: "string \<Rightarrow> bool" where
  "attr_name_arg s0 = (case pat_end s0 of [] \<Rightarrow> False
     | c # r \<Rightarrow> is_lower c \<and> length r \<le> 63 \<and> list_all (\<lambda>d. is_lower d \<or> d = CHR ''_'') r)"

definition const_value :: "const \<Rightarrow> pnum res" where
  "const_value k = (case k of CBool b \<Rightarrow> Inr (NBool b) | CInt n \<Rightarrow> Inr (NInt n) | CFloat q \<Rightarrow> Inr (NFloat q) | _ \<Rightarrow> Inl ExprError)"

definition lookup_ref :: "eval_ctx \<Rightarrow> string \<Rightarrow> pnum res" where
  "lookup_ref c x = (case cx_resolve c x of VBool b \<Rightarrow> Inr (NBool b) | VInt n \<Rightarrow> Inr (NInt n) | VFloat q \<Rightarrow> Inr (NFloat q)
     | _ \<Rightarrow> Inl Missing)"

fun bit_length :: "nat \<Rightarrow> nat" where
  "bit_length n = (if n = 0 then 0 else Suc (bit_length (n div 2)))"

declare bit_length.simps [simp del]

definition int_bits :: "int \<Rightarrow> nat" where
  "int_bits n = bit_length (nat \<bar>n\<bar>)"

text \<open>The power, bounded before it is computed.\<close>

definition bounded_power :: "env \<Rightarrow> pnum \<Rightarrow> pnum \<Rightarrow> pnum res" where
  "bounded_power ev base e =
     ebind (py_abs ev e) (\<lambda>a. ebind (less (NFloat MAX_POW_EXP) a) (\<lambda>big.
       if big then Inl ExprError
       else case as_int base of
           None \<Rightarrow> py_power ev base e
         | Some n \<Rightarrow>
             if n = 0 then py_power ev base e
             else ebind (less (NInt 0) e) (\<lambda>up.
               if \<not> up then py_power ev base e
               else ebind (py_mul (NInt (int (int_bits n))) e) (\<lambda>bits.
                 ebind (less (NInt 2048) bits) (\<lambda>long.
                   if long then Inl ExprError else py_power ev base e)))))"

definition apply_bin :: "env \<Rightarrow> bin_op \<Rightarrow> pnum \<Rightarrow> pnum \<Rightarrow> pnum res" where
  "apply_bin ev op a b = (case op of Add \<Rightarrow> py_add a b | Sub \<Rightarrow> py_sub a b | Mult \<Rightarrow> py_mul a b | Div \<Rightarrow> py_div a b
     | Mod \<Rightarrow> py_mod ev a b | FloorDiv \<Rightarrow> py_floordiv a b | Pow \<Rightarrow> bounded_power ev a b | OtherBin \<Rightarrow> Inl Crash)"

definition apply_unary :: "unary_op \<Rightarrow> pnum \<Rightarrow> pnum res" where
  "apply_unary op a = (case op of UAdd \<Rightarrow> py_pos a | USub \<Rightarrow> py_neg a | OtherUnary \<Rightarrow> Inl Crash)"

definition apply_cmp :: "cmp_op \<Rightarrow> pnum \<Rightarrow> pnum \<Rightarrow> bool res" where
  "apply_cmp op a b = (case op of Gt \<Rightarrow> less b a | GtE \<Rightarrow> less_eq b a | Lt \<Rightarrow> less a b | LtE \<Rightarrow> less_eq a b
     | CmpEq \<Rightarrow> Inr (same_value a b) | NotEq \<Rightarrow> Inr (\<not> same_value a b) | OtherCmp \<Rightarrow> Inl Crash)"

text \<open>
  An evaluation gives a result and the memory, changed also when it raises. The loops of
  \<open>_eval\<close> over the arguments of a node take the evaluation of one argument as \<open>f\<close>.
\<close>

definition sbind :: "'a res \<times> 's \<Rightarrow> ('a \<Rightarrow> 's \<Rightarrow> 'b res \<times> 's) \<Rightarrow> 'b res \<times> 's" where
  "sbind r f = (case r of (Inl e, m) \<Rightarrow> (Inl e, m) | (Inr v, m) \<Rightarrow> f v m)"

fun run_list :: "('e \<Rightarrow> 's \<Rightarrow> 'a res \<times> 's) \<Rightarrow> 'e list \<Rightarrow> 's \<Rightarrow> 'a list res \<times> 's" where
  "run_list f [] m = (Inr [], m)"
| "run_list f (x # xs) m = sbind (f x m) (\<lambda>v m1. sbind (run_list f xs m1) (\<lambda>vs m2. (Inr (v # vs), m2)))"

fun run_cmps :: "(expr \<Rightarrow> 's \<Rightarrow> pnum res \<times> 's) \<Rightarrow> pnum \<Rightarrow> (cmp_op \<times> expr) list \<Rightarrow> 's \<Rightarrow> pnum res \<times> 's" where
  "run_cmps f left [] m = (Inr (NBool True), m)"
| "run_cmps f left ((op, e) # cs) m =
     sbind (f e m) (\<lambda>right m1. sbind (apply_cmp op left right, m1) (\<lambda>holds m2.
       if holds then run_cmps f right cs m2 else (Inr (NBool False), m2)))"

definition passed_over :: "eval_error \<Rightarrow> bool" where
  "passed_over e = (e = Missing \<or> e = ExprError \<or> e = ZeroDiv \<or> e = ValueErr)"

fun run_first :: "('e \<Rightarrow> 's \<Rightarrow> 'a res \<times> 's) \<Rightarrow> ('e \<Rightarrow> bool) \<Rightarrow> 'e list \<Rightarrow> 's \<Rightarrow> 'a res option \<times> 's" where
  "run_first f skip [] m = (None, m)"
| "run_first f skip (x # xs) m =
     (if skip x then run_first f skip xs m
      else (case f x m of
          (Inl e, m1) \<Rightarrow> if passed_over e then run_first f skip xs m1 else (Some (Inl e), m1)
        | (Inr v, m1) \<Rightarrow> (Some (Inr v), m1)))"

definition stale_refs :: "(string \<Rightarrow> bool) option \<Rightarrow> expr \<Rightarrow> bool" where
  "stale_refs stale e = (case stale of None \<Rightarrow> False | Some s \<Rightarrow> list_ex s (refs e))"

fun run_fresh :: "(expr \<Rightarrow> 's \<Rightarrow> pnum res \<times> 's) \<Rightarrow> (string \<Rightarrow> bool) option \<Rightarrow> expr list \<Rightarrow> 's \<Rightarrow> int res \<times> 's" where
  "run_fresh f stale [] m = (Inr 0, m)"
| "run_fresh f stale (x # xs) m =
     sbind (case stale of
         Some s \<Rightarrow> (Inr (\<not> list_ex s (refs x)), m)
       | None \<Rightarrow> (case f x m of
             (Inl e, m1) \<Rightarrow> (if e = Crash then Inl Crash else Inr False, m1)
           | (Inr v, m1) \<Rightarrow> (Inr True, m1)))
       (\<lambda>ok m1. sbind (run_fresh f stale xs m1) (\<lambda>n m2. (Inr ((if ok then 1 else 0) + n), m2)))"

fun run_steps :: "(expr \<Rightarrow> 's \<Rightarrow> pnum res \<times> 's) \<Rightarrow> pnum \<Rightarrow> pnum \<Rightarrow> pnum option \<Rightarrow> expr list \<Rightarrow> 's \<Rightarrow> pnum res \<times> 's" where
  "run_steps f x out last_t [] m = (Inr out, m)"
| "run_steps f x out last_t (t # rest) m =
     sbind (f t m) (\<lambda>tv m1.
       sbind (case last_t of None \<Rightarrow> Inr False | Some l \<Rightarrow> less_eq tv l, m1) (\<lambda>falls m2.
         if falls then (Inl ExprError, m2)
         else sbind (less_eq tv x, m2) (\<lambda>reached m3.
           (case rest of
              [] \<Rightarrow> if reached then (Inl Crash, m3) else (Inr out, m3)
            | v # rest' \<Rightarrow>
                if reached then sbind (f v m3) (\<lambda>o' m4. run_steps f x o' (Some tv) rest' m4)
                else run_steps f x out (Some tv) rest' m3))))"

fun run_ends :: "(expr \<Rightarrow> 's \<Rightarrow> pnum res \<times> 's) \<Rightarrow> expr list \<Rightarrow> 's \<Rightarrow> rat list res \<times> 's" where
  "run_ends f [] m = (Inr [], m)"
| "run_ends f (x # xs) m =
     sbind (case x of
         Constant (CStr s) \<Rightarrow> (if time_arg s then hours_of s else Inl ExprError, m)
       | _ \<Rightarrow> sbind (f x m) (\<lambda>v m1. (float_of v, m1)))
       (\<lambda>h m1. sbind (run_ends f xs m1) (\<lambda>hs m2. (Inr (h # hs), m2)))"

fun run_day :: "(expr \<Rightarrow> 's \<Rightarrow> pnum res \<times> 's) \<Rightarrow> expr list \<Rightarrow> const \<Rightarrow> rat option \<Rightarrow> 's \<Rightarrow> (const \<times> rat option) res \<times> 's" where
  "run_day f [] place deg m = (Inr (place, deg), m)"
| "run_day f (x # xs) place deg m =
     (case x of
        Constant (CStr s) \<Rightarrow> run_day f xs (CStr s) deg m
      | _ \<Rightarrow> sbind (f x m) (\<lambda>v m1. case plain_number v of None \<Rightarrow> (Inl ExprError, m1)
           | Some q \<Rightarrow> run_day f xs place (Some q) m1))"

lemma sbind_simps [simp]:
  "sbind (Inl e, m) f = (Inl e, m)" "sbind (Inr v, m) f = f v m"
  by (simp_all add: sbind_def)

lemma sbind_cong: "r = r' \<Longrightarrow> (\<And>v m. r' = (Inr v, m) \<Longrightarrow> f v m = g v m) \<Longrightarrow> sbind r f = sbind r' g"
  by (auto simp: sbind_def split: prod.splits sum.splits)

lemma run_list_cong [fundef_cong]:
  "xs = ys \<Longrightarrow> m = n \<Longrightarrow> (\<And>x s. x \<in> set ys \<Longrightarrow> f x s = g x s) \<Longrightarrow> run_list f xs m = run_list g ys n"
  by (induction xs arbitrary: ys m n) (auto intro!: sbind_cong)

lemma run_cmps_cong [fundef_cong]:
  "l = l' \<Longrightarrow> xs = ys \<Longrightarrow> m = n \<Longrightarrow> (\<And>x s. x \<in> snd ` set ys \<Longrightarrow> f x s = g x s) \<Longrightarrow> run_cmps f l xs m = run_cmps g l' ys n"
proof (induction xs arbitrary: ys m n l l')
  case (Cons c cs)
  have e: "f (snd c) s = g (snd c) s" for s using Cons.prems by auto
  have "run_cmps f v cs m = run_cmps g v cs m" for v m
    by (rule Cons.IH [OF refl refl refl], rule Cons.prems(4)) (use Cons.prems(2) in auto)
  then show ?case using Cons.prems(1,3) e unfolding Cons.prems(2) [symmetric] by (cases c) (auto intro!: sbind_cong)
qed simp

lemma run_first_cong [fundef_cong]:
  "skip = skip' \<Longrightarrow> xs = ys \<Longrightarrow> m = n \<Longrightarrow> (\<And>x s. x \<in> set ys \<Longrightarrow> f x s = g x s) \<Longrightarrow> run_first f skip xs m = run_first g skip' ys n"
  by (induction f skip xs m arbitrary: ys n rule: run_first.induct) (auto split: prod.splits sum.splits)

lemma run_fresh_cong [fundef_cong]:
  "st = st' \<Longrightarrow> xs = ys \<Longrightarrow> m = n \<Longrightarrow> (\<And>x s. x \<in> set ys \<Longrightarrow> f x s = g x s) \<Longrightarrow> run_fresh f st xs m = run_fresh g st' ys n"
proof (induction xs arbitrary: ys m n)
  case (Cons x xs)
  have e: "f x s = g x s" for s using Cons.prems by auto
  have "run_fresh f st xs m = run_fresh g st' xs m" for m using Cons.prems by (intro Cons.IH) auto
  then show ?case using Cons.prems(1,3) unfolding Cons.prems(2) [symmetric] by (cases st') (simp_all add: e)
qed simp

lemma run_ends_cong [fundef_cong]:
  "xs = ys \<Longrightarrow> m = n \<Longrightarrow> (\<And>x s. x \<in> set ys \<Longrightarrow> f x s = g x s) \<Longrightarrow> run_ends f xs m = run_ends g ys n"
  by (induction f xs m arbitrary: ys n rule: run_ends.induct) (auto intro!: sbind_cong split: expr.splits const.splits)

lemma run_steps_cong [fundef_cong]:
  "x = x' \<Longrightarrow> o1 = o2 \<Longrightarrow> l = l' \<Longrightarrow> xs = ys \<Longrightarrow> m = n \<Longrightarrow> (\<And>e s. e \<in> set ys \<Longrightarrow> f e s = g e s) \<Longrightarrow>
   run_steps f x o1 l xs m = run_steps g x' o2 l' ys n"
proof (induction f x o1 l xs m arbitrary: ys n x' o2 l' rule: run_steps.induct)
  case (2 f x out last_t t rest m)
  have e: "f e s = g e s" if "e \<in> set (t # rest)" for e s using 2 that by auto
  show ?case using 2 by (auto simp: e intro!: sbind_cong split: list.splits)
qed simp

lemma run_day_cong [fundef_cong]:
  "xs = ys \<Longrightarrow> p = p' \<Longrightarrow> d = d' \<Longrightarrow> m = n \<Longrightarrow> (\<And>x s. x \<in> set ys \<Longrightarrow> f x s = g x s) \<Longrightarrow> run_day f xs p d m = run_day g ys p' d' n"
proof (induction f xs p d m arbitrary: ys n p' d' rule: run_day.induct)
  case (2 f x xs place deg m)
  have e: "f x s = g x s" for s using 2 by auto
  show ?case using 2 by (auto simp: e intro!: sbind_cong split: expr.splits const.splits option.splits)
qed simp

text \<open>The calls that need no evaluation of their arguments, and what \<open>ema()\<close> and \<open>hysteresis()\<close> remember.\<close>

definition prev_value :: "eval_ctx \<Rightarrow> expr list \<Rightarrow> pnum res" where
  "prev_value c args = (case args of
        [] \<Rightarrow> Inl Crash
      | a # _ \<Rightarrow> (case cx_prev c of
            None \<Rightarrow> Inl Missing
          | Some pv \<Rightarrow> (case ref_name a of
                None \<Rightarrow> Inl TypeErr
              | Some r \<Rightarrow> (case of_pyval (pv r) of None \<Rightarrow> Inl Missing | Some v \<Rightarrow> Inr v))))"

definition oldest_age :: "eval_ctx \<Rightarrow> expr list \<Rightarrow> pnum res" where
  "oldest_age c args = (case args of
        [] \<Rightarrow> Inl Crash
      | a # _ \<Rightarrow> (case cx_age c of
            None \<Rightarrow> Inl Missing
          | Some age \<Rightarrow> (case those (map age (refs a)) of
                Some (t # ts) \<Rightarrow> Inr (NFloat (py_round_dec (fold max ts t) 1))
              | _ \<Rightarrow> Inl Missing)))"

definition ema_next :: "eval_ctx \<Rightarrow> nat \<times> nat \<Rightarrow> rat \<Rightarrow> rat \<Rightarrow> memo option \<Rightarrow> pnum res \<times> memo option" where
  "ema_next c p x tau m =
     (let now = ev_mono (cx_env c);
          y = (case (case m of None \<Rightarrow> None | Some mm \<Rightarrow> dict_get (mm_ema mm) p) of
                 None \<Rightarrow> x
               | Some (y0, t0) \<Rightarrow> y0 + (1 - ev_exp (cx_env c) (- max 0 (now - t0) / tau)) * (x - y0))
      in (Inr (NFloat y), map_option (\<lambda>mm. mm\<lparr>mm_ema := dict_set p (y, now) (mm_ema mm)\<rparr>) m))"

definition hysteresis_next :: "nat \<times> nat \<Rightarrow> pnum \<Rightarrow> pnum \<Rightarrow> pnum \<Rightarrow> memo option \<Rightarrow> pnum res \<times> memo option" where
  "hysteresis_next p x lo hi m =
     sbind (less_eq hi lo, m) (\<lambda>wrong m.
       if wrong then (Inl ExprError, m)
       else sbind (less_eq hi x, m) (\<lambda>up m. sbind (if up then Inr False else less_eq x lo, m) (\<lambda>down m.
         let state = (case m of None \<Rightarrow> None | Some mm \<Rightarrow> dict_get (mm_hysteresis mm) p);
             out = (if up then 1 else if down then 0 else case state of None \<Rightarrow> 0 | Some s \<Rightarrow> s)
         in (Inr (NInt out), map_option (\<lambda>mm. mm\<lparr>mm_hysteresis := dict_set p out (mm_hysteresis mm)\<rparr>) m))))"

definition sun_value :: "eval_ctx \<Rightarrow> bool \<Rightarrow> expr list \<Rightarrow> pnum res" where
  "sun_value c elevation args =
     ebind (case args of [] \<Rightarrow> Inr (CStr ''site'') | Constant k # _ \<Rightarrow> Inr k | _ \<Rightarrow> Inl Crash) (\<lambda>place.
       case cx_sun c place of None \<Rightarrow> Inl Missing
       | Some (tr, app, az) \<Rightarrow> Inr (NFloat (py_round_dec (if elevation then app else az) 2)))"

definition day_value :: "eval_ctx \<Rightarrow> const \<times> rat option \<Rightarrow> pnum res" where
  "day_value c pd = (case cx_sun c (fst pd) of None \<Rightarrow> Inl Missing
     | Some (tr, app, az) \<Rightarrow> Inr (NBool (case snd pd of None \<Rightarrow> SUNRISE_DEG < tr | Some d \<Rightarrow> d < app)))"

definition attr_value :: "eval_ctx \<Rightarrow> expr list \<Rightarrow> pnum res" where
  "attr_value c args =
     (if list_ex (\<lambda>a. case a of Constant k \<Rightarrow> False | _ \<Rightarrow> True) (take 4 args) then Inl Crash
      else case args of
          [Constant t, Constant k, Constant f] \<Rightarrow>
            (case cx_attr c t k f of VInt n \<Rightarrow> Inr (NInt n) | VFloat q \<Rightarrow> Inr (NFloat q) | _ \<Rightarrow> Inl Missing)
        | _ \<Rightarrow> Inl ValueErr)"

definition rule_value :: "eval_ctx \<Rightarrow> string \<Rightarrow> expr list \<Rightarrow> pnum res" where
  "rule_value c stat args = (case args of
        [] \<Rightarrow> Inl Crash
      | Constant (CStr s) # _ \<Rightarrow>
          if rule_arg s then (case of_pyval (cx_rule_stats c s stat) of None \<Rightarrow> Inl Missing | Some v \<Rightarrow> Inr v) else Inl ExprError
      | _ \<Rightarrow> Inl ExprError)"

definition call_func :: "env \<Rightarrow> string \<Rightarrow> pnum list \<Rightarrow> pnum res" where
  "call_func ev fn args =
     (case (fn = ''round'', args) of
        (True, [x, nd]) \<Rightarrow> (case plain_number nd of
            None \<Rightarrow> Inl ExprError
          | Some q \<Rightarrow> if MAX_ROUND_DIGITS < \<bar>q\<bar> then Inl ExprError else apply_func ev fn [x, NInt (py_trunc q)])
      | _ \<Rightarrow> apply_func ev fn args)"

text \<open>A call, given how to evaluate an argument.\<close>

type_synonym evaluator = "expr \<Rightarrow> memo option \<Rightarrow> pnum res \<times> memo option"

definition first_call :: "eval_ctx \<Rightarrow> evaluator \<Rightarrow> expr list \<Rightarrow> memo option \<Rightarrow> pnum res \<times> memo option" where
  "first_call c f args m =
     (case (if cx_stale c = None then (None, m) else run_first f (stale_refs (cx_stale c)) args m) of
        (Some r, m1) \<Rightarrow> (r, m1)
      | (None, m1) \<Rightarrow> (case run_first f (\<lambda>_. False) args m1 of (Some r, m2) \<Rightarrow> (r, m2) | (None, m2) \<Rightarrow> (Inl Missing, m2)))"

definition fresh_call :: "eval_ctx \<Rightarrow> evaluator \<Rightarrow> bool \<Rightarrow> expr list \<Rightarrow> memo option \<Rightarrow> pnum res \<times> memo option" where
  "fresh_call c f count args m =
     sbind (run_fresh f (cx_fresh_stale c) args m) (\<lambda>n m1. (Inr (NInt (if count then n else if n \<noteq> 0 then 1 else 0)), m1))"

definition steps_call :: "evaluator \<Rightarrow> expr list \<Rightarrow> memo option \<Rightarrow> pnum res \<times> memo option" where
  "steps_call f args m =
     (case args of
        [] \<Rightarrow> (Inl Crash, m)
      | [x] \<Rightarrow> sbind (f x m) (\<lambda>_ m1. (Inl Crash, m1))
      | x # below # ts \<Rightarrow> sbind (f x m) (\<lambda>xv m1. sbind (f below m1) (\<lambda>out m2. run_steps f xv out None ts m2)))"

text \<open>The value of \<open>ema()\<close> and \<open>hysteresis()\<close> is a number; then come the other arguments.\<close>

definition numeric_arg :: "evaluator \<Rightarrow> expr \<Rightarrow> memo option \<Rightarrow> (pnum \<times> rat) res \<times> memo option" where
  "numeric_arg f x m = sbind (f x m) (\<lambda>v m1. (case plain_number v of None \<Rightarrow> Inl ExprError | Some q \<Rightarrow> Inr (v, q), m1))"

definition ema_call :: "eval_ctx \<Rightarrow> evaluator \<Rightarrow> expr list \<Rightarrow> nat \<times> nat \<Rightarrow> memo option \<Rightarrow> pnum res \<times> memo option" where
  "ema_call c f args p m =
     (case args of
        [] \<Rightarrow> (Inl Crash, m)
      | [x] \<Rightarrow> sbind (numeric_arg f x m) (\<lambda>_ m1. (Inl Crash, m1))
      | x # t # _ \<Rightarrow> sbind (numeric_arg f x m) (\<lambda>xq m1. sbind (numeric_arg f t m1) (\<lambda>tq m2.
          if snd tq \<le> 0 then (Inl ExprError, m2) else ema_next c p (snd xq) (snd tq) m2)))"

definition hysteresis_call :: "evaluator \<Rightarrow> expr list \<Rightarrow> nat \<times> nat \<Rightarrow> memo option \<Rightarrow> pnum res \<times> memo option" where
  "hysteresis_call f args p m =
     (case args of
        [] \<Rightarrow> (Inl Crash, m)
      | [x] \<Rightarrow> sbind (numeric_arg f x m) (\<lambda>_ m1. (Inl Crash, m1))
      | [x, lo] \<Rightarrow> sbind (numeric_arg f x m) (\<lambda>_ m1. sbind (f lo m1) (\<lambda>_ m2. (Inl Crash, m2)))
      | x # lo # hi # _ \<Rightarrow> sbind (numeric_arg f x m) (\<lambda>xq m1. sbind (f lo m1) (\<lambda>lv m2. sbind (f hi m2) (\<lambda>hv m3.
          hysteresis_next p (fst xq) lv hv m3))))"

definition between_call :: "eval_ctx \<Rightarrow> evaluator \<Rightarrow> expr list \<Rightarrow> memo option \<Rightarrow> pnum res \<times> memo option" where
  "between_call c f args m =
     sbind (run_ends f args m) (\<lambda>hs m1. (case hs of a # b # _ \<Rightarrow> Inr (NBool (between (cx_env c) a b)) | _ \<Rightarrow> Inl Crash, m1))"

definition eval_call :: "eval_ctx \<Rightarrow> evaluator \<Rightarrow> string \<Rightarrow> expr list \<Rightarrow> nat \<times> nat \<Rightarrow> memo option \<Rightarrow> pnum res \<times> memo option" where
  "eval_call c f fn args p m =
     (if fn = ''prev'' then (prev_value c args, m)
      else if fn = ''first'' then first_call c f args m
      else if fn = ''fresh'' \<or> fn = ''count_fresh'' then fresh_call c f (fn = ''count_fresh'') args m
      else if fn = ''age'' then (oldest_age c args, m)
      else if fn = ''steps'' then steps_call f args m
      else if fn = ''absent'' then (Inl Missing, m)
      else if fn = ''ema'' then ema_call c f args p m
      else if fn = ''hysteresis'' then hysteresis_call f args p m
      else if fn = ''between'' then between_call c f args m
      else if fn = ''sun_elevation'' \<or> fn = ''sun_azimuth'' then (sun_value c (fn = ''sun_elevation'') args, m)
      else if fn = ''is_day'' then sbind (run_day f args (CStr ''site'') None m) (\<lambda>pd m1. (day_value c pd, m1))
      else if fn = ''attr'' then (attr_value c args, m)
      else if fn \<in> set RULE_STATS then (rule_value c fn args, m)
      else sbind (run_list f args m) (\<lambda>vs m1. (call_func (cx_env c) fn vs, m1)))"

lemma steps_call_cong:
  assumes f: "\<And>x s. x \<in> set args \<Longrightarrow> f x s = g x s"
  shows "steps_call f args m = steps_call g args m"
proof -
  consider "args = []" | x where "args = [x]" | x b ts where "args = x # b # ts" by (metis neq_Nil_conv)
  then show ?thesis
  proof cases
    case (3 x b ts)
    have r: "run_steps f xv out None ts = run_steps g xv out None ts" for xv out
      by (rule ext, rule run_steps_cong [OF refl refl refl refl refl], rule f) (simp add: 3)
    have e: "f x s = g x s" "f b s = g b s" for s using f 3 by simp_all
    show ?thesis by (simp add: steps_call_def 3 r e)
  qed (simp_all add: steps_call_def f)
qed

lemma eval_call_cong [fundef_cong]:
  assumes "c = c'" "fn = fn'" "args = args'" "p = p'" "m = m'" and f: "\<And>x s. x \<in> set args' \<Longrightarrow> f x s = g x s"
  shows "eval_call c f fn args p m = eval_call c' g fn' args' p' m'"
proof -
  have n: "numeric_arg f x s = numeric_arg g x s" if "x \<in> set args'" for x s using f [OF that] by (simp add: numeric_arg_def)
  have "run_first f skip args' = run_first g skip args'" for skip by (rule ext, rule run_first_cong [OF refl refl refl f])
  then have "first_call c f args' m = first_call c g args' m" by (simp only: first_call_def)
  moreover have "run_fresh f st args' s = run_fresh g st args' s" for st s by (rule run_fresh_cong [OF refl refl refl f])
  then have "fresh_call c f b args' m = fresh_call c g b args' m" for b by (simp add: fresh_call_def)
  moreover have "steps_call f args' m = steps_call g args' m" by (rule steps_call_cong [OF f])
  moreover have "ema_call c f args' p m = ema_call c g args' p m"
    by (cases args'; cases "tl args'") (auto simp: ema_call_def n intro!: sbind_cong)
  moreover have "hysteresis_call f args' p m = hysteresis_call g args' p m"
    by (cases args'; cases "tl args'"; cases "tl (tl args')") (auto simp: hysteresis_call_def n f intro!: sbind_cong)
  moreover have "between_call c f args' m = between_call c g args' m" 
    unfolding between_call_def by (simp only: run_ends_cong [OF refl refl f])
  moreover have "run_day f args' k d m = run_day g args' k d m" for k d by (rule run_day_cong [OF refl refl refl refl f])
  moreover have "run_list f args' m = run_list g args' m" by (rule run_list_cong [OF refl refl f])
  ultimately show ?thesis using assms(1-5) by (simp add: eval_call_def)
qed

lemma compare_size [termination_simp]:
  assumes "(op, e) \<in> set cs"
  shows "size e < Suc (size_list (size_prod (\<lambda>_. 0) size) cs + size l)"
proof -
  have "size_prod (\<lambda>_. 0) size (op, e) \<le> size_list (size_prod (\<lambda>_. 0) size) cs" by (metis assms size_list_estimation' order_refl)
  then show ?thesis by simp
qed

fun eval :: "eval_ctx \<Rightarrow> evaluator" where
  "eval c (Constant k) m = (const_value k, m)"
| "eval c (Name x) m =
     (if x = ''dt'' then Inr (NFloat (cx_dt c)) else case constant_of (cx_env c) x of Some v \<Rightarrow> Inr v | None \<Rightarrow> lookup_ref c x, m)"
| "eval c (Attribute e a) m = (case ref_name (Attribute e a) of None \<Rightarrow> Inl ExprError | Some r \<Rightarrow> lookup_ref c r, m)"
| "eval c (Subscript e i) m = (case ref_name (Subscript e i) of None \<Rightarrow> Inl ExprError | Some r \<Rightarrow> lookup_ref c r, m)"
| "eval c (BinOp l op r) m =
     (if op = OtherBin then (Inl Crash, m)
      else sbind (eval c l m) (\<lambda>a m1. sbind (eval c r m1) (\<lambda>b m2. (apply_bin (cx_env c) op a b, m2))))"
| "eval c (UnaryOp op e) m =
     (if op = OtherUnary then (Inl Crash, m) else sbind (eval c e m) (\<lambda>a m1. (apply_unary op a, m1)))"
| "eval c (BoolOp every es) m =
     sbind (run_list (eval c) es m) (\<lambda>vs m1. (Inr (NBool (if every then list_all truth vs else list_ex truth vs)), m1))"
| "eval c (Compare l cs) m = (case eval c l m of (r, m1) \<Rightarrow> (case r of Inl e \<Rightarrow> (Inl e, m1) | Inr left \<Rightarrow> run_cmps (eval c) left cs m1))"
| "eval c (IfExp b t e) m = sbind (eval c t m) (\<lambda>g m1. if truth g then eval c b m1 else eval c e m1)"
| "eval c (Call f args kw p) m = (case f of Name fn \<Rightarrow> eval_call c (eval c) fn args p m | _ \<Rightarrow> (Inl Crash, m))"
| "eval c (OtherNode es) m = (Inl ExprError, m)"

text \<open>\<open>evaluate_tree\<close>: the errors of Python's arithmetic become the module's own, and the result is checked.\<close>

definition leaves_engine :: "pnum \<Rightarrow> pnum res" where
  "leaves_engine v = (case v of NInt n \<Rightarrow> if MAX_RESULT_BITS < int_bits n then Inl ExprError else Inr v | _ \<Rightarrow> Inr v)"

definition evaluate_tree :: "eval_ctx \<Rightarrow> expr \<Rightarrow> memo option \<Rightarrow> pnum res \<times> memo option" where
  "evaluate_tree c e m =
     (case eval c e m of
        (Inl er, m1) \<Rightarrow> (Inl (if er = ZeroDiv \<or> er = ValueErr \<or> er = TypeErr then ExprError else er), m1)
      | (Inr v, m1) \<Rightarrow> (leaves_engine v, m1))"

section \<open>Validation\<close>

text \<open>
  \<open>validate_expression\<close> on the tree: whether no node is refused, and the names read. The places
  that exist (None: not asked or not known) and the attribute catalogue are arguments.
\<close>

definition TEXT_FUNCS :: "string list" where
  "TEXT_FUNCS = ''between'' # RULE_STATS @ SUN_FUNCS @ [''attr'']"

definition arity_of :: "string \<Rightarrow> nat \<times> nat option" where
  "arity_of f =
     (if f = ''min'' \<or> f = ''max'' then (2, None) else if f = ''avg'' then (1, None)
      else if f = ''round'' \<or> f = ''popcount'' then (1, Some 2)
      else if f \<in> {''abs'', ''sqrt'', ''floor'', ''ceil''} \<or> f \<in> set RULE_STATS then (1, Some 1)
      else if f = ''pow'' \<or> f = ''between'' then (2, Some 2)
      else if f = ''clamp'' \<or> f = ''attr'' then (3, Some 3)
      else if f = ''sun_elevation'' \<or> f = ''sun_azimuth'' then (0, Some 1)
      else if f = ''is_day'' then (0, Some 2)
      else if f \<in> {''hour'', ''minute'', ''weekday'', ''day'', ''month''} then (0, Some 0)
      else (0, None))"

definition arity_ok :: "string \<Rightarrow> nat \<Rightarrow> bool" where
  "arity_ok f n = (fst (arity_of f) \<le> n \<and> (case snd (arity_of f) of None \<Rightarrow> True | Some hi \<Rightarrow> n \<le> hi))"

definition is_text :: "expr \<Rightarrow> bool" where
  "is_text e = (case e of Constant (CStr s) \<Rightarrow> True | _ \<Rightarrow> False)"

fun const_number :: "bool \<Rightarrow> expr \<Rightarrow> rat option" where
  "const_number bools (Constant (CInt n)) = Some (of_int n)"
| "const_number bools (Constant (CFloat q)) = Some q"
| "const_number bools (Constant (CBool b)) = (if bools then Some (if b then 1 else 0) else None)"
| "const_number bools _ = None"

definition text_ok :: "string list option \<Rightarrow> string \<Rightarrow> nat \<Rightarrow> string \<Rightarrow> bool" where
  "text_ok places fn i s =
     (let place = (fn \<in> set SUN_FUNCS \<or> fn = ''attr'' \<and> i = 0)
      in (if fn = ''attr'' \<and> 0 < i then attr_name_arg s else if fn = ''between'' then time_arg s
          else if fn \<in> set RULE_STATS then rule_arg s else place_arg s)
         \<and> (place \<and> s \<noteq> ''site'' \<longrightarrow> (case places of None \<Rightarrow> True | Some ps \<Rightarrow> s \<in> set ps))
         \<and> (fn = ''between'' \<longrightarrow> (case hours_of s of Inl _ \<Rightarrow> False | Inr _ \<Rightarrow> True)))"

definition text_arg_ok :: "string list option \<Rightarrow> string \<Rightarrow> nat \<Rightarrow> expr \<Rightarrow> bool" where
  "text_arg_ok places fn i a =
     (case a of Constant (CStr s) \<Rightarrow> text_ok places fn i s
      | _ \<Rightarrow> \<not> (fn \<in> set RULE_STATS \<or> fn = ''attr'' \<or> fn = ''sun_elevation'' \<or> fn = ''sun_azimuth''))"

text \<open>\<open>is_day(degrees, "place")\<close>: at most one of each, the degrees first and no truth value.\<close>

definition day_args_ok :: "expr list \<Rightarrow> bool" where
  "day_args_ok args =
     (let nums = filter (\<lambda>a. \<not> is_text a) args; strs = filter is_text args
      in \<not> list_ex (\<lambda>a. case a of Constant (CBool _) \<Rightarrow> True | Name x \<Rightarrow> x = ''true'' \<or> x = ''false'' | _ \<Rightarrow> False) nums
         \<and> length nums \<le> 1 \<and> length strs \<le> 1 \<and> \<not> (nums \<noteq> [] \<and> strs \<noteq> [] \<and> is_text (hd args)))"

definition attr_args_ok :: "(string \<Rightarrow> string list option) \<Rightarrow> expr list \<Rightarrow> bool" where
  "attr_args_ok catalog args =
     (case args of
        [_, Constant (CStr cat), Constant (CStr name)] \<Rightarrow> (case catalog cat of None \<Rightarrow> False | Some names \<Rightarrow> name \<in> set names)
      | _ \<Rightarrow> True)"

definition texts_ok :: "string list option \<Rightarrow> (string \<Rightarrow> string list option) \<Rightarrow> string \<Rightarrow> expr list \<Rightarrow> bool" where
  "texts_ok places catalog fn args =
     (fn \<in> set TEXT_FUNCS \<longrightarrow>
        list_all (\<lambda>(i, a). text_arg_ok places fn i a) (enumerate 0 args)
        \<and> (fn = ''is_day'' \<longrightarrow> day_args_ok args) \<and> (fn = ''attr'' \<longrightarrow> attr_args_ok catalog args))"

fun every_second :: "'a list \<Rightarrow> 'a list" where
  "every_second (x # y # xs) = x # every_second xs"
| "every_second xs = xs"

definition steps_args_ok :: "expr list \<Rightarrow> bool" where
  "steps_args_ok args =
     (4 \<le> length args \<and> even (length args) \<and>
      (case those (map (const_number True) (every_second (drop 2 args))) of
         None \<Rightarrow> True | Some ts \<Rightarrow> sorted_wrt (<) ts))"

definition round_literal_ok :: "expr list \<Rightarrow> bool" where
  "round_literal_ok args =
     (case args of
        [_, a] \<Rightarrow> (case const_number False (case a of UnaryOp USub e \<Rightarrow> e | _ \<Rightarrow> a) of
           None \<Rightarrow> True | Some q \<Rightarrow> \<bar>q\<bar> \<le> MAX_ROUND_DIGITS)
      | _ \<Rightarrow> True)"

definition call_ok :: "string \<Rightarrow> expr list \<Rightarrow> bool" where
  "call_ok fn args =
     (let n = length args
      in if fn = ''prev'' then (case args of [a] \<Rightarrow> ref_name a \<noteq> None | _ \<Rightarrow> False)
         else if fn = ''first'' then 2 \<le> n
         else if fn = ''fresh'' \<or> fn = ''age'' then n = 1
         else if fn = ''count_fresh'' then args \<noteq> []
         else if fn = ''steps'' then steps_args_ok args
         else if fn = ''absent'' then args = []
         else if fn = ''ema'' then (case args of
             [x, t] \<Rightarrow> (case const_number False t of None \<Rightarrow> True | Some q \<Rightarrow> 0 < q) | _ \<Rightarrow> False)
         else if fn = ''hysteresis'' then (case args of
             [x, lo, hi] \<Rightarrow> (case (const_number False lo, const_number False hi) of (Some l, Some h) \<Rightarrow> l < h | _ \<Rightarrow> True)
           | _ \<Rightarrow> False)
         else (fn \<in> set FUNC_NAMES \<or> fn \<in> set TEXT_FUNCS) \<and> arity_ok fn n \<and> (fn = ''round'' \<longrightarrow> round_literal_ok args))"

text \<open>\<open>text\<close>: the node is an argument of a function that takes text.\<close>

fun valid :: "string list option \<Rightarrow> (string \<Rightarrow> string list option) \<Rightarrow> bool \<Rightarrow> expr \<Rightarrow> bool" where
  "valid ps cat text (Constant k) = (case k of CStr s \<Rightarrow> text | COther \<Rightarrow> False | _ \<Rightarrow> True)"
| "valid ps cat text (Name x) = True"
| "valid ps cat text (Attribute e a) = (case e of Name _ \<Rightarrow> True | _ \<Rightarrow> False)"
| "valid ps cat text (Subscript e i) = (ref_name (Subscript e i) \<noteq> None \<and> valid ps cat False e \<and> valid ps cat False i)"
| "valid ps cat text (BinOp l op r) = (op \<noteq> OtherBin \<and> valid ps cat False l \<and> valid ps cat False r)"
| "valid ps cat text (UnaryOp op e) = (op \<noteq> OtherUnary \<and> valid ps cat False e)"
| "valid ps cat text (BoolOp b es) = list_all (valid ps cat False) es"
| "valid ps cat text (Compare l cs) = (valid ps cat False l \<and> list_all (\<lambda>(op, e). op \<noteq> OtherCmp \<and> valid ps cat False e) cs)"
| "valid ps cat text (IfExp b t e) = (valid ps cat False b \<and> valid ps cat False t \<and> valid ps cat False e)"
| "valid ps cat text (Call f args kw p) =
     (\<not> kw \<and> (case f of
        Name fn \<Rightarrow> call_ok fn args \<and> texts_ok ps cat fn args \<and> list_all (valid ps cat (fn \<in> set TEXT_FUNCS)) args
      | _ \<Rightarrow> False))"
| "valid ps cat text (OtherNode es) = False"

definition validate_expression :: "string list option \<Rightarrow> (string \<Rightarrow> string list option) \<Rightarrow> expr \<Rightarrow> string list option" where
  "validate_expression places catalog e = (if valid places catalog False e then Some (sort (remdups (refs e))) else None)"

end
