(* ===== verification/FormulaSafety.thy ===== *)
theory FormulaSafety
  imports Expressions
begin

text \<open>
  What the formula engine guarantees (\<open>Expressions\<close>): a formula that was validated gives a value
  or one of the module's two errors, whatever the registers hold; its value depends on the
  registers it names only; and no power or result grows past its bound.
\<close>

section \<open>A validated formula never crashes\<close>

named_theorems no_crash \<open>operations that raise only what the engine catches\<close>

lemma ebind_crash: "ebind r f = Inl Crash \<longleftrightarrow> r = Inl Crash \<or> (\<exists>v. r = Inr v \<and> f v = Inl Crash)"
  by (cases r) (simp_all add: ebind_def)

lemma numeric_no_crash:
  "(\<And>x y. f x y \<noteq> Inl Crash) \<Longrightarrow> (\<And>x y. g x y \<noteq> Inl Crash) \<Longrightarrow> (\<And>x y. h x y \<noteq> Inl Crash) \<Longrightarrow> numeric f g h a b \<noteq> Inl Crash"
  unfolding numeric_def by (simp split: option.split prod.split)

lemma py_add_crash [no_crash]: "py_add a b \<noteq> Inl Crash"
proof -
  let ?n = "\<lambda>a b. numeric (\<lambda>x y. Inr (NInt (x + y))) (\<lambda>x y. Inr (NFloat (x + y))) (\<lambda>(x, y) (u, v). Inr (NComplex (x + u) (y + v))) a b"
  have "?n a b \<noteq> Inl Crash" for a b by (rule numeric_no_crash) (auto split: prod.split)
  then show ?thesis unfolding py_add_def by (simp split: pnum.split)
qed

lemma py_sub_crash [no_crash]: "py_sub a b \<noteq> Inl Crash"
  unfolding py_sub_def by (rule numeric_no_crash) (auto split: prod.split)

lemma py_mul_crash [no_crash]: "py_mul a b \<noteq> Inl Crash"
proof -
  let ?n = "\<lambda>a b. numeric (\<lambda>x y. Inr (NInt (x * y))) (\<lambda>x y. Inr (NFloat (x * y)))
              (\<lambda>(x, y) (u, v). Inr (NComplex (x * u - y * v) (x * v + y * u))) a b"
  have "?n a b \<noteq> Inl Crash" for a b by (rule numeric_no_crash) (auto split: prod.split)
  then show ?thesis unfolding py_mul_def by (simp split: pnum.split option.split)
qed

lemma py_div_crash [no_crash]: "py_div a b \<noteq> Inl Crash"
  unfolding py_div_def by (rule numeric_no_crash) (auto simp: Let_def split: prod.split)

lemma py_mod_crash [no_crash]: "py_mod ev a b \<noteq> Inl Crash"
proof -
  let ?n = "\<lambda>a b. numeric (\<lambda>x y. if y = 0 then Inl ZeroDiv else Inr (NInt (x mod y)))
          (\<lambda>x y. if y = 0 then Inl ZeroDiv else Inr (NFloat (x - y * of_int \<lfloor>x / y\<rfloor>))) (\<lambda>_ _. Inl TypeErr) a b"
  have "?n a b \<noteq> Inl Crash" for a b by (rule numeric_no_crash) auto
  then show ?thesis unfolding py_mod_def by (simp split: pnum.split option.split)
qed

lemma py_floordiv_crash [no_crash]: "py_floordiv a b \<noteq> Inl Crash"
  unfolding py_floordiv_def by (rule numeric_no_crash) auto

lemma py_power_crash [no_crash]: "py_power ev a b \<noteq> Inl Crash"
  unfolding py_power_def by (rule numeric_no_crash) (auto simp: Let_def split: prod.split)

lemma py_unary_crash [no_crash]: "py_neg a \<noteq> Inl Crash" "py_pos a \<noteq> Inl Crash"
  by (auto simp: py_neg_def py_pos_def split: pnum.split option.split)

lemma less_crash [no_crash]: "less a b \<noteq> Inl Crash" "less_eq a b \<noteq> Inl Crash"
  by (auto simp: less_def less_eq_def ebind_crash split: pnum.split option.split)

lemma py_best_crash: "(\<And>x y. better x y \<noteq> Inl Crash) \<Longrightarrow> py_best better b xs \<noteq> Inl Crash"
  by (induction xs arbitrary: b) (auto split: sum.splits)

lemma py_extreme_crash [no_crash]: "py_min xs \<noteq> Inl Crash" "py_max xs \<noteq> Inl Crash"
  using py_best_crash [of less] py_best_crash [of "\<lambda>x y. less y x"]
  by (auto simp: py_min_def py_max_def py_extreme_def less_crash simp del: py_best.simps split: list.split pnum.split)

lemma conversion_crash [no_crash]: "py_abs ev a \<noteq> Inl Crash" "round_num a \<noteq> Inl Crash" "round_to a n \<noteq> Inl Crash" "float_of a \<noteq> Inl Crash"
  "real_arg a \<noteq> Inl Crash" "int_of a \<noteq> Inl Crash" "math_pow ev x y \<noteq> Inl Crash" "hours_of s \<noteq> Inl Crash"
  by (auto simp: py_abs_def round_num_def round_to_def float_of_def real_arg_def int_of_def math_pow_def hours_of_def Let_def
      split: pnum.split option.split)

lemma py_sum_crash [no_crash]: "py_sum a xs \<noteq> Inl Crash"
  by (induction xs arbitrary: a) (auto simp: py_add_crash split: sum.split)

lemma collect_crash [no_crash]: "py_avg xs \<noteq> Inl Crash" "clamp x lo hi \<noteq> Inl Crash" "popcount ev x y \<noteq> Inl Crash"
  by (auto simp: py_avg_def clamp_def popcount_def ebind_crash no_crash)

lemma apply_func_crash: "f \<in> set FUNC_NAMES \<Longrightarrow> apply_func ev f args \<noteq> Inl Crash"
  by (auto simp: apply_func_def FUNC_NAMES_def ebind_crash no_crash split: list.split option.split)

lemma call_func_crash: "f \<in> set FUNC_NAMES \<Longrightarrow> call_func ev f args \<noteq> Inl Crash"
  by (auto simp: call_func_def apply_func_crash split: list.split option.split bool.split)

lemma bounded_power_crash [no_crash]: "bounded_power ev a b \<noteq> Inl Crash"
  by (auto simp: bounded_power_def ebind_crash no_crash split: option.split)

lemma apply_op_crash: "op \<noteq> OtherBin \<Longrightarrow> apply_bin ev op a b \<noteq> Inl Crash" "uop \<noteq> OtherUnary \<Longrightarrow> apply_unary uop a \<noteq> Inl Crash"
  "cop \<noteq> OtherCmp \<Longrightarrow> apply_cmp cop a b \<noteq> Inl Crash"
  by (auto simp: apply_bin_def apply_unary_def apply_cmp_def no_crash split: bin_op.split unary_op.split cmp_op.split)

definition safe :: "'a res \<times> 's \<Rightarrow> bool" where
  "safe r = (fst r \<noteq> Inl Crash)"

lemma safe_simps [simp]: "safe (Inr v, m)" "safe (Inl e, m) \<longleftrightarrow> e \<noteq> Crash"
  by (simp_all add: safe_def)

lemma safe_pair: "safe (r, m) \<longleftrightarrow> r \<noteq> Inl Crash"
  by (simp add: safe_def)

lemma safe_bind: "safe r \<Longrightarrow> (\<And>v m. r = (Inr v, m) \<Longrightarrow> safe (f v m)) \<Longrightarrow> safe (sbind r f)"
  by (cases r; cases "fst r") (auto simp: safe_def)

lemma run_list_safe: "(\<And>x s. x \<in> set xs \<Longrightarrow> safe (f x s)) \<Longrightarrow> safe (run_list f xs m)"
  by (induction xs arbitrary: m) (auto intro!: safe_bind)

lemma run_cmps_safe:
  "(\<And>op x s. (op, x) \<in> set cs \<Longrightarrow> op \<noteq> OtherCmp \<and> safe (f x s)) \<Longrightarrow> safe (run_cmps f l cs m)"
proof (induction cs arbitrary: l m)
  case (Cons c cs)
  obtain op e where c: "c = (op, e)" by fastforce
  have h: "op \<noteq> OtherCmp" "safe (f e s)" for s using Cons.prems c by auto
  have "safe (run_cmps f l cs m)" for l m using Cons.prems by (intro Cons.IH) auto
  then show ?case unfolding c by (auto simp: safe_pair apply_op_crash h intro!: safe_bind)
qed simp

definition safe_opt :: "'a res option \<times> 's \<Rightarrow> bool" where
  "safe_opt r = (fst r \<noteq> Some (Inl Crash))"

lemma run_first_safe: "(\<And>x s. x \<in> set xs \<Longrightarrow> safe (f x s)) \<Longrightarrow> safe_opt (run_first f skip xs m)"
proof (induction xs arbitrary: m)
  case (Cons x xs)
  then have "safe (f x m)" "safe_opt (run_first f skip xs m)" for m by simp_all
  then show ?case by (simp add: safe_opt_def safe_def split: prod.split sum.split) (metis fst_conv)
qed (simp add: safe_opt_def)

lemma run_fresh_safe: "(\<And>x s. x \<in> set xs \<Longrightarrow> safe (f x s)) \<Longrightarrow> safe (run_fresh f st xs m)"
proof (induction xs arbitrary: m)
  case (Cons x xs)
  then have h: "safe (f x s)" "safe (run_fresh f st xs s)" for s by simp_all
  have "safe (case f x m of (Inl e, m1) \<Rightarrow> (if e = Crash then Inl Crash else Inr False, m1) | (Inr v, m1) \<Rightarrow> (Inr True, m1))"
    using h(1) [of m] by (auto simp: safe_def split: prod.split sum.split)
  then show ?case using h(2) by (cases st) (auto intro!: safe_bind)
qed simp

lemma run_steps_safe: "(\<And>x s. x \<in> set xs \<Longrightarrow> safe (f x s)) \<Longrightarrow> even (length xs) \<Longrightarrow> safe (run_steps f x out l xs m)"
proof (induction xs arbitrary: out l m rule: every_second.induct)
  case (1 t v r)
  have h: "safe (f t s)" "safe (f v s)" for s using "1.prems"(1) by simp_all
  have i: "safe (run_steps f x o' l' r s)" for o' l' s using 1 by auto
  show ?case by (auto simp: safe_pair no_crash h i intro!: safe_bind split: option.split)
qed simp_all

lemma run_ends_safe: "(\<And>x s. x \<in> set xs \<Longrightarrow> safe (f x s)) \<Longrightarrow> safe (run_ends f xs m)"
proof (induction xs arbitrary: m)
  case (Cons x xs)
  then have h: "safe (f x s)" "safe (run_ends f xs s)" for s by simp_all
  have "safe (sbind (f x m) (\<lambda>v m1. (float_of v, m1)))" by (rule safe_bind [OF h(1)]) (simp add: safe_pair no_crash)
  then have "safe (case x of Constant (CStr s) \<Rightarrow> (if time_arg s then hours_of s else Inl ExprError, m)
       | _ \<Rightarrow> sbind (f x m) (\<lambda>v m1. (float_of v, m1)))"
    by (auto simp: safe_pair no_crash split: expr.split const.split)
  then show ?case using h(2) by (auto intro!: safe_bind)
qed simp

lemma run_ends_length: "run_ends f xs m = (Inr hs, m') \<Longrightarrow> length hs = length xs"
proof (induction xs arbitrary: m hs m')
  case (Cons x xs)
  obtain r m1 where r: "(case x of Constant (CStr s) \<Rightarrow> (if time_arg s then hours_of s else Inl ExprError, m)
       | _ \<Rightarrow> sbind (f x m) (\<lambda>v m1. (float_of v, m1))) = (r, m1)" by fastforce
  then show ?case using Cons by (cases r; cases "run_ends f xs m1"; cases "fst (run_ends f xs m1)") auto
qed simp

lemma run_day_safe: "(\<And>x s. x \<in> set xs \<Longrightarrow> safe (f x s)) \<Longrightarrow> safe (run_day f xs pl d m)"
proof (induction xs arbitrary: pl d m)
  case (Cons x xs)
  then have h: "safe (f x s)" "safe (run_day f xs pl d s)" for s pl d by simp_all
  have "safe (sbind (f x m) (\<lambda>v m1. case plain_number v of None \<Rightarrow> (Inl ExprError, m1) | Some q \<Rightarrow> run_day f xs pl (Some q) m1))"
    by (rule safe_bind [OF h(1)]) (auto simp: h(2) split: option.split)
  then show ?case by (auto simp: h(2) split: expr.split const.split)
qed simp

lemma numeric_arg_safe: "safe (f x m) \<Longrightarrow> safe (numeric_arg f x m)"
  unfolding numeric_arg_def by (rule safe_bind) (auto simp: safe_pair split: option.split)

lemma hysteresis_next_safe: "safe (hysteresis_next p x lo hi m)"
  unfolding hysteresis_next_def by (auto simp: safe_pair no_crash Let_def intro!: safe_bind)

lemma text_args:
  assumes "texts_ok ps cat fn args" "fn \<in> set TEXT_FUNCS" "fn \<in> set RULE_STATS \<or> fn = ''attr'' \<or> fn = ''sun_elevation'' \<or> fn = ''sun_azimuth''"
  shows "list_all is_text args"
proof -
  have "is_text (args ! i)" if i: "i < length args" for i
  proof -
    have "(i, args ! i) \<in> set (enumerate 0 args)" using i by (force simp: in_set_enumerate_eq)
    then have "text_arg_ok ps fn i (args ! i)" using assms(1,2) by (auto simp: texts_ok_def list_all_iff)
    then show ?thesis using assms(3) by (auto simp: text_arg_ok_def is_text_def split: expr.splits const.splits)
  qed
  then show ?thesis by (simp add: list_all_length)
qed

lemma is_text_iff: "is_text e \<longleftrightarrow> (\<exists>s. e = Constant (CStr s))"
  by (auto simp: is_text_def split: expr.splits const.splits)

lemma rule_arity: "fn \<in> set RULE_STATS \<Longrightarrow> arity_of fn = (1, Some 1)"
  by (auto simp: RULE_STATS_def arity_of_def)

lemma call_ok_special:
  "call_ok ''prev'' args = (case args of [a] \<Rightarrow> ref_name a \<noteq> None | _ \<Rightarrow> False)"
  "call_ok ''age'' args = (length args = 1)"
  "call_ok ''steps'' args = steps_args_ok args"
  "call_ok ''ema'' args = (case args of [x, t] \<Rightarrow> (case const_number False t of None \<Rightarrow> True | Some q \<Rightarrow> 0 < q) | _ \<Rightarrow> False)"
  "call_ok ''hysteresis'' args = (case args of
     [x, lo, hi] \<Rightarrow> (case (const_number False lo, const_number False hi) of (Some l, Some h) \<Rightarrow> l < h | _ \<Rightarrow> True) | _ \<Rightarrow> False)"
  by (simp_all add: call_ok_def Let_def)

text \<open>A call that validation accepts is safe when its arguments are.\<close>

lemma eval_call_safe:
  assumes f: "\<And>x s. x \<in> set args \<Longrightarrow> safe (f x s)" and ok: "call_ok fn args" "texts_ok ps cat fn args"
  shows "safe (eval_call c f fn args p m)"
proof -
  have first: "safe (first_call c f args m)"
    using run_first_safe [of args f] f by (auto simp: first_call_def safe_opt_def safe_def split: prod.splits option.splits) (metis fst_conv)+
  have fresh: "safe (fresh_call c f b args m)" for b
    unfolding fresh_call_def by (intro safe_bind run_fresh_safe f) simp_all
  have day: "safe (sbind (run_day f args (CStr ''site'') None m) (\<lambda>pd m1. (day_value c pd, m1)))"
    by (intro safe_bind run_day_safe f) (auto simp: safe_pair day_value_def split: option.split)
  have other: "safe (sbind (run_list f args m) (\<lambda>vs m1. (call_func (cx_env c) fn vs, m1)))" if "fn \<in> set FUNC_NAMES"
    by (intro safe_bind run_list_safe f) (simp_all add: safe_pair call_func_crash [OF that])
  have texts: "list_all is_text args" if "fn \<in> set RULE_STATS \<or> fn = ''attr'' \<or> fn = ''sun_elevation'' \<or> fn = ''sun_azimuth''"
    by (rule text_args [OF ok(2) _ that]) (use that in \<open>auto simp: TEXT_FUNCS_def SUN_FUNCS_def\<close>)
  have prev: "safe (prev_value c args, m)" if "fn = ''prev''"
    using ok(1) that by (auto simp: call_ok_special prev_value_def safe_pair split: list.splits option.splits)
  have age: "safe (oldest_age c args, m)" if "fn = ''age''"
    using ok(1) that by (auto simp: call_ok_special oldest_age_def safe_pair split: list.splits option.splits)
  have steps: "safe (steps_call f args m)" if "fn = ''steps''"
  proof -
    have l: "4 \<le> length args" "even (length args)" using ok(1) that by (simp_all add: call_ok_special steps_args_ok_def)
    then obtain x b ts where a: "args = x # b # ts" by (cases args; cases "tl args") auto
    have "safe (run_steps f xv out None ts s)" for xv out s using f l(2) by (intro run_steps_safe) (auto simp: a)
    then show ?thesis unfolding steps_call_def a using f a by (auto intro!: safe_bind)
  qed
  have ema: "safe (ema_call c f args p m)" if e: "fn = ''ema''"
  proof -
    obtain x t where a: "args = [x, t]" using ok(1) by (auto simp: e call_ok_special split: list.splits)
    have n: "safe (numeric_arg f x s)" "safe (numeric_arg f t s)" for s using f a by (auto intro!: numeric_arg_safe)
    show ?thesis unfolding ema_call_def a by (auto simp: ema_next_def Let_def n intro!: safe_bind)
  qed
  have hyst: "safe (hysteresis_call f args p m)" if e: "fn = ''hysteresis''"
  proof -
    obtain x l h where a: "args = [x, l, h]" using ok(1) by (auto simp: e call_ok_special split: list.splits)
    have "safe (numeric_arg f x s)" "safe (f l s)" "safe (f h s)" for s using f a by (auto intro!: numeric_arg_safe)
    then show ?thesis unfolding hysteresis_call_def a by (auto intro!: safe_bind hysteresis_next_safe)
  qed
  have arity: "fst (arity_of fn) \<le> length args" "case snd (arity_of fn) of None \<Rightarrow> True | Some hi \<Rightarrow> length args \<le> hi"
    if "fn = ''between'' \<or> fn \<in> set RULE_STATS \<or> fn = ''attr'' \<or> fn = ''sun_elevation'' \<or> fn = ''sun_azimuth''"
    using ok(1) that by (auto simp: call_ok_def Let_def arity_ok_def RULE_STATS_def)
  have betw: "safe (between_call c f args m)" if "fn = ''between''"
  proof -
    have "length args = 2" using arity that by (simp add: arity_of_def RULE_STATS_def)
    then have "run_ends f args m = (Inr hs, m') \<Longrightarrow> \<exists>a b. hs = [a, b]" for hs m' using run_ends_length
      by (metis (no_types, lifting) One_nat_def Suc_1 length_0_conv length_Suc_conv)
    then show ?thesis unfolding between_call_def by (intro safe_bind run_ends_safe f) (auto simp: safe_pair)
  qed
  have sun: "safe (sun_value c b args, m)" if "fn = ''sun_elevation'' \<or> fn = ''sun_azimuth''" for b
    using texts that by (cases args) (auto simp: sun_value_def safe_pair ebind_crash is_text_iff split: option.split)
  have attr: "safe (attr_value c args, m)" if "fn = ''attr''"
  proof -
    have "length args = 3" using arity that by (simp add: arity_of_def RULE_STATS_def)
    then obtain x y z where a: "args = [x, y, z]" by (auto simp: length_Suc_conv numeral_3_eq_3)
    show ?thesis using texts that by (auto simp: attr_value_def a safe_pair is_text_iff split: pyval.splits)
  qed
  have rule: "safe (rule_value c fn args, m)" if "fn \<in> set RULE_STATS"
  proof -
    have "length args = 1" using arity that by (simp add: rule_arity)
    then obtain x where a: "args = [x]" by (auto simp: length_Suc_conv)
    show ?thesis using texts that by (auto simp: rule_value_def a safe_pair is_text_iff split: option.splits if_splits)
  qed
  have known: "fn \<in> set FUNC_NAMES" if "fn \<notin> {''prev'', ''first'', ''fresh'', ''count_fresh'', ''age'', ''steps'', ''absent'', ''ema'',
      ''hysteresis'', ''between'', ''sun_elevation'', ''sun_azimuth'', ''is_day'', ''attr''}" "fn \<notin> set RULE_STATS"
    using ok(1) that by (auto simp: call_ok_def Let_def TEXT_FUNCS_def SUN_FUNCS_def)
  show ?thesis unfolding eval_call_def
    using first fresh day other prev age steps ema hyst betw sun attr rule known by simp
qed

lemma eval_safe: "valid ps cat tx e \<Longrightarrow> safe (eval c e m)"
proof (induction c e m arbitrary: tx rule: eval.induct)
  case (1 c k m)
  then show ?case by (auto simp: const_value_def safe_pair split: const.split)
next
  case (2 c x m)
  then show ?case by (auto simp: safe_pair constant_of_def lookup_ref_def split: option.split pyval.split)
next
  case (3 c e a m)
  then show ?case by (auto simp: safe_pair lookup_ref_def split: option.split pyval.split)
next
  case (4 c e i m)
  then show ?case by (auto simp: safe_pair lookup_ref_def split: option.split pyval.split)
next
  case (5 c l op r m)
  then show ?case by (auto simp: safe_pair apply_op_crash intro!: safe_bind)
next
  case (6 c op e m)
  then show ?case by (auto simp: safe_pair apply_op_crash intro!: safe_bind)
next
  case (7 c every es m)
  then have "safe (run_list (eval c) es m)" by (intro run_list_safe) (auto simp: list_all_iff)
  then show ?case by (auto intro!: safe_bind)
next
  case (8 c l cs m)
  have l: "safe (eval c l m)" using "8.IH"(1) "8.prems" by (metis valid.simps(8))
  show ?case
  proof (cases "eval c l m")
    case (Pair r m1)
    show ?thesis
    proof (cases r)
      case (Inr left)
      have "safe (run_cmps (eval c) left cs m1)"
      proof (rule run_cmps_safe)
        fix op x s
        assume "(op, x) \<in> set cs"
        then show "op \<noteq> OtherCmp \<and> safe (eval c x s)"
          using "8.IH"(2) [OF Pair [symmetric] Inr, of x] "8.prems" by (force simp: list_all_iff)
      qed
      then show ?thesis using Pair Inr by simp
    qed (use l Pair in simp)
  qed
next
  case (9 c b t e m)
  then show ?case by (auto intro!: safe_bind)
next
  case (10 c f args kw p m)
  then obtain fn where f: "f = Name fn" by (cases f) auto
  have "safe (eval_call c (eval c) fn args p m)"
    by (rule eval_call_safe) (use 10 f in \<open>auto simp: list_all_iff\<close>)
  then show ?case by (simp add: f)
next
  case (11 c es m)
  then show ?case by simp
qed


section \<open>The value depends on the names read\<close>

definition agree_opt :: "string set \<Rightarrow> (string \<Rightarrow> 'a) option \<Rightarrow> (string \<Rightarrow> 'a) option \<Rightarrow> bool" where
  "agree_opt S f g = (case (f, g) of (None, None) \<Rightarrow> True | (Some f, Some g) \<Rightarrow> \<forall>x\<in>S. f x = g x | _ \<Rightarrow> False)"

text \<open>Two contexts that answer alike about the registers in \<open>S\<close>.\<close>

definition agree_on :: "string set \<Rightarrow> eval_ctx \<Rightarrow> eval_ctx \<Rightarrow> bool" where
  "agree_on S c d = (cx_env c = cx_env d \<and> cx_dt c = cx_dt d \<and> cx_sun c = cx_sun d \<and> cx_attr c = cx_attr d
     \<and> cx_rule_stats c = cx_rule_stats d \<and> (\<forall>x\<in>S. cx_resolve c x = cx_resolve d x) \<and> agree_opt S (cx_prev c) (cx_prev d)
     \<and> agree_opt S (cx_stale c) (cx_stale d) \<and> agree_opt S (cx_fresh_stale c) (cx_fresh_stale d) \<and> agree_opt S (cx_age c) (cx_age d))"

definition read_set :: "expr \<Rightarrow> string set" where
  "read_set e = {x. plain_name x} \<union> set (refs e)"

lemma agree_mono: "agree_on S c d \<Longrightarrow> T \<subseteq> S \<Longrightarrow> agree_on T c d"
  by (auto simp: agree_on_def agree_opt_def split: option.splits)

lemma agree_refs: "agree_opt S f g \<Longrightarrow> set xs \<subseteq> S \<Longrightarrow> (case f of None \<Rightarrow> False | Some s \<Rightarrow> list_ex s xs) = (case g of None \<Rightarrow> False | Some s \<Rightarrow> list_ex s xs)"
  by (auto simp: agree_opt_def list_ex_iff split: option.splits)

lemma ref_name_read: "ref_name e = Some r \<Longrightarrow> r \<in> read_set e"
  by (cases e) (auto simp: read_set_def split: expr.splits option.splits)

lemma run_first_skip:
  "(\<And>x s. x \<in> set xs \<Longrightarrow> f x s = g x s) \<Longrightarrow> (\<And>x. x \<in> set xs \<Longrightarrow> skip x = skip' x) \<Longrightarrow> run_first f skip xs m = run_first g skip' xs m"
  by (induction xs arbitrary: m) (auto split: prod.split sum.split)

lemma run_fresh_agree:
  assumes "\<And>x s. x \<in> set xs \<Longrightarrow> f x s = g x s" "agree_opt S st st'" "\<And>x. x \<in> set xs \<Longrightarrow> set (refs x) \<subseteq> S"
  shows "run_fresh f st xs m = run_fresh g st' xs m"
proof (cases st)
  case None
  then have "st' = None" using assms(2) by (auto simp: agree_opt_def split: option.splits)
  then show ?thesis unfolding None by (simp add: run_fresh_cong [OF refl refl refl assms(1)])
next
  case (Some s)
  then obtain s' where s': "st' = Some s'" "\<forall>x\<in>S. s x = s' x" using assms(2) by (auto simp: agree_opt_def split: option.splits)
  have "list_ex s (refs x) = list_ex s' (refs x)" if "x \<in> set xs" for x
    using assms(3) [OF that] s'(2) by (auto simp: list_ex_iff)
  then have "run_fresh g (Some s) xs m = run_fresh g (Some s') xs m" by (induction xs arbitrary: m) auto
  moreover have "run_fresh f (Some s) xs m = run_fresh g (Some s) xs m" by (rule run_fresh_cong [OF refl refl refl assms(1)])
  ultimately show ?thesis using Some s'(1) by simp
qed

lemma eval_call_agree:
  assumes a: "agree_on S c d" and sub: "\<And>x. x \<in> set args \<Longrightarrow> read_set x \<subseteq> S" and f: "\<And>x s. x \<in> set args \<Longrightarrow> f x s = g x s"
  shows "eval_call c f fn args p m = eval_call d g fn args p m"
proof -
  have e: "cx_env c = cx_env d" "cx_sun c = cx_sun d" "cx_attr c = cx_attr d" "cx_rule_stats c = cx_rule_stats d"
    and o: "agree_opt S (cx_prev c) (cx_prev d)" "agree_opt S (cx_stale c) (cx_stale d)"
      "agree_opt S (cx_fresh_stale c) (cx_fresh_stale d)" "agree_opt S (cx_age c) (cx_age d)"
    using a by (simp_all add: agree_on_def)
  have r: "set (refs x) \<subseteq> S" if "x \<in> set args" for x using sub [OF that] by (auto simp: read_set_def)
  have prev: "prev_value c args = prev_value d args"
  proof (cases args)
    case (Cons x xs)
    have "ref_name x = Some n \<Longrightarrow> n \<in> S" for n using ref_name_read sub Cons by fastforce
    then show ?thesis using o(1) Cons by (auto simp: prev_value_def agree_opt_def split: option.splits)
  qed (simp add: prev_value_def)
  have age: "oldest_age c args = oldest_age d args"
  proof (cases args)
    case (Cons x xs)
    show ?thesis
    proof (cases "cx_age c")
      case None
      then have "cx_age d = None" using o(4) by (auto simp: agree_opt_def split: option.splits)
      then show ?thesis using None by (simp add: oldest_age_def split: list.split)
    next
      case (Some h)
      then obtain h' where h': "cx_age d = Some h'" "\<forall>n\<in>S. h n = h' n" using o(4) by (auto simp: agree_opt_def split: option.splits)
      have e: "map h (refs x) = map h' (refs x)" using h'(2) r Cons by (auto intro!: map_cong)
      show ?thesis by (simp only: oldest_age_def Cons Some h'(1) list.case option.case e)
    qed
  qed (simp add: oldest_age_def)
  have first: "first_call c g args m = first_call d g args m"
  proof -
    have "stale_refs (cx_stale c) x = stale_refs (cx_stale d) x" if "x \<in> set args" for x
      unfolding stale_refs_def by (rule agree_refs [OF o(2) r [OF that]])
    then have "run_first g (stale_refs (cx_stale c)) args m = run_first g (stale_refs (cx_stale d)) args m"
      by (intro run_first_skip) simp_all
    moreover have "cx_stale c = None \<longleftrightarrow> cx_stale d = None" using o(2) by (auto simp: agree_opt_def split: option.splits)
    ultimately show ?thesis by (simp add: first_call_def)
  qed
  have fresh: "fresh_call c g b args m = fresh_call d g b args m" for b
    unfolding fresh_call_def by (simp only: run_fresh_agree [OF refl o(3) r])
  have "ema_next c = ema_next d" by (intro ext) (simp only: ema_next_def e)
  then have ema: "ema_call c g args p m = ema_call d g args p m" by (simp only: ema_call_def)
  have day: "day_value c = day_value d" by (intro ext) (simp only: day_value_def e)
  have rest: "between_call c g args m = between_call d g args m" "sun_value c b args = sun_value d b args"
    "attr_value c args = attr_value d args" "rule_value c fn args = rule_value d fn args" for b
    by (simp_all only: between_call_def between_def sun_value_def attr_value_def rule_value_def e)
  have "eval_call c f fn args p m = eval_call c g fn args p m" by (rule eval_call_cong [OF refl refl refl refl refl f])
  also have "\<dots> = eval_call d g fn args p m"
    by (simp only: eval_call_def prev age first fresh ema day rest e)
  finally show ?thesis .
qed

lemma eval_agree: "agree_on (read_set e) c d \<Longrightarrow> eval c e m = eval d e m"
proof (induction c e m rule: eval.induct)
  case (2 c x m)
  have "x \<in> read_set (Name x)" by (simp add: read_set_def)
  then have "lookup_ref c x = lookup_ref d x" using 2 by (auto simp: agree_on_def lookup_ref_def)
  then show ?case using 2 by (cases "constant_of (cx_env d) x") (simp_all add: agree_on_def)
next
  case (3 c e a m)
  then show ?case using ref_name_read [of "Attribute e a"] by (auto simp: agree_on_def lookup_ref_def simp del: ref_name.simps split: option.split)
next
  case (4 c e i m)
  then show ?case using ref_name_read [of "Subscript e i"] by (auto simp: agree_on_def lookup_ref_def simp del: ref_name.simps split: option.split)
next
  case (5 c l op r m)
  have s: "read_set l \<subseteq> read_set (BinOp l op r)" "read_set r \<subseteq> read_set (BinOp l op r)" by (auto simp: read_set_def)
  show ?case using 5 agree_mono [OF "5.prems" s(1)] agree_mono [OF "5.prems" s(2)] by (auto simp: agree_on_def intro!: sbind_cong)
next
  case (6 c op e m)
  then show ?case by (auto simp: read_set_def)
next
  case (7 c every es m)
  have "agree_on (read_set x) c d" if "x \<in> set es" for x
    by (rule agree_mono [OF "7.prems"]) (use that in \<open>auto simp: read_set_def\<close>)
  then have "run_list (eval c) es m = run_list (eval d) es m" using 7 by (intro run_list_cong) simp_all
  then show ?case by simp
next
  case (8 c l cs m)
  have l: "eval c l m = eval d l m" by (rule "8.IH"(1), rule agree_mono [OF "8.prems"]) (auto simp: read_set_def)
  obtain r m1 where p: "eval c l m = (r, m1)" by fastforce
  then have q: "eval d l m = (r, m1)" by (simp add: l)
  show ?case
  proof (cases r)
    case (Inr left)
    have "run_cmps (eval c) left cs m1 = run_cmps (eval d) left cs m1"
    proof (rule run_cmps_cong [OF refl refl refl])
      fix x s
      assume x: "x \<in> snd ` set cs"
      show "eval c x s = eval d x s"
        by (rule "8.IH"(2) [OF p [symmetric] Inr x], rule agree_mono [OF "8.prems"]) (use x in \<open>auto simp: read_set_def\<close>)
    qed
    then show ?thesis by (simp add: p q Inr)
  qed (simp add: p q)
next
  case (9 c b t e m)
  have s: "read_set x \<subseteq> read_set (IfExp b t e)" if "x \<in> {b, t, e}" for x using that by (auto simp: read_set_def)
  have "agree_on (read_set x) c d" if "x \<in> {b, t, e}" for x by (rule agree_mono [OF "9.prems" s [OF that]])
  then show ?case using 9 by (auto intro!: sbind_cong)
next
  case (10 c f args kw p m)
  have s: "read_set x \<subseteq> read_set (Call f args kw p)" if "x \<in> set args" for x using that by (auto simp: read_set_def)
  show ?case
  proof (cases f)
    case (Name fn)
    have "eval_call c (eval c) fn args p m = eval_call d (eval d) fn args p m"
    proof (rule eval_call_agree [OF "10.prems" s])
      fix x t
      assume "x \<in> set args"
      then show "eval c x t = eval d x t" using "10.IH" [OF Name] agree_mono [OF "10.prems" s] by blast
    qed
    then show ?thesis by (simp add: Name)
  qed simp_all
qed simp_all

text \<open>
  The names a formula is said to read are the ones it reads. Two gateways whose registers agree
  on the returned names (and on registers that carry the name of a function or constant) give
  the same value, however everything else differs: values, previous values, staleness and ages.
\<close>

theorem value_depends_on_refs:
  assumes "agree_on ({x. plain_name x} \<union> set (refs e)) c d"
  shows "evaluate_tree c e m = evaluate_tree d e m"
  using eval_agree [of e c d m] assms by (simp add: evaluate_tree_def read_set_def)

section \<open>Examples\<close>

definition plain_env :: env where
  "plain_env = \<lparr>ev_pi = 22 / 7, ev_e = 19 / 7, ev_sqrt = (\<lambda>q. q), ev_exp = (\<lambda>q. 1), ev_pow = (\<lambda>x y. x), ev_cpow = (\<lambda>x y. (0, 2)),
     ev_hypot = (\<lambda>x y. \<bar>x\<bar> + \<bar>y\<bar>), ev_strmod = (\<lambda>s v. None), ev_hour = 11, ev_minute = 30, ev_second = 0, ev_weekday = 1,
     ev_day = 5, ev_month = 6, ev_mono = 100\<rparr>"

definition plain_ctx :: "(string \<Rightarrow> pyval) \<Rightarrow> (string \<Rightarrow> pyval) \<Rightarrow> rat \<Rightarrow> eval_ctx" where
  "plain_ctx resolve pv dt = \<lparr>cx_env = plain_env, cx_resolve = resolve, cx_prev = Some pv, cx_dt = dt, cx_stale = None,
     cx_fresh_stale = None, cx_age = None, cx_sun = (\<lambda>_. None), cx_attr = (\<lambda>_ _ _. VNone), cx_rule_stats = (\<lambda>_ _. VNone)\<rparr>"

text \<open>\<open>(E - prev(E)) / dt * 3600\<close>, the average power from an energy counter.\<close>

definition prev_of :: "string \<Rightarrow> expr" where
  "prev_of x = Call (Name ''prev'') [Name x] False (1, 5)"

definition rate_formula :: expr where
  "rate_formula = BinOp (BinOp (BinOp (Name ''E'') Sub (prev_of ''E'')) Div (Name ''dt'')) Mult (Constant (CInt 3600))"

lemmas formula_eval = rate_formula_def prev_of_def plain_ctx_def plain_env_def validate_expression_def call_ok_special texts_ok_def
  TEXT_FUNCS_def RULE_STATS_def SUN_FUNCS_def plain_name_def FUNC_NAMES_def CONST_NAMES_def constant_of_def


theorem value_depends_on_refs_witness:
  "evaluate_tree (plain_ctx ((\<lambda>_. VNone)(''E'' := VInt 10)) (\<lambda>_. VInt 4) 60) rate_formula None
   = evaluate_tree (plain_ctx ((\<lambda>_. VNone)(''E'' := VInt 10, ''F'' := VStr ''on'')) (\<lambda>_. VInt 4) 60) rate_formula None"
  by (rule value_depends_on_refs) (simp add: agree_on_def agree_opt_def formula_eval)

section \<open>Bounds\<close>

lemma bit_length_bound: "n < 2 ^ bit_length n"
proof (induction n rule: bit_length.induct)
  case (1 n)
  then show ?case by (cases "n = 0") (auto simp: bit_length.simps [of n])
qed

lemma bit_length_least: "n < 2 ^ k \<Longrightarrow> bit_length n \<le> k"
proof (induction n arbitrary: k rule: bit_length.induct)
  case (1 n)
  show ?case
  proof (cases "n = 0")
    case False
    then obtain j where k: "k = Suc j" using "1.prems" by (cases k) auto
    then have "n div 2 < 2 ^ j" using "1.prems" by simp
    then show ?thesis using 1 False k by (simp add: bit_length.simps [of n])
  qed (simp add: bit_length.simps)
qed

lemma int_bits_bound: "\<bar>n\<bar> < 2 ^ int_bits n"
  using bit_length_bound [of "nat \<bar>n\<bar>"] unfolding int_bits_def
  by (metis abs_ge_zero nat_less_iff of_nat_numeral of_nat_power)

text \<open>
  No power explodes. Whatever the operands, a whole result of \<open>**\<close> has at most 2048 bits: a
  formula cannot fill the memory or hold the processor by nesting powers.
\<close>

theorem power_bounded:
  assumes "apply_bin ev Pow a b = Inr (NInt r)"
  shows "\<bar>r\<bar> \<le> 2 ^ 2048"
proof -
  have bp: "bounded_power ev a b = Inr (NInt r)" using assms by (simp add: apply_bin_def)
  have pw: "py_power ev a b = Inr (NInt r)"
    using bp by (auto simp: bounded_power_def ebind_def split: sum.splits if_splits option.splits)
  then obtain x y where x: "as_int a = Some x" and y: "as_int b = Some y" and y0: "0 \<le> y" and r: "r = x ^ nat y"
    by (auto simp: py_power_def numeric_def Let_def split: option.splits prod.splits if_splits)
  have ry: "as_rat b = Some (of_int y)" using y by (cases b) auto
  show ?thesis
  proof (cases "x = 0 \<or> y = 0")
    case True
    then show ?thesis using r by (cases "nat y") auto
  next
    case False
    have "less (NInt 0) b = Inr True" using ry y0 False by (cases b) (auto simp: less_def)
    moreover have "py_mul (NInt (int (int_bits x))) b = Inr (NInt (int (int_bits x) * y))"
      using y by (cases b) (auto simp: py_mul_def numeric_def)
    ultimately have "\<not> (2048 :: rat) < of_nat (int_bits x) * of_int y"
      using bp x False by (auto simp: bounded_power_def ebind_def less_def split: sum.splits if_splits)
    then have "(of_int (int (int_bits x) * y) :: rat) \<le> of_int 2048" by simp
    then have "int (int_bits x) * y \<le> 2048" by (simp only: of_int_le_iff)
    then have k: "int_bits x * nat y \<le> 2048" using y0 by (metis nat_0_le nat_int nat_mono nat_mult_distrib nat_numeral of_nat_0_le_iff)
    have "\<bar>r\<bar> = \<bar>x\<bar> ^ nat y" using r by (simp add: power_abs)
    also have "\<dots> \<le> (2 ^ int_bits x) ^ nat y" using int_bits_bound [of x] by (intro power_mono) auto
    also have "\<dots> = 2 ^ (int_bits x * nat y)" by (simp add: power_mult)
    also have "\<dots> \<le> 2 ^ 2048" using k by (intro power_increasing) auto
    finally show ?thesis .
  qed
qed

theorem power_bounded_witness: "\<bar>2 ^ 64 :: int\<bar> \<le> 2 ^ 2048"
  by (rule power_bounded [of plain_env "NInt 2" "NInt 64"])
    (simp add: apply_bin_def bounded_power_def py_abs_def ebind_def less_def MAX_POW_EXP_def py_power_def numeric_def py_mul_def int_bits_def bit_length.simps)

text \<open>An integer that leaves the engine fits in 64 bits with its sign.\<close>

theorem result_fits:
  assumes "evaluate_tree c e m = (Inr (NInt n), m')"
  shows "\<bar>n\<bar> < 2 ^ 63"
proof -
  have "int_bits n \<le> 63"
    using assms by (auto simp: evaluate_tree_def leaves_engine_def MAX_RESULT_BITS_def split: prod.splits sum.splits pnum.splits if_splits)
  then have "(2 :: int) ^ int_bits n \<le> 2 ^ 63" by (intro power_increasing) auto
  then show ?thesis using int_bits_bound [of n] by linarith
qed

theorem result_fits_witness: "\<bar>7 :: int\<bar> < 2 ^ 63"
  by (rule result_fits [of "plain_ctx (\<lambda>_. VNone) (\<lambda>_. VNone) 0" "Constant (CInt 7)" None _ None])
    (simp add: evaluate_tree_def const_value_def leaves_engine_def MAX_RESULT_BITS_def int_bits_def bit_length.simps)

section \<open>What leaves the engine need not be a number\<close>

definition square_root_of_minus_8 :: expr where
  "square_root_of_minus_8 = BinOp (UnaryOp USub (Constant (CInt 8))) Pow (Constant (CFloat (1 / 2)))"

text \<open>
  Two validated formulas whose value is no number. \<open>prev(x)\<close> hands on a text register's last
  value, and \<open>prev(x) * n\<close> repeats that text n times, which the engine refuses only for text
  constants; and a negative base to a fractional power is a complex number, which passes the
  check for infinities and leaves the engine.
\<close>

theorem text_and_complex_leave:
  "validate_expression None (\<lambda>_. None) (BinOp (prev_of ''x'') Mult (Constant (CInt k))) = Some [''x'']
   \<and> fst (evaluate_tree (plain_ctx r (\<lambda>_. VStr ''on'') dt) (BinOp (prev_of ''x'') Mult (Constant (CInt k))) m)
       = Inr (NStr (concat (replicate (nat k) ''on'')))
   \<and> validate_expression None (\<lambda>_. None) square_root_of_minus_8 = Some []
   \<and> (\<exists>u v. fst (evaluate_tree c square_root_of_minus_8 m) = Inr (NComplex u v))"
proof -
  have "\<lfloor>1 / 2 :: rat\<rfloor> = 0" by (simp add: floor_eq_iff)
  then have w: "\<not> whole (1 / 2)" by (simp add: whole_def)
  have p: "\<exists>u v. bounded_power ev (NInt (- 8)) (NFloat (1 / 2)) = Inr (NComplex u v)" for ev
    by (cases "ev_cpow ev (- 8, 0) (1 / 2, 0)")
      (simp add: bounded_power_def py_abs_def ebind_def less_def MAX_POW_EXP_def py_mul_def numeric_def py_power_def w int_bits_def bit_length.simps)
  obtain u v where "bounded_power (cx_env c) (NInt (- 8)) (NFloat (1 / 2)) = Inr (NComplex u v)" using p by blast
  then have "\<exists>u v. fst (evaluate_tree c square_root_of_minus_8 m) = Inr (NComplex u v)"
    by (simp add: evaluate_tree_def square_root_of_minus_8_def const_value_def apply_unary_def py_neg_def apply_bin_def leaves_engine_def)
  then show ?thesis
    by (simp add: formula_eval square_root_of_minus_8_def evaluate_tree_def eval_call_def prev_value_def const_value_def apply_bin_def
        py_mul_def repeat_text_def leaves_engine_def)
qed

text \<open>
  A register that carries the name of a function (\<open>day\<close>, \<open>hour\<close>, \<open>min\<close>) is read, but not among
  the names the formula is said to read: its previous value is never kept, and \<open>age()\<close> and
  \<open>fresh()\<close> do not see it.
\<close>

theorem function_name_read_unseen:
  "validate_expression None (\<lambda>_. None) (Name ''day'') = Some [] \<and>
   fst (evaluate_tree (plain_ctx ((\<lambda>_. VNone)(''day'' := VInt 12)) pv dt) (Name ''day'') m) = Inr (NInt 12)"
  by (simp add: formula_eval evaluate_tree_def lookup_ref_def leaves_engine_def MAX_RESULT_BITS_def int_bits_def bit_length.simps)

section \<open>The hours of a day\<close>

text \<open>
  Two windows with the same ends split the day: at every moment exactly one of
  \<open>between(a, b)\<close> and \<open>between(b, a)\<close> holds, also across midnight.
\<close>

theorem windows_split_day:
  assumes "a \<noteq> b"
  shows "between ev a b \<longleftrightarrow> \<not> between ev b a"
  using assms by (auto simp: between_def Let_def)

theorem windows_split_day_witness: "between plain_env 22 6 \<longleftrightarrow> \<not> between plain_env 6 22"
  by (rule windows_split_day) simp

end
