(* ===== verification/JsonPath.thy ===== *)
theory JsonPath
  imports Prelude
begin

text \<open>
  What the JSON and MQTT sources share: a dotted path into a parsed document and the number
  it names (\<open>multibus/http_client.py\<close>), and the match of an MQTT topic filter
  (\<open>multibus/mqtt_input.py\<close>).
\<close>

section \<open>Text in pieces\<close>

text \<open>\<open>s.split(c)\<close>: always at least one piece.\<close>

fun py_split :: "char \<Rightarrow> string \<Rightarrow> string list" where
  "py_split c [] = [[]]"
| "py_split c (x # xs) =
     (if x = c then [] # py_split c xs
      else (case py_split c xs of [] \<Rightarrow> [[x]] | p # ps \<Rightarrow> (x # p) # ps))"

fun join_char :: "char \<Rightarrow> string list \<Rightarrow> string" where
  "join_char c [] = []"
| "join_char c [p] = p"
| "join_char c (p # ps) = p @ [c] @ join_char c ps"

lemma py_split_nonempty [simp]: "py_split c s \<noteq> []"
  by (induction s) (auto split: list.splits)

lemma py_split_piece: "c \<notin> set p \<Longrightarrow> py_split c p = [p]"
  by (induction p) auto

lemma py_split_append: "c \<notin> set p \<Longrightarrow> py_split c (p @ c # s) = p # py_split c s"
  by (induction p) auto

lemma py_split_join: "ps \<noteq> [] \<Longrightarrow> list_all (\<lambda>p. c \<notin> set p) ps \<Longrightarrow> py_split c (join_char c ps) = ps"
  by (induction c ps rule: join_char.induct) (auto simp: py_split_piece py_split_append)

section \<open>Paths into a document\<close>

text \<open>\<open>cur[i]\<close> with a negative index from the end; None outside the list.\<close>

definition py_index :: "'a list \<Rightarrow> int \<Rightarrow> 'a option" where
  "py_index xs i =
     (if - int (length xs) \<le> i \<and> i < int (length xs)
      then Some (xs ! nat (if i < 0 then i + int (length xs) else i)) else None)"

definition json_null :: json where
  "json_null = Leaf VNone"

definition or_null :: "json option \<Rightarrow> json" where
  "or_null j = (case j of Some v \<Rightarrow> v | None \<Rightarrow> json_null)"

text \<open>A token is a key and bracket indices; None: an index that is no integer.\<close>

definition split_token :: "string \<Rightarrow> (string \<times> int list) option" where
  "split_token raw =
     (let token = py_strip raw; key = takeWhile (\<lambda>c. c \<noteq> CHR ''['') token; rest = dropWhile (\<lambda>c. c \<noteq> CHR ''['') token
      in if rest = [] then Some (key, [])
         else (let parts = map py_int_of_string (tl (py_split CHR ''['' (filter (\<lambda>c. c \<noteq> CHR '']'') rest)))
               in if list_ex (\<lambda>p. p = None) parts then None else Some (key, map the parts)))"

text \<open>
  One key. In the result None is the \<open>ValueError\<close> of \<open>int\<close>, which a list meets
  with a key such as \<open>--1\<close>; \<open>Some None\<close> ends the walk with no value.
\<close>

definition step_key :: "json \<Rightarrow> string \<Rightarrow> json option option" where
  "step_key cur key =
     (case cur of
        DictE d \<Rightarrow> Some (Some (or_null (dict_get d key)))
      | ListE xs \<Rightarrow>
          (let digits = dropWhile (\<lambda>c. c = CHR ''-'') key
           in if digits \<noteq> [] \<and> list_all is_digit digits
              then map_option (\<lambda>i. Some (or_null (py_index xs i))) (py_int_of_string key)
              else Some None)
      | Leaf _ \<Rightarrow> Some None)"

fun step_indices :: "json \<Rightarrow> int list \<Rightarrow> json option" where
  "step_indices cur [] = Some cur"
| "step_indices cur (i # is) =
     (case cur of
        ListE xs \<Rightarrow> (case py_index xs i of Some v \<Rightarrow> step_indices v is | None \<Rightarrow> None)
      | DictE d \<Rightarrow> step_indices (or_null (dict_get d (int_str i))) is
      | Leaf _ \<Rightarrow> None)"

definition step_token :: "json \<Rightarrow> string \<Rightarrow> json option option" where
  "step_token cur raw =
     (case split_token raw of
        None \<Rightarrow> Some None
      | Some (key, idxs) \<Rightarrow>
          (case (if key = [] then Some (Some cur) else step_key cur key) of
             None \<Rightarrow> None
           | Some None \<Rightarrow> Some None
           | Some (Some v) \<Rightarrow> Some (step_indices v idxs)))"

fun walk_tokens :: "json \<Rightarrow> string list \<Rightarrow> json option" where
  "walk_tokens cur [] = Some cur"
| "walk_tokens cur (t # ts) =
     (if cur = json_null then Some json_null
      else (case step_token cur t of
              None \<Rightarrow> None
            | Some None \<Rightarrow> Some json_null
            | Some (Some v) \<Rightarrow> walk_tokens v ts))"

text \<open>\<open>resolve_json_path\<close>; None when it raises.\<close>

definition resolve_json_path :: "json \<Rightarrow> string \<Rightarrow> json option" where
  "resolve_json_path obj path = (if path = [] then Some json_null else walk_tokens obj (py_split CHR ''.'' path))"

text \<open>\<open>_coerce_numeric\<close>: a finite number, or None.\<close>

definition coerce_numeric :: "json \<Rightarrow> pyval option" where
  "coerce_numeric v =
     (case v of
        Leaf (VBool b) \<Rightarrow> Some (VInt (if b then 1 else 0))
      | Leaf (VInt n) \<Rightarrow> if - (2 ^ 63) \<le> n \<and> n < 2 ^ 63 then Some (VInt n) else None
      | Leaf (VFloat q) \<Rightarrow> Some (VFloat q)
      | Leaf (VStr s) \<Rightarrow> map_option VFloat (py_float_of_string s)
      | _ \<Rightarrow> None)"

section \<open>Topic filters\<close>

fun match_levels :: "string list \<Rightarrow> string list \<Rightarrow> bool" where
  "match_levels [] ts = (ts = [])"
| "match_levels (p # ps) ts =
     (if p = ''#'' then ps = []
      else (case ts of [] \<Rightarrow> False | t # ts' \<Rightarrow> (p = ''+'' \<or> p = t) \<and> match_levels ps ts'))"

definition topic_matches :: "string \<Rightarrow> string \<Rightarrow> bool" where
  "topic_matches pattern topic = (pattern = topic \<or> match_levels (py_split CHR ''/'' pattern) (py_split CHR ''/'' topic))"

section \<open>Decimal text reads back\<close>

lemma digit_chars:
  assumes "n < (10 :: nat)"
  shows "is_digit (char_of (48 + n)) \<and> digit_val (char_of (48 + n)) = int n"
proof -
  have "list_all (\<lambda>n. is_digit (char_of (48 + n)) \<and> digit_val (char_of (48 + n)) = int n) [0..<10]" by code_simp
  with assms show ?thesis by (simp add: list_all_iff)
qed

lemma nat_str_digits: "nat_str n \<noteq> [] \<and> list_all is_digit (nat_str n) \<and> digits_val (nat_str n) = int n"
proof (induction n rule: nat_str.induct)
  case (1 n)
  show ?case
  proof (cases "n < 10")
    case True
    then show ?thesis using digit_chars [of n] by (simp add: nat_str.simps [of n] digits_val_def)
  next
    case False
    then have "nat_str (n div 10) \<noteq> []" "list_all is_digit (nat_str (n div 10))" "digits_val (nat_str (n div 10)) = int (n div 10)"
      using 1 by simp_all
    moreover have "10 * int (n div 10) + int (n mod 10) = int n" by (metis mult_div_mod_eq of_nat_add of_nat_mult of_nat_numeral)
    ultimately show ?thesis using False digit_chars [of "n mod 10"]
      by (simp add: nat_str.simps [of n] digits_val_def)
  qed
qed

lemma digit_special: "is_digit c \<Longrightarrow> \<not> is_space c \<and> c \<noteq> CHR ''['' \<and> c \<noteq> CHR '']'' \<and> c \<noteq> CHR ''.'' \<and> c \<noteq> CHR ''-'' \<and> c \<noteq> CHR ''+''"
  by (auto simp: is_digit_def is_space_def Let_def)

lemma int_str_chars: "c \<in> set (int_str i) \<Longrightarrow> c = CHR ''-'' \<or> is_digit c"
  using nat_str_digits [of "nat i"] nat_str_digits [of "nat (- i)"]
  by (auto simp: int_str_def list_all_iff split: if_splits)

lemma minus_plain: "\<not> is_space CHR ''-''" by code_simp

lemma py_int_str [simp]: "py_int_of_string (int_str i) = Some i"
proof -
  have ne: "int_str i \<noteq> []" using nat_str_digits by (auto simp: int_str_def)
  have sp: "\<not> is_space c" if "c \<in> set (int_str i)" for c
    using int_str_chars [OF that] digit_special minus_plain by blast
  have strip: "py_strip (int_str i) = int_str i"
    by (rule py_strip_clean) (use ne sp in auto)
  show ?thesis
  proof (cases "i < 0")
    case True
    then have s: "int_str i = CHR ''-'' # nat_str (nat (- i))" by (simp add: int_str_def)
    show ?thesis using nat_str_digits [of "nat (- i)"] True
      unfolding py_int_of_string_def strip unfolding s by (simp add: split_sign_def)
  next
    case False
    then have s: "int_str i = nat_str (nat i)" by (simp add: int_str_def)
    obtain c r where c: "nat_str (nat i) = c # r" using nat_str_digits by (cases "nat_str (nat i)") auto
    then have "is_digit c" using nat_str_digits [of "nat i"] by simp
    then have "split_sign (nat_str (nat i)) = (1, nat_str (nat i))"
      using digit_special [of c] c by (simp add: split_sign_def)
    then show ?thesis using nat_str_digits [of "nat i"] False
      unfolding py_int_of_string_def strip unfolding s by simp
  qed
qed

section \<open>A written path walks the document\<close>

text \<open>A path as the keys and indices it names, its text, and what it should reach.\<close>

type_synonym hop = "string \<times> int list"

definition hop_text :: "hop \<Rightarrow> string" where
  "hop_text h = fst h @ concat (map (\<lambda>i. CHR ''['' # int_str i @ '']'') (snd h))"

definition path_text :: "hop list \<Rightarrow> string" where
  "path_text hops = join_char CHR ''.'' (map hop_text hops)"

definition field :: "string \<Rightarrow> json \<Rightarrow> json" where
  "field k v = (case v of DictE d \<Rightarrow> or_null (dict_get d k) | _ \<Rightarrow> json_null)"

definition element :: "int \<Rightarrow> json \<Rightarrow> json" where
  "element i v = (case v of ListE xs \<Rightarrow> or_null (py_index xs i) | DictE d \<Rightarrow> or_null (dict_get d (int_str i)) | Leaf _ \<Rightarrow> json_null)"

definition reach :: "hop list \<Rightarrow> json \<Rightarrow> json" where
  "reach hops v = fold (\<lambda>(k, is) v. fold element is (field k v)) hops v"

text \<open>A key a template writes: no dot or bracket, no blank at its ends, and no list index.\<close>

definition plain_key :: "string \<Rightarrow> bool" where
  "plain_key k \<longleftrightarrow> k \<noteq> [] \<and> CHR ''.'' \<notin> set k \<and> CHR ''['' \<notin> set k \<and> CHR '']'' \<notin> set k \<and> \<not> is_space (hd k) \<and> \<not> is_space (last k)
     \<and> \<not> list_all is_digit (dropWhile (\<lambda>c. c = CHR ''-'') k)"

lemma or_null_simps [simp]: "or_null None = json_null" "or_null (Some v) = v"
  by (simp_all add: or_null_def)

lemma element_simps [simp]:
  "element i (ListE xs) = or_null (py_index xs i)" "element i (DictE d) = or_null (dict_get d (int_str i))" "element i (Leaf x) = json_null"
  by (simp_all add: element_def)

lemma element_null [simp]: "element i json_null = json_null" and field_null [simp]: "field k json_null = json_null"
  by (simp_all add: element_def field_def json_null_def)

lemma fold_element_null [simp]: "fold element is json_null = json_null"
  by (induction "is") simp_all

lemma step_indices_element: "or_null (step_indices v is) = fold element is v"
proof (induction "is" arbitrary: v)
  case (Cons i "is")
  then show ?case by (cases v) (auto split: option.splits)
qed simp

lemma bracket_split: "concat (map (\<lambda>i. CHR ''['' # int_str i) (i # is)) = CHR ''['' # s \<Longrightarrow> py_split CHR ''['' s = map int_str (i # is)"
proof (induction "is" arbitrary: i s)
  case Nil
  have "CHR ''['' \<notin> set (int_str i)" using int_str_chars digit_special by fastforce
  with Nil show ?case by (simp add: py_split_piece)
next
  case (Cons j "is")
  have "CHR ''['' \<notin> set (int_str i)" using int_str_chars digit_special by fastforce
  moreover obtain t where t: "concat (map (\<lambda>i. CHR ''['' # int_str i) (j # is)) = CHR ''['' # t" by simp
  ultimately show ?case using Cons.IH [OF t] Cons.prems by (auto simp: py_split_append)
qed

lemma split_hop:
  assumes "plain_key k"
  shows "split_token (hop_text (k, is)) = Some (k, is)"
proof -
  let ?b = "concat (map (\<lambda>i. CHR ''['' # int_str i @ '']'') is)"
  have k: "k \<noteq> []" "CHR ''['' \<notin> set k" "\<not> is_space (hd k)" "\<not> is_space (last k)" using assms by (auto simp: plain_key_def)
  have br: "\<not> is_space CHR '']''" by code_simp
  have "\<not> is_space (last (k @ ?b))"
    by (cases "is" rule: rev_cases) (use k br in auto)
  then have strip: "py_strip (k @ ?b) = k @ ?b" using k by (intro py_strip_clean) auto
  have kw: "takeWhile (\<lambda>c. c \<noteq> CHR ''['') (k @ ?b) = k" "dropWhile (\<lambda>c. c \<noteq> CHR ''['') (k @ ?b) = ?b"
    using k(2) by (cases "is"; force simp: takeWhile_append dropWhile_append)+
  have f: "filter (\<lambda>c. c \<noteq> CHR '']'') (concat (map (\<lambda>i. CHR ''['' # int_str i @ '']'') is)) = concat (map (\<lambda>i. CHR ''['' # int_str i) is)" for "is"
  proof (induction "is")
    case (Cons i "is")
    have "filter (\<lambda>c. c \<noteq> CHR '']'') (int_str i) = int_str i"
      using int_str_chars [of _ i] digit_special by (intro filter_True) fastforce
    with Cons show ?case by simp
  qed simp
  show ?thesis
  proof (cases "is")
    case Nil
    then show ?thesis using strip kw by (simp add: split_token_def hop_text_def)
  next
    case (Cons i js)
    then obtain s where s: "concat (map (\<lambda>i. CHR ''['' # int_str i) is) = CHR ''['' # s" by simp
    then have "py_split CHR ''['' (CHR ''['' # s) = [] # map int_str is" using bracket_split [of i js s] Cons by simp
    then show ?thesis
      using strip kw f [of "is"] s Cons
      by (simp add: split_token_def hop_text_def Let_def comp_def list_ex_iff del: concat.simps)
  qed
qed

lemma step_token_hop:
  assumes "plain_key k"
  shows "\<exists>r. step_token v (hop_text (k, is)) = Some r \<and> or_null r = fold element is (field k v)"
proof -
  have k: "k \<noteq> []" "\<not> list_all is_digit (dropWhile (\<lambda>c. c = CHR ''-'') k)" using assms by (auto simp: plain_key_def)
  show ?thesis
    using k by (cases v) (simp_all add: step_token_def split_hop [OF assms] step_key_def field_def step_indices_element)
qed

lemma walk_hops:
  "list_all (\<lambda>(k, is). plain_key k) hops \<Longrightarrow> walk_tokens v (map hop_text hops) = Some (reach hops v)"
proof (induction hops arbitrary: v)
  case (Cons h hops)
  obtain k "is" where h: "h = (k, is)" by (cases h)
  have null: "reach hs json_null = json_null" for hs by (induction hs) (auto simp: reach_def)
  show ?case
  proof (cases "v = json_null")
    case True
    then show ?thesis using null [of "h # hops"] by simp
  next
    case False
    obtain r where r: "step_token v (hop_text (k, is)) = Some r" "or_null r = fold element is (field k v)"
      using step_token_hop [of k v "is"] Cons.prems h by auto
    then have "reach (h # hops) v = reach hops (or_null r)" by (simp add: reach_def h)
    then show ?thesis using Cons False r(1) h null by (cases r) simp_all
  qed
qed (simp add: reach_def)

lemma hop_text_no_dot: "plain_key k \<Longrightarrow> CHR ''.'' \<notin> set (hop_text (k, is))"
  using int_str_chars [of "CHR ''.''"] digit_special [of "CHR ''.''"] by (auto simp: hop_text_def plain_key_def)

text \<open>
  The text of a path, keys joined by dots with indices in brackets, is walked to
  exactly what its keys and indices name in the document, negative indices from the end and
  keys of numbers included; anything missing on the way, or a null, gives no value.
\<close>

theorem path_reaches_value:
  assumes "hops \<noteq> []" and "list_all (\<lambda>(k, is). plain_key k) hops"
  shows "resolve_json_path doc (path_text hops) = Some (reach hops doc)"
proof -
  have "list_all (\<lambda>p. CHR ''.'' \<notin> set p) (map hop_text hops)"
    using assms(2) hop_text_no_dot by (auto simp: list_all_iff)
  then have split: "py_split CHR ''.'' (path_text hops) = map hop_text hops"
    using assms(1) by (simp add: path_text_def py_split_join)
  have "path_text hops \<noteq> []"
    using assms by (cases hops; cases "tl hops") (auto simp: path_text_def hop_text_def plain_key_def)
  then show ?thesis using split walk_hops [OF assms(2), of doc] by (simp add: resolve_json_path_def)
qed

theorem path_reaches_value_witness:
  "resolve_json_path (DictE [(''cells'', ListE [DictE [(''mv'', Leaf (VInt 3301))], DictE [(''mv'', Leaf (VInt 3298))]])])
     (path_text [(''cells'', [- 1]), (''mv'', [])]) = Some (Leaf (VInt 3298))
   \<and> path_text [(''cells'', [- 1]), (''mv'', [])] = ''cells[-1].mv''"
proof -
  have one: "int_str (- 1) = ''-1''" by (simp add: int_str_def nat_str.simps) code_simp
  have "list_all (\<lambda>(k, is). plain_key k) [(''cells'', [- 1 :: int]), (''mv'', [])]" by (simp add: plain_key_def is_digit_def is_space_def)
  from path_reaches_value [OF _ this] show ?thesis
    by (simp add: reach_def field_def py_index_def path_text_def hop_text_def one)
qed

text \<open>
  The path resolver promises never to raise, but a list met with a key of two or
  more leading minus signs raises, since the test strips every minus and the conversion takes
  one.
\<close>

theorem double_minus_raises: "resolve_json_path (DictE [(''a'', ListE [Leaf (VInt 1)])]) ''a.--1'' = None"
  by code_simp

section \<open>Topic filters\<close>

text \<open>The filters of the MQTT standard, level by level.\<close>

inductive filter_admits :: "string list \<Rightarrow> string list \<Rightarrow> bool" where
  admits_end: "filter_admits [] []"
| admits_rest: "filter_admits [''#''] ts"
| admits_same: "filter_admits ps ts \<Longrightarrow> filter_admits (t # ps) (t # ts)"
| admits_any: "filter_admits ps ts \<Longrightarrow> filter_admits (''+'' # ps) (t # ts)"

inductive_cases filter_admits_Nil: "filter_admits [] ts"
inductive_cases filter_admits_Cons: "filter_admits (p # ps) ts"

lemma match_levels_admits:
  "''#'' \<notin> set ts \<Longrightarrow> match_levels ps ts \<longleftrightarrow> filter_admits ps ts"
proof (induction ps ts rule: match_levels.induct)
  case (1 ts)
  then show ?case by (auto intro: admits_end elim: filter_admits_Nil)
next
  case (2 p ps ts)
  show ?case
  proof (cases "p = ''#''")
    case True
    then show ?thesis using "2.prems" by (auto intro: admits_rest elim: filter_admits_Cons)
  next
    case False
    show ?thesis
    proof (cases ts)
      case Nil
      then show ?thesis using False by (auto elim: filter_admits_Cons)
    next
      case (Cons t ts')
      then have IH: "match_levels ps ts' \<longleftrightarrow> filter_admits ps ts'" using "2.IH" [OF False Cons] "2.prems" by simp
      show ?thesis
        using False IH by (auto simp: Cons intro: admits_same admits_any elim: filter_admits_Cons)
    qed
  qed
qed



end
