(* ===== verification/CommandDefs.thy ===== *)
theory CommandDefs
  imports Prelude "HOL-Library.Product_Lexorder" "HOL-Library.List_Lexorder" "HOL-Library.Char_ord"
begin

text \<open>
  What a command is (\<open>multibus/commands.py\<close>): its little expression language, its
  definition, the parameters it takes and the channel it belongs to.
\<close>

section \<open>Exceptions\<close>

text \<open>\<open>ExprError\<close> is a \<open>ValueError\<close>; the others are not.\<close>

datatype cmd_exn = ExprErr | ValErr | TypErr | ZeroDivision | KeyErr | OverflowErr

definition is_value_error :: "cmd_exn \<Rightarrow> bool" where
  "is_value_error e = (e = ExprErr \<or> e = ValErr)"

text \<open>\<open>float(x)\<close>: text that is no number is a ValueError, None a TypeError.\<close>

fun py_float :: "pyval \<Rightarrow> cmd_exn + rat" where
  "py_float VNone = Inl TypErr"
| "py_float (VBool b) = Inr (if b then 1 else 0)"
| "py_float (VInt n) = Inr (of_int n)"
| "py_float (VFloat q) = Inr q"
| "py_float (VStr s) = (case py_float_of_string s of Some q \<Rightarrow> Inr q | None \<Rightarrow> Inl ValErr)"

section \<open>Expressions\<close>

text \<open>An expression is a JSON value; a text leaf is \<open>Leaf (VStr s)\<close>.\<close>

type_synonym cexpr = json

definition name_start :: "char \<Rightarrow> bool" where
  "name_start c = (let n = of_char c :: nat in (65 \<le> n \<and> n \<le> 90) \<or> (97 \<le> n \<and> n \<le> 122) \<or> n = 95)"

definition name_char :: "char \<Rightarrow> bool" where
  "name_char c = (name_start c \<or> is_digit c)"

text \<open>\<open>_PARAM\<close>: the name in \<open>${name}\<close>.\<close>

definition param_name :: "string \<Rightarrow> string option" where
  "param_name token =
     (let s = pat_end token
      in if starts_with ''${'' s \<and> 3 < length s \<and> last s = CHR ''}''
         then (let nm = butlast (drop 2 s)
               in if name_start (hd nm) \<and> list_all name_char nm then Some nm else None)
         else None)"

definition quote_char :: "char \<Rightarrow> bool" where
  "quote_char c = (let n = of_char c :: nat in n = 34 \<or> n = 39)"

definition strip_quotes :: "string \<Rightarrow> string" where
  "strip_quotes s = rev (dropWhile quote_char (rev (dropWhile quote_char s)))"

definition atom :: "string \<Rightarrow> (string, pyval) dict \<Rightarrow> cmd_exn + pyval" where
  "atom token params =
     (case param_name token of
        Some nm \<Rightarrow> (case dict_get params nm of None \<Rightarrow> Inl ExprErr | Some v \<Rightarrow> Inr v)
      | None \<Rightarrow>
          Inr (case (if CHR ''.'' \<in> set token \<or> CHR ''e'' \<in> set (py_lower token)
                     then map_option VFloat (py_float_of_string token) else map_option VInt (py_int_of_string token)) of
                 Some v \<Rightarrow> v | None \<Rightarrow> VStr (strip_quotes token)))"

text \<open>\<open>_COND\<close>: two tokens around a comparison, found the way the pattern backtracks.\<close>

datatype cond_op = CLe | CGe | CEq | CNe | CLt | CGt

definition cond_ops :: "(string \<times> cond_op) list" where
  "cond_ops = [(''<='', CLe), (''>='', CGe), (''=='', CEq), (''!='', CNe), (''<'', CLt), (''>'', CGt)]"

definition last_token :: "string \<Rightarrow> string option" where
  "last_token t =
     (let u = dropWhile is_space t; b = takeWhile (\<lambda>c. \<not> is_space c) u
      in if b \<noteq> [] \<and> list_all is_space (dropWhile (\<lambda>c. \<not> is_space c) u) then Some b else None)"

fun cond_tail :: "(string \<times> cond_op) list \<Rightarrow> string \<Rightarrow> (cond_op \<times> string) option" where
  "cond_tail [] r = None"
| "cond_tail ((s, o') # ops) r =
     (case (if starts_with s r then last_token (drop (length s) r) else None) of
        Some b \<Rightarrow> Some (o', b) | None \<Rightarrow> cond_tail ops r)"

fun cond_split :: "string \<Rightarrow> nat \<Rightarrow> (string \<times> cond_op \<times> string) option" where
  "cond_split s 0 = None"
| "cond_split s (Suc k) =
     (case cond_tail cond_ops (dropWhile is_space (drop (Suc k) s)) of
        Some (o', b) \<Rightarrow> Some (take (Suc k) s, o', b) | None \<Rightarrow> cond_split s k)"

definition parse_cond :: "string \<Rightarrow> (string \<times> cond_op \<times> string) option" where
  "parse_cond c = (let s = dropWhile is_space c in cond_split s (length (takeWhile (\<lambda>d. \<not> is_space d) s)))"

text \<open>
  The six comparisons are all computed before one is picked, so two values
  without an order raise even when only \<open>==\<close> was asked.
\<close>

definition compare_values :: "cond_op \<Rightarrow> pyval \<Rightarrow> pyval \<Rightarrow> cmd_exn + bool" where
  "compare_values o' a b =
     (case (num_or_bool a, num_or_bool b, a, b) of
        (Some x, Some y, _, _) \<Rightarrow>
          Inr (case o' of CLt \<Rightarrow> x < y | CLe \<Rightarrow> x \<le> y | CEq \<Rightarrow> x = y | CNe \<Rightarrow> x \<noteq> y | CGe \<Rightarrow> y \<le> x | CGt \<Rightarrow> y < x)
      | (_, _, VStr s, VStr t) \<Rightarrow>
          Inr (case o' of CLt \<Rightarrow> text_less s t | CLe \<Rightarrow> s = t \<or> text_less s t | CEq \<Rightarrow> s = t | CNe \<Rightarrow> s \<noteq> t
                        | CGe \<Rightarrow> s = t \<or> text_less t s | CGt \<Rightarrow> text_less t s)
      | _ \<Rightarrow> Inl TypErr)"

definition ARITH_OPS :: "string list" where
  "ARITH_OPS = [''*'', ''/'', ''+'', ''-'']"

fun first_op :: "string list \<Rightarrow> (string \<times> cexpr) list \<Rightarrow> (string \<times> cexpr) option" where
  "first_op [] d = None"
| "first_op (o' # ops) d = (case dict_get d o' of Some e \<Rightarrow> Some (o', e) | None \<Rightarrow> first_op ops d)"

definition arith :: "string \<Rightarrow> rat \<Rightarrow> rat \<Rightarrow> cmd_exn + pyval" where
  "arith o' a b = (if o' = ''*'' then Inr (VFloat (a * b))
     else if o' = ''/'' then (if b = 0 then Inl ZeroDivision else Inr (VFloat (a / b)))
     else if o' = ''+'' then Inr (VFloat (a + b)) else Inr (VFloat (a - b)))"

lemma first_op_get: "first_op ops d = Some (o', e) \<Longrightarrow> dict_get d o' = Some e \<and> o' \<in> set ops"
  by (induction ops) (auto split: option.splits)

lemma dict_get_size: "dict_get d k = Some e \<Longrightarrow> size e < size_list (size_prod (\<lambda>_. 0) size) d"
  by (induction d) (auto split: if_splits)

text \<open>\<open>str(x)\<close> of a condition that is no text is \<open>rep\<close>.\<close>

function (sequential) evaluate :: "(cexpr \<Rightarrow> string) \<Rightarrow> (string, pyval) dict \<Rightarrow> cexpr \<Rightarrow> cmd_exn + pyval" where
  "evaluate rep params (Leaf (VStr s)) = atom s params"
| "evaluate rep params (Leaf v) = Inr v"
| "evaluate rep params (ListE es) = Inl ExprErr"
| "evaluate rep params (DictE d) =
     (case dict_get d ''if'' of
        Some c \<Rightarrow>
          (case parse_cond (case c of Leaf (VStr s) \<Rightarrow> s | _ \<Rightarrow> rep c) of
             None \<Rightarrow> Inl ExprErr
           | Some (ta, o', tb) \<Rightarrow>
               ebind (atom ta params) (\<lambda>a. ebind (atom tb params) (\<lambda>b. ebind (compare_values o' a b) (\<lambda>ok.
                 case dict_get d (if ok then ''then'' else ''else'') of
                   None \<Rightarrow> Inr VNone
                 | Some e \<Rightarrow> evaluate rep params e))))
      | None \<Rightarrow>
          (case first_op ARITH_OPS d of
             Some (o', ListE [l, r]) \<Rightarrow>
               ebind (evaluate rep params l) (\<lambda>a. ebind (evaluate rep params r) (\<lambda>b.
                 ebind (py_float a) (\<lambda>x. ebind (py_float b) (\<lambda>y. arith o' x y))))
           | _ \<Rightarrow> Inl ExprErr))"
  by pat_completeness auto
termination
  by (relation "measure (\<lambda>(rep, params, e). size e)")
    (auto dest!: first_op_get dict_get_size)

section \<open>The definition of a command\<close>

text \<open>\<open>ParamDef\<close>; no \<open>allowed\<close> list is the empty one.\<close>

record param_def =
  pd_min :: "rat option"
  pd_max :: "rat option"
  pd_default :: pyval
  pd_required :: bool
  pd_allowed :: "rat list"
  pd_aliases :: "string list"

text \<open>A guard or a check of what was written: an absent key is None.\<close>

record rule =
  rl_read :: string
  rl_expect :: "cexpr option"
  rl_tolerance :: rat
  rl_in :: "pyval list option"
  rl_min :: "rat option"
  rl_max :: "rat option"

text \<open>
  \<open>CommandDef\<close>. An alias names the command it stands for, if it names one
  at all.
\<close>

record command =
  cd_params :: "(string, param_def) dict"
  cd_guard :: "rule list"
  cd_writes :: "(string option \<times> cexpr) list"
  cd_settle :: rat
  cd_verify :: "rule list"
  cd_alias :: "string option option"
  cd_channel :: string
  cd_on :: string

text \<open>\<open>turns_on\<close>: None when the command does not say.\<close>

definition turns_on :: "command \<Rightarrow> (string, pyval) dict \<Rightarrow> bool option" where
  "turns_on cmd params =
     (if cd_on cmd = [] then None
      else (case evaluate (\<lambda>_. []) params
                   (DictE [(''if'', Leaf (VStr (cd_on cmd))), (''then'', Leaf (VInt 1)), (''else'', Leaf (VInt 0))]) of
              Inl e \<Rightarrow> None | Inr v \<Rightarrow> Some (truthy v)))"

section \<open>Parameters\<close>

datatype param_error =
  UnknownParams "string list" "string list" | Required string | NoNumber string
  | BelowMinimum string rat | AboveMaximum string rat | NotAllowed string rat

definition known_names :: "command \<Rightarrow> string list" where
  "known_names cmd = remdups (map fst (cd_params cmd) @ concat (map (pd_aliases \<circ> snd) (cd_params cmd)))"

definition given_value :: "(string, pyval) dict \<Rightarrow> string \<Rightarrow> pyval" where
  "given_value given k = (case dict_get given k of Some v \<Rightarrow> v | None \<Rightarrow> VNone)"

fun first_given :: "(string, pyval) dict \<Rightarrow> string list \<Rightarrow> pyval" where
  "first_given given [] = VNone"
| "first_given given (a # as) = (if given_value given a \<noteq> VNone then given_value given a else first_given given as)"

definition check_number :: "string \<Rightarrow> param_def \<Rightarrow> rat \<Rightarrow> param_error + pyval" where
  "check_number name p val =
     (if (case pd_min p of Some lo \<Rightarrow> val < lo | None \<Rightarrow> False) then Inl (BelowMinimum name val)
      else if (case pd_max p of Some hi \<Rightarrow> hi < val | None \<Rightarrow> False) then Inl (AboveMaximum name val)
      else if pd_allowed p \<noteq> [] \<and> val \<notin> set (pd_allowed p) then Inl (NotAllowed name val)
      else Inr (if val = of_int \<lfloor>val\<rfloor> then VInt \<lfloor>val\<rfloor> else VFloat val))"

definition normalize_one :: "(string, pyval) dict \<Rightarrow> string \<Rightarrow> param_def \<Rightarrow> param_error + pyval" where
  "normalize_one given name p =
     (let val = first_given given (name # pd_aliases p)
      in if val = VNone \<and> pd_required p \<and> pd_default p = VNone then Inl (Required name)
         else (let val = (if val = VNone then pd_default p else val)
               in if val = VNone then Inr VNone
                  else (case py_float val of
                          Inl e \<Rightarrow> Inl (NoNumber name)
                        | Inr q \<Rightarrow> check_number name p q)))"

definition normalize_params :: "command \<Rightarrow> (string, pyval) dict \<Rightarrow> param_error + (string, pyval) dict" where
  "normalize_params cmd given =
     (let unknown = filter (\<lambda>k. k \<notin> set (known_names cmd)) (map fst given)
      in if unknown \<noteq> [] then Inl (UnknownParams (sort unknown) (sort (known_names cmd)))
         else emap (\<lambda>(name, p). ebind (normalize_one given name p) (\<lambda>v. Inr (name, v))) (cd_params cmd))"

section \<open>Channels\<close>

text \<open>
  \<open>assign_channels\<close> keeps a forest of names (\<open>parent\<close>) and joins the commands
  that share a key. \<open>find\<close> walks up to the root and shortens the way it
  went; None is a walk that never ends, or a name without a parent.
\<close>

type_synonym forest = "(string, string) dict"

partial_function (option) find_root :: "forest \<Rightarrow> string \<Rightarrow> (string \<times> forest) option" where
  "find_root parent n =
     (case dict_get parent n of
        None \<Rightarrow> None
      | Some p \<Rightarrow>
          if p = n then Some (n, parent)
          else (case dict_get parent p of
                  None \<Rightarrow> None
                | Some g \<Rightarrow> find_root (dict_set n g parent) g))"

definition union_names :: "string \<Rightarrow> string \<Rightarrow> forest \<Rightarrow> forest option" where
  "union_names a b parent =
     Option.bind (find_root parent a) (\<lambda>(ra, parent).
       Option.bind (find_root parent b) (\<lambda>(rb, parent).
         Some (if ra \<noteq> rb then dict_set rb ra parent else parent)))"

definition command_keys :: "command \<Rightarrow> string list" where
  "command_keys d =
     map (\<lambda>r. ''reg:'' @ r) (filter (\<lambda>r. r \<noteq> []) (List.map_filter fst (cd_writes d)))
     @ (if cd_channel d \<noteq> [] then [''ch:'' @ cd_channel d] else [])"

text \<open>The command that first claimed a key is in \<open>by_key\<close>.\<close>

fun join_keys :: "(string \<times> string) list \<Rightarrow> forest \<Rightarrow> (string, string) dict \<Rightarrow> (forest \<times> (string, string) dict) option" where
  "join_keys [] parent by_key = Some (parent, by_key)"
| "join_keys ((n, k) # rest) parent by_key =
     (case dict_get by_key k of
        Some m \<Rightarrow> Option.bind (union_names m n parent) (\<lambda>parent. join_keys rest parent by_key)
      | None \<Rightarrow> join_keys rest parent (dict_set k n by_key))"

definition claimed_keys :: "(string, command) dict \<Rightarrow> (string \<times> string) list" where
  "claimed_keys defs = concat (map (\<lambda>(n, d). map (\<lambda>k. (n, k)) (command_keys d)) (filter (\<lambda>(n, d). cd_alias d = None) defs))"

fun group_names :: "string list \<Rightarrow> forest \<Rightarrow> (string, string list) dict \<Rightarrow> (string, string list) dict option" where
  "group_names [] parent groups = Some groups"
| "group_names (n # ns) parent groups =
     Option.bind (find_root parent n) (\<lambda>(r, parent).
       group_names ns parent (dict_set r ((case dict_get groups r of Some ms \<Rightarrow> ms | None \<Rightarrow> []) @ [n]) groups))"

definition channel_groups :: "(string, command) dict \<Rightarrow> (string, string list) dict option" where
  "channel_groups defs =
     Option.bind (join_keys (claimed_keys defs) (map (\<lambda>(n, d). (n, n)) defs) []) (\<lambda>(parent, by_key).
       group_names (map fst (filter (\<lambda>(n, d). cd_alias d = None) defs)) parent [])"

text \<open>\<open>real\<close>: an alias's target, followed through aliases and never twice through one.\<close>

function real_name :: "(string, command) dict \<Rightarrow> string \<Rightarrow> string list \<Rightarrow> string" where
  "real_name defs name seen =
     (case Option.bind (dict_get defs name) cd_alias of
        Some (Some t) \<Rightarrow> if dict_get defs t \<noteq> None \<and> name \<notin> set seen then real_name defs t (seen @ [name]) else name
      | _ \<Rightarrow> name)"
  by pat_completeness auto
termination
proof (relation "measure (\<lambda>(defs, name, seen). card (dom (map_of defs) - set seen))", goal_cases)
  case 1
  show ?case by simp
next
  case (2 defs name seen x t)
  then have "name \<in> dom (map_of defs) - set seen" by (cases "dict_get defs name") auto
  then have "dom (map_of defs) - set (seen @ [name]) \<subset> dom (map_of defs) - set seen" by auto
  then show ?case by (simp add: finite_dom_map_of psubset_card_mono)
qed

declare real_name.simps [simp del]

definition channel_of :: "(string, command) dict \<Rightarrow> string \<Rightarrow> string" where
  "channel_of defs m = (case dict_get defs m of Some d \<Rightarrow> cd_channel d | None \<Rightarrow> [])"

fun join_plus :: "string list \<Rightarrow> string" where
  "join_plus [] = []"
| "join_plus [x] = x"
| "join_plus (x # xs) = x @ ''+'' @ join_plus xs"

definition group_id :: "(string, command) dict \<Rightarrow> string list \<Rightarrow> string" where
  "group_id defs members =
     (case sort (remdups (filter (\<lambda>c. c \<noteq> []) (map (channel_of defs) members))) of
        c # _ \<Rightarrow> c | [] \<Rightarrow> join_plus (sort members))"

definition group_ids :: "(string, command) dict \<Rightarrow> (string, string list) dict \<Rightarrow> (string, string) dict" where
  "group_ids defs groups = fold (\<lambda>(r, members) ids. fold (\<lambda>m. dict_set m (group_id defs members)) members ids) groups []"

definition fill_id :: "(string, command) dict \<Rightarrow> string \<Rightarrow> (string, string) dict \<Rightarrow> (string, string) dict" where
  "fill_id defs n ids =
     (case dict_get ids n of
        Some c \<Rightarrow> ids
      | None \<Rightarrow> dict_set n (case dict_get ids (real_name defs n []) of Some c \<Rightarrow> c | None \<Rightarrow> n) ids)"

definition assign_channels :: "(string, command) dict \<Rightarrow> (string, string) dict option" where
  "assign_channels defs = map_option (\<lambda>groups. fold (fill_id defs) (map fst defs) (group_ids defs groups)) (channel_groups defs)"

section \<open>The forest finds its roots\<close>

text \<open>\<open>rep\<close> is the root of every name and \<open>rk\<close> falls on the way up.\<close>

definition forest_inv :: "forest \<Rightarrow> (string \<Rightarrow> string) \<Rightarrow> (string \<Rightarrow> nat) \<Rightarrow> bool" where
  "forest_inv parent rep rk = (\<forall>n p. dict_get parent n = Some p \<longrightarrow>
     dict_get parent p \<noteq> None \<and> rep p = rep n \<and> (if p = n then rep n = n else rk p < rk n))"

definition same_names :: "forest \<Rightarrow> forest \<Rightarrow> bool" where
  "same_names p q = (\<forall>n. (dict_get p n = None) = (dict_get q n = None))"

lemma find_root_spec:
  assumes "forest_inv parent rep rk" "dict_get parent n \<noteq> None"
  shows "\<exists>parent'. find_root parent n = Some (rep n, parent') \<and> forest_inv parent' rep rk \<and> same_names parent' parent"
  using assms
proof (induction "rk n" arbitrary: n parent rule: less_induct)
  case less
  then obtain p where p: "dict_get parent n = Some p" by auto
  with less.prems(1) have P: "dict_get parent p \<noteq> None" "rep p = rep n" "if p = n then rep n = n else rk p < rk n"
    unfolding forest_inv_def by blast+
  show ?case
  proof (cases "p = n")
    case True
    with p P less.prems show ?thesis by (simp add: find_root.simps same_names_def)
  next
    case False
    from P(1) obtain g where g: "dict_get parent p = Some g" by auto
    with less.prems(1) have G: "dict_get parent g \<noteq> None" "rep g = rep p" "if g = p then rep p = p else rk g < rk p"
      unfolding forest_inv_def by blast+
    then have "rk g < rk n" using P(3) False by (cases "g = p") auto
    moreover have inv: "forest_inv (dict_set n g parent) rep rk"
      unfolding forest_inv_def
    proof (intro allI impI)
      fix x q assume "dict_get (dict_set n g parent) x = Some q"
      then have "x = n \<and> q = g \<or> x \<noteq> n \<and> dict_get parent x = Some q" by (simp add: dict_simps split: if_splits)
      then show "dict_get (dict_set n g parent) q \<noteq> None \<and> rep q = rep x \<and> (if q = x then rep x = x else rk q < rk x)"
      proof
        assume "x = n \<and> q = g"
        then show ?thesis using G P False \<open>rk g < rk n\<close> by (auto simp: dict_simps)
      next
        assume "x \<noteq> n \<and> dict_get parent x = Some q"
        then show ?thesis using less.prems(1) unfolding forest_inv_def by (auto simp: dict_simps)
      qed
    qed
    moreover have "dict_get (dict_set n g parent) g \<noteq> None" using G(1) by (simp add: dict_simps)
    ultimately obtain parent' where r: "find_root (dict_set n g parent) g = Some (rep g, parent')"
      "forest_inv parent' rep rk" "same_names parent' (dict_set n g parent)"
      using less.hyps by blast
    have "same_names (dict_set n g parent) parent" using p by (simp add: same_names_def dict_simps)
    with r(3) have "same_names parent' parent" by (simp add: same_names_def)
    with r p g False G(2) P(2) show ?thesis by (simp add: find_root.simps [of parent n])
  qed
qed

definition merged :: "(string \<Rightarrow> string) \<Rightarrow> string \<Rightarrow> string \<Rightarrow> string \<Rightarrow> string" where
  "merged rep a b x = (if rep x = rep b then rep a else rep x)"

lemma union_spec:
  assumes inv: "forest_inv parent rep rk" and a: "dict_get parent a \<noteq> None" and b: "dict_get parent b \<noteq> None"
  shows "\<exists>parent' rk'. union_names a b parent = Some parent' \<and> forest_inv parent' (merged rep a b) rk' \<and> same_names parent' parent"
proof -
  obtain p1 where p1: "find_root parent a = Some (rep a, p1)" "forest_inv p1 rep rk" "same_names p1 parent"
    using find_root_spec [OF inv a] by blast
  then have "dict_get p1 b \<noteq> None" using b by (simp add: same_names_def)
  then obtain p2 where p2: "find_root p1 b = Some (rep b, p2)" "forest_inv p2 rep rk" "same_names p2 p1"
    using find_root_spec [OF p1(2)] by blast
  have names: "same_names p2 parent" using p1(3) p2(3) by (simp add: same_names_def)
  show ?thesis
  proof (cases "rep a = rep b")
    case True
    then have "merged rep a b = rep" by (auto simp: merged_def)
    with p1 p2 names True show ?thesis by (auto simp: union_names_def)
  next
    case False
    have root: "rep (rep x) = rep x \<and> dict_get p2 (rep x) \<noteq> None" if x: "dict_get p2 x \<noteq> None" for x
      using x
    proof (induction "rk x" arbitrary: x rule: less_induct)
      case less
      then obtain p where p: "dict_get p2 x = Some p" by auto
      with p2(2) have "dict_get p2 p \<noteq> None \<and> rep p = rep x \<and> (if p = x then rep x = x else rk p < rk x)"
        unfolding forest_inv_def by blast
      with less.hyps [of p] less.prems show ?case by (cases "p = x") auto
    qed
    have a2: "dict_get p2 a \<noteq> None" and b2: "dict_get p2 b \<noteq> None" using a b names by (simp_all add: same_names_def)
    define rk' where "rk' = (\<lambda>x. if rep x = rep b then rk x + Suc (rk (rep a)) else rk x)"
    have "forest_inv (dict_set (rep b) (rep a) p2) (merged rep a b) rk'"
      unfolding forest_inv_def
    proof (intro allI impI)
      fix x q assume "dict_get (dict_set (rep b) (rep a) p2) x = Some q"
      then have "x = rep b \<and> q = rep a \<or> x \<noteq> rep b \<and> dict_get p2 x = Some q" by (auto simp: dict_simps split: if_splits)
      then show "dict_get (dict_set (rep b) (rep a) p2) q \<noteq> None \<and> merged rep a b q = merged rep a b x
          \<and> (if q = x then merged rep a b x = x else rk' q < rk' x)"
      proof
        assume "x = rep b \<and> q = rep a"
        then show ?thesis using False root [OF a2] root [OF b2] by (auto simp: dict_simps merged_def rk'_def)
      next
        assume x: "x \<noteq> rep b \<and> dict_get p2 x = Some q"
        with p2(2) have "dict_get p2 q \<noteq> None \<and> rep q = rep x \<and> (if q = x then rep x = x else rk q < rk x)"
          unfolding forest_inv_def by blast
        then show ?thesis using x by (auto simp: dict_simps merged_def rk'_def split: if_splits)
      qed
    qed
    moreover have "same_names (dict_set (rep b) (rep a) p2) parent"
      using names root [OF b2] by (simp add: same_names_def dict_simps)
    ultimately show ?thesis using p1 p2 False by (auto simp: union_names_def)
  qed
qed

section \<open>Joining keys builds the components\<close>

text \<open>Two commands that claim one key.\<close>

definition shares :: "(string \<times> string) set \<Rightarrow> (string \<times> string) set" where
  "shares claims = {(a, b). \<exists>k. (a, k) \<in> claims \<and> (b, k) \<in> claims}"

definition linked :: "(string \<Rightarrow> string) \<Rightarrow> (string \<times> string) set \<Rightarrow> bool" where
  "linked rep E = (\<forall>x y. rep x = rep y \<longleftrightarrow> (x, y) \<in> E\<^sup>*)"

lemma linked_merge: "linked rep E \<Longrightarrow> linked (merged rep a b) (E \<union> {(a, b), (b, a)})"
  unfolding linked_def
proof (intro allI iffI)
  fix x y
  let ?F = "E \<union> {(a, b), (b, a)}"
  assume L: "\<forall>x y. (rep x = rep y) = ((x, y) \<in> E\<^sup>*)"
  have up: "rep u = rep v \<Longrightarrow> (u, v) \<in> ?F\<^sup>*" for u v
    using L rtrancl_mono [of E ?F] by auto
  { assume "merged rep a b x = merged rep a b y"
    then consider "rep x = rep y" | "rep x = rep b" "rep y = rep a" | "rep x = rep a" "rep y = rep b"
      by (auto simp: merged_def split: if_splits)
    then show "(x, y) \<in> ?F\<^sup>*"
    proof cases
      case 1
      then show ?thesis by (rule up)
    next
      case 2
      have "(x, b) \<in> ?F\<^sup>*" "(a, y) \<in> ?F\<^sup>*" using 2 up [of x b] up [of a y] by simp_all
      moreover have "(b, a) \<in> ?F\<^sup>*" by blast
      ultimately show ?thesis by (meson rtrancl_trans)
    next
      case 3
      have "(x, a) \<in> ?F\<^sup>*" "(b, y) \<in> ?F\<^sup>*" using 3 up [of x a] up [of b y] by simp_all
      moreover have "(a, b) \<in> ?F\<^sup>*" by blast
      ultimately show ?thesis by (meson rtrancl_trans)
    qed }
  { assume "(x, y) \<in> ?F\<^sup>*"
    then show "merged rep a b x = merged rep a b y"
    proof (induction rule: rtrancl_induct)
      case (step u v)
      have "merged rep a b u = merged rep a b v" if "(u, v) \<in> E"
        using L that by (metis merged_def r_into_rtrancl)
      then show ?case using step by (auto simp: merged_def)
    qed simp }
qed

lemma linked_same: "linked rep E \<Longrightarrow> E\<^sup>* = F\<^sup>* \<Longrightarrow> linked rep F"
  by (simp add: linked_def)

text \<open>What holds after the claims \<open>done\<close> were joined.\<close>

definition joined :: "(string \<times> string) set \<Rightarrow> forest \<Rightarrow> (string, string) dict \<Rightarrow> (string \<Rightarrow> string) \<Rightarrow> bool" where
  "joined claims parent by_key rep \<longleftrightarrow> (\<exists>rk. forest_inv parent rep rk) \<and> linked rep (shares claims)
     \<and> (\<forall>k m. dict_get by_key k = Some m \<longrightarrow> (m, k) \<in> claims) \<and> (\<forall>n k. (n, k) \<in> claims \<longrightarrow> dict_get by_key k \<noteq> None)"

lemma join_new:
  assumes "joined claims parent by_key rep" "dict_get by_key k = None"
  shows "joined (insert (n, k) claims) parent (dict_set k n by_key) rep"
proof -
  have new: "(m, k) \<notin> claims" for m using assms unfolding joined_def by metis
  have "shares (insert (n, k) claims) \<subseteq> (shares claims)\<^sup>*" using new by (auto simp: shares_def)
  moreover have "shares claims \<subseteq> shares (insert (n, k) claims)" by (auto simp: shares_def)
  ultimately have "(shares claims)\<^sup>* = (shares (insert (n, k) claims))\<^sup>*" by (metis rtrancl_subset)
  with assms(1) have "linked rep (shares (insert (n, k) claims))" unfolding joined_def by (blast intro: linked_same)
  with assms(1) show ?thesis by (auto simp: joined_def dict_simps split: if_splits)
qed

lemma join_old:
  assumes "joined claims parent by_key rep" "dict_get by_key k = Some m" "dict_get parent n \<noteq> None"
    and "\<forall>x \<in> fst ` claims. dict_get parent x \<noteq> None"
  shows "\<exists>parent'. union_names m n parent = Some parent' \<and> same_names parent' parent
    \<and> joined (insert (n, k) claims) parent' by_key (merged rep m n)"
proof -
  obtain rk where inv: "forest_inv parent rep rk" using assms(1) by (auto simp: joined_def)
  have mk: "(m, k) \<in> claims" using assms by (auto simp: joined_def)
  then have "dict_get parent m \<noteq> None" using assms(4) by force
  then obtain parent' rk' where u: "union_names m n parent = Some parent'" "forest_inv parent' (merged rep m n) rk'"
      "same_names parent' parent"
    using union_spec [OF inv _ assms(3)] by blast
  let ?E = "shares claims \<union> {(m, n), (n, m)}" and ?F = "shares (insert (n, k) claims)"
  have E: "(m, n) \<in> ?E" "(n, m) \<in> ?E" by simp_all
  have "?F \<subseteq> ?E\<^sup>*"
  proof
    fix p assume "p \<in> ?F"
    then obtain a b j where p: "p = (a, b)" "(a, j) \<in> insert (n, k) claims" "(b, j) \<in> insert (n, k) claims"
      by (auto simp: shares_def)
    have old: "(c, m) \<in> ?E\<^sup>* \<and> (m, c) \<in> ?E\<^sup>*" if "(c, k) \<in> claims" for c
      using that mk by (auto simp: shares_def)
    have own: "(n, m) \<in> ?E\<^sup>* \<and> (m, n) \<in> ?E\<^sup>*" by blast
    show "p \<in> ?E\<^sup>*"
    proof (cases "(a, j) \<in> claims \<and> (b, j) \<in> claims")
      case True
      then show ?thesis using p by (auto simp: shares_def)
    next
      case False
      then have "j = k" using p by auto
      then have "(a, m) \<in> ?E\<^sup>*" "(m, b) \<in> ?E\<^sup>*" using p old [of a] old [of b] own by auto
      then show ?thesis using p(1) by (simp add: rtrancl_trans)
    qed
  qed
  moreover have "?E \<subseteq> ?F" using mk by (auto simp: shares_def)
  ultimately have "?E\<^sup>* = ?F\<^sup>*" by (metis rtrancl_subset)
  moreover have "linked rep (shares claims)" using assms(1) by (simp add: joined_def)
  ultimately have "linked (merged rep m n) ?F" by (blast intro: linked_same linked_merge)
  with assms(1,2) u show ?thesis by (auto simp: joined_def)
qed

lemma join_keys_spec:
  assumes "joined claims parent by_key rep" "\<forall>x \<in> fst ` (claims \<union> set ks). dict_get parent x \<noteq> None"
  shows "\<exists>parent' by_key' rep'. join_keys ks parent by_key = Some (parent', by_key') \<and> same_names parent' parent
    \<and> joined (claims \<union> set ks) parent' by_key' rep'"
  using assms
proof (induction ks parent by_key arbitrary: claims rep rule: join_keys.induct)
  case (1 parent by_key)
  then show ?case by (auto simp: same_names_def)
next
  case (2 n k rest parent by_key)
  have eq: "claims \<union> set ((n, k) # rest) = insert (n, k) claims \<union> set rest" by auto
  show ?case
  proof (cases "dict_get by_key k")
    case None
    with "2.IH"(1) [OF None join_new [OF "2.prems"(1) None, of n]] "2.prems"(2) show ?thesis by (simp add: eq)
  next
    case (Some m)
    have n: "dict_get parent n \<noteq> None" "\<forall>x \<in> fst ` claims. dict_get parent x \<noteq> None" using "2.prems"(2) by auto
    obtain parent' where u: "union_names m n parent = Some parent'" "same_names parent' parent"
        "joined (insert (n, k) claims) parent' by_key (merged rep m n)"
      using join_old [OF "2.prems"(1) Some n] by blast
    have "\<forall>x \<in> fst ` (insert (n, k) claims \<union> set rest). dict_get parent' x \<noteq> None"
      using u(2) "2.prems"(2) by (auto simp: same_names_def)
    from "2.IH"(2) [OF Some _ u(3) this] u(1) obtain p b r where
      "join_keys rest parent' by_key = Some (p, b)" "same_names p parent'" "joined (insert (n, k) claims \<union> set rest) p b r"
      by auto
    with u Some show ?thesis by (auto simp: eq same_names_def)
  qed
qed

section \<open>Groups and ids\<close>

lemma group_names_spec:
  assumes "forest_inv parent rep rk" "\<forall>n \<in> set ns. dict_get parent n \<noteq> None"
    and "dict_ok groups" "\<forall>r. dict_get groups r = (let ms = filter (\<lambda>n. rep n = r) before in if ms = [] then None else Some ms)"
  shows "\<exists>groups'. group_names ns parent groups = Some groups' \<and> dict_ok groups'
    \<and> (\<forall>r. dict_get groups' r = (let ms = filter (\<lambda>n. rep n = r) (before @ ns) in if ms = [] then None else Some ms))"
  using assms
proof (induction ns arbitrary: parent groups before)
  case (Cons n ns)
  then obtain parent' where p: "find_root parent n = Some (rep n, parent')" "forest_inv parent' rep rk" "same_names parent' parent"
    using find_root_spec [OF Cons.prems(1), of n] by auto
  let ?g = "dict_set (rep n) ((case dict_get groups (rep n) of Some ms \<Rightarrow> ms | None \<Rightarrow> []) @ [n]) groups"
  have names: "\<forall>m \<in> set ns. dict_get parent' m \<noteq> None" using p(3) Cons.prems(2) by (simp add: same_names_def)
  have g: "\<forall>r. dict_get ?g r = (let ms = filter (\<lambda>m. rep m = r) (before @ [n]) in if ms = [] then None else Some ms)"
    using Cons.prems(4) by (auto simp: dict_simps Let_def)
  show ?case using Cons.IH [OF p(2) names dict_ok_set [OF Cons.prems(3)] g] p(1) by simp
qed auto

lemma dict_get_fold_const: "dict_get (fold (\<lambda>m. dict_set m c) ms ids) a = (if a \<in> set ms then Some c else dict_get ids a)"
  by (induction ms arbitrary: ids) (auto simp: dict_simps)

lemma dict_get_fold_groups:
  assumes "\<forall>r ms. (r, ms) \<in> set groups \<longrightarrow> a \<in> set ms \<longrightarrow> f ms = c"
  shows "dict_get (fold (\<lambda>(r, members) ids. fold (\<lambda>m. dict_set m (f members)) members ids) groups ids) a
    = (if \<exists>r ms. (r, ms) \<in> set groups \<and> a \<in> set ms then Some c else dict_get ids a)"
  using assms
proof (induction groups arbitrary: ids)
  case (Cons g groups)
  obtain r ms where g: "g = (r, ms)" by (cases g)
  have "\<forall>r ms. (r, ms) \<in> set groups \<longrightarrow> a \<in> set ms \<longrightarrow> f ms = c" using Cons.prems by auto
  from Cons.IH [OF this] Cons.prems show ?case by (auto simp: g dict_get_fold_const)
qed simp

definition own_commands :: "(string, command) dict \<Rightarrow> string list" where
  "own_commands defs = map fst (filter (\<lambda>(n, d). cd_alias d = None) defs)"

definition on_channel_with :: "(string, command) dict \<Rightarrow> string \<Rightarrow> string \<Rightarrow> bool" where
  "on_channel_with defs a b = ((a, b) \<in> (shares (set (claimed_keys defs)))\<^sup>*)"

lemma dict_get_self: "dict_get (map (\<lambda>(n, d). (n, n)) defs) x = (if x \<in> fst ` set defs then Some x else None)"
  by (induction defs) auto

lemma claims_named: "fst ` set (claimed_keys defs) \<subseteq> fst ` set defs"
  by (force simp: claimed_keys_def)

lemma own_named: "n \<in> set (own_commands defs) \<Longrightarrow> n \<in> fst ` set defs"
  by (force simp: own_commands_def)

lemma channel_groups_spec:
  "\<exists>groups rep. channel_groups defs = Some groups \<and> dict_ok groups \<and> linked rep (shares (set (claimed_keys defs)))
    \<and> (\<forall>r. dict_get groups r = (let ms = filter (\<lambda>n. rep n = r) (own_commands defs) in if ms = [] then None else Some ms))"
proof -
  let ?p = "map (\<lambda>(n, d). (n, n)) defs"
  have "forest_inv ?p id (\<lambda>_. 0)" by (auto simp: forest_inv_def dict_get_self split: if_splits)
  then have start: "joined {} ?p [] id" by (auto simp: joined_def linked_def shares_def)
  have "\<forall>x \<in> fst ` ({} \<union> set (claimed_keys defs)). dict_get ?p x \<noteq> None"
    using claims_named [of defs] by (auto simp: dict_get_self)
  from join_keys_spec [OF start this] obtain parent by_key rep where
    j: "join_keys (claimed_keys defs) ?p [] = Some (parent, by_key)" "same_names parent ?p"
       "joined (set (claimed_keys defs)) parent by_key rep" by auto
  then obtain rk where inv: "forest_inv parent rep rk" by (auto simp: joined_def)
  have "\<forall>n \<in> set (own_commands defs). dict_get parent n \<noteq> None"
    using j(2) own_named [of _ defs] by (simp add: same_names_def dict_get_self)
  from group_names_spec [OF inv this, of "[]" "[]"] obtain groups where
    "group_names (own_commands defs) parent [] = Some groups" "dict_ok groups"
    "\<forall>r. dict_get groups r = (let ms = filter (\<lambda>n. rep n = r) (own_commands defs) in if ms = [] then None else Some ms)"
    by auto
  with j show ?thesis by (auto simp: channel_groups_def joined_def own_commands_def)
qed

lemma fill_id_get:
  "dict_get (fill_id defs n ids) x = (if dict_get ids n = None \<and> x = n
     then Some (case dict_get ids (real_name defs n []) of Some c \<Rightarrow> c | None \<Rightarrow> n) else dict_get ids x)"
  by (auto simp: fill_id_def dict_simps split: option.splits)

lemma fill_id_keep: "dict_get ids a = Some c \<Longrightarrow> dict_get (fill_id defs n ids) a = Some c"
  by (auto simp: fill_id_get)

lemma fold_keep: "dict_get ids a = Some c \<Longrightarrow> dict_get (fold (fill_id defs) ns ids) a = Some c"
  by (induction ns arbitrary: ids) (simp_all add: fill_id_keep)

lemma fold_fill:
  assumes "n \<in> set ns" "dict_get ids n = None" "dict_get ids (real_name defs n []) = Some c"
  shows "dict_get (fold (fill_id defs) ns ids) n = Some c"
  using assms
proof (induction ns arbitrary: ids)
  case (Cons m ns)
  show ?case
  proof (cases "m = n")
    case True
    with Cons.prems have "dict_get (fill_id defs m ids) n = Some c" by (simp add: fill_id_get)
    then show ?thesis by (simp add: fold_keep)
  next
    case False
    with Cons.prems have "dict_get (fill_id defs m ids) n = None" "dict_get (fill_id defs m ids) (real_name defs n []) = Some c" "n \<in> set ns"
      by (auto simp: fill_id_get)
    from Cons.IH [OF this(3,1,2)] show ?thesis by simp
  qed
qed simp

lemma fold_total: "n \<in> set ns \<or> dict_get ids n \<noteq> None \<Longrightarrow> dict_get (fold (fill_id defs) ns ids) n \<noteq> None"
proof (induction ns arbitrary: ids)
  case (Cons m ns)
  then have "n \<in> set ns \<or> dict_get (fill_id defs m ids) n \<noteq> None" by (auto simp: fill_id_get)
  from Cons.IH [OF this] show ?case by simp
qed simp

lemma group_ids_get:
  assumes "dict_ok groups"
    and groups: "\<forall>r. dict_get groups r = (let ms = filter (\<lambda>n. rep n = r) own in if ms = [] then None else Some ms)"
  shows "dict_get (group_ids defs groups) x
    = (if x \<in> set own then Some (group_id defs (filter (\<lambda>n. rep n = rep x) own)) else None)"
proof -
  let ?ms = "filter (\<lambda>n. rep n = rep x) own"
  have mem: "(r, ms) \<in> set groups \<longleftrightarrow> ms = filter (\<lambda>n. rep n = r) own \<and> ms \<noteq> []" for r ms
    unfolding dict_in_get [OF assms(1)] groups [rule_format] Let_def by (simp split: if_split) blast
  have "group_id defs ms = group_id defs ?ms" if "(r, ms) \<in> set groups" "x \<in> set ms" for r ms
  proof -
    have "ms = filter (\<lambda>n. rep n = r) own" using that(1) by (simp only: mem)
    moreover with that(2) have "rep x = r" by simp
    ultimately show ?thesis by simp
  qed
  then have "\<forall>r ms. (r, ms) \<in> set groups \<longrightarrow> x \<in> set ms \<longrightarrow> group_id defs ms = group_id defs ?ms" by blast
  note fold = dict_get_fold_groups [where f = "group_id defs", OF this, of "[]"]
  have "(\<exists>r ms. (r, ms) \<in> set groups \<and> x \<in> set ms) \<longleftrightarrow> x \<in> set own"
  proof
    assume "x \<in> set own"
    then have "x \<in> set ?ms" by simp
    then have "(rep x, ?ms) \<in> set groups" using mem by (metis empty_iff empty_set)
    with \<open>x \<in> set ?ms\<close> show "\<exists>r ms. (r, ms) \<in> set groups \<and> x \<in> set ms" by blast
  next
    assume "\<exists>r ms. (r, ms) \<in> set groups \<and> x \<in> set ms"
    then obtain r ms where "ms = filter (\<lambda>n. rep n = r) own" "x \<in> set ms" using mem by blast
    then show "x \<in> set own" by simp
  qed
  with fold show ?thesis by (simp add: group_ids_def)
qed

text \<open>
  C22 (termination): Assigning channels ends, whatever registers the commands share, and gives
  every command one; a command's channel is the id of exactly the commands linked with it by
  chains of shared registers and channel names, and an alias is on its target's.
\<close>

theorem channels_follow_registers:
  assumes "a \<in> set (own_commands defs)"
  shows "\<exists>ids. assign_channels defs = Some ids
    \<and> dict_get ids a = Some (group_id defs (filter (on_channel_with defs a) (own_commands defs)))
    \<and> list_all (\<lambda>n. dict_get ids n \<noteq> None) (map fst defs)
    \<and> list_all (\<lambda>n. dict_get ids n = dict_get ids a)
        (filter (\<lambda>n. n \<notin> set (own_commands defs) \<and> real_name defs n [] = a) (map fst defs))"
proof -
  obtain groups rep where g: "channel_groups defs = Some groups" "dict_ok groups" "linked rep (shares (set (claimed_keys defs)))"
      "\<forall>r. dict_get groups r = (let ms = filter (\<lambda>n. rep n = r) (own_commands defs) in if ms = [] then None else Some ms)"
    using channel_groups_spec by blast
  let ?ids = "fold (fill_id defs) (map fst defs) (group_ids defs groups)"
  let ?ms = "filter (on_channel_with defs a) (own_commands defs)"
  have "on_channel_with defs a n \<longleftrightarrow> rep n = rep a" for n
    using g(3) unfolding linked_def on_channel_with_def by metis
  then have rep: "on_channel_with defs a = (\<lambda>n. rep n = rep a)" by blast
  note start = group_ids_get [OF g(2,4), of defs]
  have a0: "dict_get (group_ids defs groups) a = Some (group_id defs ?ms)" using start [of a] assms by (simp add: rep)
  have a1: "dict_get ?ids a = Some (group_id defs ?ms)" by (rule fold_keep [OF a0])
  have al: "dict_get ?ids n = Some (group_id defs ?ms)"
    if "n \<in> set (map fst defs)" "n \<notin> set (own_commands defs)" "real_name defs n [] = a" for n
    using fold_fill [OF that(1), of "group_ids defs groups" defs] start [of n] a0 that by (simp)
  have "assign_channels defs = Some ?ids" using g(1) by (simp add: assign_channels_def)
  moreover have "list_all (\<lambda>n. dict_get ?ids n \<noteq> None) (map fst defs)"
    unfolding list_all_iff using fold_total by blast
  moreover have "list_all (\<lambda>n. dict_get ?ids n = dict_get ?ids a)
        (filter (\<lambda>n. n \<notin> set (own_commands defs) \<and> real_name defs n [] = a) (map fst defs))"
    using al a1 by (simp add: list_all_iff)
  ultimately show ?thesis using a1 by blast
qed

section \<open>Examples\<close>

definition plain_command :: "(string option \<times> cexpr) list \<Rightarrow> command" where
  "plain_command ws = \<lparr> cd_params = [], cd_guard = [], cd_writes = ws, cd_settle = 1, cd_verify = [], cd_alias = None,
     cd_channel = [], cd_on = [] \<rparr>"

definition plain_param :: param_def where
  "plain_param = \<lparr> pd_min = None, pd_max = None, pd_default = VNone, pd_required = False, pd_allowed = [], pd_aliases = [] \<rparr>"

definition limit_command :: command where
  "limit_command = (plain_command [(Some ''P'', Leaf (VStr ''${value}''))])\<lparr>cd_params :=
     [(''value'', plain_param\<lparr>pd_min := Some 0, pd_max := Some 100, pd_required := True, pd_aliases := [''percent'']\<rparr>), (''ramp'', plain_param)]\<rparr>"

theorem channels_follow_registers_witness:
  "\<exists>ids. assign_channels [(''limit'', plain_command [(Some ''P'', Leaf (VInt 1))]), (''restore'', plain_command [(Some ''P'', Leaf (VInt 0))])] = Some ids
    \<and> dict_get ids ''limit'' = Some (group_id [(''limit'', plain_command [(Some ''P'', Leaf (VInt 1))]), (''restore'', plain_command [(Some ''P'', Leaf (VInt 0))])]
        (filter (on_channel_with [(''limit'', plain_command [(Some ''P'', Leaf (VInt 1))]), (''restore'', plain_command [(Some ''P'', Leaf (VInt 0))])] ''limit'')
          (own_commands [(''limit'', plain_command [(Some ''P'', Leaf (VInt 1))]), (''restore'', plain_command [(Some ''P'', Leaf (VInt 0))])])))"
  using channels_follow_registers [of "''limit''" "[(''limit'', plain_command [(Some ''P'', Leaf (VInt 1))]), (''restore'', plain_command [(Some ''P'', Leaf (VInt 0))])]"]
  by (auto simp: own_commands_def plain_command_def)

section \<open>Normalised parameters\<close>

text \<open>What a normalised value may be: absent, or a number the definition allows, whole ones as integers.\<close>

definition permitted :: "param_def \<Rightarrow> pyval \<Rightarrow> bool" where
  "permitted p v = (case number_of v of
      None \<Rightarrow> v = VNone \<and> pd_default p = VNone \<and> \<not> pd_required p
    | Some q \<Rightarrow> (case pd_min p of Some lo \<Rightarrow> lo \<le> q | None \<Rightarrow> True) \<and> (case pd_max p of Some hi \<Rightarrow> q \<le> hi | None \<Rightarrow> True)
        \<and> (pd_allowed p = [] \<or> q \<in> set (pd_allowed p)) \<and> v = (if q = of_int \<lfloor>q\<rfloor> then VInt \<lfloor>q\<rfloor> else VFloat q))"

lemma check_number_permitted: "check_number name p q = Inr v \<Longrightarrow> permitted p v"
  by (auto simp: check_number_def permitted_def split: if_splits option.splits)

lemma check_number_again: "permitted p v \<Longrightarrow> number_of v = Some q \<Longrightarrow> check_number name p q = Inr v"
  by (auto simp: check_number_def permitted_def split: if_splits option.splits)

lemma py_float_number: "number_of v = Some q \<Longrightarrow> py_float v = Inr q"
  by (cases v) auto

lemma normalize_one_permitted: "normalize_one given name p = Inr v \<Longrightarrow> permitted p v"
  by (auto simp: normalize_one_def Let_def check_number_permitted split: if_splits sum.splits)
    (auto simp: permitted_def)

lemma first_given_absent: "\<forall>a \<in> set as. given_value given a = VNone \<Longrightarrow> first_given given as = VNone"
  by (induction as) auto

lemma normalize_one_again:
  assumes "permitted p v" "given_value given name = v" "\<forall>a \<in> set (pd_aliases p). given_value given a = VNone"
  shows "normalize_one given name p = Inr v"
proof (cases "number_of v")
  case None
  then have v: "v = VNone" "pd_default p = VNone" "\<not> pd_required p" using assms(1) by (simp_all add: permitted_def)
  have "first_given given (name # pd_aliases p) = VNone"
    by (rule first_given_absent) (use assms(2,3) v(1) in auto)
  then show ?thesis using v by (simp add: normalize_one_def)
next
  case (Some q)
  then have "v \<noteq> VNone" by auto
  then show ?thesis using assms(1,2) Some check_number_again [of p v q name] py_float_number [OF Some]
    by (simp add: normalize_one_def)
qed

lemma normalize_parts:
  assumes "normalize_params cmd given = Inr out"
  shows "list_all2 (\<lambda>(n, p) (m, v). m = n \<and> permitted p v) (cd_params cmd) out"
proof -
  have "list_all2 (\<lambda>x y. (case x of (name, p) \<Rightarrow> ebind (normalize_one given name p) (\<lambda>v. Inr (name, v))) = Inr y) (cd_params cmd) out"
    using assms by (simp add: normalize_params_def Let_def emap_Inr split: if_splits)
  then show ?thesis
    by (rule list_all2_mono) (auto simp: ebind_Inr normalize_one_permitted)
qed

lemma list_all2_names: "list_all2 (\<lambda>(n, p) (m, v). m = n \<and> Q p v) ps out \<Longrightarrow> map fst out = map fst ps"
  by (induction rule: list_all2_induct) auto

text \<open>
  What a command is run with has each declared parameter once, every value a
  number within its bounds and its allowed set or an absent optional one, and normalising it
  again changes nothing.
\<close>

theorem normalized_params_settle:
  assumes "normalize_params cmd given = Inr out" and "dict_ok (cd_params cmd)"
    and "list_all (\<lambda>(n, p). list_all (\<lambda>a. a \<notin> fst ` set (cd_params cmd)) (pd_aliases p)) (cd_params cmd)"
  shows "list_all2 (\<lambda>(n, p) (m, v). m = n \<and> permitted p v) (cd_params cmd) out \<and> normalize_params cmd out = Inr out"
proof -
  have out: "list_all2 (\<lambda>(n, p) (m, v). m = n \<and> permitted p v) (cd_params cmd) out" by (rule normalize_parts [OF assms(1)])
  note names = list_all2_names [OF out]
  then have ok: "dict_ok out" using assms(2) by simp
  have keys: "fst ` set out = fst ` set (cd_params cmd)" using arg_cong [OF names, of set] by simp
  have one: "normalize_one out n p = Inr v" if "(n, p) \<in> set (cd_params cmd)" "(n, v) \<in> set out" "permitted p v" for n p v
  proof (rule normalize_one_again [OF that(3)])
    have "dict_get out n = Some v" using that(2) dict_in_get [OF ok] by blast
    then show "given_value out n = v" by (simp add: given_value_def)
    show "\<forall>a \<in> set (pd_aliases p). given_value out a = VNone"
    proof
      fix a assume "a \<in> set (pd_aliases p)"
      then have "a \<notin> fst ` set out" using bspec [OF assms(3) [unfolded list_all_iff] that(1)] keys by (simp add: list_all_iff)
      then have "dict_get out a = None" by (simp add: map_of_eq_None_iff)
      then show "given_value out a = VNone" by (simp add: given_value_def)
    qed
  qed
  have "list_all2 (\<lambda>x y. (case x of (name, p) \<Rightarrow> ebind (normalize_one out name p) (\<lambda>v. Inr (name, v))) = Inr y) (cd_params cmd) out"
  proof (rule list.rel_mono_strong [OF out])
    fix x y assume xy: "x \<in> set (cd_params cmd)" "y \<in> set out" "(case x of (n, p) \<Rightarrow> \<lambda>(m, v). m = n \<and> permitted p v) y"
    obtain n p v where "x = (n, p)" "y = (n, v)" "permitted p v" using xy(3) by (cases x; cases y) auto
    with xy one [of n p v] show "(case x of (name, p) \<Rightarrow> ebind (normalize_one out name p) (\<lambda>v. Inr (name, v))) = Inr y" by simp
  qed
  then have "emap (\<lambda>(name, p). ebind (normalize_one out name p) (\<lambda>v. Inr (name, v))) (cd_params cmd) = Inr out"
    by (simp add: emap_Inr)
  moreover have "filter (\<lambda>k. k \<notin> set (known_names cmd)) (map fst out) = []"
    by (auto simp: names known_names_def filter_empty_conv)
  ultimately show ?thesis using out by (simp add: normalize_params_def)
qed

theorem normalized_params_settle_witness:
  "normalize_params limit_command [(''percent'', VStr ''60.0'')] = Inr [(''value'', VInt 60), (''ramp'', VNone)]
   \<and> normalize_params limit_command [(''value'', VInt 60), (''ramp'', VNone)] = Inr [(''value'', VInt 60), (''ramp'', VNone)]"
proof -
  have "normalize_params limit_command [(''percent'', VStr ''60.0'')] = Inr [(''value'', VInt 60), (''ramp'', VNone)]"
    by code_simp
  with normalized_params_settle [OF this] show ?thesis by (simp add: limit_command_def plain_command_def plain_param_def)
qed

section \<open>Conditions\<close>

definition op_text :: "cond_op \<Rightarrow> string" where
  "op_text o' = (case o' of CLe \<Rightarrow> ''<='' | CGe \<Rightarrow> ''>='' | CEq \<Rightarrow> ''=='' | CNe \<Rightarrow> ''!='' | CLt \<Rightarrow> ''<'' | CGt \<Rightarrow> ''>'')"

definition word :: "string \<Rightarrow> bool" where
  "word s = (s \<noteq> [] \<and> list_all (\<lambda>c. \<not> is_space c) s)"

lemma word_append: "list_all (\<lambda>c. \<not> is_space c) a \<Longrightarrow> takeWhile (\<lambda>c. \<not> is_space c) (a @ b) = a @ takeWhile (\<lambda>c. \<not> is_space c) b
    \<and> dropWhile (\<lambda>c. \<not> is_space c) (a @ b) = dropWhile (\<lambda>c. \<not> is_space c) b"
  by (induction a) auto

lemma word_dropWhile: "word a \<Longrightarrow> dropWhile is_space (a @ b) = a @ b"
  by (cases a) (auto simp: word_def)

lemma space_char: "is_space CHR '' ''" "\<not> is_space CHR ''<''" "\<not> is_space CHR ''>''" "\<not> is_space CHR ''=''" "\<not> is_space CHR ''!''"
  by code_simp+

lemma last_token_word:
  assumes "word b"
  shows "last_token (CHR '' '' # b) = Some b"
proof -
  have b: "takeWhile (\<lambda>c. \<not> is_space c) b = b" "dropWhile (\<lambda>c. \<not> is_space c) b = []" "b \<noteq> []"
    using assms by (auto simp: word_def list_all_iff)
  have "dropWhile is_space (CHR '' '' # b) = b" using word_dropWhile [OF assms, of "[]"] by (simp add: space_char)
  then show ?thesis unfolding last_token_def Let_def b by (simp only: b) (simp add: b(3))
qed

text \<open>
  A condition written with its operator between spaces is read as the two
  tokens and the operator that were written, whatever characters the tokens hold.
\<close>

theorem condition_reads_back:
  assumes "word a" "word b"
  shows "parse_cond (a @ '' '' @ op_text o' @ '' '' @ b) = Some (a, o', b)"
proof -
  let ?r = "'' '' @ op_text o' @ '' '' @ b"
  obtain k where k: "length a = Suc k" using assms(1) by (cases a) (auto simp: word_def)
  have d: "drop (Suc k) (a @ ?r) = ?r" "take (Suc k) (a @ ?r) = a" by (simp_all flip: k)
  have "cond_tail cond_ops (op_text o' @ '' '' @ b) = Some (o', b)"
    using last_token_word [OF assms(2)] by (cases o') (simp_all add: cond_ops_def op_text_def starts_with_def)
  moreover have "dropWhile is_space (op_text o' @ '' '' @ b) = op_text o' @ '' '' @ b"
    by (cases o') (simp_all add: op_text_def space_char)
  ultimately have "cond_split (a @ ?r) (length a) = Some (a, o', b)"
    unfolding k cond_split.simps d by (simp add: space_char)
  then show ?thesis
    using word_append [of a "'' '' @ op_text o' @ '' '' @ b"] word_dropWhile [OF assms(1)] assms(1)
    by (simp add: parse_cond_def word_def space_char)
qed

theorem condition_reads_back_witness: "parse_cond (''${value}'' @ '' '' @ op_text CLt @ '' '' @ ''0.5'') = Some (''${value}'', CLt, ''0.5'')"
  by (rule condition_reads_back) (simp_all add: word_def is_space_def)

text \<open>
  All six comparisons are computed before the one asked for is
  picked: a condition that only tests equality raises on a parameter that was left out or on
  a text compared with a number, and the command's on-state is then unknown.
\<close>

theorem equality_test_raises:
  "evaluate rep [(''mode'', VNone)] (DictE [(''if'', Leaf (VStr ''${mode} == 2'')), (''then'', t), (''else'', e)]) = Inl TypErr
   \<and> evaluate rep [(''mode'', VInt 2)] (DictE [(''if'', Leaf (VStr ''${mode} != auto'')), (''then'', t), (''else'', e)]) = Inl TypErr
   \<and> turns_on ((plain_command [])\<lparr>cd_on := ''${mode} == 2''\<rparr>) [(''mode'', VNone)] = None"
proof -
  have p: "parse_cond ''${mode} == 2'' = Some (''${mode}'', CEq, ''2'')" "parse_cond ''${mode} != auto'' = Some (''${mode}'', CNe, ''auto'')"
    by code_simp+
  have a: "atom ''${mode}'' [(''mode'', v)] = Inr v" for v by (simp add: atom_def param_name_def pat_end_def starts_with_def name_char_def name_start_def)
  have b: "atom ''2'' ps = Inr (VInt 2)" "atom ''auto'' ps = Inr (VStr ''auto'')" for ps
    by (simp_all add: atom_def param_name_def pat_end_def starts_with_def py_lower_def lower_char_def py_int_of_string_def
        split_sign_def py_strip_def py_lstrip_def is_space_def is_digit_def digits_val_def digit_val_def strip_quotes_def quote_char_def)
  show ?thesis by (simp add: p a b compare_values_def turns_on_def plain_command_def)
qed

end
