(* ===== verification/CommandPlan.thy ===== *)
theory CommandPlan
  imports CommandDefs ValueDecode
begin

text \<open>
  From a command to the frames that are written (\<open>multibus/commands.py\<close>): the raw value of a
  register, its envelope, the frames of a run, and the blocks a run reads.
\<close>

section \<open>Registers\<close>

text \<open>What a command needs of a register of the template, beside its decoding (\<open>cr_row\<close>).\<close>

record creg =
  cr_name :: string
  cr_address :: int
  cr_type :: string
  cr_row :: row
  cr_topic :: string
  cr_json_path :: string
  write_min :: "rat option"
  write_max :: "rat option"
  write_allowed :: "rat list"
  write_topic :: string
  write_payload :: string

type_synonym registers = "(string, creg) dict"

definition reg_type :: "creg \<Rightarrow> string" where
  "reg_type r = py_lower (if cr_type r = [] then ''holding'' else cr_type r)"

definition reg_dtype :: "creg \<Rightarrow> string" where
  "reg_dtype r = py_lower (if data_type (cr_row r) = [] then ''uint16'' else data_type (cr_row r))"

definition word_count :: "creg \<Rightarrow> nat" where
  "word_count r = (case dict_get REGISTER_COUNTS (reg_dtype r) of Some c \<Rightarrow> c | None \<Rightarrow> 1)"

section \<open>Values on their way to the wire\<close>

definition raw_for :: "creg \<Rightarrow> rat \<Rightarrow> (string, pyval) dict \<Rightarrow> cmd_exn + rat" where
  "raw_for reg val sf =
     (let sc = (if scale (cr_row reg) = 0 then 1 else scale (cr_row reg)); v = val - offset (cr_row reg)
      in if scale_from (cr_row reg) = [] then Inr (v * sc)
         else (case Option.bind (dict_get sf (scale_from (cr_row reg))) num_or_bool of
                 None \<Rightarrow> Inl ValErr
               | Some e \<Rightarrow> if 10 < \<bar>e\<bar> then Inl ValErr else Inr (v * sc / ten_pow (py_trunc e))))"

definition in_envelope :: "creg \<Rightarrow> rat \<Rightarrow> bool" where
  "in_envelope reg q =
     ((case write_min reg of Some lo \<Rightarrow> lo \<le> q | None \<Rightarrow> True) \<and> (case write_max reg of Some hi \<Rightarrow> q \<le> hi | None \<Rightarrow> True)
      \<and> (write_allowed reg = [] \<or> q \<in> set (write_allowed reg)))"

definition check_envelope :: "creg \<Rightarrow> pyval \<Rightarrow> cmd_exn + unit" where
  "check_envelope reg val =
     (case number_of val of None \<Rightarrow> Inr () | Some q \<Rightarrow> if in_envelope reg q then Inr () else Inl ValErr)"

record item =
  it_register :: string
  it_address :: int
  it_type :: string
  it_value :: pyval
  it_words :: "u16 list"

fun encode_exn :: "encode_error \<Rightarrow> cmd_exn" where
  "encode_exn FloatOverflow = OverflowErr"
| "encode_exn _ = ValErr"

definition item_words :: "bool \<times> bool \<Rightarrow> creg \<Rightarrow> pyval \<Rightarrow> (string, pyval) dict \<Rightarrow> cmd_exn + u16 list" where
  "item_words ord reg val sf =
     (if reg_type reg = ''coil'' then Inr [if truthy val then 1 else 0]
      else ebind (py_float val) (\<lambda>q. ebind (raw_for reg q sf) (\<lambda>raw.
        (let dt = reg_dtype reg;
             v = (if starts_with ''float'' dt then VFloat raw else VInt (py_round raw));
             bad = (\<not> starts_with ''float'' dt \<and> (case int_range dt of Some (lo, hi) \<Rightarrow> py_round raw < lo \<or> hi < py_round raw | None \<Rightarrow> False))
         in if bad then Inl ValErr
            else (case encode ord v dt 1 0 of Inl e \<Rightarrow> Inl (encode_exn e) | Inr ws \<Rightarrow> Inr ws)))))"

definition plan_item :: "(cexpr \<Rightarrow> string) \<Rightarrow> (string, pyval) dict \<Rightarrow> registers \<Rightarrow> bool \<times> bool \<Rightarrow> (string, pyval) dict
    \<Rightarrow> string option \<times> cexpr \<Rightarrow> cmd_exn + item" where
  "plan_item rep params regs ord sf w =
     (case Option.bind (fst w) (dict_get regs) of
        None \<Rightarrow> Inl ValErr
      | Some reg \<Rightarrow>
          if reg_type reg \<noteq> ''holding'' \<and> reg_type reg \<noteq> ''coil'' then Inl ValErr
          else ebind (evaluate rep params (snd w)) (\<lambda>val. ebind (check_envelope reg val) (\<lambda>_.
                 ebind (item_words ord reg val sf) (\<lambda>words.
                   Inr \<lparr> it_register = cr_name reg, it_address = cr_address reg, it_type = reg_type reg, it_value = val, it_words = words \<rparr>))))"

section \<open>Frames\<close>

record frame =
  fr_address :: int
  fr_type :: string
  fr_words :: "u16 list"
  fr_registers :: "string list"
  fr_values :: "(string, pyval) dict"

text \<open>An item continues the last frame when both are holding registers and it starts where the frame ends.\<close>

definition continues :: "frame \<Rightarrow> item \<Rightarrow> bool" where
  "continues f it = (fr_type f = it_type it \<and> it_type it = ''holding'' \<and> fr_address f + int (length (fr_words f)) = it_address it)"

definition extend_frame :: "frame \<Rightarrow> item \<Rightarrow> frame" where
  "extend_frame f it = f\<lparr>fr_words := fr_words f @ it_words it, fr_registers := fr_registers f @ [it_register it],
     fr_values := dict_set (it_register it) (it_value it) (fr_values f)\<rparr>"

definition new_frame :: "item \<Rightarrow> frame" where
  "new_frame it = \<lparr> fr_address = it_address it, fr_type = it_type it, fr_words = it_words it, fr_registers = [it_register it],
     fr_values = [(it_register it, it_value it)] \<rparr>"

definition add_item :: "item \<Rightarrow> frame list \<Rightarrow> frame list" where
  "add_item it frames =
     (if frames \<noteq> [] \<and> continues (last frames) it then butlast frames @ [extend_frame (last frames) it]
      else frames @ [new_frame it])"

definition plan_frames :: "(cexpr \<Rightarrow> string) \<Rightarrow> command \<Rightarrow> (string, pyval) dict \<Rightarrow> registers \<Rightarrow> bool \<times> bool
    \<Rightarrow> (string, pyval) dict \<Rightarrow> cmd_exn + frame list" where
  "plan_frames rep cmd params regs ord sf =
     ebind (emap (plan_item rep params regs ord sf) (cd_writes cmd)) (\<lambda>items. Inr (fold add_item items []))"

section \<open>The blocks of a read\<close>

definition read_limit :: "int \<Rightarrow> int" where
  "read_limit max_read = (if 0 < max_read \<and> max_read \<le> 125 then max_read else 125)"

definition reg_span :: "registers \<Rightarrow> int \<Rightarrow> string \<Rightarrow> cmd_exn + int \<times> int" where
  "reg_span regs limit n =
     (case dict_get regs n of
        None \<Rightarrow> Inl ValErr
      | Some r \<Rightarrow> if limit < int (word_count r) then Inl ValErr else Inr (cr_address r, cr_address r + int (word_count r)))"

definition add_span :: "int \<Rightarrow> int \<times> int \<Rightarrow> (int \<times> int) list \<Rightarrow> (int \<times> int) list" where
  "add_span limit s blocks =
     (if blocks \<noteq> [] \<and> snd s - fst (last blocks) \<le> limit
      then butlast blocks @ [(fst (last blocks), max (snd (last blocks)) (snd s))] else blocks @ [s])"

definition blocks_for :: "registers \<Rightarrow> string list \<Rightarrow> int \<Rightarrow> cmd_exn + (int \<times> int) list" where
  "blocks_for regs names max_read =
     (let limit = read_limit max_read
      in ebind (emap (reg_span regs limit) names) (\<lambda>spans.
           Inr (map (\<lambda>(lo, hi). (lo, hi - lo)) (fold (add_span limit) (sort (remdups spans)) []))))"

section \<open>Frames carry the plan\<close>

text \<open>The single words a frame or an item puts on the wire, with their addresses.\<close>

definition wire_words :: "string \<Rightarrow> int \<Rightarrow> u16 list \<Rightarrow> (string \<times> int \<times> u16) list" where
  "wire_words t a ws = map (\<lambda>i. (t, a + int i, ws ! i)) [0..<length ws]"

lemma wire_words_append: "wire_words t a (ws @ vs) = wire_words t a ws @ wire_words t (a + int (length ws)) vs"
  by (rule nth_equalityI) (auto simp: wire_words_def nth_append of_nat_diff)

definition frame_words :: "frame \<Rightarrow> (string \<times> int \<times> u16) list" where
  "frame_words f = wire_words (fr_type f) (fr_address f) (fr_words f)"

definition plan_words :: "item \<Rightarrow> (string \<times> int \<times> u16) list" where
  "plan_words it = wire_words (it_type it) (it_address it) (it_words it)"

lemma extend_frame_words: "continues f it \<Longrightarrow> frame_words (extend_frame f it) = frame_words f @ plan_words it"
  by (simp add: frame_words_def plan_words_def extend_frame_def continues_def wire_words_append)

lemma new_frame_words: "frame_words (new_frame it) = plan_words it"
  by (simp add: frame_words_def plan_words_def new_frame_def)

definition all_words :: "frame list \<Rightarrow> (string \<times> int \<times> u16) list" where
  "all_words frames = concat (map frame_words frames)"

lemma add_item_words: "all_words (add_item it frames) = all_words frames @ plan_words it"
proof (cases frames rule: rev_cases)
  case Nil
  then show ?thesis by (simp add: add_item_def all_words_def new_frame_words)
next
  case (snoc fs f)
  then show ?thesis by (auto simp: add_item_def all_words_def new_frame_words extend_frame_words)
qed

text \<open>Two frames in a row that one request could have carried.\<close>

definition splits_needlessly :: "frame \<Rightarrow> frame \<Rightarrow> bool" where
  "splits_needlessly f g = (fr_type f = ''holding'' \<and> fr_type g = ''holding'' \<and> fr_address f + int (length (fr_words f)) = fr_address g)"

lemma add_item_merged:
  assumes "successively (\<lambda>f g. \<not> splits_needlessly f g) frames"
  shows "successively (\<lambda>f g. \<not> splits_needlessly f g) (add_item it frames)"
proof (cases frames rule: rev_cases)
  case Nil
  then show ?thesis by (simp add: add_item_def)
next
  case (snoc fs f)
  with assms show ?thesis
    by (auto simp: add_item_def successively_append_iff splits_needlessly_def continues_def extend_frame_def new_frame_def)
qed

lemma fold_add_item:
  "all_words (fold add_item items frames) = all_words frames @ concat (map plan_words items)
   \<and> (successively (\<lambda>f g. \<not> splits_needlessly f g) frames \<longrightarrow> successively (\<lambda>f g. \<not> splits_needlessly f g) (fold add_item items frames))"
  by (induction items arbitrary: frames) (simp_all add: add_item_words add_item_merged)

text \<open>
  C21 (functional): The frames of a run carry the words of the declared writes, each at its own
  register's address and in the declared order, and registers that follow each other are
  never split over two requests.
\<close>

theorem frames_carry_plan:
  assumes "plan_frames rep cmd params regs ord sf = Inr frames"
  shows "\<exists>items. list_all2 (\<lambda>w it. plan_item rep params regs ord sf w = Inr it) (cd_writes cmd) items
    \<and> all_words frames = concat (map plan_words items) \<and> successively (\<lambda>f g. \<not> splits_needlessly f g) frames"
proof -
  obtain items where "emap (plan_item rep params regs ord sf) (cd_writes cmd) = Inr items" "frames = fold add_item items []"
    using assms by (auto simp: plan_frames_def ebind_Inr)
  then show ?thesis using fold_add_item [of items "[]"] by (auto simp: emap_Inr all_words_def)
qed

section \<open>Planned words read back\<close>

text \<open>One raw count of a register in engineering units.\<close>

definition raw_unit :: "row \<Rightarrow> (string, pyval) dict \<Rightarrow> rat" where
  "raw_unit r sf = (case scale_factor r sf of Some (Some e) \<Rightarrow> ten_pow e | _ \<Rightarrow> 1) / (if scale r = 0 then 1 else scale r)"

lemma engineer_exact:
  assumes "scale_factor r sf = Some e"
  shows "number_of (engineer r e (VInt raw) (of_int raw)) = Some (of_int raw * raw_unit r sf + offset r)"
proof (cases e)
  case None
  then show ?thesis using assms by (simp add: engineer_def raw_unit_def Let_def)
next
  case (Some x)
  let ?r = "r\<lparr>scale := if scale r = 0 then 1 else scale r\<rparr>"
  have eq: "engineer r e (VInt raw) (of_int raw) = engineer ?r e (VInt raw) (of_int raw)"
    by (cases "scale r = 0") (simp_all add: engineer_def Let_def cong: if_cong option.case_cong prod.case_cong)
  show ?thesis
  proof (cases "scale ?r = 1 \<or> log10_exact (scale ?r) \<noteq> None")
    case True
    have "scale_factor ?r sf = Some (Some x)" using assms Some by (auto simp: scale_factor_def split: if_splits)
    with dynamic_scale_exact [OF this] True show ?thesis
      unfolding eq using Some assms by (auto simp: raw_unit_def)
  next
    case False
    then show ?thesis
      unfolding eq using Some assms by (auto simp: engineer_def Let_def raw_unit_def split: option.splits)
  qed
qed

lemma raw_for_unit:
  assumes "raw_for reg q sf = Inr raw" "scale_factor (cr_row reg) sf = Some e"
  shows "raw * raw_unit (cr_row reg) sf + offset (cr_row reg) = q"
proof -
  have "ten_pow x \<noteq> 0" for x using ten_pow_pos [of x] by linarith
  then show ?thesis
    using assms by (auto simp: raw_for_def raw_unit_def scale_factor_def Let_def split: if_splits option.splits elim!: num_or_bool.elims)
qed

lemma parse_value_lower: "parse_value ord ws (py_lower dt) n = parse_value ord ws dt n"
  by (simp add: parse_value_def)

text \<open>
  The words a run writes for a value read back, through the parser and the
  corrections, as a value within half a raw count of what was asked, with a fixed scale and
  with a scale factor read from the device; a value that does not fit is refused, never
  saturated.
\<close>

theorem planned_value_reads_back:
  assumes ws: "item_words ord reg val sf = Inr ws" and "reg_type reg \<noteq> ''coil''" and "py_float val = Inr q"
    and dt: "reg_dtype reg \<in> set int_types"
    and row: "\<not> nan_declared (nan (cr_row reg))" "\<not> is_textual (cr_row reg)" and sf: "scale_factor (cr_row reg) sf = Some e"
  shows "\<exists>raw v x. parse_value ord ws (reg_dtype reg) (NanValue VNone) = Some (VInt raw)
    \<and> apply_corrections (VInt raw) (cr_row reg) sf (None, None) = Inr (Some v, None, (None, None))
    \<and> number_of v = Some x \<and> \<bar>x - q\<bar> \<le> \<bar>raw_unit (cr_row reg) sf\<bar> / 2"
proof -
  let ?dt = "reg_dtype reg" and ?u = "raw_unit (cr_row reg) sf"
  have nf: "\<not> starts_with ''float'' ?dt" and rng: "int_range ?dt = Some (range_or_default ?dt)"
    using dt by (auto simp: int_types_def starts_with_def int_range_def py_lower_def lower_char_def)
  obtain raw where raw: "raw_for reg q sf = Inr raw" using ws assms(2,3) by (auto simp: item_words_def ebind_Inr)
  let ?n = "py_round raw"
  obtain lo hi where lh: "range_or_default ?dt = (lo, hi)" by (cases "range_or_default ?dt")
  have "encode ord (VInt ?n) ?dt 1 0 = Inr ws" "lo \<le> ?n" "?n \<le> hi"
    using ws assms(2,3) raw nf rng lh by (auto simp: item_words_def Let_def not_less split: if_splits sum.splits)
  then have "encode_int ord ?n ?dt = Inr ws" "fst (range_or_default ?dt) \<le> ?n" "?n \<le> snd (range_or_default ?dt)"
    using encode_number [OF dt, of "VInt ?n" "of_int ?n" ord 1 0] lh by simp_all
  with int_round_trip [OF dt this(2,3), of ord] have p: "parse_value ord ws ?dt (NanValue VNone) = Some (VInt ?n)" by auto
  let ?v = "engineer (cr_row reg) e (VInt ?n) (of_int ?n)"
  have a: "apply_corrections (VInt ?n) (cr_row reg) sf (None, None) = Inr (Some ?v, None, (None, None))"
    using row sf by (simp add: apply_corrections_def run_filters_def Let_def)
  have "of_int ?n * ?u + offset (cr_row reg) - q = (of_int ?n - raw) * ?u"
    using raw_for_unit [OF raw sf] by (simp add: algebra_simps)
  moreover have "\<bar>(of_int ?n - raw) * ?u\<bar> \<le> \<bar>?u\<bar> / 2"
    using mult_right_mono [OF py_round_error [of raw], of "\<bar>?u\<bar>"] by (simp add: abs_mult)
  ultimately show ?thesis using p a engineer_exact [OF sf, of ?n] by auto
qed

definition power_limit :: creg where
  "power_limit = \<lparr> cr_name = ''WMaxLimPct'', cr_address = 40242, cr_type = ''holding'',
     cr_row = (plain_row ''uint16'')\<lparr>scale_from := ''WMaxLimPct_SF''\<rparr>, cr_topic = [], cr_json_path = [], write_min = Some 0, write_max = Some 100, write_allowed = [],
     write_topic = [], write_payload = [] \<rparr>"

theorem planned_value_reads_back_witness:
  "\<exists>raw v x. parse_value (False, False) [6046] (reg_dtype power_limit) (NanValue VNone) = Some (VInt raw)
    \<and> apply_corrections (VInt raw) (cr_row power_limit) [(''WMaxLimPct_SF'', VInt (- 2))] (None, None) = Inr (Some v, None, (None, None))
    \<and> number_of v = Some x \<and> \<bar>x - 60.456\<bar> \<le> \<bar>raw_unit (cr_row power_limit) [(''WMaxLimPct_SF'', VInt (- 2))]\<bar> / 2"
proof -
  have dt: "reg_dtype power_limit = ''uint16''" by code_simp
  have t: "reg_type power_limit \<noteq> ''coil''" by code_simp
  have "py_trunc (- 2) = - 2" by (simp add: py_trunc_def)
  have "raw_for power_limit (60.456) [(''WMaxLimPct_SF'', VInt (- 2))] = Inr (6045.6)"
    by (simp add: raw_for_def power_limit_def plain_row_def py_trunc_def ten_pow_def)
  moreover have "py_round 6045.6 = 6046" by (rule py_round_between) simp_all
  ultimately have w: "item_words (False, False) power_limit (VFloat 60.456) [(''WMaxLimPct_SF'', VInt (- 2))] = Inr [6046]"
    using t by (simp add: item_words_def dt Let_def starts_with_def int_range_def py_lower_def lower_char_def range_or_default_def
        INT_RANGES_def encode_def encode_int_def clamp_raw_def apply_order_def)
  have "reg_dtype power_limit \<in> set int_types" by (simp add: dt int_types_def)
  then show ?thesis
    by (intro planned_value_reads_back [OF w t, of "60.456" "Some (- 2)"])
      (simp_all add: power_limit_def plain_row_def is_textual_def scale_factor_def py_trunc_def)
qed

section \<open>The blocks cover what is read\<close>

definition covered :: "(int \<times> int) list \<Rightarrow> int \<times> int \<Rightarrow> bool" where
  "covered blocks s = (\<exists>b \<in> set blocks. fst b \<le> fst s \<and> snd s \<le> snd b)"

definition fits :: "int \<Rightarrow> int \<times> int \<Rightarrow> bool" where
  "fits limit s = (fst s < snd s \<and> snd s - fst s \<le> limit)"

lemma add_span_spec:
  assumes "\<forall>b \<in> set blocks. fits limit b" "fits limit s" "blocks = [] \<or> fst (last blocks) \<le> fst s"
  shows "(\<forall>b \<in> set (add_span limit s blocks). fits limit b) \<and> covered (add_span limit s blocks) s
    \<and> (\<forall>t. covered blocks t \<longrightarrow> covered (add_span limit s blocks) t)
    \<and> add_span limit s blocks \<noteq> [] \<and> fst (last (add_span limit s blocks)) \<le> fst s"
proof (cases blocks rule: rev_cases)
  case Nil
  then show ?thesis using assms by (simp add: add_span_def covered_def)
next
  case (snoc bs b)
  show ?thesis
  proof (cases "snd s - fst b \<le> limit")
    case True
    then have "add_span limit s blocks = bs @ [(fst b, max (snd b) (snd s))]" by (simp add: add_span_def snoc)
    then show ?thesis using assms snoc True by (auto simp: covered_def fits_def max_def)
  next
    case False
    then show ?thesis using assms snoc by (auto simp: add_span_def covered_def)
  qed
qed

lemma fold_add_span:
  assumes "sorted spans" "\<forall>b \<in> set blocks. fits limit b" "\<forall>s \<in> set spans. fits limit s"
    and "blocks = [] \<or> (\<forall>s \<in> set spans. fst (last blocks) \<le> fst s)"
  shows "(\<forall>b \<in> set (fold (add_span limit) spans blocks). fits limit b)
    \<and> (\<forall>s. s \<in> set spans \<or> covered blocks s \<longrightarrow> covered (fold (add_span limit) spans blocks) s)"
  using assms
proof (induction spans arbitrary: blocks)
  case (Cons s spans)
  let ?b = "add_span limit s blocks"
  have one: "(\<forall>b \<in> set ?b. fits limit b) \<and> covered ?b s \<and> (\<forall>t. covered blocks t \<longrightarrow> covered ?b t) \<and> ?b \<noteq> [] \<and> fst (last ?b) \<le> fst s"
    by (rule add_span_spec) (use Cons.prems in auto)
  have "\<forall>t \<in> set spans. fst s \<le> fst t" using Cons.prems(1) by (auto simp: less_eq_prod_def)
  then have "\<forall>t \<in> set spans. fst (last ?b) \<le> fst t" using one by force
  with Cons.IH [of ?b] one Cons.prems(1,3) show ?case by auto
qed simp

lemma word_count_pos: "0 < word_count r"
  by (auto simp: word_count_def REGISTER_COUNTS_def split: option.splits if_splits dest!: map_of_SomeD)

definition reg_words :: "registers \<Rightarrow> string \<Rightarrow> (int \<times> int) option" where
  "reg_words regs n = map_option (\<lambda>r. (cr_address r, cr_address r + int (word_count r))) (dict_get regs n)"

lemma blocks_cover:
  assumes "blocks_for regs names max_read = Inr blocks"
  shows "list_all (\<lambda>(a, c). 1 \<le> c \<and> c \<le> read_limit max_read) blocks
    \<and> list_all (\<lambda>n. \<exists>lo hi. reg_words regs n = Some (lo, hi) \<and> list_ex (\<lambda>(a, c). a \<le> lo \<and> hi \<le> a + c) blocks) names"
proof -
  let ?l = "read_limit max_read"
  obtain spans where s: "emap (reg_span regs ?l) names = Inr spans"
    "blocks = map (\<lambda>(lo, hi). (lo, hi - lo)) (fold (add_span ?l) (sort (remdups spans)) [])"
    using assms by (auto simp: blocks_for_def Let_def ebind_Inr)
  then have all: "list_all2 (\<lambda>n s. reg_span regs ?l n = Inr s) names spans" by (simp add: emap_Inr)
  have one: "fits ?l s \<and> reg_words regs n = Some s" if "reg_span regs ?l n = Inr s" for n s
    using that word_count_pos by (auto simp: reg_span_def fits_def reg_words_def not_less split: option.splits if_splits)
  have "\<forall>s \<in> set spans. fits ?l s"
  proof
    fix s assume "s \<in> set spans"
    then show "fits ?l s" using list_all2_nthD2 [OF all] one by (metis in_set_conv_nth list_all2_lengthD [OF all])
  qed
  then have "(\<forall>b \<in> set (fold (add_span ?l) (sort (remdups spans)) []). fits ?l b)
    \<and> (\<forall>s. s \<in> set (sort (remdups spans)) \<or> covered [] s \<longrightarrow> covered (fold (add_span ?l) (sort (remdups spans)) []) s)"
    by (intro fold_add_span) simp_all
  then have f: "\<forall>b \<in> set (fold (add_span ?l) (sort (remdups spans)) []). fits ?l b"
      "\<And>s. s \<in> set spans \<Longrightarrow> covered (fold (add_span ?l) (sort (remdups spans)) []) s" unfolding set_sort set_remdups by blast+
  have "\<exists>lo hi. reg_words regs n = Some (lo, hi) \<and> list_ex (\<lambda>(a, c). a \<le> lo \<and> hi \<le> a + c) blocks" if "n \<in> set names" for n
  proof -
    obtain i where i: "i < length names" "names ! i = n" using \<open>n \<in> set names\<close> by (auto simp: in_set_conv_nth)
    then have "reg_span regs ?l n = Inr (spans ! i)" "spans ! i \<in> set spans"
      using all list_all2_lengthD [OF all] by (auto simp: list_all2_conv_all_nth)
    with one f(2) have "reg_words regs n = Some (spans ! i)" "covered (fold (add_span ?l) (sort (remdups spans)) []) (spans ! i)" by blast+
    then show ?thesis by (cases "spans ! i") (force simp: s(2) covered_def list_ex_iff)
  qed
  moreover have "list_all (\<lambda>(a, c). 1 \<le> c \<and> c \<le> ?l) blocks"
    using f(1) by (auto simp: s(2) list_all_iff fits_def)
  ultimately show ?thesis by (simp add: list_all_iff)
qed

text \<open>
  The reads that cover a set of registers each ask for between one and the
  allowed number of words, and every register lies whole inside one of them.
\<close>

theorem blocks_cover_registers:
  assumes "blocks_for regs names max_read = Inr blocks"
  shows "list_all (\<lambda>(a, c). 1 \<le> c \<and> c \<le> read_limit max_read) blocks
    \<and> list_all (\<lambda>n. \<exists>lo hi. reg_words regs n = Some (lo, hi) \<and> list_ex (\<lambda>(a, c). a \<le> lo \<and> hi \<le> a + c) blocks) names"
  using assms by (rule blocks_cover)

definition plain_reg :: "string \<Rightarrow> string \<Rightarrow> int \<Rightarrow> creg" where
  "plain_reg nm dt a = \<lparr> cr_name = nm, cr_address = a, cr_type = [], cr_row = plain_row dt, cr_topic = [], cr_json_path = [], write_min = None, write_max = None,
     write_allowed = [], write_topic = [], write_payload = [] \<rparr>"

theorem blocks_cover_registers_witness:
  "blocks_for [(''a'', plain_reg ''a'' ''float32'' 10), (''b'', plain_reg ''b'' ''int16'' 13), (''c'', plain_reg ''c'' ''uint16'' 8450)] [''c'', ''a'', ''b''] 0
     = Inr [(10, 4), (8450, 1)]
   \<and> list_all (\<lambda>(a, c). 1 \<le> c \<and> c \<le> read_limit 0) [(10 :: int, 4), (8450, 1)]"
proof -
  have "blocks_for [(''a'', plain_reg ''a'' ''float32'' 10), (''b'', plain_reg ''b'' ''int16'' 13), (''c'', plain_reg ''c'' ''uint16'' 8450)] [''c'', ''a'', ''b''] 0
     = Inr [(10, 4), (8450, 1)]" by code_simp
  with blocks_cover_registers [OF this] show ?thesis by blast
qed

section \<open>What is lost on the way\<close>

text \<open>
  A register of type \<open>double\<close> is written rounded to a whole number, where one of
  type \<open>float32\<close> keeps its fraction; and a text register is read as its first word only, so a
  guard or a check sees two characters of it.
\<close>

theorem double_rounded_text_cut:
  "item_words (False, False) (plain_reg ''setpoint'' ''double'' 0) (VFloat 0.4) [] = Inr [0, 0, 0, 0]
   \<and> item_words (False, False) (plain_reg ''setpoint'' ''float32'' 0) (VFloat 0.5) [] = Inr [0x3F00, 0]
   \<and> word_count (plain_reg ''mode'' ''string8'' 0) = 1 \<and> get_register_count ''string8'' = 8"
  by (intro conjI) code_simp+

definition two_regs :: registers where
  "two_regs = [(''a'', plain_reg ''a'' ''int16'' 10), (''b'', plain_reg ''b'' ''int32'' 11), (''c'', plain_reg ''c'' ''uint16'' 20)]"

definition three_writes :: command where
  "three_writes = plain_command [(Some ''a'', Leaf (VInt (- 2))), (Some ''b'', Leaf (VInt 65539)), (Some ''c'', Leaf (VInt 7))]"

definition three_frames :: "frame list" where
  "three_frames = [\<lparr> fr_address = 10, fr_type = ''holding'', fr_words = [65534, 1, 3], fr_registers = [''a'', ''b''],
       fr_values = [(''a'', VInt (- 2)), (''b'', VInt 65539)] \<rparr>,
     \<lparr> fr_address = 20, fr_type = ''holding'', fr_words = [7], fr_registers = [''c''], fr_values = [(''c'', VInt 7)] \<rparr>]"

lemma three_planned: "plan_frames (\<lambda>_. []) three_writes [] two_regs (False, False) [] = Inr three_frames"
  by code_simp

theorem frames_carry_plan_witness:
  "\<exists>items. list_all2 (\<lambda>w it. plan_item (\<lambda>_. []) [] two_regs (False, False) [] w = Inr it) (cd_writes three_writes) items
    \<and> all_words three_frames = concat (map plan_words items) \<and> successively (\<lambda>f g. \<not> splits_needlessly f g) three_frames"
  using frames_carry_plan [OF three_planned] .

end
