(* ===== verification/MqttInput.thy ===== *)
theory MqttInput
  imports JsonPath CommandPlan
begin

text \<open>
  The MQTT source of a device (\<open>multibus/mqtt_input.py\<close>): topics and their variables, the
  retained and availability policy, the values a message brings, and the last value of each
  register, which the commands sent through the source read.
\<close>

section \<open>Messages and the source\<close>

record message =
  mg_topic :: string
  mg_payload :: string
  mg_retain :: bool

text \<open>\<open>_last\<close>: value, arrival and sequence number of a register's last value, by address.\<close>

type_synonym last_values = "(int, pyval \<times> rat \<times> nat) dict"

text \<open>
  \<open>ms_out\<close> is what the publish callback was given, one batch after the other; no callback
  gets nothing.
\<close>

record source =
  ms_base :: string
  ms_vars :: "(string, string) dict"
  ms_accept_retained :: bool
  ms_av_topic :: string
  ms_online :: string
  ms_offline :: string
  ms_stale_after :: rat
  ms_registers :: "creg list"
  ms_has_callback :: bool
  ms_connected :: bool
  ms_available :: "bool option"
  ms_held :: "(string, message) dict"
  ms_retained_dropped :: nat
  ms_oversized :: nat
  ms_messages :: nat
  ms_updates :: nat
  ms_last_mono :: "rat option"
  ms_last :: last_values
  ms_seq :: nat
  ms_counters :: "(int, mono_filter) dict"
  ms_days :: "(int, daily_filter) dict"
  ms_factors :: "(string, pyval) dict"
  ms_out :: "(int, pyval) dict list"

definition MAX_PAYLOAD_BYTES :: int where "MAX_PAYLOAD_BYTES = 64 * 1024"

section \<open>Topics\<close>

definition var_start :: "char \<Rightarrow> bool" where
  "var_start c = (let n = of_char c :: nat in 97 \<le> n \<and> n \<le> 122)"

definition var_char :: "char \<Rightarrow> bool" where
  "var_char c = (var_start c \<or> is_digit c \<or> c = CHR ''_'')"

text \<open>\<open>_VAR_RE.sub\<close>: a variable without a value stays as it is written.\<close>

function fill_vars :: "(string, string) dict \<Rightarrow> string \<Rightarrow> string" where
  "fill_vars vs t =
     (case t of
        [] \<Rightarrow> []
      | c # r \<Rightarrow>
          (let nm = takeWhile var_char r; rest = dropWhile var_char r
           in if c = CHR ''{'' \<and> nm \<noteq> [] \<and> var_start (hd nm) \<and> length nm \<le> 32 \<and> rest \<noteq> [] \<and> hd rest = CHR ''}''
              then (case dict_get vs nm of Some v \<Rightarrow> v | None \<Rightarrow> CHR ''{'' # nm @ ''}'') @ fill_vars vs (tl rest)
              else c # fill_vars vs r))"
  by pat_completeness auto
termination
proof (relation "measure (\<lambda>(vs, t). length t)", goal_cases)
  case 1
  show ?case by simp
next
  case (2 vs t c r nm rest)
  have "length (dropWhile var_char r) \<le> length r" by (rule length_dropWhile_le)
  with 2 show ?case by simp
next
  case (3 vs t c r nm rest)
  then show ?case by simp
qed

declare fill_vars.simps [simp del]

definition rstrip_chars :: "(char \<Rightarrow> bool) \<Rightarrow> string \<Rightarrow> string" where
  "rstrip_chars P s = rev (dropWhile P (rev s))"

definition resolve :: "source \<Rightarrow> string \<Rightarrow> string" where
  "resolve s t0 =
     (let t = (if CHR ''{'' \<in> set t0 \<and> ms_vars s \<noteq> [] then fill_vars (ms_vars s) t0 else t0)
      in if starts_with ''~/'' t
         then (let base = rstrip_chars (\<lambda>c. c = CHR ''/'') (rstrip_chars (\<lambda>c. c = CHR ''#'' \<or> c = CHR ''+'') (ms_base s))
               in if base \<noteq> [] then base @ ''/'' @ drop 2 t else drop 2 t)
         else if t \<noteq> [] then t else ms_base s)"

definition reg_topic :: "source \<Rightarrow> creg \<Rightarrow> string" where
  "reg_topic s r = resolve s (py_strip (cr_topic r))"

definition by_topic :: "source \<Rightarrow> (string, creg list) dict" where
  "by_topic s = fold (\<lambda>r d. let t = reg_topic s r in
       if t = [] then d else dict_set t ((case dict_get d t of Some rs \<Rightarrow> rs | None \<Rightarrow> []) @ [r]) d) (ms_registers s) []"

definition availability :: "source \<Rightarrow> string" where
  "availability s = (if ms_av_topic s = [] then [] else resolve s (ms_av_topic s))"

definition subscriptions :: "source \<Rightarrow> string list" where
  "subscriptions s =
     (let subs = (if by_topic s \<noteq> [] then map fst (by_topic s) else if ms_base s \<noteq> [] then [ms_base s] else []);
          av = availability s
      in if av \<noteq> [] \<and> subs \<noteq> [] \<and> \<not> list_ex (\<lambda>p. topic_matches p av) subs then subs @ [av] else subs)"

definition match_regs :: "source \<Rightarrow> string \<Rightarrow> creg list" where
  "match_regs s topic = concat (map snd (filter (\<lambda>(p, rs). topic_matches p topic) (by_topic s)))"

section \<open>The value of a register in a message\<close>

text \<open>A label of the register stands for its code; the last label of a name wins.\<close>

definition code_of_label :: "creg \<Rightarrow> string \<Rightarrow> pyval option" where
  "code_of_label r l = map_of (rev (map (\<lambda>(code, lbl). (lbl, code)) (enum_map (cr_row r)))) l"

text \<open>What the value of a register is before the corrections; None skips the register.\<close>

definition extract_value :: "creg \<Rightarrow> json option \<Rightarrow> string \<Rightarrow> pyval option" where
  "extract_value r doc raw =
     (case (if cr_json_path r \<noteq> [] then (case doc of None \<Rightarrow> Some json_null | Some d \<Rightarrow> resolve_json_path d (cr_json_path r))
            else Some (case doc of Some (Leaf (VInt n)) \<Rightarrow> Leaf (VInt n) | Some (Leaf (VFloat q)) \<Rightarrow> Leaf (VFloat q)
                                 | Some (Leaf (VBool b)) \<Rightarrow> Leaf (VBool b) | _ \<Rightarrow> Leaf (VStr raw))) of
        None \<Rightarrow> None
      | Some (Leaf (VStr t)) \<Rightarrow>
          (let st = py_strip t
           in if starts_with ''string'' (py_lower (data_type (cr_row r)))
              then (if st \<noteq> [] then Some (VStr (take 256 st)) else None)
              else (case (if enum_map (cr_row r) \<noteq> [] then code_of_label r st else None) of
                      Some code \<Rightarrow> coerce_numeric (Leaf (case py_int code of Some n \<Rightarrow> VInt n | None \<Rightarrow> code))
                    | None \<Rightarrow> coerce_numeric (Leaf (VStr t))))
      | Some v \<Rightarrow> coerce_numeric v)"

definition is_factor :: "source \<Rightarrow> creg \<Rightarrow> pyval \<Rightarrow> bool" where
  "is_factor s r v = (list_ex (\<lambda>x. scale_from (cr_row x) = cr_name r \<and> cr_name r \<noteq> []) (ms_registers s)
     \<and> (case number_of v of Some q \<Rightarrow> \<bar>q\<bar> \<le> 10 | None \<Rightarrow> False))"

text \<open>The raw values of a message, and the scale factors among them recorded first.\<close>

definition extract_all :: "source \<Rightarrow> creg list \<Rightarrow> json option \<Rightarrow> string \<Rightarrow> (creg \<times> pyval) list \<times> source" where
  "extract_all s regs doc raw =
     fold (\<lambda>r (vals, s). case extract_value r doc raw of
         None \<Rightarrow> (vals, s)
       | Some v \<Rightarrow> (vals @ [(r, v)], if is_factor s r v then s\<lparr>ms_factors := dict_set (cr_name r) v (ms_factors s)\<rparr> else s)) regs ([], s)"

definition counter_of :: "source \<Rightarrow> creg \<Rightarrow> mono_filter option" where
  "counter_of s r = (if monotonic (cr_row r)
     then Some (case dict_get (ms_counters s) (cr_address r) of Some f \<Rightarrow> f | None \<Rightarrow> mono_init 3 0) else None)"

definition day_of :: "source \<Rightarrow> creg \<Rightarrow> daily_filter option" where
  "day_of s r = (if daily (cr_row r)
     then Some (case dict_get (ms_days s) (cr_address r) of Some f \<Rightarrow> f | None \<Rightarrow> daily_init (2 / 100)) else None)"

definition keep_filters :: "creg \<Rightarrow> filters \<Rightarrow> source \<Rightarrow> source" where
  "keep_filters r fs s =
     s\<lparr>ms_counters := (case fst fs of Some f \<Rightarrow> dict_set (cr_address r) f (ms_counters s) | None \<Rightarrow> ms_counters s),
       ms_days := (case snd fs of Some f \<Rightarrow> dict_set (cr_address r) f (ms_days s) | None \<Rightarrow> ms_days s)\<rparr>"

text \<open>
  The corrections in a row; the first component is None when one raises (a bit table
  with a negative position), which loses the message.
\<close>

fun correct_all :: "(creg \<times> pyval) list \<Rightarrow> source \<Rightarrow> (int, pyval) dict \<Rightarrow> (int, pyval) dict option \<times> source" where
  "correct_all [] s data = (Some data, s)"
| "correct_all ((r, VStr t) # vals) s data = correct_all vals s (dict_set (cr_address r) (VStr t) data)"
| "correct_all ((r, v) # vals) s data =
     (let fs = (counter_of s r, day_of s r)
      in case apply_corrections v (cr_row r) (ms_factors s) fs of
           Inl e \<Rightarrow> (None, keep_filters r fs s)
         | Inr (x, stage, fs') \<Rightarrow>
             correct_all vals (keep_filters r fs' s) (case x of Some y \<Rightarrow> dict_set (cr_address r) y data | None \<Rightarrow> data))"

definition record_last :: "rat \<Rightarrow> (int, pyval) dict \<Rightarrow> source \<Rightarrow> source" where
  "record_last now data s =
     fold (\<lambda>(a, v) s. s\<lparr>ms_seq := Suc (ms_seq s), ms_last := dict_set a (v, now, Suc (ms_seq s)) (ms_last s)\<rparr>) data s"

definition publish_batch :: "rat \<Rightarrow> (int, pyval) dict \<Rightarrow> source \<Rightarrow> source" where
  "publish_batch now data s =
     (if data = [] then s
      else record_last now data
        (if ms_has_callback s then s\<lparr>ms_updates := ms_updates s + length data, ms_out := ms_out s @ [data]\<rparr> else s))"

text \<open>Registers a JSON null clears; None when a path raises, which loses the message.\<close>

fun cleared :: "json option \<Rightarrow> creg list \<Rightarrow> creg list option" where
  "cleared doc [] = Some []"
| "cleared doc (r # rs) =
     (case doc of
        None \<Rightarrow> cleared doc rs
      | Some d \<Rightarrow>
          (if cr_json_path r = [] then cleared doc rs
           else (case resolve_json_path d (cr_json_path r) of
                   None \<Rightarrow> None
                 | Some v \<Rightarrow> map_option (\<lambda>cs. if v = json_null then r # cs else cs) (cleared doc rs))))"

text \<open>
  A message whose values count: counted, parsed, extracted, corrected, published. A parsed
  null is no document. The first component is False when the handling raises.
\<close>

definition document :: "json option \<Rightarrow> json option" where
  "document doc = (if doc = Some json_null then None else doc)"

definition ingest :: "(string \<Rightarrow> json option) \<Rightarrow> rat \<Rightarrow> message \<Rightarrow> source \<Rightarrow> bool \<times> source" where
  "ingest loads now m s0 =
     (let s = s0\<lparr>ms_messages := Suc (ms_messages s0), ms_last_mono := Some now\<rparr>
      in if MAX_PAYLOAD_BYTES < int (length (mg_payload m)) then (True, s\<lparr>ms_oversized := Suc (ms_oversized s)\<rparr>)
         else (let doc = document (loads (mg_payload m)); regs = match_regs s (mg_topic m)
               in if regs = [] then (True, s)
                  else (case cleared doc regs of
                          None \<Rightarrow> (False, s)
                        | Some cs \<Rightarrow>
                            (let (vals, s) = extract_all (s\<lparr>ms_last := fold (\<lambda>r. dict_del (cr_address r)) cs (ms_last s)\<rparr>) regs doc (mg_payload m)
                             in case correct_all vals s [] of
                                  (None, s) \<Rightarrow> (False, s)
                                | (Some data, s) \<Rightarrow> (True, publish_batch now data s)))))"

section \<open>Retained messages and availability\<close>

text \<open>What becomes of a message after the availability topic had its look.\<close>

definition receive :: "(string \<Rightarrow> json option) \<Rightarrow> rat \<Rightarrow> message \<Rightarrow> source \<Rightarrow> bool \<times> source" where
  "receive loads now m s =
     (if mg_retain m \<and> availability s \<noteq> []
      then (case ms_available s of
              None \<Rightarrow> (True, if int (length (ms_held s)) < 1024 then s\<lparr>ms_held := dict_set (mg_topic m) m (ms_held s)\<rparr> else s)
            | Some False \<Rightarrow> (True, s\<lparr>ms_retained_dropped := Suc (ms_retained_dropped s)\<rparr>)
            | Some True \<Rightarrow> ingest loads now m s)
      else if mg_retain m \<and> \<not> ms_accept_retained s then (True, s\<lparr>ms_retained_dropped := Suc (ms_retained_dropped s)\<rparr>)
      else ingest loads now m s)"

definition says_online :: "source \<Rightarrow> message \<Rightarrow> bool option" where
  "says_online s m =
     (let t = py_strip (mg_payload m) in if t = ms_online s then Some True else if t = ms_offline s then Some False else None)"

text \<open>The held messages are delivered again until one raises.\<close>

fun replay :: "(message \<Rightarrow> source \<Rightarrow> bool \<times> source) \<Rightarrow> message list \<Rightarrow> source \<Rightarrow> bool \<times> source" where
  "replay f [] s = (True, s)"
| "replay f (m # ms) s = (let (ok, s') = f m s in if ok then replay f ms s' else (False, s'))"

definition replay_held :: "(message \<Rightarrow> source \<Rightarrow> bool \<times> source) \<Rightarrow> bool option \<Rightarrow> message list \<Rightarrow> source \<Rightarrow> bool \<times> source" where
  "replay_held f online held s = (if online = Some True then replay f held s else (True, s))"

text \<open>
  \<open>_on_message_inner\<close> with \<open>_on_availability\<close>, which delivers the held messages again
  through the whole of it. The first argument bounds the depth of that recursion.
\<close>

fun deliver :: "nat \<Rightarrow> (string \<Rightarrow> json option) \<Rightarrow> rat \<Rightarrow> message \<Rightarrow> source \<Rightarrow> bool \<times> source" where
  "deliver 0 loads now m s = (False, s)"
| "deliver (Suc d) loads now m s =
     (if availability s \<noteq> [] \<and> topic_matches (availability s) (mg_topic m)
      then (let s1 = s\<lparr>ms_available := says_online s m, ms_held := []\<rparr>;
                (ok, s2) = replay_held (deliver d loads now) (says_online s m) (map snd (ms_held s)) s1
            in if \<not> ok then (False, s2) else if match_regs s2 (mg_topic m) = [] then (True, s2) else receive loads now m s2)
      else receive loads now m s)"

declare deliver.simps [simp del]

text \<open>\<open>_on_message\<close> keeps the client alive whatever the handling raises.\<close>

definition on_message :: "(string \<Rightarrow> json option) \<Rightarrow> rat \<Rightarrow> message \<Rightarrow> source \<Rightarrow> source" where
  "on_message loads now m s = snd (deliver (length (ms_held s) + 2) loads now m s)"

text \<open>\<open>alive\<close> and \<open>last\<close>.\<close>

definition source_alive :: "rat \<Rightarrow> source \<Rightarrow> bool" where
  "source_alive now s =
     (if ms_av_topic s \<noteq> [] \<and> ms_available s \<noteq> None then ms_available s = Some True \<and> ms_connected s
      else (case ms_last_mono s of Some t \<Rightarrow> ms_connected s \<and> now - t \<le> ms_stale_after s | None \<Rightarrow> False))"

definition last_value :: "source \<Rightarrow> int \<Rightarrow> (pyval \<times> rat \<times> nat) option" where
  "last_value s a = dict_get (ms_last s) a"

text \<open>A reload of the registers forgets the last values and the state of the filters.\<close>

definition update_registers :: "creg list \<Rightarrow> source \<Rightarrow> source" where
  "update_registers regs s =
     s\<lparr>ms_registers := regs, ms_last := [], ms_counters := [], ms_days := [], ms_factors := []\<rparr>"

section \<open>What a message changes\<close>

text \<open>Everything but the values, the counters and the filters.\<close>

definition same_setup :: "source \<Rightarrow> source \<Rightarrow> bool" where
  "same_setup s s' \<longleftrightarrow> ms_base s' = ms_base s \<and> ms_vars s' = ms_vars s \<and> ms_av_topic s' = ms_av_topic s \<and> ms_online s' = ms_online s
     \<and> ms_offline s' = ms_offline s \<and> ms_registers s' = ms_registers s \<and> ms_has_callback s' = ms_has_callback s
     \<and> ms_accept_retained s' = ms_accept_retained s \<and> ms_stale_after s' = ms_stale_after s \<and> ms_connected s' = ms_connected s"

lemma same_setup_refl [simp]: "same_setup s s" and same_setup_trans: "same_setup s s' \<Longrightarrow> same_setup s' s'' \<Longrightarrow> same_setup s s''"
  by (simp_all add: same_setup_def)

lemma resolve_same: "same_setup s s' \<Longrightarrow> resolve s' = resolve s"
proof
  fix t assume "same_setup s s'"
  then have "ms_base s' = ms_base s" "ms_vars s' = ms_vars s" by (simp_all add: same_setup_def)
  then show "resolve s' t = resolve s t" by (simp only: resolve_def)
qed

lemma by_topic_same: "same_setup s s' \<Longrightarrow> by_topic s' = by_topic s"
proof -
  assume s: "same_setup s s'"
  then have "reg_topic s' = reg_topic s" by (simp add: reg_topic_def resolve_same fun_eq_iff)
  moreover have "ms_registers s' = ms_registers s" using s by (simp add: same_setup_def)
  ultimately show ?thesis by (simp only: by_topic_def)
qed

lemma same_setup_topics:
  assumes "same_setup s s'"
  shows "availability s' = availability s" "match_regs s' t = match_regs s t" "says_online s' m = says_online s m"
proof -
  have eq: "ms_av_topic s' = ms_av_topic s" "ms_online s' = ms_online s" "ms_offline s' = ms_offline s"
    using assms by (simp_all add: same_setup_def)
  show "availability s' = availability s" by (simp only: availability_def eq resolve_same [OF assms])
  show "match_regs s' t = match_regs s t" by (simp only: match_regs_def by_topic_same [OF assms])
  show "says_online s' m = says_online s m" by (simp only: says_online_def eq)
qed

text \<open>
  The values after a step: what was there, or what arrived in it, numbered after everything
  before and given to the callback too.
\<close>

definition brings :: "rat set \<Rightarrow> source \<Rightarrow> source \<Rightarrow> bool" where
  "brings T s s' \<longleftrightarrow> same_setup s s' \<and> ms_seq s \<le> ms_seq s' \<and> (\<exists>new. ms_out s' = ms_out s @ new
     \<and> (\<forall>a v t q. last_value s' a = Some (v, t, q) \<longrightarrow> last_value s a = Some (v, t, q)
          \<or> ms_seq s < q \<and> q \<le> ms_seq s' \<and> t \<in> T \<and> (ms_has_callback s \<longrightarrow> (\<exists>b \<in> set new. dict_get b a = Some v))))"

lemma brings_refl [simp]: "brings T s s"
  by (simp add: brings_def)

lemma brings_trans:
  assumes "brings T s s'" "brings U s' s''"
  shows "brings (T \<union> U) s s''"
proof -
  obtain new1 where 1: "ms_out s' = ms_out s @ new1" "\<And>a v t q. last_value s' a = Some (v, t, q) \<Longrightarrow> last_value s a = Some (v, t, q)
      \<or> ms_seq s < q \<and> q \<le> ms_seq s' \<and> t \<in> T \<and> (ms_has_callback s \<longrightarrow> (\<exists>b \<in> set new1. dict_get b a = Some v))"
    using assms(1) unfolding brings_def by blast
  obtain new2 where 2: "ms_out s'' = ms_out s' @ new2" "\<And>a v t q. last_value s'' a = Some (v, t, q) \<Longrightarrow> last_value s' a = Some (v, t, q)
      \<or> ms_seq s' < q \<and> q \<le> ms_seq s'' \<and> t \<in> U \<and> (ms_has_callback s' \<longrightarrow> (\<exists>b \<in> set new2. dict_get b a = Some v))"
    using assms(2) unfolding brings_def by blast
  have m: "same_setup s s'" "same_setup s' s''" "ms_seq s \<le> ms_seq s'" "ms_seq s' \<le> ms_seq s''" using assms by (auto simp: brings_def)
  have cb: "ms_has_callback s' = ms_has_callback s" using m(1) by (simp add: same_setup_def)
  show ?thesis
    unfolding brings_def
  proof (intro conjI exI [of _ "new1 @ new2"] allI impI)
    fix a v t q assume "last_value s'' a = Some (v, t, q)"
    then show "last_value s a = Some (v, t, q) \<or> ms_seq s < q \<and> q \<le> ms_seq s'' \<and> t \<in> T \<union> U
        \<and> (ms_has_callback s \<longrightarrow> (\<exists>b \<in> set (new1 @ new2). dict_get b a = Some v))"
      using 1(2) 2(2) m(3,4) cb by (smt (verit, best) Un_iff dual_order.trans le_less_trans less_le_trans set_append)
  qed (use m 1 2 same_setup_trans in auto)
qed

lemma brings_same: "same_setup s s' \<Longrightarrow> ms_seq s' = ms_seq s \<Longrightarrow> ms_out s' = ms_out s
  \<Longrightarrow> (\<And>a x. last_value s' a = Some x \<Longrightarrow> last_value s a = Some x) \<Longrightarrow> brings T s s'"
  by (simp add: brings_def)

lemma brings_plus: "brings T s s' \<Longrightarrow> brings T s' s'' \<Longrightarrow> brings T s s''"
  using brings_trans [of T s s' T s''] by simp

section \<open>One message\<close>

text \<open>Steps that touch neither values nor setup.\<close>

definition only_filters :: "source \<Rightarrow> source \<Rightarrow> bool" where
  "only_filters s s' \<longleftrightarrow> same_setup s s' \<and> ms_seq s' = ms_seq s \<and> ms_out s' = ms_out s \<and> ms_last s' = ms_last s
     \<and> ms_available s' = ms_available s \<and> ms_held s' = ms_held s"

lemma extract_all_keeps: "extract_all s regs doc raw = (vals, s') \<Longrightarrow> only_filters s s'"
proof -
  have "only_filters (snd p) (snd (fold (\<lambda>r (vals, s). case extract_value r doc raw of
         None \<Rightarrow> (vals, s)
       | Some v \<Rightarrow> (vals @ [(r, v)], if is_factor s r v then s\<lparr>ms_factors := dict_set (cr_name r) v (ms_factors s)\<rparr> else s)) regs p))" for p
  proof (induction regs arbitrary: p)
    case (Cons r regs)
    obtain vals s where p: "p = (vals, s)" by (cases p)
    show ?case unfolding fold_Cons comp_def p
      using Cons.IH [of "case extract_value r doc raw of None \<Rightarrow> (vals, s)
        | Some v \<Rightarrow> (vals @ [(r, v)], if is_factor s r v then s\<lparr>ms_factors := dict_set (cr_name r) v (ms_factors s)\<rparr> else s)"]
      by (auto simp: only_filters_def same_setup_def split: option.splits if_splits)
  qed (simp add: only_filters_def)
  from this [of "([], s)"] show "extract_all s regs doc raw = (vals, s') \<Longrightarrow> only_filters s s'"
    by (simp add: extract_all_def)
qed

lemma keep_filters_keeps: "only_filters s (keep_filters r fs s)"
  by (simp add: only_filters_def keep_filters_def same_setup_def)

lemma correct_all_keeps: "correct_all vals s data = (res, s') \<Longrightarrow> only_filters s s' \<and> (dict_ok data \<longrightarrow> (case res of Some d \<Rightarrow> dict_ok d | None \<Rightarrow> True))"
proof (induction vals arbitrary: s data)
  case (Cons rv vals)
  obtain r v where rv: "rv = (r, v)" by (cases rv)
  have chain: "only_filters s s'" if "only_filters (keep_filters r fs s) s'" for fs
    using that keep_filters_keeps [of s r fs] by (auto simp: only_filters_def intro: same_setup_trans)
  show ?case
  proof (cases "\<exists>t. v = VStr t")
    case True
    then show ?thesis using Cons.prems Cons.IH by (auto simp: rv dict_simps)
  next
    case False
    let ?ap = "apply_corrections v (cr_row r) (ms_factors s) (counter_of s r, day_of s r)"
    have step: "correct_all (rv # vals) s data = (case ?ap of Inl e \<Rightarrow> (None, keep_filters r (counter_of s r, day_of s r) s)
        | Inr (x, stage, fs') \<Rightarrow> correct_all vals (keep_filters r fs' s) (case x of Some y \<Rightarrow> dict_set (cr_address r) y data | None \<Rightarrow> data))"
      using False by (cases v) (simp_all add: rv Let_def)
    show ?thesis
    proof (cases ?ap)
      case (Inl e)
      then show ?thesis using Cons.prems keep_filters_keeps step by auto
    next
      case (Inr y)
      obtain x st fs' where y: "y = (x, st, fs')" by (cases y)
      let ?d = "case x of Some y \<Rightarrow> dict_set (cr_address r) y data | None \<Rightarrow> data"
      have "correct_all vals (keep_filters r fs' s) ?d = (res, s')" using Cons.prems step Inr y by simp
      from Cons.IH [OF this] chain have "only_filters s s' \<and> (dict_ok ?d \<longrightarrow> (case res of Some d \<Rightarrow> dict_ok d | None \<Rightarrow> True))" by blast
      moreover have "dict_ok data \<longrightarrow> dict_ok ?d" by (auto simp: dict_simps split: option.splits)
      ultimately show ?thesis by blast
    qed
  qed
qed (auto simp: only_filters_def)

lemma record_last_spec:
  assumes "dict_ok data"
  shows "same_setup s (record_last now data s) \<and> ms_out (record_last now data s) = ms_out s \<and> ms_seq (record_last now data s) = ms_seq s + length data
    \<and> ms_available (record_last now data s) = ms_available s \<and> ms_held (record_last now data s) = ms_held s
    \<and> (\<forall>a. case dict_get data a of
        None \<Rightarrow> last_value (record_last now data s) a = last_value s a
      | Some v \<Rightarrow> \<exists>q. ms_seq s < q \<and> q \<le> ms_seq s + length data \<and> last_value (record_last now data s) a = Some (v, now, q))"
  using assms
proof (induction data arbitrary: s)
  case (Cons p data)
  obtain b w where p: "p = (b, w)" by (cases p)
  let ?s = "s\<lparr>ms_seq := Suc (ms_seq s), ms_last := dict_set b (w, now, Suc (ms_seq s)) (ms_last s)\<rparr>"
  let ?r = "record_last now (p # data) s"
  have eq: "?r = record_last now data ?s" by (simp add: record_last_def p)
  have ss: "same_setup s ?s" by (simp add: same_setup_def)
  have nb: "dict_get data b = None" using Cons.prems p by (auto simp: map_of_eq_None_iff)
  have ok: "dict_ok data" using Cons.prems by simp
  note ih = Cons.IH [OF ok, of ?s, folded eq]
  have IH: "same_setup ?s ?r" "ms_out ?r = ms_out ?s" "ms_seq ?r = ms_seq ?s + length data" "ms_available ?r = ms_available ?s"
      "ms_held ?r = ms_held ?s" using ih by blast+
  have lastv: "case dict_get data a of None \<Rightarrow> last_value ?r a = last_value ?s a
      | Some v \<Rightarrow> \<exists>q. ms_seq ?s < q \<and> q \<le> ms_seq ?s + length data \<and> last_value ?r a = Some (v, now, q)" for a
    using ih by blast
  have "case dict_get (p # data) a of None \<Rightarrow> last_value ?r a = last_value s a
      | Some v \<Rightarrow> \<exists>q. ms_seq s < q \<and> q \<le> ms_seq s + length (p # data) \<and> last_value ?r a = Some (v, now, q)" for a
  proof (cases "a = b")
    case True
    have "last_value ?r b = Some (w, now, Suc (ms_seq s))" using lastv [of b] nb by (simp add: last_value_def dict_simps)
    with True show ?thesis by (simp add: p)
  next
    case False
    have s: "last_value ?s a = last_value s a" using False by (simp add: last_value_def dict_simps)
    show ?thesis
    proof (cases "dict_get data a")
      case None
      then show ?thesis using lastv [of a] s False by (simp add: p)
    next
      case (Some v)
      with lastv [of a] obtain q where "ms_seq ?s < q" "q \<le> ms_seq ?s + length data" "last_value ?r a = Some (v, now, q)" by auto
      then show ?thesis using Some False by (auto simp: p)
    qed
  qed
  then show ?case using IH same_setup_trans [OF ss IH(1)] by simp
qed (simp add: record_last_def)

lemma only_filters_brings: "only_filters s s' \<Longrightarrow> brings T s s'"
  by (rule brings_same) (simp_all add: only_filters_def last_value_def)

lemma publish_batch_brings:
  assumes "dict_ok data"
  shows "brings {now} s (publish_batch now data s) \<and> ms_available (publish_batch now data s) = ms_available s \<and> ms_held (publish_batch now data s) = ms_held s"
proof (cases "data = []")
  case True
  then show ?thesis by (simp add: publish_batch_def)
next
  case False
  define s1 where "s1 = (if ms_has_callback s then s\<lparr>ms_updates := ms_updates s + length data, ms_out := ms_out s @ [data]\<rparr> else s)"
  have p: "publish_batch now data s = record_last now data s1" using False by (simp add: publish_batch_def s1_def)
  have s1: "same_setup s s1" "ms_seq s1 = ms_seq s" "\<And>a. last_value s1 a = last_value s a" "ms_available s1 = ms_available s" "ms_held s1 = ms_held s"
    "ms_out s1 = ms_out s @ (if ms_has_callback s then [data] else [])"
    by (simp_all add: s1_def same_setup_def last_value_def)
  note spec = record_last_spec [OF assms, where now = now and s = s1, folded p]
  have lastv: "case dict_get data a of None \<Rightarrow> last_value (publish_batch now data s) a = last_value s1 a
      | Some v \<Rightarrow> \<exists>q. ms_seq s1 < q \<and> q \<le> ms_seq s1 + length data \<and> last_value (publish_batch now data s) a = Some (v, now, q)" for a
    using spec by blast
  have new: "last_value s a = Some (v, t, q) \<or> ms_seq s < q \<and> q \<le> ms_seq (publish_batch now data s) \<and> t \<in> {now}
      \<and> (ms_has_callback s \<longrightarrow> (\<exists>b \<in> set (if ms_has_callback s then [data] else []). dict_get b a = Some v))"
    if l: "last_value (publish_batch now data s) a = Some (v, t, q)" for a v t q
  proof (cases "dict_get data a")
    case None
    then have "last_value (publish_batch now data s) a = last_value s1 a" using lastv [of a] by simp
    with l s1(3) show ?thesis by simp
  next
    case (Some w)
    then obtain q' where "ms_seq s1 < q'" "q' \<le> ms_seq s1 + length data" "last_value (publish_batch now data s) a = Some (w, now, q')"
      using lastv [of a] by auto
    with l s1(2) spec Some show ?thesis by auto
  qed
  have "same_setup s (publish_batch now data s)" using same_setup_trans s1(1) spec by blast
  then have "brings {now} s (publish_batch now data s)"
    unfolding brings_def using new spec s1 by (intro conjI exI [of _ "if ms_has_callback s then [data] else []"] allI impI) auto
  then show ?thesis using spec s1 by simp
qed

lemma fold_del_last: "dict_get (fold (\<lambda>r. dict_del (cr_address r)) cs d) a = Some x \<Longrightarrow> dict_get d a = Some x"
proof (induction cs arbitrary: d)
  case (Cons r cs)
  then have "dict_get (dict_del (cr_address r) d) a = Some x" by simp
  then show ?case by (simp add: dict_simps split: if_splits)
qed simp

text \<open>What a handled message leaves: new values and the availability as it was.\<close>

definition handles :: "rat \<Rightarrow> source \<Rightarrow> source \<Rightarrow> bool" where
  "handles now s s' \<longleftrightarrow> brings {now} s s' \<and> ms_available s' = ms_available s \<and> ms_held s' = ms_held s"

lemma handles_trans: "handles now s s' \<Longrightarrow> handles now s' s'' \<Longrightarrow> handles now s s''"
  by (auto simp: handles_def intro: brings_plus)

lemma handles_same:
  "same_setup s s' \<Longrightarrow> ms_seq s' = ms_seq s \<Longrightarrow> ms_out s' = ms_out s \<Longrightarrow> (\<And>a x. last_value s' a = Some x \<Longrightarrow> last_value s a = Some x)
   \<Longrightarrow> ms_available s' = ms_available s \<Longrightarrow> ms_held s' = ms_held s \<Longrightarrow> handles now s s'"
  by (simp add: handles_def brings_same)

lemma only_filters_handles: "only_filters s s' \<Longrightarrow> handles now s s'"
  using only_filters_brings by (simp add: handles_def only_filters_def)

lemma ingest_handles: "handles now s (snd (ingest loads now m s))"
proof -
  let ?s = "s\<lparr>ms_messages := Suc (ms_messages s), ms_last_mono := Some now\<rparr>"
  let ?doc = "document (loads (mg_payload m))" and ?regs = "match_regs ?s (mg_topic m)"
  have s: "handles now s ?s" by (rule handles_same) (simp_all add: same_setup_def last_value_def)
  have big: "handles now s (?s\<lparr>ms_oversized := n\<rparr>)" for n by (rule handles_same) (simp_all add: same_setup_def last_value_def)
  show ?thesis
  proof (cases "MAX_PAYLOAD_BYTES < int (length (mg_payload m)) \<or> ?regs = [] \<or> cleared ?doc ?regs = None")
    case True
    then show ?thesis using s big by (auto simp: ingest_def Let_def)
  next
    case False
    then obtain cs where cs: "cleared ?doc ?regs = Some cs" by auto
    let ?s1 = "?s\<lparr>ms_last := fold (\<lambda>r. dict_del (cr_address r)) cs (ms_last ?s)\<rparr>"
    obtain vals s2 where x: "extract_all ?s1 ?regs ?doc (mg_payload m) = (vals, s2)" by (cases "extract_all ?s1 ?regs ?doc (mg_payload m)")
    obtain res s3 where c: "correct_all vals s2 [] = (res, s3)" by (cases "correct_all vals s2 []")
    have "handles now s ?s1"
      by (rule handles_same) (auto simp: same_setup_def last_value_def intro: fold_del_last)
    moreover have "handles now ?s1 s2" using extract_all_keeps [OF x] by (rule only_filters_handles)
    moreover have "handles now s2 s3" using correct_all_keeps [OF c] by (blast intro: only_filters_handles)
    ultimately have h: "handles now s s3" by (meson handles_trans)
    show ?thesis
    proof (cases res)
      case None
      then have "snd (ingest loads now m s) = s3" using False cs x c by (simp add: ingest_def Let_def)
      then show ?thesis using h by simp
    next
      case (Some data)
      then have "snd (ingest loads now m s) = publish_batch now data s3" using False cs x c by (simp add: ingest_def Let_def)
      moreover have "handles now s3 (publish_batch now data s3)"
        using publish_batch_brings [of data now s3] correct_all_keeps [OF c] Some by (simp add: handles_def)
      ultimately show ?thesis using h handles_trans by metis
    qed
  qed
qed

lemma receive_brings: "brings {now} s (snd (receive loads now m s))"
proof -
  have i: "brings {now} s (snd (ingest loads now m s))" using ingest_handles by (simp add: handles_def)
  have "brings {now} s (s\<lparr>ms_held := h\<rparr>)" "brings {now} s (s\<lparr>ms_retained_dropped := n\<rparr>)" for h n
    by (rule brings_same; simp add: same_setup_def last_value_def)+
  with i show ?thesis by (auto simp: receive_def split: option.splits bool.splits)
qed

lemma replay_brings: "(\<And>m s. brings T s (snd (f m s))) \<Longrightarrow> brings T s (snd (replay f ms s))"
proof (induction ms arbitrary: s)
  case (Cons m ms)
  obtain ok s' where f: "f m s = (ok, s')" by (cases "f m s")
  have "brings T s s'" using Cons.prems [of s m] f by simp
  then show ?case using Cons.IH [OF Cons.prems, of s'] f by (auto intro: brings_plus)
qed simp

lemma deliver_brings: "brings {now} s (snd (deliver d loads now m s))"
proof (induction d arbitrary: m s)
  case (Suc d)
  let ?s1 = "s\<lparr>ms_available := says_online s m, ms_held := []\<rparr>"
  have 1: "brings {now} s ?s1" by (rule brings_same) (simp_all add: same_setup_def last_value_def)
  obtain ok s2 where r: "replay_held (deliver d loads now) (says_online s m) (map snd (ms_held s)) ?s1 = (ok, s2)"
    by (metis prod.exhaust)
  have "brings {now} ?s1 (snd (replay_held (deliver d loads now) (says_online s m) (map snd (ms_held s)) ?s1))"
    unfolding replay_held_def by (cases "says_online s m = Some True")
      (simp_all only: if_True if_False snd_conv brings_refl replay_brings [where f = "deliver d loads now", OF Suc.IH] simp_thms)
  with 1 r have 2: "brings {now} s s2" by (auto intro: brings_plus)
  show ?case
  proof (cases "availability s \<noteq> [] \<and> topic_matches (availability s) (mg_topic m)")
    case True
    have "deliver (Suc d) loads now m s = (if \<not> ok then (False, s2) else if match_regs s2 (mg_topic m) = [] then (True, s2) else receive loads now m s2)"
      unfolding deliver.simps Let_def r using True by simp
    then show ?thesis using 2 receive_brings brings_plus by auto
  next
    case False
    then have "deliver (Suc d) loads now m s = receive loads now m s" unfolding deliver.simps by (rule if_not_P)
    then show ?thesis using receive_brings by simp
  qed
qed (simp add: deliver.simps)

lemma on_message_brings: "brings {now} s (on_message loads now m s)"
  unfolding on_message_def by (rule deliver_brings)

section \<open>A run of messages\<close>

definition run_source :: "(string \<Rightarrow> json option) \<Rightarrow> (rat \<times> message) list \<Rightarrow> source \<Rightarrow> source" where
  "run_source loads msgs s = fold (\<lambda>(now, m). on_message loads now m) msgs s"

definition numbered :: "source \<Rightarrow> bool" where
  "numbered s = (\<forall>a v t q. last_value s a = Some (v, t, q) \<longrightarrow> q \<le> ms_seq s)"

lemma brings_mono: "brings T s s' \<Longrightarrow> T \<subseteq> U \<Longrightarrow> brings U s s'"
  unfolding brings_def by (meson subsetD)

lemma run_source_brings: "brings (fst ` set msgs) s (run_source loads msgs s)"
proof (induction msgs arbitrary: s)
  case (Cons p msgs)
  obtain now m where p: "p = (now, m)" by (cases p)
  have "brings ({now} \<union> fst ` set msgs) s (run_source loads msgs (on_message loads now m s))"
    using brings_trans [OF on_message_brings Cons.IH] .
  moreover have "run_source loads (p # msgs) s = run_source loads msgs (on_message loads now m s)"
    by (simp add: run_source_def p)
  ultimately show ?case by (simp add: p)
qed (simp add: run_source_def)

lemma fresh_values:
  assumes "numbered s" and "ms_has_callback s" and "last_value (run_source loads msgs s) a = Some (v, t, q)"
  shows "numbered (run_source loads msgs s)
    \<and> (if q \<le> ms_seq s then last_value s a = Some (v, t, q)
       else t \<in> fst ` set msgs \<and> (\<exists>b \<in> set (drop (length (ms_out s)) (ms_out (run_source loads msgs s))). dict_get b a = Some v))"
proof -
  let ?s = "run_source loads msgs s"
  obtain new where new: "ms_seq s \<le> ms_seq ?s" "ms_out ?s = ms_out s @ new"
    "\<And>a v t q. last_value ?s a = Some (v, t, q) \<Longrightarrow> last_value s a = Some (v, t, q)
       \<or> ms_seq s < q \<and> q \<le> ms_seq ?s \<and> t \<in> fst ` set msgs \<and> (ms_has_callback s \<longrightarrow> (\<exists>b \<in> set new. dict_get b a = Some v))"
    using run_source_brings [of msgs s loads] unfolding brings_def by blast
  have "numbered ?s"
    unfolding numbered_def
  proof (intro allI impI)
    fix a v t q assume "last_value ?s a = Some (v, t, q)"
    from new(3) [OF this] assms(1) new(1) show "q \<le> ms_seq ?s" unfolding numbered_def by (meson order_trans)
  qed
  moreover have "q \<le> ms_seq s" if "last_value s a = Some (v, t, q)" using assms(1) that by (simp add: numbered_def)
  ultimately show ?thesis using new(2) new(3) [OF assms(3)] assms(2) by (auto simp: not_le)
qed


text \<open>
  A retained message, the broker's memory of an old value, changes no value, no
  number and not the age of the source, unless the operator asked for retained values or the
  source itself says it is online; while nobody has said so, it waits.
\<close>

theorem retained_values_wait:
  assumes "mg_retain m"
    and "if availability s = [] then \<not> ms_accept_retained s else ms_available s \<noteq> Some True \<and> \<not> topic_matches (availability s) (mg_topic m)"
  shows "ms_last (on_message loads now m s) = ms_last s \<and> ms_out (on_message loads now m s) = ms_out s \<and> ms_seq (on_message loads now m s) = ms_seq s
    \<and> ms_last_mono (on_message loads now m s) = ms_last_mono s
    \<and> ms_held (on_message loads now m s) = (if availability s \<noteq> [] \<and> ms_available s = None \<and> int (length (ms_held s)) < 1024
         then dict_set (mg_topic m) m (ms_held s) else ms_held s)"
proof -
  have "on_message loads now m s = snd (receive loads now m s)" using assms(2) by (auto simp: on_message_def deliver.simps split: if_splits)
  then show ?thesis using assms by (auto simp: receive_def split: option.splits bool.splits if_splits)
qed

lemma replay_online:
  assumes "list_all (\<lambda>h. mg_retain h \<and> \<not> topic_matches (availability s) (mg_topic h)) hs" "ms_available s = Some True" "availability s \<noteq> []"
  shows "replay (deliver (Suc d) loads now) hs s = replay (ingest loads now) hs s"
  using assms
proof (induction hs arbitrary: s)
  case (Cons h hs)
  obtain ok s' where s': "ingest loads now h s = (ok, s')" by (cases "ingest loads now h s")
  have r: "deliver (Suc d) loads now h s = (ok, s')" using Cons.prems s' by (simp add: receive_def deliver.simps)
  have "same_setup s s'" "ms_available s' = ms_available s"
    using ingest_handles [of now s loads h] s' by (auto simp: handles_def brings_def)
  then have "replay (deliver (Suc d) loads now) hs s' = replay (ingest loads now) hs s'"
    using Cons.IH [of s'] Cons.prems same_setup_topics(1) [of s s'] by simp
  then show ?case unfolding replay.simps r s' by simp
qed simp

text \<open>
  The message that says the source is online delivers every retained value that
  waited, in the order the topics were first heard, through the whole handling of a message.
\<close>

theorem waiting_values_arrive:
  assumes "availability s \<noteq> []" and "topic_matches (availability s) (mg_topic m)" and "says_online s m = Some True"
    and "match_regs s (mg_topic m) = []"
    and "list_all (\<lambda>h. mg_retain h \<and> \<not> topic_matches (availability s) (mg_topic h)) (map snd (ms_held s))"
  shows "on_message loads now m s = snd (replay (ingest loads now) (map snd (ms_held s)) (s\<lparr>ms_available := Some True, ms_held := []\<rparr>))"
proof -
  let ?s = "s\<lparr>ms_available := Some True, ms_held := []\<rparr>"
  have ss: "same_setup s ?s" by (simp add: same_setup_def)
  obtain ok s2 where r: "replay (ingest loads now) (map snd (ms_held s)) ?s = (ok, s2)" by (metis prod.exhaust)
  have "replay (deliver (Suc (length (ms_held s))) loads now) (map snd (ms_held s)) ?s = (ok, s2)"
    using replay_online [of ?s "map snd (ms_held s)" "length (ms_held s)" loads now] assms(1,5) r same_setup_topics(1) [OF ss] by simp
  then have h: "replay_held (deliver (Suc (length (ms_held s))) loads now) (says_online s m) (map snd (ms_held s)) (s\<lparr>ms_available := says_online s m, ms_held := []\<rparr>) = (ok, s2)"
    by (simp add: replay_held_def assms(3))
  have "brings {now} ?s s2"
    using replay_brings [where f = "ingest loads now" and T = "{now}", of ?s "map snd (ms_held s)"] ingest_handles r by (auto simp: handles_def)
  then have "match_regs s2 (mg_topic m) = []"
    using assms(4) same_setup_topics(2) [OF ss] same_setup_topics(2) [of ?s s2] by (simp add: brings_def)
  then have "snd (deliver (Suc (Suc (length (ms_held s)))) loads now m s) = s2"
    unfolding deliver.simps(2) [of "Suc (length (ms_held s))"] Let_def h using assms(1,2) by simp
  then show ?thesis using r by (simp add: on_message_def)
qed

section \<open>Examples\<close>

definition battery_source :: source where
  "battery_source = \<lparr> ms_base = ''bat/1/#'', ms_vars = [], ms_accept_retained = False, ms_av_topic = ''~/status'', ms_online = ''online'',
     ms_offline = ''offline'', ms_stale_after = 30, ms_registers = [(plain_reg ''soc'' ''uint16'' 100)\<lparr>cr_topic := ''~/soc''\<rparr>],
     ms_has_callback = True, ms_connected = True, ms_available = None, ms_held = [], ms_retained_dropped = 0, ms_oversized = 0,
     ms_messages = 0, ms_updates = 0, ms_last_mono = None, ms_last = [], ms_seq = 0, ms_counters = [], ms_days = [],
     ms_factors = [], ms_out = [] \<rparr>"

definition one_number :: "string \<Rightarrow> json option" where
  "one_number p = (if p = ''57'' then Some (Leaf (VInt 57)) else None)"

definition soc_message :: "bool \<Rightarrow> message" where
  "soc_message retained = \<lparr> mg_topic = ''bat/1/soc'', mg_payload = ''57'', mg_retain = retained \<rparr>"

definition online_message :: message where
  "online_message = \<lparr> mg_topic = ''bat/1/status'', mg_payload = ''online'', mg_retain = True \<rparr>"

lemma battery_topics: "availability battery_source = ''bat/1/status''"
  by code_simp


theorem retained_values_wait_witness:
  "ms_last (on_message one_number 10 (soc_message True) battery_source) = []
   \<and> ms_held (on_message one_number 10 (soc_message True) battery_source) = [(''bat/1/soc'', soc_message True)]"
proof -
  have "\<not> topic_matches ''bat/1/status'' ''bat/1/soc''" by code_simp
  then show ?thesis
    using retained_values_wait [of "soc_message True" battery_source one_number 10]
    by (simp add: battery_topics) (simp add: battery_source_def soc_message_def)
qed

theorem waiting_values_arrive_witness:
  "last_value (on_message one_number 20 online_message (battery_source\<lparr>ms_held := [(''bat/1/soc'', soc_message True)]\<rparr>)) 100 = Some (VInt 57, 20, 1)"
proof -
  let ?s = "battery_source\<lparr>ms_held := [(''bat/1/soc'', soc_message True)]\<rparr>"
  have a: "availability ?s = ''bat/1/status''" by code_simp
  have t: "topic_matches ''bat/1/status'' (mg_topic online_message)" "says_online ?s online_message = Some True"
      "match_regs ?s (mg_topic online_message) = []" "\<not> topic_matches ''bat/1/status'' (mg_topic (soc_message True))"
    by code_simp+
  have h: "map snd (ms_held ?s) = [soc_message True]" by simp
  have "list_all (\<lambda>h. mg_retain h \<and> \<not> topic_matches (availability ?s) (mg_topic h)) (map snd (ms_held ?s))"
    unfolding h a using t(4) by (simp add: soc_message_def)
  from waiting_values_arrive [OF _ _ t(2,3) this, of one_number 20] a t(1)
  have "on_message one_number 20 online_message ?s = snd (replay (ingest one_number 20) [soc_message True] (?s\<lparr>ms_available := Some True, ms_held := []\<rparr>))"
    by simp
  also have "last_value \<dots> 100 = Some (VInt 57, 20, 1)" by code_simp
  finally show ?thesis .
qed

end
