(* ===== verification/CommandRun.thy ===== *)
theory CommandRun
  imports CommandPlan
begin

text \<open>
  The run of a command over a connection (\<open>run_command\<close> of \<open>multibus/commands.py\<close>): guard,
  writes, settle, verify. The connection is a pair of functions over a device state; the
  wire keeps, beside that state, everything that was sent over it, in order.
\<close>

section \<open>The connection\<close>

record 's conn =
  cn_read :: "int \<Rightarrow> int \<Rightarrow> string \<Rightarrow> 's \<Rightarrow> u16 list option \<times> 's"
  cn_write :: "int \<Rightarrow> string \<Rightarrow> u16 list \<Rightarrow> 's \<Rightarrow> bool \<times> 's"

text \<open>What went over the wire: a request for words, a write with its answer, a wait.\<close>

datatype wire_op = Asked int int string | Wrote int string "u16 list" bool | Waited rat

type_synonym 's wire = "'s \<times> wire_op list"

definition do_read :: "'s conn \<Rightarrow> int \<Rightarrow> int \<Rightarrow> string \<Rightarrow> 's wire \<Rightarrow> u16 list option \<times> 's wire" where
  "do_read conn start cnt rtype w =
     (let (ws, s) = cn_read conn start cnt rtype (fst w) in (ws, s, snd w @ [Asked start cnt rtype]))"

definition do_write :: "'s conn \<Rightarrow> int \<Rightarrow> string \<Rightarrow> u16 list \<Rightarrow> 's wire \<Rightarrow> bool \<times> 's wire" where
  "do_write conn addr rtype ws w =
     (let (ok, s) = cn_write conn addr rtype ws (fst w) in (ok, s, snd w @ [Wrote addr rtype ws ok]))"

definition do_sleep :: "rat \<Rightarrow> 's wire \<Rightarrow> 's wire" where
  "do_sleep t w = (fst w, snd w @ [Waited t])"

section \<open>Reading named registers\<close>

text \<open>The words read so far, by register type and address.\<close>

type_synonym words_at = "string \<times> int \<Rightarrow> u16 option"

definition store_words :: "string \<Rightarrow> int \<Rightarrow> u16 list \<Rightarrow> words_at \<Rightarrow> words_at" where
  "store_words rtype start ws m =
     (\<lambda>(t, a). if t = rtype \<and> start \<le> a \<and> a < start + int (length ws) then Some (ws ! nat (a - start)) else m (t, a))"

fun read_blocks :: "'s conn \<Rightarrow> string \<Rightarrow> (int \<times> int) list \<Rightarrow> words_at \<Rightarrow> 's wire \<Rightarrow> words_at option \<times> 's wire" where
  "read_blocks conn rtype [] m w = (Some m, w)"
| "read_blocks conn rtype ((start, cnt) # bs) m w =
     (case do_read conn start cnt rtype w of
        (None, w') \<Rightarrow> (None, w')
      | (Some ws, w') \<Rightarrow>
          if ws = [] \<or> int (length ws) < cnt then (None, w')
          else read_blocks conn rtype bs (store_words rtype start (take (nat cnt) ws) m) w')"

fun group_by_type :: "registers \<Rightarrow> string list \<Rightarrow> (string, string list) dict \<Rightarrow> cmd_exn + (string, string list) dict" where
  "group_by_type regs [] d = Inr d"
| "group_by_type regs (n # ns) d =
     (case dict_get regs n of
        None \<Rightarrow> Inl ValErr
      | Some r \<Rightarrow> group_by_type regs ns (dict_set (reg_type r) ((case dict_get d (reg_type r) of Some g \<Rightarrow> g | None \<Rightarrow> []) @ [n]) d))"

fun read_types :: "'s conn \<Rightarrow> registers \<Rightarrow> int \<Rightarrow> (string, string list) dict \<Rightarrow> words_at \<Rightarrow> 's wire
    \<Rightarrow> (cmd_exn + words_at option) \<times> 's wire" where
  "read_types conn regs max_read [] m w = (Inr (Some m), w)"
| "read_types conn regs max_read ((rtype, grp) # gs) m w =
     (case blocks_for regs grp max_read of
        Inl e \<Rightarrow> (Inl e, w)
      | Inr bs \<Rightarrow>
          (case read_blocks conn rtype bs m w of
             (None, w') \<Rightarrow> (Inr None, w')
           | (Some m', w') \<Rightarrow> read_types conn regs max_read gs m' w'))"

definition words_of :: "registers \<Rightarrow> words_at \<Rightarrow> string \<Rightarrow> cmd_exn + u16 list" where
  "words_of regs m n =
     (case dict_get regs n of
        None \<Rightarrow> Inl KeyErr
      | Some r \<Rightarrow> emap (\<lambda>i. case m (reg_type r, cr_address r + int i) of None \<Rightarrow> Inl KeyErr | Some x \<Rightarrow> Inr x) [0..<word_count r])"

definition or_none :: "pyval option \<Rightarrow> pyval" where
  "or_none v = (case v of Some x \<Rightarrow> x | None \<Rightarrow> VNone)"

text \<open>\<open>_decode\<close>, with no state of the counter filters.\<close>

definition decode_words :: "bool \<times> bool \<Rightarrow> creg \<Rightarrow> u16 list \<Rightarrow> (string, pyval) dict \<Rightarrow> cmd_exn + pyval" where
  "decode_words ord r ws sf =
     (case apply_corrections (or_none (parse_value ord ws (reg_dtype r) (NanValue VNone))) (cr_row r) sf (None, None) of
        Inl NegativeShiftCount \<Rightarrow> Inl ValErr
      | Inr (v, _) \<Rightarrow> Inr (or_none v))"

definition read_factor :: "bool \<times> bool \<Rightarrow> registers \<Rightarrow> words_at \<Rightarrow> string \<Rightarrow> cmd_exn + string \<times> pyval" where
  "read_factor ord regs m n =
     ebind (words_of regs m n) (\<lambda>ws.
       (let dt = (case dict_get regs n of Some r \<Rightarrow> data_type (cr_row r) | None \<Rightarrow> [])
        in Inr (n, or_none (parse_value ord ws (if dt = [] then ''int16'' else dt) (NanValue VNone)))))"

definition read_value :: "bool \<times> bool \<Rightarrow> registers \<Rightarrow> words_at \<Rightarrow> (string, pyval) dict \<Rightarrow> string \<Rightarrow> cmd_exn + string \<times> pyval" where
  "read_value ord regs m sf n =
     ebind (words_of regs m n) (\<lambda>ws.
       case dict_get regs n of
         None \<Rightarrow> Inl KeyErr
       | Some r \<Rightarrow> ebind (decode_words ord r ws sf) (\<lambda>v. Inr (n, v)))"

text \<open>A dictionary filled in a loop whose body may raise.\<close>

definition collect_dict :: "('a \<Rightarrow> cmd_exn + string \<times> pyval) \<Rightarrow> 'a list \<Rightarrow> cmd_exn + (string, pyval) dict" where
  "collect_dict f ns = ebind (emap f ns) (\<lambda>kvs. Inr (fold (\<lambda>(k, v). dict_set k v) kvs []))"

type_synonym reading = "(string, pyval) dict \<times> (string, pyval) dict"

definition read_named :: "'s conn \<Rightarrow> registers \<Rightarrow> string list \<Rightarrow> bool \<times> bool \<Rightarrow> string list \<Rightarrow> int \<Rightarrow> 's wire
    \<Rightarrow> (cmd_exn + reading option) \<times> 's wire" where
  "read_named conn regs names ord sf_names max_read w =
     (let need = first_seen (names @ sf_names)
      in if need = [] then (Inr (Some ([], [])), w)
         else (case group_by_type regs need [] of
                 Inl e \<Rightarrow> (Inl e, w)
               | Inr groups \<Rightarrow>
                   (case read_types conn regs max_read groups (\<lambda>_. None) w of
                      (Inl e, w') \<Rightarrow> (Inl e, w')
                    | (Inr None, w') \<Rightarrow> (Inr None, w')
                    | (Inr (Some m), w') \<Rightarrow>
                        (ebind (collect_dict (read_factor ord regs m) sf_names) (\<lambda>sf.
                           ebind (collect_dict (read_value ord regs m sf) names) (\<lambda>vals. Inr (Some (vals, sf)))), w'))))"

section \<open>Checks\<close>

text \<open>Texts of values that are compared as texts: \<open>str\<close> of a condition and of a float.\<close>

record texts =
  tx_repr :: "cexpr \<Rightarrow> string"
  tx_float :: "rat \<Rightarrow> string"

fun py_str :: "texts \<Rightarrow> pyval \<Rightarrow> string" where
  "py_str tx VNone = ''None''"
| "py_str tx (VBool b) = (if b then ''True'' else ''False'')"
| "py_str tx (VInt n) = int_str n"
| "py_str tx (VFloat q) = tx_float tx q"
| "py_str tx (VStr s) = s"

datatype failing = NotDecoded string | Differs string | NotOneOf string | NotNumeric string | BelowMin string | AboveMax string

definition states_of :: "creg option \<Rightarrow> (pyval, string) dict" where
  "states_of reg = (case reg of Some r \<Rightarrow> enum_map (cr_row r) | None \<Rightarrow> [])"

definition state_label :: "creg option \<Rightarrow> rat \<Rightarrow> string option" where
  "state_label reg q =
     (if states_of reg \<noteq> [] \<and> q = of_int \<lfloor>q\<rfloor> then decode_enum (VInt \<lfloor>q\<rfloor>) (states_of reg) None 0 None else None)"

definition wanted :: "pyval \<Rightarrow> pyval \<Rightarrow> creg option \<Rightarrow> pyval" where
  "wanted want got reg =
     (case (number_of want, got) of
        (Some q, VStr _) \<Rightarrow>
          (case state_label reg q of
             Some l \<Rightarrow> if starts_with ''unknown ('' l then want else VStr l
           | None \<Rightarrow> want)
      | _ \<Rightarrow> want)"

definition meets :: "texts \<Rightarrow> rat \<Rightarrow> pyval \<Rightarrow> pyval \<Rightarrow> bool" where
  "meets tx tol want got =
     (case (num_or_bool want, num_or_bool got) of
        (Some x, Some y) \<Rightarrow> \<bar>y - x\<bar> \<le> tol
      | _ \<Rightarrow> py_str tx got = py_str tx want)"

definition all_floats :: "pyval list \<Rightarrow> rat list option" where
  "all_floats vs = (case emap py_float vs of Inl e \<Rightarrow> None | Inr qs \<Rightarrow> Some qs)"

definition one_of :: "pyval list \<Rightarrow> pyval \<Rightarrow> creg option \<Rightarrow> bool" where
  "one_of vs got reg =
     (list_ex (py_eq got) vs
      \<or> (case got of VStr s \<Rightarrow> list_ex (\<lambda>v. case number_of v of Some q \<Rightarrow> state_label reg q = Some s | None \<Rightarrow> False) vs | _ \<Rightarrow> False)
      \<or> (case (py_float got, all_floats vs) of (Inr q, Some qs) \<Rightarrow> q \<in> set qs | _ \<Rightarrow> False))"

definition check_minmax :: "rule \<Rightarrow> pyval \<Rightarrow> failing option" where
  "check_minmax rl got =
     (if rl_min rl = None \<and> rl_max rl = None then None
      else (case py_float got of
              Inl e \<Rightarrow> Some (NotNumeric (rl_read rl))
            | Inr g \<Rightarrow>
                if (case rl_min rl of Some lo \<Rightarrow> g < lo | None \<Rightarrow> False) then Some (BelowMin (rl_read rl))
                else if (case rl_max rl of Some hi \<Rightarrow> hi < g | None \<Rightarrow> False) then Some (AboveMax (rl_read rl))
                else None))"

definition check_rule :: "texts \<Rightarrow> rule \<Rightarrow> pyval \<Rightarrow> (string, pyval) dict \<Rightarrow> creg option \<Rightarrow> cmd_exn + failing option" where
  "check_rule tx rl got params reg =
     (if got = VNone then Inr (Some (NotDecoded (rl_read rl)))
      else ebind (case rl_expect rl of None \<Rightarrow> Inr True
              | Some e \<Rightarrow> ebind (evaluate (tx_repr tx) params e) (\<lambda>want. Inr (meets tx (rl_tolerance rl) (wanted want got reg) got)))
            (\<lambda>ok. if \<not> ok then Inr (Some (Differs (rl_read rl)))
                  else (case rl_in rl of
                          Some vs \<Rightarrow> if one_of vs got reg then Inr (check_minmax rl got) else Inr (Some (NotOneOf (rl_read rl)))
                        | None \<Rightarrow> Inr (check_minmax rl got))))"

section \<open>The run\<close>

datatype status = Success | Mismatch | Unverified | Rejected | ErrorStatus | DryRun

datatype reason = NoPreRead | GuardFailed failing | PlanRefused cmd_exn | WriteFailed frame nat | NoReadBack | ReadBack failing

record outcome =
  oc_status :: status
  oc_reason :: "reason option"
  oc_before :: "(string, pyval) dict"
  oc_guard :: "(string, pyval) dict"
  oc_frames :: "frame list option"
  oc_sent :: "nat option"
  oc_after :: "(string, pyval) dict option"

definition value_of :: "(string, pyval) dict \<Rightarrow> string \<Rightarrow> pyval" where
  "value_of d n = or_none (dict_get d n)"

definition values_of :: "(string, pyval) dict \<Rightarrow> rule list \<Rightarrow> (string, pyval) dict" where
  "values_of vals rules = map (\<lambda>n. (n, value_of vals n)) (first_seen (map rl_read rules))"

definition check_all :: "texts \<Rightarrow> rule list \<Rightarrow> (string, pyval) dict \<Rightarrow> (string, pyval) dict \<Rightarrow> registers \<Rightarrow> cmd_exn + failing option list" where
  "check_all tx rules vals params regs =
     emap (\<lambda>g. check_rule tx g (value_of vals (rl_read g)) params (dict_get regs (rl_read g))) rules"

fun first_failing :: "failing option list \<Rightarrow> failing option" where
  "first_failing [] = None"
| "first_failing (None # fs) = first_failing fs"
| "first_failing (Some f # fs) = Some f"

text \<open>The checks after the writes stop at the first that fails.\<close>

fun check_first :: "texts \<Rightarrow> rule list \<Rightarrow> (string, pyval) dict \<Rightarrow> (string, pyval) dict \<Rightarrow> registers \<Rightarrow> cmd_exn + failing option" where
  "check_first tx [] vals params regs = Inr None"
| "check_first tx (v # vs) vals params regs =
     ebind (check_rule tx v (value_of vals (rl_read v)) params (dict_get regs (rl_read v)))
       (\<lambda>why. case why of Some f \<Rightarrow> Inr (Some f) | None \<Rightarrow> check_first tx vs vals params regs)"

text \<open>Coils go out as truth values, everything else as words.\<close>

definition frame_payload :: "frame \<Rightarrow> u16 list" where
  "frame_payload f = (if fr_type f = ''coil'' then map (\<lambda>x. if x \<noteq> 0 then 1 else 0) (fr_words f) else fr_words f)"

definition frame_kind :: "frame \<Rightarrow> string" where
  "frame_kind f = (if fr_type f = ''coil'' then ''coil'' else ''holding'')"

fun send_frames :: "'s conn \<Rightarrow> frame list \<Rightarrow> nat \<Rightarrow> 's wire \<Rightarrow> (nat \<times> frame option) \<times> 's wire" where
  "send_frames conn [] sent w = ((sent, None), w)"
| "send_frames conn (f # fs) sent w =
     (case do_write conn (fr_address f) (frame_kind f) (frame_payload f) w of
        (True, w') \<Rightarrow> send_frames conn fs (Suc sent) w'
      | (False, w') \<Rightarrow> ((sent, Some f), w'))"

definition factor_names :: "command \<Rightarrow> registers \<Rightarrow> string list" where
  "factor_names cmd regs =
     sort (remdups (filter (\<lambda>n. n \<noteq> []) (map (\<lambda>r. scale_from (cr_row r)) (List.map_filter (\<lambda>w. Option.bind (fst w) (dict_get regs)) (cd_writes cmd)))))"

text \<open>What \<open>run_command\<close> is given beside the command and its parameters.\<close>

record run_env =
  re_texts :: texts
  re_regs :: registers
  re_order :: "bool \<times> bool"
  re_dry :: bool
  re_max_read :: int

definition before_names :: "command \<Rightarrow> string list" where
  "before_names cmd = first_seen (map rl_read (cd_guard cmd) @ map rl_read (cd_verify cmd))"

definition read_now :: "'s conn \<Rightarrow> run_env \<Rightarrow> command \<Rightarrow> string list \<Rightarrow> 's wire \<Rightarrow> (cmd_exn + reading option) \<times> 's wire" where
  "read_now conn re cmd names w =
     read_named conn (re_regs re) names (re_order re) (factor_names cmd (re_regs re)) (re_max_read re) w"

definition read_twice :: "'s conn \<Rightarrow> run_env \<Rightarrow> command \<Rightarrow> 's wire \<Rightarrow> (cmd_exn + reading option) \<times> 's wire" where
  "read_twice conn re cmd w =
     (case read_now conn re cmd (before_names cmd) w of
        (Inr None, w') \<Rightarrow> read_now conn re cmd (before_names cmd) w'
      | r \<Rightarrow> r)"

text \<open>The guards, with one more read before a failed one is believed.\<close>

definition judge_guards :: "'s conn \<Rightarrow> run_env \<Rightarrow> command \<Rightarrow> (string, pyval) dict \<Rightarrow> reading \<Rightarrow> 's wire
    \<Rightarrow> (cmd_exn + failing option list \<times> reading) \<times> 's wire" where
  "judge_guards conn re cmd params r w =
     (case check_all (re_texts re) (cd_guard cmd) (fst r) params (re_regs re) of
        Inl e \<Rightarrow> (Inl e, w)
      | Inr failed \<Rightarrow>
          if first_failing failed = None then (Inr (failed, r), w)
          else (case read_now conn re cmd (before_names cmd) w of
                  (Inl e, w') \<Rightarrow> (Inl e, w')
                | (Inr None, w') \<Rightarrow> (Inr (failed, r), w')
                | (Inr (Some r'), w') \<Rightarrow>
                    (ebind (check_all (re_texts re) (cd_guard cmd) (fst r') params (re_regs re)) (\<lambda>failed. Inr (failed, r')), w')))"

text \<open>What follows the last frame: the wait, the read-back and its checks.\<close>

definition verify_writes :: "'s conn \<Rightarrow> run_env \<Rightarrow> command \<Rightarrow> (string, pyval) dict \<Rightarrow> outcome \<Rightarrow> 's wire \<Rightarrow> (cmd_exn + outcome) \<times> 's wire" where
  "verify_writes conn re cmd params oc w =
     (if cd_verify cmd = [] then (Inr (oc\<lparr>oc_status := Success\<rparr>), w)
      else (let w = (if 0 < cd_settle cmd then do_sleep (cd_settle cmd) w else w)
            in case read_now conn re cmd (map rl_read (cd_verify cmd)) w of
                 (Inl e, w') \<Rightarrow> (Inl e, w')
               | (Inr None, w') \<Rightarrow> (Inr (oc\<lparr>oc_status := Unverified, oc_reason := Some NoReadBack\<rparr>), w')
               | (Inr (Some (vals, sf)), w') \<Rightarrow>
                   (let oc = oc\<lparr>oc_after := Some (values_of vals (cd_verify cmd))\<rparr>
                    in ebind (check_first (re_texts re) (cd_verify cmd) vals params (re_regs re)) (\<lambda>why.
                         Inr (case why of
                                Some f \<Rightarrow> oc\<lparr>oc_status := Mismatch, oc_reason := Some (ReadBack f)\<rparr>
                              | None \<Rightarrow> oc\<lparr>oc_status := Success\<rparr>)), w')))"

definition write_frames :: "'s conn \<Rightarrow> run_env \<Rightarrow> command \<Rightarrow> (string, pyval) dict \<Rightarrow> outcome \<Rightarrow> frame list \<Rightarrow> 's wire
    \<Rightarrow> (cmd_exn + outcome) \<times> 's wire" where
  "write_frames conn re cmd params oc frames w =
     (case send_frames conn frames 0 w of
        ((sent, Some f), w') \<Rightarrow> (Inr (oc\<lparr>oc_status := ErrorStatus, oc_sent := Some sent, oc_reason := Some (WriteFailed f sent)\<rparr>), w')
      | ((sent, None), w') \<Rightarrow> verify_writes conn re cmd params (oc\<lparr>oc_sent := Some sent\<rparr>) w')"

definition start_outcome :: outcome where
  "start_outcome = \<lparr> oc_status = Rejected, oc_reason = None, oc_before = [], oc_guard = [], oc_frames = None, oc_sent = None, oc_after = None \<rparr>"

definition plan_and_write :: "'s conn \<Rightarrow> run_env \<Rightarrow> command \<Rightarrow> (string, pyval) dict \<Rightarrow> failing option list \<Rightarrow> reading \<Rightarrow> 's wire
    \<Rightarrow> (cmd_exn + outcome) \<times> 's wire" where
  "plan_and_write conn re cmd params failed r w =
     (let oc = start_outcome\<lparr>oc_before := values_of (fst r) (cd_verify cmd),
                             oc_guard := values_of (fst r) (cd_guard cmd)\<rparr>
      in case first_failing failed of
           Some f \<Rightarrow> (Inr (oc\<lparr>oc_reason := Some (GuardFailed f)\<rparr>), w)
         | None \<Rightarrow>
             (case plan_frames (tx_repr (re_texts re)) cmd params (re_regs re) (re_order re) (snd r) of
                Inl e \<Rightarrow> if is_value_error e then (Inr (oc\<lparr>oc_reason := Some (PlanRefused e)\<rparr>), w) else (Inl e, w)
              | Inr frames \<Rightarrow>
                  if re_dry re then (Inr (oc\<lparr>oc_frames := Some frames, oc_status := DryRun\<rparr>), w)
                  else write_frames conn re cmd params (oc\<lparr>oc_frames := Some frames\<rparr>) frames w))"

definition run_command :: "'s conn \<Rightarrow> run_env \<Rightarrow> command \<Rightarrow> (string, pyval) dict \<Rightarrow> 's wire \<Rightarrow> (cmd_exn + outcome) \<times> 's wire" where
  "run_command conn re cmd params w =
     (if list_ex (\<lambda>n. dict_get (re_regs re) n = None) (factor_names cmd (re_regs re)) then (Inl ValErr, w)
      else (case read_twice conn re cmd w of
              (Inl e, w) \<Rightarrow> (Inl e, w)
            | (Inr None, w) \<Rightarrow> (Inr (start_outcome\<lparr>oc_status := ErrorStatus, oc_reason := Some NoPreRead\<rparr>), w)
            | (Inr (Some r), w) \<Rightarrow>
                (case judge_guards conn re cmd params r w of
                   (Inl e, w) \<Rightarrow> (Inl e, w)
                 | (Inr (failed, r), w) \<Rightarrow> plan_and_write conn re cmd params failed r w)))"

section \<open>What a run writes\<close>

definition written :: "wire_op list \<Rightarrow> (int \<times> string \<times> u16 list \<times> bool) list" where
  "written ops = List.map_filter (\<lambda>op. case op of Wrote a t ws ok \<Rightarrow> Some (a, t, ws, ok) | _ \<Rightarrow> None) ops"

lemma written_simps [simp]:
  "written [] = []" "written (xs @ ys) = written xs @ written ys"
  "written (Asked a c t # ops) = written ops" "written (Waited q # ops) = written ops"
  "written (Wrote a t ws ok # ops) = (a, t, ws, ok) # written ops"
  by (simp_all add: written_def List.map_filter_def)

definition writes :: "'s wire \<Rightarrow> (int \<times> string \<times> u16 list \<times> bool) list" where
  "writes w = written (snd w)"

lemma do_read_writes: "do_read conn a c t w = (r, w') \<Longrightarrow> writes w' = writes w"
  by (auto simp: do_read_def writes_def split: prod.splits)

lemma do_sleep_writes [simp]: "writes (do_sleep t w) = writes w"
  by (simp add: do_sleep_def writes_def)

lemma read_blocks_writes: "read_blocks conn rtype bs m w = (r, w') \<Longrightarrow> writes w' = writes w"
proof (induction conn rtype bs m w arbitrary: r w' rule: read_blocks.induct)
  case (2 conn rtype start cnt bs m w)
  obtain ws w1 where d: "do_read conn start cnt rtype w = (ws, w1)" by (cases "do_read conn start cnt rtype w")
  then show ?case using 2 do_read_writes [OF d] by (cases ws) (auto split: if_splits)
qed simp

lemma read_types_writes: "read_types conn regs mr gs m w = (r, w') \<Longrightarrow> writes w' = writes w"
proof (induction conn regs mr gs m w arbitrary: r w' rule: read_types.induct)
  case (2 conn regs mr rtype grp gs m w)
  show ?case
  proof (cases "blocks_for regs grp mr")
    case (Inl e)
    then show ?thesis using "2.prems" by simp
  next
    case (Inr bs)
    obtain x w1 where b: "read_blocks conn rtype bs m w = (x, w1)" by (cases "read_blocks conn rtype bs m w")
    then show ?thesis using 2 Inr read_blocks_writes [OF b] by (cases x) auto
  qed
qed simp

lemma read_named_writes: "read_named conn regs ns ord sfs mr w = (r, w') \<Longrightarrow> writes w' = writes w"
  by (auto simp: read_named_def Let_def dest: read_types_writes split: if_splits sum.splits prod.splits option.splits)

lemma read_now_writes: "read_now conn re cmd ns w = (r, w') \<Longrightarrow> writes w' = writes w"
  unfolding read_now_def by (rule read_named_writes)

lemma read_twice_writes: "read_twice conn re cmd w = (r, w') \<Longrightarrow> writes w' = writes w"
proof -
  assume r: "read_twice conn re cmd w = (r, w')"
  obtain x w1 where x: "read_now conn re cmd (before_names cmd) w = (x, w1)" by (cases "read_now conn re cmd (before_names cmd) w")
  with r consider "(r, w') = (x, w1)" | "read_now conn re cmd (before_names cmd) w1 = (r, w')"
    by (cases x rule: sum.exhaust; simp add: read_twice_def; cases "projr x") auto
  then show ?thesis using read_now_writes x by (metis prod.inject)
qed

text \<open>What the verdict on the guards rests on: a reading of this run.\<close>

definition read_in_run :: "'s conn \<Rightarrow> run_env \<Rightarrow> command \<Rightarrow> 's wire \<Rightarrow> string list \<Rightarrow> reading \<Rightarrow> bool" where
  "read_in_run conn re cmd w ns r = (\<exists>wa wb. writes wa = writes w \<and> writes wb = writes w \<and> read_now conn re cmd ns wa = (Inr (Some r), wb))"

lemma read_twice_reads: "read_twice conn re cmd w = (Inr (Some r), w') \<Longrightarrow> read_in_run conn re cmd w (before_names cmd) r"
proof -
  assume r: "read_twice conn re cmd w = (Inr (Some r), w')"
  obtain x w1 where x: "read_now conn re cmd (before_names cmd) w = (x, w1)" by (cases "read_now conn re cmd (before_names cmd) w")
  note w1 = read_now_writes [OF x] and w' = read_twice_writes [OF r]
  show ?thesis
  proof (cases "x = Inr None")
    case True
    with r x have "read_now conn re cmd (before_names cmd) w1 = (Inr (Some r), w')" by (simp add: read_twice_def)
    with w1 w' show ?thesis unfolding read_in_run_def by blast
  next
    case False
    with r x have "x = Inr (Some r)" by (cases x) (auto simp: read_twice_def split: option.splits)
    with x w1 show ?thesis unfolding read_in_run_def by blast
  qed
qed

lemma judge_guards_spec:
  assumes "judge_guards conn re cmd params r w = (Inr (failed, r'), w')" "read_in_run conn re cmd w (before_names cmd) r"
  shows "writes w' = writes w \<and> read_in_run conn re cmd w (before_names cmd) r'
    \<and> check_all (re_texts re) (cd_guard cmd) (fst r') params (re_regs re) = Inr failed"
proof (cases "check_all (re_texts re) (cd_guard cmd) (fst r) params (re_regs re)")
  case (Inl e)
  then show ?thesis using assms by (simp add: judge_guards_def)
next
  case (Inr f)
  obtain x w1 where x: "read_now conn re cmd (before_names cmd) w = (x, w1)" by (cases "read_now conn re cmd (before_names cmd) w")
  note w1 = read_now_writes [OF x]
  have "read_in_run conn re cmd w (before_names cmd) r2" if "x = Inr (Some r2)" for r2
    using x w1 that unfolding read_in_run_def by blast
  then show ?thesis
    using assms Inr x w1 by (auto simp: judge_guards_def ebind_Inr split: if_splits sum.splits option.splits)
qed

lemma judge_guards_raises: "judge_guards conn re cmd params r w = (Inl e, w') \<Longrightarrow> writes w' = writes w"
  using read_now_writes [of conn re cmd "before_names cmd" w]
  by (auto simp: judge_guards_def split: if_splits sum.splits prod.splits option.splits)

definition frame_write :: "bool \<Rightarrow> frame \<Rightarrow> int \<times> string \<times> u16 list \<times> bool" where
  "frame_write ok f = (fr_address f, frame_kind f, frame_payload f, ok)"

lemma do_write_writes: "do_write conn (fr_address f) (frame_kind f) (frame_payload f) w = (ok, w') \<Longrightarrow> writes w' = writes w @ [frame_write ok f]"
  by (auto simp: do_write_def writes_def frame_write_def split: prod.splits)

lemma send_frames_spec:
  "send_frames conn fs sent w = ((n, bad), w') \<Longrightarrow>
     (case bad of
        None \<Rightarrow> n = sent + length fs \<and> writes w' = writes w @ map (frame_write True) fs
      | Some f \<Rightarrow> \<exists>k < length fs. n = sent + k \<and> f = fs ! k \<and> writes w' = writes w @ map (frame_write True) (take k fs) @ [frame_write False f])"
proof (induction conn fs sent w arbitrary: n bad w' rule: send_frames.induct)
  case (2 conn f fs sent w)
  obtain ok w1 where d: "do_write conn (fr_address f) (frame_kind f) (frame_payload f) w = (ok, w1)"
    by (cases "do_write conn (fr_address f) (frame_kind f) (frame_payload f) w")
  note one = do_write_writes [OF d]
  show ?case
  proof (cases ok)
    case False
    then show ?thesis using "2.prems" d one by (auto intro!: exI [of _ 0])
  next
    case True
    then have "send_frames conn fs (Suc sent) w1 = ((n, bad), w')" using "2.prems" d by simp
    note IH = "2.IH" [OF d [symmetric] True [THEN eqTrueI] this]
    show ?thesis
    proof (cases bad)
      case None
      then show ?thesis using IH one True by simp
    next
      case (Some g)
      with IH obtain k where "k < length fs" "n = Suc sent + k" "g = fs ! k"
        "writes w' = writes w1 @ map (frame_write True) (take k fs) @ [frame_write False g]" by auto
      then have "Suc k < length (f # fs) \<and> n = sent + Suc k \<and> g = (f # fs) ! Suc k
          \<and> writes w' = writes w @ map (frame_write True) (take (Suc k) (f # fs)) @ [frame_write False g]"
        using one True by simp
      then show ?thesis unfolding Some by (auto simp del: nth_Cons_Suc take_Suc_Cons)
    qed
  qed
qed simp

section \<open>The verdicts\<close>

definition holds_on :: "texts \<Rightarrow> rule list \<Rightarrow> (string, pyval) dict \<Rightarrow> (string, pyval) dict \<Rightarrow> registers \<Rightarrow> bool" where
  "holds_on tx rules vals params regs =
     list_all (\<lambda>g. check_rule tx g (value_of vals (rl_read g)) params (dict_get regs (rl_read g)) = Inr None) rules"

lemma check_first_holds: "check_first tx rules vals params regs = Inr None \<longleftrightarrow> holds_on tx rules vals params regs"
  by (induction tx rules vals params regs rule: check_first.induct)
    (auto simp: holds_on_def ebind_Inr split: option.splits)

lemma check_all_holds:
  assumes "check_all tx rules vals params regs = Inr failed" "first_failing failed = None"
  shows "holds_on tx rules vals params regs"
proof -
  have "first_failing fs = None \<Longrightarrow> list_all (\<lambda>f. f = None) fs" for fs
    by (induction fs rule: first_failing.induct) auto
  with assms have "list_all (\<lambda>f. f = None) failed" by blast
  moreover have "list_all2 (\<lambda>g f. check_rule tx g (value_of vals (rl_read g)) params (dict_get regs (rl_read g)) = Inr f) rules failed"
    using assms(1) by (simp add: check_all_def emap_Inr)
  ultimately show ?thesis by (simp add: holds_on_def list_all2_conv_all_nth list_all_length)
qed

text \<open>The writes a verdict admits.\<close>

definition told_truly :: "outcome \<Rightarrow> (int \<times> string \<times> u16 list \<times> bool) list \<Rightarrow> bool" where
  "told_truly oc new =
     (case oc_status oc of
        Rejected \<Rightarrow> new = []
      | DryRun \<Rightarrow> new = []
      | ErrorStatus \<Rightarrow>
          oc_reason oc = Some NoPreRead \<and> new = []
          \<or> (\<exists>frames k. oc_frames oc = Some frames \<and> k < length frames \<and> oc_sent oc = Some k
              \<and> oc_reason oc = Some (WriteFailed (frames ! k) k)
              \<and> new = map (frame_write True) (take k frames) @ [frame_write False (frames ! k)])
      | _ \<Rightarrow> (\<exists>frames. oc_frames oc = Some frames \<and> oc_sent oc = Some (length frames) \<and> new = map (frame_write True) frames))"

text \<open>A success with checks was read back after the last write.\<close>

definition verified :: "'s conn \<Rightarrow> run_env \<Rightarrow> command \<Rightarrow> (string, pyval) dict \<Rightarrow> outcome \<Rightarrow> 's wire \<Rightarrow> bool" where
  "verified conn re cmd params oc w' =
     (oc_status oc = Success \<longrightarrow> cd_verify cmd \<noteq> [] \<longrightarrow>
        (\<exists>r. read_in_run conn re cmd w' (map rl_read (cd_verify cmd)) r \<and> holds_on (re_texts re) (cd_verify cmd) (fst r) params (re_regs re)))"

lemma verify_writes_spec:
  assumes "verify_writes conn re cmd params oc w = (res, w')"
  shows "writes w' = writes w \<and> (case res of Inl e \<Rightarrow> True
    | Inr oc' \<Rightarrow> oc_status oc' \<in> {Success, Mismatch, Unverified} \<and> oc_frames oc' = oc_frames oc \<and> oc_sent oc' = oc_sent oc \<and> verified conn re cmd params oc' w')"
proof (cases "cd_verify cmd = []")
  case True
  then show ?thesis using assms by (auto simp: verify_writes_def verified_def)
next
  case False
  define w0 where "w0 = (if 0 < cd_settle cmd then do_sleep (cd_settle cmd) w else w)"
  obtain x w1 where x: "read_now conn re cmd (map rl_read (cd_verify cmd)) w0 = (x, w1)"
    by (cases "read_now conn re cmd (map rl_read (cd_verify cmd)) w0")
  have w: "writes w0 = writes w" "writes w1 = writes w" using read_now_writes [OF x] by (simp_all add: w0_def)
  have rd: "read_in_run conn re cmd w1 (map rl_read (cd_verify cmd)) r" if "x = Inr (Some r)" for r
    using x w that unfolding read_in_run_def by metis
  show ?thesis
  proof (cases "\<exists>r. x = Inr (Some r)")
    case True
    then obtain vals sf where r: "x = Inr (Some (vals, sf))" by auto
    have "holds_on (re_texts re) (cd_verify cmd) vals params (re_regs re)"
      if "check_first (re_texts re) (cd_verify cmd) vals params (re_regs re) = Inr None"
      using that check_first_holds by blast
    with assms False x w rd [OF r] r show ?thesis
      unfolding verify_writes_def w0_def [symmetric] Let_def
      by (cases "check_first (re_texts re) (cd_verify cmd) vals params (re_regs re)")
        (force simp: verified_def split: option.splits)+
  next
    case False
    then show ?thesis
      using assms \<open>cd_verify cmd \<noteq> []\<close> x w unfolding verify_writes_def w0_def [symmetric] Let_def
      by (cases x) (auto simp: verified_def split: option.splits)
  qed
qed

lemma write_frames_spec:
  assumes "write_frames conn re cmd params oc frames w = (res, w')" "oc_frames oc = Some frames"
  shows "\<exists>new. writes w' = writes w @ new \<and> (case res of Inl e \<Rightarrow> new = map (frame_write True) frames
    | Inr oc' \<Rightarrow> told_truly oc' new \<and> verified conn re cmd params oc' w')"
proof -
  obtain n bad w1 where s: "send_frames conn frames 0 w = ((n, bad), w1)" by (metis prod.exhaust)
  note spec = send_frames_spec [OF s]
  show ?thesis
  proof (cases bad)
    case (Some f)
    then show ?thesis using assms s spec
      by (auto simp: write_frames_def told_truly_def verified_def)
  next
    case None
    then have v: "verify_writes conn re cmd params (oc\<lparr>oc_sent := Some n\<rparr>) w1 = (res, w')" and w1: "writes w1 = writes w @ map (frame_write True) frames"
      and n: "n = length frames"
      using assms(1) s spec by (simp_all add: write_frames_def)
    show ?thesis using verify_writes_spec [OF v] w1 n assms(2)
      by (cases res) (auto simp: told_truly_def split: status.splits)
  qed
qed

text \<open>What a run leaves behind, from the wire \<open>w\<close> on.\<close>

definition run_spec :: "'s conn \<Rightarrow> run_env \<Rightarrow> command \<Rightarrow> (string, pyval) dict \<Rightarrow> 's wire \<Rightarrow> cmd_exn + outcome \<Rightarrow> 's wire \<Rightarrow> bool" where
  "run_spec conn re cmd params w res w' = (\<exists>new. writes w' = writes w @ new
    \<and> (new \<noteq> [] \<longrightarrow> (\<exists>r. read_in_run conn re cmd w (before_names cmd) r \<and> holds_on (re_texts re) (cd_guard cmd) (fst r) params (re_regs re)))
    \<and> (case res of Inl e \<Rightarrow> list_all (\<lambda>(a, t, ws, ok). ok) new | Inr oc \<Rightarrow> told_truly oc new \<and> verified conn re cmd params oc w'))"

lemma run_spec_same: "writes w1 = writes w \<Longrightarrow> run_spec conn re cmd params w1 res w' \<Longrightarrow> run_spec conn re cmd params w res w'"
  by (simp add: run_spec_def read_in_run_def)

lemma run_spec_quiet:
  "writes w' = writes w \<Longrightarrow> (case res of Inl e \<Rightarrow> True | Inr oc \<Rightarrow> oc_status oc = Rejected \<or> oc_status oc = DryRun \<or> oc_status oc = ErrorStatus \<and> oc_reason oc = Some NoPreRead)
    \<Longrightarrow> run_spec conn re cmd params w res w'"
  by (cases res) (auto simp: run_spec_def told_truly_def verified_def)

lemma plan_and_write_spec:
  assumes "plan_and_write conn re cmd params failed r w = (res, w')"
    and rd: "read_in_run conn re cmd w (before_names cmd) r"
    and "check_all (re_texts re) (cd_guard cmd) (fst r) params (re_regs re) = Inr failed"
  shows "run_spec conn re cmd params w res w'"
proof (cases "\<exists>frames. first_failing failed = None \<and> plan_frames (tx_repr (re_texts re)) cmd params (re_regs re) (re_order re) (snd r) = Inr frames \<and> \<not> re_dry re")
  case True
  then obtain frames oc where f: "first_failing failed = None" "write_frames conn re cmd params oc frames w = (res, w')" "oc_frames oc = Some frames"
    using assms(1) by (auto simp: plan_and_write_def)
  have "holds_on (re_texts re) (cd_guard cmd) (fst r) params (re_regs re)"
    using check_all_holds assms(3) f(1) by blast
  moreover have "list_all (\<lambda>(a, t, ws, ok). ok) (map (frame_write True) frames)"
    by (simp add: list_all_iff frame_write_def)
  moreover obtain new where "writes w' = writes w @ new" "case res of Inl e \<Rightarrow> new = map (frame_write True) frames
      | Inr oc' \<Rightarrow> told_truly oc' new \<and> verified conn re cmd params oc' w'"
    using write_frames_spec [OF f(2,3)] by auto
  ultimately show ?thesis using rd unfolding run_spec_def by (cases r; cases res) auto
next
  case False
  then have "w' = w" "(case res of Inl e \<Rightarrow> True | Inr oc \<Rightarrow> oc_status oc = Rejected \<or> oc_status oc = DryRun)"
    using assms(1) by (auto simp: plan_and_write_def Let_def start_outcome_def split: option.splits sum.splits if_splits)
  then show ?thesis by (intro run_spec_quiet) (auto split: sum.splits)
qed

lemma run_command_spec:
  assumes "run_command conn re cmd params w = (res, w')"
  shows "run_spec conn re cmd params w res w'"
proof (cases "list_ex (\<lambda>n. dict_get (re_regs re) n = None) (factor_names cmd (re_regs re))")
  case True
  then show ?thesis using assms by (auto simp: run_command_def intro: run_spec_quiet)
next
  case False
  obtain x w1 where x: "read_twice conn re cmd w = (x, w1)" by (cases "read_twice conn re cmd w")
  note w1 = read_twice_writes [OF x]
  show ?thesis
  proof (cases "\<exists>r. x = Inr (Some r)")
    case no_read: False
    then have "w' = w1" "(case res of Inl e \<Rightarrow> True | Inr oc \<Rightarrow> oc_status oc = ErrorStatus \<and> oc_reason oc = Some NoPreRead)"
      using assms False x by (auto simp: run_command_def split: option.splits sum.splits)
    then show ?thesis using w1 by (intro run_spec_quiet) (auto split: sum.splits)
  next
    case True
    then obtain r where r: "x = Inr (Some r)" by blast
    obtain j w2 where j: "judge_guards conn re cmd params r w1 = (j, w2)" by (cases "judge_guards conn re cmd params r w1")
    have rd: "read_in_run conn re cmd w1 (before_names cmd) r"
      using read_twice_reads x r w1 by (metis read_in_run_def)
    show ?thesis
    proof (cases j)
      case (Inl e)
      then have "res = Inl e" "w' = w2" using assms False x r j by (simp_all add: run_command_def)
      then show ?thesis using w1 judge_guards_raises [OF j [unfolded Inl]] by (auto intro: run_spec_quiet)
    next
      case (Inr p)
      obtain failed r2 where p: "p = (failed, r2)" by (cases p)
      note spec = judge_guards_spec [OF j [unfolded Inr p] rd]
      have "plan_and_write conn re cmd params failed r2 w2 = (res, w')"
        using assms False x r j Inr p by (simp add: run_command_def)
      moreover have "read_in_run conn re cmd w2 (before_names cmd) r2" using spec by (simp add: read_in_run_def)
      ultimately have "run_spec conn re cmd params w2 res w'" using plan_and_write_spec spec by blast
      then show ?thesis using spec w1 by (auto intro: run_spec_same)
    qed
  qed
qed



section \<open>A run against a device\<close>

text \<open>A device that holds its words by address and takes every write.\<close>

definition memory_conn :: "(int, u16) dict conn" where
  "memory_conn = \<lparr> cn_read = (\<lambda>a c t s. (Some (map (\<lambda>i. case dict_get s (a + int i) of Some x \<Rightarrow> x | None \<Rightarrow> 0) [0..<nat c]), s)),
     cn_write = (\<lambda>a t ws s. (True, fold (\<lambda>i. dict_set (a + int i) (ws ! i)) [0..<length ws] s)) \<rparr>"

definition plain_env :: "registers \<Rightarrow> run_env" where
  "plain_env regs = \<lparr> re_texts = \<lparr> tx_repr = (\<lambda>_. []), tx_float = (\<lambda>_. []) \<rparr>, re_regs = regs, re_order = (False, False),
     re_dry = False, re_max_read = 0 \<rparr>"

definition expects :: "string \<Rightarrow> pyval \<Rightarrow> rule" where
  "expects n v = \<lparr> rl_read = n, rl_expect = Some (Leaf v), rl_tolerance = 0, rl_in = None, rl_min = None, rl_max = None \<rparr>"

definition enable_regs :: registers where
  "enable_regs = [(''state'', plain_reg ''state'' ''uint16'' 5), (''power'', plain_reg ''power'' ''uint16'' 10)]"

definition enable_command :: command where
  "enable_command = (plain_command [(Some ''power'', Leaf (VInt 7))])\<lparr>cd_guard := [expects ''state'' (VInt 0)], cd_verify := [expects ''power'' (VInt 7)]\<rparr>"

definition enable_outcome :: outcome where
  "enable_outcome = \<lparr> oc_status = Success, oc_reason = None, oc_before = [(''power'', VInt 0)], oc_guard = [(''state'', VInt 0)],
     oc_frames = Some [\<lparr> fr_address = 10, fr_type = ''holding'', fr_words = [7], fr_registers = [''power''], fr_values = [(''power'', VInt 7)] \<rparr>],
     oc_sent = Some 1, oc_after = Some [(''power'', VInt 7)] \<rparr>"

definition enable_wire :: "(int, u16) dict wire" where
  "enable_wire = ([(10, 7)], [Asked 5 6 ''holding'', Wrote 10 ''holding'' [7] True, Waited 1, Asked 10 1 ''holding''])"

lemma enable_runs: "run_command memory_conn (plain_env enable_regs) enable_command [] ([], []) = (Inr enable_outcome, enable_wire)"
  by code_simp

lemma enable_writes: "writes enable_wire = [(10, ''holding'', [7], True)]" "writes ([] :: (int, u16) dict, []) = []"
  by (simp_all add: writes_def enable_wire_def)



section \<open>A reading has every word it decodes\<close>

definition has_words :: "words_at \<Rightarrow> string \<Rightarrow> int \<Rightarrow> int \<Rightarrow> bool" where
  "has_words m t lo hi = (\<forall>x. lo \<le> x \<and> x < hi \<longrightarrow> m (t, x) \<noteq> None)"

definition grows :: "words_at \<Rightarrow> words_at \<Rightarrow> bool" where
  "grows m m' = (\<forall>k. m k \<noteq> None \<longrightarrow> m' k \<noteq> None)"

lemma grows_refl: "grows m m" and grows_trans: "grows a b \<Longrightarrow> grows b c \<Longrightarrow> grows a c"
  by (simp_all add: grows_def)

lemma has_words_grows: "has_words m t lo hi \<Longrightarrow> grows m m' \<Longrightarrow> has_words m' t lo hi"
  by (auto simp: has_words_def grows_def)

lemma store_words_spec:
  "grows m (store_words t a ws m)" "has_words (store_words t a ws m) t a (a + int (length ws))"
  by (auto simp: grows_def has_words_def store_words_def)

lemma read_blocks_has:
  "read_blocks conn t bs m w = (Some m', w') \<Longrightarrow> grows m m' \<and> list_all (\<lambda>(a, c). has_words m' t a (a + c)) bs"
proof (induction conn t bs m w arbitrary: m' w' rule: read_blocks.induct)
  case (2 conn t a c bs m w)
  obtain ws w1 where d: "do_read conn a c t w = (Some ws, w1)" "ws \<noteq> []" "c \<le> int (length ws)"
      "read_blocks conn t bs (store_words t a (take (nat c) ws) m) w1 = (Some m', w')"
    using "2.prems" by (auto split: prod.splits option.splits if_splits)
  then have "grows (store_words t a (take (nat c) ws) m) m' \<and> list_all (\<lambda>(a, c). has_words m' t a (a + c)) bs"
    using "2.IH" [OF d(1) [symmetric]] by auto
  moreover have "has_words (store_words t a (take (nat c) ws) m) t a (a + c)"
    using store_words_spec(2) [of t a "take (nat c) ws" m] d(3) by (cases "0 \<le> c") (auto simp: has_words_def)
  moreover have "grows m (store_words t a (take (nat c) ws) m)" by (rule store_words_spec)
  ultimately show ?case using has_words_grows grows_trans by simp
qed (simp add: grows_refl)

definition reads_reg :: "registers \<Rightarrow> words_at \<Rightarrow> string \<Rightarrow> string \<Rightarrow> bool" where
  "reads_reg regs m t n = (\<exists>lo hi. reg_words regs n = Some (lo, hi) \<and> has_words m t lo hi)"

lemma read_types_has:
  "read_types conn regs mr gs m w = (Inr (Some m'), w') \<Longrightarrow> grows m m' \<and> list_all (\<lambda>(t, grp). list_all (reads_reg regs m' t) grp) gs"
proof (induction conn regs mr gs m w arbitrary: m' w' rule: read_types.induct)
  case (2 conn regs mr t grp gs m w)
  obtain bs m1 w1 where b: "blocks_for regs grp mr = Inr bs" "read_blocks conn t bs m w = (Some m1, w1)"
      "read_types conn regs mr gs m1 w1 = (Inr (Some m'), w')"
    using "2.prems" by (auto split: prod.splits option.splits sum.splits)
  then have IH: "grows m1 m'" "list_all (\<lambda>(t, grp). list_all (reads_reg regs m' t) grp) gs"
    using "2.IH" [OF b(1) b(2) [symmetric] refl] by auto
  have B: "grows m m1" "list_all (\<lambda>(a, c). has_words m1 t a (a + c)) bs" using read_blocks_has [OF b(2)] by auto
  have "reads_reg regs m' t n" if n: "n \<in> set grp" for n
  proof -
    obtain lo hi where w: "reg_words regs n = Some (lo, hi)" "list_ex (\<lambda>(a, c). a \<le> lo \<and> hi \<le> a + c) bs"
      using blocks_cover [OF b(1)] n by (auto simp: list_all_iff)
    then have "has_words m1 t lo hi" using B(2) w(2) by (fastforce simp: list_ex_iff list_all_iff has_words_def)
    then show ?thesis using w(1) has_words_grows IH(1) unfolding reads_reg_def by blast
  qed
  then show ?case using IH B grows_trans by (auto simp: list_all_iff)
qed (simp add: grows_refl)

lemma group_by_type_has:
  "group_by_type regs ns d = Inr d' \<Longrightarrow>
     (\<forall>t g. dict_get d t = Some g \<longrightarrow> (\<exists>g'. dict_get d' t = Some g' \<and> set g \<subseteq> set g'))
     \<and> (\<forall>n \<in> set ns. \<exists>r g. dict_get regs n = Some r \<and> dict_get d' (reg_type r) = Some g \<and> n \<in> set g)"
proof (induction regs ns d rule: group_by_type.induct)
  case (2 regs n ns d)
  obtain r where r: "dict_get regs n = Some r" using "2.prems" by (auto split: option.splits)
  let ?d = "dict_set (reg_type r) ((case dict_get d (reg_type r) of Some g \<Rightarrow> g | None \<Rightarrow> []) @ [n]) d"
  have IH: "\<And>t g. dict_get ?d t = Some g \<Longrightarrow> \<exists>g'. dict_get d' t = Some g' \<and> set g \<subseteq> set g'"
      "\<forall>n \<in> set ns. \<exists>r g. dict_get regs n = Some r \<and> dict_get d' (reg_type r) = Some g \<and> n \<in> set g"
    using "2.IH" [OF r] "2.prems" r by simp_all
  have "\<exists>g'. dict_get d' t = Some g' \<and> set g \<subseteq> set g'" if "dict_get d t = Some g" for t g
  proof -
    have "\<exists>g1. dict_get ?d t = Some g1 \<and> set g \<subseteq> set g1" using that by (auto simp: dict_simps)
    then show ?thesis using IH(1) by (meson order_trans)
  qed
  moreover have "\<exists>g. dict_get d' (reg_type r) = Some g \<and> n \<in> set g"
    using IH(1) [of "reg_type r"] by (auto simp: dict_simps)
  ultimately show ?case using IH(2) r by auto
qed auto

lemma emap_Inl: "emap f xs = Inl e \<Longrightarrow> \<exists>x \<in> set xs. f x = Inl e"
proof (induction xs)
  case (Cons x xs)
  then show ?case by (cases "f x"; cases "emap f xs") auto
qed simp

lemma emap_total: "(\<And>x. x \<in> set xs \<Longrightarrow> \<exists>y. f x = Inr y) \<Longrightarrow> \<exists>ys. emap f xs = Inr ys"
  using emap_Inl [of f xs] by (cases "emap f xs") fastforce+

lemma collect_raises: "collect_dict f ns = Inl e \<Longrightarrow> \<exists>n \<in> set ns. f n = Inl e"
  by (cases "emap f ns") (auto simp: collect_dict_def dest: emap_Inl)

lemma words_of_total:
  assumes "dict_get regs n = Some r" "reads_reg regs m (reg_type r) n"
  shows "\<exists>ws. words_of regs m n = Inr ws"
proof -
  have m: "m (reg_type r, cr_address r + int i) \<noteq> None" if "i < word_count r" for i
    using assms that by (auto simp: reads_reg_def reg_words_def has_words_def)
  have "\<exists>ws. emap (\<lambda>i. case m (reg_type r, cr_address r + int i) of None \<Rightarrow> Inl KeyErr | Some x \<Rightarrow> Inr x) [0..<word_count r] = Inr ws"
    by (rule emap_total) (use m in fastforce)
  then show ?thesis by (simp add: words_of_def assms(1))
qed

lemma decode_raises: "decode_words ord r ws sf = Inl e \<Longrightarrow> e = ValErr"
  by (auto simp: decode_words_def split: sum.splits decode_exn.splits)

lemma blocks_for_raises: "blocks_for regs ns mr = Inl e \<Longrightarrow> e = ValErr"
  by (cases "emap (reg_span regs (read_limit mr)) ns")
    (auto simp: blocks_for_def reg_span_def dest!: emap_Inl split: option.splits if_splits)

lemma read_types_raises: "read_types conn regs mr gs m w = (Inl e, w') \<Longrightarrow> e = ValErr"
proof (induction conn regs mr gs m w arbitrary: w' rule: read_types.induct)
  case (2 conn regs mr t grp gs m w)
  then show ?case using blocks_for_raises by (auto split: sum.splits option.splits prod.splits)
qed simp

lemma group_by_type_raises: "group_by_type regs ns d = Inl e \<Longrightarrow> e = ValErr"
  by (induction regs ns d rule: group_by_type.induct) (auto split: option.splits)

text \<open>
  Reading named registers never looks up a word it did not read: the requests of
  a reading cover every register it decodes and every scale factor, so it raises only for an
  unknown register, one longer than a request, or a bit table with a negative position.
\<close>

theorem reading_has_every_word:
  assumes "read_named conn regs names ord sf_names mr w = (Inl e, w')"
  shows "e = ValErr"
proof -
  let ?need = "first_seen (names @ sf_names)"
  show ?thesis
  proof (cases "group_by_type regs ?need []")
    case (Inl x)
    then show ?thesis using assms group_by_type_raises by (auto simp: read_named_def Let_def split: if_splits)
  next
    case (Inr groups)
    obtain x w1 where t: "read_types conn regs mr groups (\<lambda>_. None) w = (x, w1)" by (cases "read_types conn regs mr groups (\<lambda>_. None) w")
    show ?thesis
    proof (cases "\<exists>m. x = Inr (Some m)")
      case False
      then show ?thesis using assms Inr t read_types_raises [of conn regs mr groups "\<lambda>_. None" w]
        by (cases x) (auto simp: read_named_def Let_def split: if_splits option.splits)
    next
      case True
      then obtain m where m: "x = Inr (Some m)" by blast
      have has: "\<exists>ws. words_of regs m n = Inr ws \<and> dict_get regs n \<noteq> None" if n: "n \<in> set names \<union> set sf_names" for n
      proof -
        obtain r g where r: "dict_get regs n = Some r" "dict_get groups (reg_type r) = Some g" "n \<in> set g"
          using group_by_type_has [OF Inr, THEN conjunct2, rule_format, of n] n by auto
        then have "reads_reg regs m (reg_type r) n"
          using read_types_has [OF t [unfolded m]] by (force simp: list_all_iff dest: map_of_SomeD)
        with r(1) words_of_total show ?thesis by auto
      qed
      have "e1 = ValErr" if e1: "collect_dict (read_factor ord regs m) sf_names = Inl e1" for e1
      proof -
        obtain n where "n \<in> set sf_names" "read_factor ord regs m n = Inl e1" using collect_raises [OF e1] by blast
        with has [of n] show ?thesis by (auto simp: read_factor_def Let_def)
      qed
      moreover have "e1 = ValErr" if e1: "collect_dict (read_value ord regs m sf) names = Inl e1" for sf e1
      proof -
        obtain n where "n \<in> set names" "read_value ord regs m sf n = Inl e1" using collect_raises [OF e1] by blast
        with has [of n] decode_raises show ?thesis by (auto simp: read_value_def ebind_def split: sum.splits)
      qed
      ultimately show ?thesis using assms Inr t m
        by (auto simp: read_named_def Let_def ebind_def split: if_splits sum.splits)
    qed
  qed
qed

theorem reading_has_every_word_witness:
  "fst (read_named memory_conn enable_regs [''state'', ''flow''] (False, False) [] 0 ([], [])) = Inl ValErr \<and> ValErr = ValErr"
proof -
  have "fst (read_named memory_conn enable_regs [''state'', ''flow''] (False, False) [] 0 ([], [])) = Inl ValErr" by code_simp
  then obtain w' where "read_named memory_conn enable_regs [''state'', ''flow''] (False, False) [] 0 ([], []) = (Inl ValErr, w')"
    by (metis prod.collapse)
  from reading_has_every_word [OF this] this show ?thesis by simp
qed

end
