(* ===== verification/MqttRun.thy ===== *)
theory MqttRun
  imports MqttInput CommandRun
begin

text \<open>
  A command sent through an MQTT source (\<open>run_mqtt_command\<close> of \<open>multibus/commands.py\<close>): the
  payload of a write, the refusals, the value that is already set, the publishes and the
  read-back that must come after them.
\<close>

section \<open>The payload of a write\<close>

text \<open>\<open>json.dumps(s)[1:-1]\<close> on ASCII text.\<close>

definition escape_char :: "char \<Rightarrow> string" where
  "escape_char c =
     (let n = of_char c :: nat
      in if n = 34 then [CHR 0x5C, c] else if n = 92 then [c, c]
         else if n = 10 then [CHR 0x5C, CHR ''n''] else if n = 13 then [CHR 0x5C, CHR ''r'']
         else if n = 9 then [CHR 0x5C, CHR ''t''] else if n = 8 then [CHR 0x5C, CHR ''b'']
         else if n = 12 then [CHR 0x5C, CHR ''f'']
         else if n < 32 then [CHR 0x5C, CHR ''u'', CHR ''0'', CHR ''0''] @ map lower_char [hex_digit (n div 16), hex_digit (n mod 16)]
         else [c])"

definition payload_text :: "texts \<Rightarrow> pyval \<Rightarrow> string" where
  "payload_text tx v =
     (case v of
        VBool b \<Rightarrow> (if b then ''true'' else ''false'')
      | VInt n \<Rightarrow> int_str n
      | VFloat q \<Rightarrow> (if q = of_int \<lfloor>q\<rfloor> then int_str \<lfloor>q\<rfloor> else tx_float tx q)
      | _ \<Rightarrow> concat (map escape_char (py_str tx v)))"

text \<open>\<open>s.replace(pat, rep)\<close> of a pattern that is not empty.\<close>

function py_replace :: "string \<Rightarrow> string \<Rightarrow> string \<Rightarrow> string" where
  "py_replace pat rep s =
     (case s of [] \<Rightarrow> []
      | c # r \<Rightarrow> if pat \<noteq> [] \<and> starts_with pat s then rep @ py_replace pat rep (drop (length pat) s) else c # py_replace pat rep r)"
  by pat_completeness auto
termination by (relation "measure (\<lambda>(pat, rep, s). length s)") auto

declare py_replace.simps [simp del]

definition opt_text :: "string option \<Rightarrow> pyval" where
  "opt_text t = (case t of Some l \<Rightarrow> VStr l | None \<Rightarrow> VNone)"

definition mqtt_payload :: "texts \<Rightarrow> creg \<Rightarrow> pyval \<Rightarrow> (string, pyval) dict \<Rightarrow> cmd_exn + string" where
  "mqtt_payload tx reg val sf =
     (let tmpl = (if write_payload reg \<noteq> [] then write_payload reg else ''${value}''); states = enum_map (cr_row reg)
      in ebind (case val of
                  VStr l \<Rightarrow> if states \<noteq> [] then (case code_of_label reg l of Some c \<Rightarrow> Inr c | None \<Rightarrow> Inl ValErr) else Inr val
                | _ \<Rightarrow> Inr val)
           (\<lambda>code. ebind (case number_of code of
                Some q \<Rightarrow> ebind (raw_for reg q sf) (\<lambda>raw.
                    Inr (VFloat raw, if states \<noteq> [] \<and> raw = of_int \<lfloor>raw\<rfloor> then opt_text (decode_enum (VInt \<lfloor>raw\<rfloor>) states None 0 None) else val))
              | None \<Rightarrow>
                  (case code of
                     VStr t \<Rightarrow> if states \<noteq> [] then Inr (code, val)
                       else (case ebind (py_float code) (\<lambda>q. raw_for reg q sf) of Inr raw \<Rightarrow> Inr (VFloat raw, val) | Inl e \<Rightarrow> Inr (code, val))
                   | _ \<Rightarrow> Inr (code, val)))
             (\<lambda>(code, label). Inr (py_replace ''${label}'' (payload_text tx label) (py_replace ''${value}'' (payload_text tx code) tmpl)))))"

section \<open>The run\<close>

record mframe =
  mf_topic :: string
  mf_payload :: string
  mf_register :: string
  mf_value :: pyval

datatype mreason =
  NotReadHere "string list" | NotAlive | NoCurrentValue string | GuardFails failing | OwnTopic string | ForbiddenTopic string
  | RefusedValue cmd_exn | PublishFailed nat | NoAnswer | NoValueBack string | ReadsBack failing

record moutcome =
  mo_status :: status
  mo_reason :: "mreason option"
  mo_before :: "(string, pyval) dict"
  mo_frames :: "mframe list option"
  mo_already :: bool
  mo_sent :: "nat option"
  mo_after :: "(string, pyval) dict option"

text \<open>
  What a run is given beside the command: the template's registers, the topics of the
  gateway's own commands, the parser of documents, the link's answer to each publish and
  the messages that arrive until the wait for the read-back ends.
\<close>

record mrun_env =
  mr_texts :: texts
  mr_regs :: registers
  mr_dry :: bool
  mr_forbidden :: "string list"
  mr_loads :: "string \<Rightarrow> json option"
  mr_now :: rat
  mr_answer :: "nat \<Rightarrow> bool"
  mr_arrivals :: "(rat \<times> message) list"

type_synonym sent_log = "(string \<times> string \<times> bool) list"

definition reg_of :: "mrun_env \<Rightarrow> string \<Rightarrow> cmd_exn + creg" where
  "reg_of me n = (case dict_get (mr_regs me) n of Some r \<Rightarrow> Inr r | None \<Rightarrow> Inl ValErr)"

text \<open>The value a register has now, if the source is alive and has one.\<close>

definition current_value :: "mrun_env \<Rightarrow> source \<Rightarrow> bool \<Rightarrow> string \<Rightarrow> pyval" where
  "current_value me s alive n =
     (case dict_get (mr_regs me) n of
        None \<Rightarrow> VNone
      | Some r \<Rightarrow> (case last_value s (cr_address r) of Some (v, t, q) \<Rightarrow> if alive then v else VNone | None \<Rightarrow> VNone))"

definition needed_names :: "command \<Rightarrow> string list" where
  "needed_names cmd = first_seen (map rl_read (cd_guard cmd) @ map rl_read (cd_verify cmd) @ List.map_filter fst (cd_writes cmd))"

definition unread_names :: "mrun_env \<Rightarrow> source \<Rightarrow> command \<Rightarrow> cmd_exn + string list" where
  "unread_names me s cmd =
     (if list_ex (\<lambda>w. fst w = None) (cd_writes cmd) then Inl ValErr
      else ebind (emap (\<lambda>n. ebind (reg_of me n) (\<lambda>r. Inr (n, cr_address r))) (needed_names cmd)) (\<lambda>ps.
        Inr (map fst (filter (\<lambda>(n, a). \<not> list_ex (\<lambda>r. cr_address r = a) (ms_registers s)) ps))))"

fun judge_mqtt_guards :: "mrun_env \<Rightarrow> source \<Rightarrow> (string, pyval) dict \<Rightarrow> rule list \<Rightarrow> cmd_exn + mreason option" where
  "judge_mqtt_guards me s params [] = Inr None"
| "judge_mqtt_guards me s params (g # gs) =
     (let got = current_value me s True (rl_read g)
      in if got = VNone then Inr (Some (NoCurrentValue (rl_read g)))
         else ebind (check_rule (mr_texts me) g got params (dict_get (mr_regs me) (rl_read g))) (\<lambda>why.
           case why of Some f \<Rightarrow> Inr (Some (GuardFails f)) | None \<Rightarrow> judge_mqtt_guards me s params gs))"

text \<open>One write: raises, is refused, or becomes a publish.\<close>

definition plan_publish :: "mrun_env \<Rightarrow> source \<Rightarrow> (string, pyval) dict \<Rightarrow> string option \<times> cexpr \<Rightarrow> cmd_exn + (mreason + mframe)" where
  "plan_publish me s params w =
     (case fst w of
        None \<Rightarrow> Inl ValErr
      | Some n \<Rightarrow> ebind (reg_of me n) (\<lambda>reg.
          (let topic = resolve s (py_strip (write_topic reg))
           in if topic = [] then Inl ValErr
              else if list_ex (\<lambda>p. topic_matches p topic) (subscriptions s) then Inr (Inl (OwnTopic (cr_name reg)))
              else if list_ex (\<lambda>p. topic_matches p topic) (mr_forbidden me) then Inr (Inl (ForbiddenTopic (cr_name reg)))
              else ebind (evaluate (tx_repr (mr_texts me)) params (snd w)) (\<lambda>val.
                (case ebind (check_envelope reg val) (\<lambda>_. mqtt_payload (mr_texts me) reg val (ms_factors s)) of
                   Inl e \<Rightarrow> if is_value_error e then Inr (Inl (RefusedValue e)) else Inl e
                 | Inr p \<Rightarrow> Inr (Inr \<lparr> mf_topic = topic, mf_payload = p, mf_register = cr_name reg, mf_value = val \<rparr>))))))"

fun plan_publishes :: "mrun_env \<Rightarrow> source \<Rightarrow> (string, pyval) dict \<Rightarrow> (string option \<times> cexpr) list \<Rightarrow> cmd_exn + (mreason + mframe list)" where
  "plan_publishes me s params [] = Inr (Inr [])"
| "plan_publishes me s params (w # ws) =
     ebind (plan_publish me s params w) (\<lambda>r. case r of
       Inl why \<Rightarrow> Inr (Inl why)
     | Inr f \<Rightarrow> ebind (plan_publishes me s params ws) (\<lambda>rs. Inr (case rs of Inl why \<Rightarrow> Inl why | Inr fs \<Rightarrow> Inr (f # fs))))"

definition tolerance_of :: "command \<Rightarrow> string \<Rightarrow> rat" where
  "tolerance_of cmd n = (case find (\<lambda>v. rl_read v = n) (cd_verify cmd) of Some v \<Rightarrow> rl_tolerance v | None \<Rightarrow> 0)"

text \<open>Does the device hold every target; stops at the first that it does not.\<close>

fun holds_targets :: "mrun_env \<Rightarrow> source \<Rightarrow> command \<Rightarrow> (string, pyval) dict \<Rightarrow> mframe list \<Rightarrow> cmd_exn + bool" where
  "holds_targets me s cmd params [] = Inr True"
| "holds_targets me s cmd params (f # fs) =
     (let got = current_value me s True (mf_register f);
          rl = \<lparr> rl_read = mf_register f, rl_expect = Some (Leaf (mf_value f)), rl_tolerance = tolerance_of cmd (mf_register f),
                 rl_in = None, rl_min = None, rl_max = None \<rparr>
      in if got = VNone then Inr False
         else ebind (reg_of me (mf_register f)) (\<lambda>reg. ebind (check_rule (mr_texts me) rl got params (Some reg)) (\<lambda>why.
           if why = None then holds_targets me s cmd params fs else Inr False)))"

definition already_set :: "mrun_env \<Rightarrow> source \<Rightarrow> command \<Rightarrow> (string, pyval) dict \<Rightarrow> (string, pyval) dict \<Rightarrow> mframe list \<Rightarrow> cmd_exn + bool" where
  "already_set me s cmd params before frames =
     (if cd_verify cmd \<noteq> [] \<and> frames \<noteq> []
         \<and> list_all (\<lambda>v. list_ex (\<lambda>w. fst w = Some (rl_read v)) (cd_writes cmd)) (cd_verify cmd)
      then ebind (holds_targets me s cmd params frames) (\<lambda>same.
             if same then ebind (check_first (mr_texts me) (cd_verify cmd) before params (mr_regs me)) (\<lambda>why. Inr (why = None)) else Inr False)
      else Inr False)"

text \<open>\<open>publish\<close> refuses an empty topic and a wildcard itself.\<close>

definition publish_ok :: "mrun_env \<Rightarrow> nat \<Rightarrow> mframe \<Rightarrow> bool" where
  "publish_ok me i f = (mf_topic f \<noteq> [] \<and> CHR ''+'' \<notin> set (mf_topic f) \<and> CHR ''#'' \<notin> set (mf_topic f) \<and> mr_answer me i)"

fun publish_frames :: "mrun_env \<Rightarrow> nat \<Rightarrow> mframe list \<Rightarrow> sent_log \<Rightarrow> nat \<times> bool \<times> sent_log" where
  "publish_frames me i [] sent = (i, True, sent)"
| "publish_frames me i (f # fs) sent =
     (if publish_ok me i f then publish_frames me (Suc i) fs (sent @ [(mf_topic f, mf_payload f, True)])
      else (i, False, sent @ [(mf_topic f, mf_payload f, False)]))"

definition fresh_value :: "mrun_env \<Rightarrow> nat \<Rightarrow> source \<Rightarrow> string \<Rightarrow> pyval option" where
  "fresh_value me mark s n =
     (case dict_get (mr_regs me) n of
        None \<Rightarrow> None
      | Some r \<Rightarrow> (case last_value s (cr_address r) of Some (v, t, q) \<Rightarrow> if mark < q then Some v else None | None \<Rightarrow> None))"

fun passes :: "mrun_env \<Rightarrow> nat \<Rightarrow> (string, pyval) dict \<Rightarrow> rule list \<Rightarrow> source \<Rightarrow> cmd_exn + bool" where
  "passes me mark params [] s = Inr True"
| "passes me mark params (v # vs) s =
     (case fresh_value me mark s (rl_read v) of
        None \<Rightarrow> Inr False
      | Some got \<Rightarrow> ebind (check_rule (mr_texts me) v got params (dict_get (mr_regs me) (rl_read v))) (\<lambda>why.
          if why = None then passes me mark params vs s else Inr False))"

text \<open>\<open>wait_for\<close>: asked at once and after every message, until it holds or the wait ends.\<close>

fun wait_for :: "(string \<Rightarrow> json option) \<Rightarrow> (source \<Rightarrow> cmd_exn + bool) \<Rightarrow> (rat \<times> message) list \<Rightarrow> source \<Rightarrow> (cmd_exn + bool) \<times> source" where
  "wait_for loads P [] s = (P s, s)"
| "wait_for loads P ((now, m) # ms) s =
     (if P s = Inr False then wait_for loads P ms (on_message loads now m s) else (P s, s))"

text \<open>The verdict when the wait ended without every check holding.\<close>

fun judge_late :: "mrun_env \<Rightarrow> nat \<Rightarrow> (string, pyval) dict \<Rightarrow> rule list \<Rightarrow> source \<Rightarrow> cmd_exn + mreason option" where
  "judge_late me mark params [] s = Inr None"
| "judge_late me mark params (v # vs) s =
     (case fresh_value me mark s (rl_read v) of
        None \<Rightarrow> Inr (Some (NoValueBack (rl_read v)))
      | Some got \<Rightarrow>
          if got = VNone then Inr (Some (NoValueBack (rl_read v)))
          else ebind (check_rule (mr_texts me) v got params (dict_get (mr_regs me) (rl_read v))) (\<lambda>why.
            case why of Some f \<Rightarrow> Inr (Some (ReadsBack f)) | None \<Rightarrow> judge_late me mark params vs s))"

definition fresh_values :: "mrun_env \<Rightarrow> nat \<Rightarrow> source \<Rightarrow> rule list \<Rightarrow> (string, pyval) dict" where
  "fresh_values me mark s rules = map (\<lambda>n. (n, or_none (fresh_value me mark s n))) (first_seen (map rl_read rules))"

definition await_read_back :: "mrun_env \<Rightarrow> command \<Rightarrow> (string, pyval) dict \<Rightarrow> nat \<Rightarrow> moutcome \<Rightarrow> source \<Rightarrow> (cmd_exn + moutcome) \<times> source" where
  "await_read_back me cmd params mark mo s =
     (case wait_for (mr_loads me) (passes me mark params (cd_verify cmd)) (mr_arrivals me) s of
        (Inl e, s) \<Rightarrow> (Inl e, s)
      | (Inr ok, s) \<Rightarrow>
          (let mo = mo\<lparr>mo_after := Some (fresh_values me mark s (cd_verify cmd))\<rparr>
           in if ok then (Inr (mo\<lparr>mo_status := Success\<rparr>), s)
              else if list_all (\<lambda>v. fresh_value me mark s (rl_read v) = None) (cd_verify cmd)
              then (Inr (mo\<lparr>mo_status := Unverified, mo_reason := Some NoAnswer\<rparr>), s)
              else (ebind (judge_late me mark params (cd_verify cmd) s) (\<lambda>why.
                      Inr (case why of None \<Rightarrow> mo\<lparr>mo_status := Success\<rparr> | Some r \<Rightarrow> mo\<lparr>mo_status := Mismatch, mo_reason := Some r\<rparr>)), s)))"

definition publish_and_wait :: "mrun_env \<Rightarrow> command \<Rightarrow> (string, pyval) dict \<Rightarrow> moutcome \<Rightarrow> mframe list \<Rightarrow> source
    \<Rightarrow> (cmd_exn + moutcome) \<times> source \<times> sent_log" where
  "publish_and_wait me cmd params mo frames s =
     (let mark = ms_seq s; (n, ok, sent) = publish_frames me 0 frames []
      in if \<not> ok then (Inr (mo\<lparr>mo_status := ErrorStatus, mo_sent := Some n, mo_reason := Some (PublishFailed n)\<rparr>), s, sent)
         else (let mo = mo\<lparr>mo_sent := Some n\<rparr>
               in if cd_verify cmd = [] then (Inr (mo\<lparr>mo_status := Success\<rparr>), s, sent)
                  else (let (r, s') = await_read_back me cmd params mark mo s in (r, s', sent))))"

definition mqtt_outcome :: moutcome where
  "mqtt_outcome = \<lparr> mo_status = Rejected, mo_reason = None, mo_before = [], mo_frames = None, mo_already = False, mo_sent = None, mo_after = None \<rparr>"

definition mqtt_rejected :: "moutcome \<Rightarrow> mreason \<Rightarrow> source \<Rightarrow> (cmd_exn + moutcome) \<times> source \<times> sent_log" where
  "mqtt_rejected mo why s = (Inr (mo\<lparr>mo_reason := Some why\<rparr>), s, [])"

definition run_mqtt_command :: "mrun_env \<Rightarrow> command \<Rightarrow> (string, pyval) dict \<Rightarrow> source \<Rightarrow> (cmd_exn + moutcome) \<times> source \<times> sent_log" where
  "run_mqtt_command me cmd params s =
     (case unread_names me s cmd of
        Inl e \<Rightarrow> (Inl e, s, [])
      | Inr unread \<Rightarrow>
          if unread \<noteq> [] then mqtt_rejected mqtt_outcome (NotReadHere unread) s
          else if \<not> source_alive (mr_now me) s then mqtt_rejected mqtt_outcome NotAlive s
          else (let before = map (\<lambda>n. (n, current_value me s True n)) (first_seen (map rl_read (cd_verify cmd)));
                    mo = mqtt_outcome\<lparr>mo_before := before\<rparr>
                in case judge_mqtt_guards me s params (cd_guard cmd) of
                     Inl e \<Rightarrow> (Inl e, s, [])
                   | Inr (Some why) \<Rightarrow> mqtt_rejected mo why s
                   | Inr None \<Rightarrow>
                       (case plan_publishes me s params (cd_writes cmd) of
                          Inl e \<Rightarrow> (Inl e, s, [])
                        | Inr (Inl why) \<Rightarrow> mqtt_rejected mo why s
                        | Inr (Inr frames) \<Rightarrow>
                            (let mo = mo\<lparr>mo_frames := Some frames\<rparr>
                             in case already_set me s cmd params before frames of
                                  Inl e \<Rightarrow> (Inl e, s, [])
                                | Inr True \<Rightarrow>
                                    (Inr (mo\<lparr>mo_after := Some before, mo_already := True, mo_sent := Some 0,
                                             mo_status := (if mr_dry me then DryRun else Success)\<rparr>), s, [])
                                | Inr False \<Rightarrow>
                                    if mr_dry me then (Inr (mo\<lparr>mo_status := DryRun\<rparr>), s, [])
                                    else publish_and_wait me cmd params mo frames s))))"

section \<open>What was published\<close>

definition frame_sent :: "bool \<Rightarrow> mframe \<Rightarrow> string \<times> string \<times> bool" where
  "frame_sent ok f = (mf_topic f, mf_payload f, ok)"

lemma publish_frames_spec:
  "publish_frames me i fs sent = (n, ok, sent') \<Longrightarrow>
     (if ok then n = i + length fs \<and> sent' = sent @ map (frame_sent True) fs
      else \<exists>k < length fs. n = i + k \<and> sent' = sent @ map (frame_sent True) (take k fs) @ [frame_sent False (fs ! k)])"
proof (induction me i fs sent arbitrary: n ok sent' rule: publish_frames.induct)
  case (2 me i f fs sent)
  show ?case
  proof (cases "publish_ok me i f")
    case False
    then show ?thesis using "2.prems" by (auto simp: frame_sent_def intro!: exI [of _ 0])
  next
    case True
    then have "publish_frames me (Suc i) fs (sent @ [(mf_topic f, mf_payload f, True)]) = (n, ok, sent')" using "2.prems" by simp
    note IH = "2.IH" [OF True this]
    show ?thesis
    proof (cases ok)
      case True
      then show ?thesis using IH by (simp add: frame_sent_def)
    next
      case False
      with IH obtain k where "k < length fs" "n = Suc i + k"
        "sent' = (sent @ [(mf_topic f, mf_payload f, True)]) @ map (frame_sent True) (take k fs) @ [frame_sent False (fs ! k)]" by auto
      then have "Suc k < length (f # fs) \<and> n = i + Suc k \<and> sent' = sent @ map (frame_sent True) (take (Suc k) (f # fs)) @ [frame_sent False ((f # fs) ! Suc k)]"
        by (simp add: frame_sent_def)
      with False show ?thesis by (auto simp del: nth_Cons_Suc take_Suc_Cons)
    qed
  qed
qed simp

definition mqtt_told :: "moutcome \<Rightarrow> sent_log \<Rightarrow> bool" where
  "mqtt_told mo sent =
     (case mo_status mo of
        Rejected \<Rightarrow> sent = []
      | DryRun \<Rightarrow> sent = []
      | ErrorStatus \<Rightarrow> (\<exists>frames k. mo_frames mo = Some frames \<and> k < length frames \<and> mo_sent mo = Some k \<and> mo_reason mo = Some (PublishFailed k)
          \<and> sent = map (frame_sent True) (take k frames) @ [frame_sent False (frames ! k)])
      | _ \<Rightarrow> (if mo_already mo then mo_status mo = Success \<and> sent = []
              else \<exists>frames. mo_frames mo = Some frames \<and> mo_sent mo = Some (length frames) \<and> sent = map (frame_sent True) frames))"

text \<open>A read-back that meets its rules, each with a value numbered after the mark.\<close>

definition read_back :: "mrun_env \<Rightarrow> command \<Rightarrow> (string, pyval) dict \<Rightarrow> nat \<Rightarrow> source \<Rightarrow> bool" where
  "read_back me cmd params mark s = list_all (\<lambda>v. \<exists>got. fresh_value me mark s (rl_read v) = Some got
     \<and> check_rule (mr_texts me) v got params (dict_get (mr_regs me) (rl_read v)) = Inr None) (cd_verify cmd)"

lemma passes_read_back: "passes me mark params vs s = Inr True \<Longrightarrow> list_all (\<lambda>v. \<exists>got. fresh_value me mark s (rl_read v) = Some got
     \<and> check_rule (mr_texts me) v got params (dict_get (mr_regs me) (rl_read v)) = Inr None) vs"
  by (induction me mark params vs s rule: passes.induct) (auto simp: ebind_Inr split: option.splits if_splits)

lemma judge_late_read_back: "judge_late me mark params vs s = Inr None \<Longrightarrow> list_all (\<lambda>v. \<exists>got. fresh_value me mark s (rl_read v) = Some got
     \<and> check_rule (mr_texts me) v got params (dict_get (mr_regs me) (rl_read v)) = Inr None) vs"
  by (induction me mark params vs s rule: judge_late.induct) (auto simp: ebind_Inr split: option.splits if_splits)

lemma wait_for_run: "wait_for loads P ms s = (r, s') \<Longrightarrow> \<exists>k. s' = run_source loads (take k ms) s \<and> r = P s'"
proof (induction loads P ms s rule: wait_for.induct)
  case (1 loads P s)
  then show ?case by (auto simp: run_source_def)
next
  case (2 loads P now m ms s)
  show ?case
  proof (cases "P s = Inr False")
    case True
    then obtain k where "s' = run_source loads (take k ms) (on_message loads now m s)" "r = P s'" using 2 by auto
    then show ?thesis by (intro exI [of _ "Suc k"]) (simp add: run_source_def)
  next
    case False
    then show ?thesis using "2.prems" by (intro exI [of _ 0]) (auto simp: run_source_def)
  qed
qed

lemma await_read_back_spec:
  assumes "await_read_back me cmd params mark mo s = (Inr mo', s')"
  shows "mo_status mo' \<in> {Success, Mismatch, Unverified} \<and> mo_frames mo' = mo_frames mo \<and> mo_sent mo' = mo_sent mo \<and> mo_already mo' = mo_already mo
    \<and> (\<exists>k. s' = run_source (mr_loads me) (take k (mr_arrivals me)) s) \<and> (mo_status mo' = Success \<longrightarrow> read_back me cmd params mark s')"
proof -
  obtain r s1 where w: "wait_for (mr_loads me) (passes me mark params (cd_verify cmd)) (mr_arrivals me) s = (r, s1)" by (metis prod.exhaust)
  obtain k where k: "s1 = run_source (mr_loads me) (take k (mr_arrivals me)) s" "r = passes me mark params (cd_verify cmd) s1"
    using wait_for_run [OF w] by blast
  obtain ok where ok: "r = Inr ok" "s' = s1" using assms w by (cases r) (auto simp: await_read_back_def Let_def split: if_splits)
  have ps: "passes me mark params (cd_verify cmd) s1 = Inr ok" using k(2) ok(1) by simp
  have "mo_status mo' = Success \<longrightarrow> read_back me cmd params mark s1"
  proof (cases ok)
    case True
    then show ?thesis using passes_read_back ps unfolding read_back_def by auto
  next
    case False
    show ?thesis
    proof
      assume "mo_status mo' = Success"
      then have "judge_late me mark params (cd_verify cmd) s1 = Inr None"
        using assms w ok False
        by (cases "judge_late me mark params (cd_verify cmd) s1"; cases "projr (judge_late me mark params (cd_verify cmd) s1)")
          (auto simp: await_read_back_def Let_def ebind_Inr split: if_splits)
      then show "read_back me cmd params mark s1" using judge_late_read_back unfolding read_back_def by blast
    qed
  qed
  moreover have "mo_status mo' \<in> {Success, Mismatch, Unverified} \<and> mo_frames mo' = mo_frames mo \<and> mo_sent mo' = mo_sent mo \<and> mo_already mo' = mo_already mo"
    using assms w ok by (auto simp: await_read_back_def Let_def ebind_Inr split: if_splits option.splits)
  ultimately show ?thesis using k(1) ok(2) by blast
qed

lemma publish_and_wait_spec:
  assumes "publish_and_wait me cmd params mo frames s = (r, s', sent)" "mo_frames mo = Some frames" "\<not> mo_already mo"
  shows "(\<exists>k. sent = map (frame_sent True) (take k frames) \<or> k < length frames \<and> sent = map (frame_sent True) (take k frames) @ [frame_sent False (frames ! k)])
    \<and> (case r of Inl e \<Rightarrow> True | Inr mo' \<Rightarrow> mqtt_told mo' sent \<and> \<not> mo_already mo'
        \<and> (mo_status mo' = Success \<and> cd_verify cmd \<noteq> [] \<longrightarrow>
            (\<exists>k. s' = run_source (mr_loads me) (take k (mr_arrivals me)) s) \<and> read_back me cmd params (ms_seq s) s'))"
proof -
  obtain n ok sent1 where p: "publish_frames me 0 frames [] = (n, ok, sent1)" by (metis prod.exhaust)
  note spec = publish_frames_spec [OF p]
  show ?thesis
  proof (cases ok)
    case False
    then obtain k where k: "k < length frames" "n = k" "sent1 = map (frame_sent True) (take k frames) @ [frame_sent False (frames ! k)]" using spec by auto
    then show ?thesis using assms p False by (auto simp: publish_and_wait_def mqtt_told_def)
  next
    case True
    then have n: "n = length frames" "sent1 = map (frame_sent True) frames" using spec by auto
    then have all: "sent1 = map (frame_sent True) (take (length frames) frames)" by simp
    have tk: "\<exists>k. sent1 = map (frame_sent True) (take k frames)
        \<or> k < length frames \<and> sent1 = map (frame_sent True) (take k frames) @ [frame_sent False (frames ! k)]"
      using all by (intro exI [of _ "length frames"]) simp
    show ?thesis
    proof (cases "cd_verify cmd = []")
      case True
      then have "r = Inr (mo\<lparr>mo_sent := Some n, mo_status := Success\<rparr>)" "sent = sent1" using assms(1) p \<open>ok\<close> by (auto simp: publish_and_wait_def)
      then show ?thesis using assms(2,3) True n all by (intro conjI exI [of _ "length frames"]) (auto simp: mqtt_told_def)
    next
      case False
      obtain r1 s1 where a: "await_read_back me cmd params (ms_seq s) (mo\<lparr>mo_sent := Some n\<rparr>) s = (r1, s1)" by (metis prod.exhaust)
      then have r: "r = r1" "s' = s1" "sent = sent1" using assms(1) p \<open>ok\<close> False by (auto simp: publish_and_wait_def Let_def)
      show ?thesis
      proof (cases r1)
        case (Inl e)
        then show ?thesis using r tk by simp
      next
        case (Inr mo')
        note spec' = await_read_back_spec [OF a [unfolded Inr]]
        have "mqtt_told mo' sent" using spec' n r assms(2,3) by (auto simp: mqtt_told_def)
        then show ?thesis using r Inr tk assms(3) spec' by auto
      qed
    qed
  qed
qed

section \<open>The run\<close>

text \<open>What had to hold for anything to be published.\<close>

definition may_publish :: "mrun_env \<Rightarrow> command \<Rightarrow> (string, pyval) dict \<Rightarrow> source \<Rightarrow> bool" where
  "may_publish me cmd params s \<longleftrightarrow> source_alive (mr_now me) s \<and> unread_names me s cmd = Inr [] \<and> \<not> mr_dry me
     \<and> list_all (\<lambda>g. current_value me s True (rl_read g) \<noteq> VNone
         \<and> check_rule (mr_texts me) g (current_value me s True (rl_read g)) params (dict_get (mr_regs me) (rl_read g)) = Inr None) (cd_guard cmd)"

definition foreign_topic :: "mrun_env \<Rightarrow> source \<Rightarrow> string \<Rightarrow> bool" where
  "foreign_topic me s t \<longleftrightarrow> t \<noteq> [] \<and> list_all (\<lambda>p. \<not> topic_matches p t) (subscriptions s @ mr_forbidden me)"

lemma judge_guards_hold: "judge_mqtt_guards me s params gs = Inr None \<Longrightarrow> list_all (\<lambda>g. current_value me s True (rl_read g) \<noteq> VNone
    \<and> check_rule (mr_texts me) g (current_value me s True (rl_read g)) params (dict_get (mr_regs me) (rl_read g)) = Inr None) gs"
  by (induction me s params gs rule: judge_mqtt_guards.induct) (auto simp: ebind_Inr Let_def split: option.splits if_splits)

lemma plan_publish_foreign:
  assumes "plan_publish me s params w = Inr (Inr f)"
  shows "foreign_topic me s (mf_topic f)"
proof -
  obtain n reg where w: "fst w = Some n" "reg_of me n = Inr reg" using assms by (auto simp: plan_publish_def ebind_Inr split: option.splits)
  let ?topic = "resolve s (py_strip (write_topic reg))"
  have t: "?topic \<noteq> []" "\<not> list_ex (\<lambda>p. topic_matches p ?topic) (subscriptions s)" "\<not> list_ex (\<lambda>p. topic_matches p ?topic) (mr_forbidden me)"
    using assms w by (auto simp: plan_publish_def Let_def split: if_splits)
  then obtain val where val: "evaluate (tx_repr (mr_texts me)) params (snd w) = Inr val"
    "(case ebind (check_envelope reg val) (\<lambda>_. mqtt_payload (mr_texts me) reg val (ms_factors s)) of
                   Inl e \<Rightarrow> if is_value_error e then Inr (Inl (RefusedValue e)) else Inl e
                 | Inr p \<Rightarrow> Inr (Inr \<lparr> mf_topic = ?topic, mf_payload = p, mf_register = cr_name reg, mf_value = val \<rparr>)) = Inr (Inr f)"
    using assms w by (auto simp: plan_publish_def Let_def ebind_Inr)
  then have "mf_topic f = ?topic"
    by (cases "ebind (check_envelope reg val) (\<lambda>_. mqtt_payload (mr_texts me) reg val (ms_factors s))") (auto split: if_splits)
  with t show ?thesis by (auto simp: foreign_topic_def list_ex_iff list_all_iff)
qed

lemma plan_publishes_foreign: "plan_publishes me s params ws = Inr (Inr fs) \<Longrightarrow> list_all (\<lambda>f. foreign_topic me s (mf_topic f)) fs"
proof (induction me s params ws arbitrary: fs rule: plan_publishes.induct)
  case (2 me s params w ws)
  obtain r where r: "plan_publish me s params w = Inr r" using "2.prems" by (auto simp: ebind_Inr)
  with "2.prems" obtain f where f: "r = Inr f" by (cases r) auto
  with r "2.prems" obtain q where q: "plan_publishes me s params ws = Inr q" by (auto simp: ebind_Inr)
  with r f "2.prems" obtain fs' where "q = Inr fs'" "fs = f # fs'" by (cases q) auto
  then show ?case using "2.IH" q plan_publish_foreign [OF r [unfolded f]] by simp
qed simp

text \<open>The parts of a run that got as far as publishing.\<close>

lemma run_mqtt_parts:
  assumes "run_mqtt_command me cmd params s = (r, s', sent)"
  obtains (quiet) "s' = s" "sent = []" "case r of Inl e \<Rightarrow> True | Inr mo \<Rightarrow> mo_status mo \<in> {Rejected, DryRun} \<or> mo_status mo = Success \<and> mo_already mo"
  | (published) mo frames where "may_publish me cmd params s" "list_all (\<lambda>f. foreign_topic me s (mf_topic f)) frames"
      "publish_and_wait me cmd params mo frames s = (r, s', sent)" "mo_frames mo = Some frames" "\<not> mo_already mo"
proof (cases "\<exists>frames. unread_names me s cmd = Inr [] \<and> source_alive (mr_now me) s \<and> judge_mqtt_guards me s params (cd_guard cmd) = Inr None
    \<and> plan_publishes me s params (cd_writes cmd) = Inr (Inr frames)
    \<and> already_set me s cmd params (map (\<lambda>n. (n, current_value me s True n)) (first_seen (map rl_read (cd_verify cmd)))) frames = Inr False \<and> \<not> mr_dry me")
  case True
  then obtain frames where f: "unread_names me s cmd = Inr []" "source_alive (mr_now me) s" "judge_mqtt_guards me s params (cd_guard cmd) = Inr None"
    "plan_publishes me s params (cd_writes cmd) = Inr (Inr frames)"
    "already_set me s cmd params (map (\<lambda>n. (n, current_value me s True n)) (first_seen (map rl_read (cd_verify cmd)))) frames = Inr False" "\<not> mr_dry me"
    by blast
  show ?thesis
  proof (rule published)
    show "may_publish me cmd params s" using f judge_guards_hold by (simp add: may_publish_def)
    show "list_all (\<lambda>f. foreign_topic me s (mf_topic f)) frames" using f(4) by (rule plan_publishes_foreign)
    show "publish_and_wait me cmd params (mqtt_outcome\<lparr>mo_before := map (\<lambda>n. (n, current_value me s True n)) (first_seen (map rl_read (cd_verify cmd))),
        mo_frames := Some frames\<rparr>) frames s = (r, s', sent)"
      using assms f by (simp add: run_mqtt_command_def Let_def)
  qed (simp_all add: mqtt_outcome_def)
next
  case False
  show ?thesis
  proof (rule quiet)
    show "s' = s" "sent = []" "case r of Inl e \<Rightarrow> True | Inr mo \<Rightarrow> mo_status mo \<in> {Rejected, DryRun} \<or> mo_status mo = Success \<and> mo_already mo"
      using assms False
      by (auto simp: run_mqtt_command_def mqtt_rejected_def mqtt_outcome_def Let_def split: sum.splits option.splits if_splits bool.splits)
  qed
qed

text \<open>
  What a run over MQTT says is what was published: a rejected or dry run, and a
  value that was already set, published nothing; an error names the publish the link refused,
  after exactly the ones before it; any other verdict means every planned payload went out on
  its topic, in order.
\<close>

theorem mqtt_verdict_tells_publishes:
  assumes "run_mqtt_command me cmd params s = (Inr mo, s', sent)"
  shows "mqtt_told mo sent"
  using assms
proof (cases rule: run_mqtt_parts)
  case quiet
  then show ?thesis by (auto simp: mqtt_told_def)
next
  case (published mo' frames)
  then show ?thesis using publish_and_wait_spec by fastforce
qed

text \<open>
  C20 (safety): Nothing is published unless the source was alive, every register the command
  needs is read by it and every guard held on a current value; and nothing is ever published
  on a topic the gateway itself listens to, its own source or its own commands, so a command
  never answers its own read-back.
\<close>

theorem mqtt_never_feeds_itself:
  assumes "run_mqtt_command me cmd params s = (r, s', sent)" and "sent \<noteq> []"
  shows "may_publish me cmd params s \<and> list_all (\<lambda>(topic, payload, ok). foreign_topic me s topic) sent"
  using assms(1)
proof (cases rule: run_mqtt_parts)
  case quiet
  then show ?thesis using assms(2) by simp
next
  case (published mo frames)
  from publish_and_wait_spec [OF published(3-5)] obtain k where
    "sent = map (frame_sent True) (take k frames) \<or> k < length frames \<and> sent = map (frame_sent True) (take k frames) @ [frame_sent False (frames ! k)]"
    by blast
  moreover have "foreign_topic me s (mf_topic f)" if "f \<in> set (take k frames)" for f
    using published(2) that by (meson in_set_takeD list_all_iff)
  ultimately show ?thesis using published(1,2) by (fastforce simp: list_all_iff frame_sent_def)
qed


section \<open>A run over MQTT\<close>

definition charging_source :: source where
  "charging_source = battery_source\<lparr>ms_last_mono := Some 5, ms_last := [(100, VInt 10, 5, 1)], ms_seq := 1\<rparr>"

definition soc_reg :: creg where
  "soc_reg = (plain_reg ''soc'' ''uint16'' 100)\<lparr>write_topic := ''~/set''\<rparr>"

definition soc_env :: mrun_env where
  "soc_env = \<lparr> mr_texts = \<lparr> tx_repr = (\<lambda>_. []), tx_float = (\<lambda>_. []) \<rparr>, mr_regs = [(''soc'', soc_reg)], mr_dry = False, mr_forbidden = [''cmd/#''],
     mr_loads = one_number, mr_now = 10, mr_answer = (\<lambda>_. True), mr_arrivals = [(12, soc_message False)] \<rparr>"

definition soc_command :: command where
  "soc_command = (plain_command [(Some ''soc'', Leaf (VInt 57))])\<lparr>cd_guard := [expects ''soc'' (VInt 10)], cd_verify := [expects ''soc'' (VInt 57)]\<rparr>"

definition soc_frame :: mframe where
  "soc_frame = \<lparr> mf_topic = ''bat/1/set'', mf_payload = ''57'', mf_register = ''soc'', mf_value = VInt 57 \<rparr>"

definition soc_outcome :: moutcome where
  "soc_outcome = mqtt_outcome\<lparr>mo_status := Success, mo_before := [(''soc'', VInt 10)], mo_frames := Some [soc_frame], mo_sent := Some 1,
     mo_after := Some [(''soc'', VInt 57)]\<rparr>"

definition soc_after :: source where
  "soc_after = run_source one_number [(12, soc_message False)] charging_source"

lemma soc_runs: "run_mqtt_command soc_env soc_command [] charging_source = (Inr soc_outcome, soc_after, [(''bat/1/set'', ''57'', True)])"
  by code_simp

lemma charging_numbered: "numbered charging_source" "ms_has_callback charging_source"
  by (auto simp: numbered_def last_value_def charging_source_def battery_source_def split: if_splits)

lemma soc_success: "mo_status soc_outcome = Success" "\<not> mo_already soc_outcome" "cd_verify soc_command \<noteq> []"
  by (simp_all add: soc_outcome_def mqtt_outcome_def soc_command_def)

theorem mqtt_verdict_tells_publishes_witness:
  "mqtt_told soc_outcome [(''bat/1/set'', ''57'', True)]"
  using mqtt_verdict_tells_publishes [OF soc_runs] .

theorem mqtt_never_feeds_itself_witness:
  "may_publish soc_env soc_command [] charging_source \<and> foreign_topic soc_env charging_source ''bat/1/set''"
  using mqtt_never_feeds_itself [OF soc_runs] by simp


end
