(* ===== verification/Sequences.thy ===== *)
theory Sequences
  imports CommandRun Expressions "HOL-Library.Sublist"
begin

text \<open>
  Sequences (\<open>multibus/sequences.py\<close>): the check of a definition, its run with the waits, the
  deadline, the cancel and the undo, and the runner that lets one run per sequence and one
  sequence per device at a time. Time, the cancel of another thread, the readings and the
  write path of the gateway are operations on an outside world; the journal of the calls a
  run makes is kept beside it. The parameters of a definition are taken as read, and the
  notes carry no time stamps.
\<close>

section \<open>Definitions\<close>

type_synonym step = "(string, json) dict"

record sequence =
  sq_id :: string
  sq_params :: "(string, param_def) dict"
  sq_steps :: "step list"
  sq_on_abort :: "step list"
  sq_max_duration :: rat

definition MAX_STEPS :: nat where "MAX_STEPS = 50"
definition MAX_DURATION_S :: rat where "MAX_DURATION_S = 3600"
definition MAX_WAIT_S :: rat where "MAX_WAIT_S = 3600"

definition STEP_KINDS :: "string list" where
  "STEP_KINDS = [''command'', ''wait_s'', ''wait_until'', ''check'']"

text \<open>\<open>not x\<close>, \<open>str(x)\<close> and \<open>float(x)\<close> of a parsed document; \<open>rep\<close> is the text of what is no text.\<close>

fun json_true :: "json \<Rightarrow> bool" where
  "json_true (Leaf v) = truthy v"
| "json_true (ListE xs) = (xs \<noteq> [])"
| "json_true (DictE d) = (d \<noteq> [])"

definition json_text :: "(json \<Rightarrow> string) \<Rightarrow> json \<Rightarrow> string" where
  "json_text rep j = (case j of Leaf (VStr s) \<Rightarrow> s | _ \<Rightarrow> rep j)"

fun json_float :: "json \<Rightarrow> cmd_exn + rat" where
  "json_float (Leaf v) = py_float v"
| "json_float _ = Inl TypErr"

text \<open>\<open>_num\<close>; every float here is finite.\<close>

definition json_num :: "json \<Rightarrow> rat option" where
  "json_num j = (case j of Leaf (VBool b) \<Rightarrow> None | _ \<Rightarrow> (case json_float j of Inr q \<Rightarrow> Some q | Inl e \<Rightarrow> None))"

definition get_or :: "(string, json) dict \<Rightarrow> string \<Rightarrow> json \<Rightarrow> json" where
  "get_or d k v = (case dict_get d k of Some j \<Rightarrow> j | None \<Rightarrow> v)"

definition null :: json where "null = Leaf VNone"

text \<open>\<open>d.get(k) or ''\<close>, and a dictionary's items; what has none raises \<open>AttributeError\<close>, here \<open>KeyErr\<close>.\<close>

definition text_or_empty :: "json \<Rightarrow> json" where
  "text_or_empty j = (if json_true j then j else Leaf (VStr []))"

definition dict_items :: "json \<Rightarrow> cmd_exn + (string, json) dict" where
  "dict_items j = (if \<not> json_true j then Inr [] else case j of DictE d \<Rightarrow> Inr d | _ \<Rightarrow> Inl KeyErr)"

text \<open>\<open>for x in d.get(k) or []\<close>: a text gives its characters, a dictionary its keys.\<close>

definition json_iter :: "json \<Rightarrow> cmd_exn + json list" where
  "json_iter j =
     (if \<not> json_true j then Inr []
      else case j of ListE xs \<Rightarrow> Inr xs | DictE d \<Rightarrow> Inr (map (\<lambda>(k, v). Leaf (VStr k)) d)
           | Leaf (VStr s) \<Rightarrow> Inr (map (\<lambda>c. Leaf (VStr [c])) s) | _ \<Rightarrow> Inl TypErr)"

definition only_dicts :: "json list \<Rightarrow> step list" where
  "only_dicts js = List.map_filter (\<lambda>j. case j of DictE d \<Rightarrow> Some d | _ \<Rightarrow> None) js"

text \<open>\<open>parse_sequence\<close>, given the parameters.\<close>

definition parse_sequence :: "(json \<Rightarrow> string) \<Rightarrow> (string, param_def) dict \<Rightarrow> (string, json) dict \<Rightarrow> cmd_exn + sequence" where
  "parse_sequence rep params raw =
     ebind (json_iter (get_or raw ''steps'' null)) (\<lambda>steps.
       ebind (json_iter (get_or raw ''on_abort'' null)) (\<lambda>undo.
         ebind (let md = get_or raw ''max_duration_s'' (Leaf (VInt 600)) in json_float (if json_true md then md else Leaf (VInt 600))) (\<lambda>md.
           Inr \<lparr> sq_id = json_text rep (get_or raw ''id'' (Leaf (VStr []))), sq_params = params, sq_steps = only_dicts steps,
                 sq_on_abort = only_dicts undo, sq_max_duration = md \<rparr>)))"

section \<open>The check of a definition\<close>

datatype place = AtStep nat | AtAbort nat

datatype seq_error =
    NoSequence | BadId | BadDuration | NoParams | NoParam string | NoSteps | TooManySteps
  | NoObject place | NotOneKind place | OnlyCommands place | NoCommand place | NoDevice place | NotOffered place
  | BadValue place string | BadWait place | BadExpr place string | BadTimeout place | BadElse place

text \<open>What the check is given: the commands a device offers, the formula check, and the text of a document.\<close>

record seq_facts =
  sf_devices :: "string \<Rightarrow> string list option"
  sf_valid :: "string \<Rightarrow> bool"
  sf_text :: "json \<Rightarrow> string"

definition seq_id_ok :: "string \<Rightarrow> bool" where
  "seq_id_ok s = (case pat_end s of [] \<Rightarrow> False | c # r \<Rightarrow> is_lower c \<and> length r \<le> 47 \<and> list_all id_char r)"

definition sample_value :: "(string, json) dict \<Rightarrow> pyval" where
  "sample_value pd =
     (let v = get_or pd ''default'' (get_or pd ''min'' (Leaf (VInt 0)))
      in case (json_num v, v) of (Some q, Leaf x) \<Rightarrow> x | _ \<Rightarrow> VInt 0)"

definition sample_params :: "(string, json) dict \<Rightarrow> (string, pyval) dict" where
  "sample_params ps = List.map_filter (\<lambda>(n, p). case p of DictE pd \<Rightarrow> Some (n, sample_value pd) | _ \<Rightarrow> None) ps"

fun check_values :: "seq_facts \<Rightarrow> (string, pyval) dict \<Rightarrow> place \<Rightarrow> (string, json) dict \<Rightarrow> cmd_exn + seq_error list" where
  "check_values sf sample pl [] = Inr []"
| "check_values sf sample pl ((k, v) # kvs) =
     (case evaluate (sf_text sf) sample v of
        Inl e \<Rightarrow> if e = ExprErr \<or> e = TypErr then ebind (check_values sf sample pl kvs) (\<lambda>es. Inr (BadValue pl k # es)) else Inl e
      | Inr x \<Rightarrow> check_values sf sample pl kvs)"

definition check_command :: "seq_facts \<Rightarrow> (string, pyval) dict \<Rightarrow> place \<Rightarrow> json \<Rightarrow> cmd_exn + seq_error list" where
  "check_command sf sample pl c =
     (case c of
        DictE d \<Rightarrow>
          if \<not> json_true (get_or d ''device'' null) \<or> \<not> json_true (get_or d ''name'' null) then Inr [NoCommand pl]
          else ebind (ebind (dict_items (get_or d ''params'' null)) (check_values sf sample pl)) (\<lambda>es.
            Inr ((case sf_devices sf (json_text (sf_text sf) (get_or d ''device'' null)) of
                    None \<Rightarrow> [NoDevice pl]
                  | Some offered \<Rightarrow> if get_or d ''name'' null \<in> set (map (\<lambda>n. Leaf (VStr n)) offered) then [] else [NotOffered pl]) @ es))
      | _ \<Rightarrow> Inr [NoCommand pl])"

definition within_wait :: "json \<Rightarrow> bool" where
  "within_wait j = (case json_num j of Some q \<Rightarrow> 0 < q \<and> q \<le> MAX_WAIT_S | None \<Rightarrow> False)"

definition check_expr :: "seq_facts \<Rightarrow> place \<Rightarrow> string \<Rightarrow> step \<Rightarrow> seq_error list" where
  "check_expr sf pl k s =
     (let t = json_text (sf_text sf) (text_or_empty (get_or s k null))
      in (if py_strip t = [] \<or> \<not> sf_valid sf t then [BadExpr pl k] else [])
         @ (if k = ''wait_until'' \<and> \<not> within_wait (get_or s ''timeout_s'' null) then [BadTimeout pl] else [])
         @ (if get_or s ''else'' (Leaf (VStr ''abort'')) \<in> {Leaf (VStr ''abort''), Leaf (VStr ''continue'')} then [] else [BadElse pl]))"

text \<open>\<open>one\<close>: the kinds of step a dictionary names, and the check of the only one.\<close>

definition kinds_of :: "step \<Rightarrow> string list" where
  "kinds_of s = filter (\<lambda>k. dict_get s k \<noteq> None) STEP_KINDS"

definition check_step :: "seq_facts \<Rightarrow> (string, pyval) dict \<Rightarrow> bool \<Rightarrow> place \<Rightarrow> json \<Rightarrow> cmd_exn + seq_error list" where
  "check_step sf sample only pl j =
     (case j of
        DictE s \<Rightarrow>
          (case kinds_of s of
             [k] \<Rightarrow>
               if only \<and> k \<noteq> ''command'' then Inr [OnlyCommands pl]
               else if k = ''command'' then check_command sf sample pl (get_or s k null)
               else if k = ''wait_s'' then Inr (if within_wait (get_or s k null) then [] else [BadWait pl])
               else Inr (check_expr sf pl k s)
           | _ \<Rightarrow> Inr [NotOneKind pl])
      | _ \<Rightarrow> Inr [NoObject pl])"

fun check_steps :: "seq_facts \<Rightarrow> (string, pyval) dict \<Rightarrow> bool \<Rightarrow> (nat \<Rightarrow> place) \<Rightarrow> nat \<Rightarrow> json list \<Rightarrow> cmd_exn + seq_error list" where
  "check_steps sf sample only pl i [] = Inr []"
| "check_steps sf sample only pl i (j # js) =
     ebind (check_step sf sample only (pl i) j) (\<lambda>es. ebind (check_steps sf sample only pl (Suc i) js) (\<lambda>rest. Inr (es @ rest)))"

definition check_params :: "json \<Rightarrow> seq_error list \<times> (string, json) dict" where
  "check_params j =
     (if \<not> json_true j then ([], [])
      else case j of
        DictE ps \<Rightarrow> (List.map_filter (\<lambda>(n, p). case p of DictE pd \<Rightarrow> None | _ \<Rightarrow> Some (NoParam n)) ps, ps)
      | _ \<Rightarrow> ([NoParams], []))"

definition validate_sequence :: "seq_facts \<Rightarrow> json \<Rightarrow> cmd_exn + seq_error list" where
  "validate_sequence sf j =
     (case j of
        DictE raw \<Rightarrow>
          (let head = (if seq_id_ok (json_text (sf_text sf) (text_or_empty (get_or raw ''id'' null))) then [] else [BadId])
                 @ (case json_num (get_or raw ''max_duration_s'' (Leaf (VInt 600))) of
                      Some q \<Rightarrow> if 1 \<le> q \<and> q \<le> MAX_DURATION_S then [] else [BadDuration] | None \<Rightarrow> [BadDuration]);
               (perr, ps) = check_params (get_or raw ''params'' null);
               sample = sample_params ps
           in ebind (case get_or raw ''steps'' null of
                  ListE js \<Rightarrow> if js = [] then Inr [NoSteps]
                    else ebind (check_steps sf sample False AtStep 0 js) (\<lambda>es. Inr ((if MAX_STEPS < length js then [TooManySteps] else []) @ es))
                | _ \<Rightarrow> Inr [NoSteps]) (\<lambda>serr.
              ebind (ebind (json_iter (get_or raw ''on_abort'' null)) (check_steps sf sample True AtAbort 0)) (\<lambda>aerr.
                Inr (head @ perr @ serr @ aerr))))
      | _ \<Rightarrow> Inr [NoSequence])"

section \<open>The outside world of a run\<close>

text \<open>
  What a run asks of the outside: the monotonic clock, sleep, whether somebody cancelled it,
  a formula's tree and the readings to evaluate it on, and the write path of the gateway with
  the status it answers (an answer may be empty; None: it raises).
\<close>

record call =
  ca_device :: string
  ca_name :: string
  ca_params :: "(string, pyval) dict"
  ca_dry :: bool

record 'w seq_ops =
  so_mono :: "'w \<Rightarrow> rat \<times> 'w"
  so_sleep :: "rat \<Rightarrow> 'w \<Rightarrow> 'w"
  so_cancelled :: "'w \<Rightarrow> bool \<times> 'w"
  so_tree :: "string \<Rightarrow> expr option"
  so_read :: "'w \<Rightarrow> eval_ctx \<times> 'w"
  so_run :: "call \<Rightarrow> 'w \<Rightarrow> string option option \<times> 'w"
  so_text :: "json \<Rightarrow> string"

datatype run_status = Running | Undoing | Done | Dry | CancelledRun | Aborted

datatype stop = Cancelled | PastDuration | StepFailed nat | NotTrueInTime nat | NotTrue nat | Raised

datatype seq_note = Note (nt_kind: string) (nt_ok: bool)

text \<open>A run; \<open>sr_calls\<close> is the journal of its calls of the write path with their outcome.\<close>

record seq_run =
  sr_params :: "(string, pyval) dict"
  sr_dry :: bool
  sr_status :: run_status
  sr_step :: nat
  sr_notes :: "seq_note list"
  sr_devices :: "json list"
  sr_deadline :: rat
  sr_reason :: "stop option"
  sr_calls :: "(call \<times> bool) list"

definition add_note :: "string \<Rightarrow> bool \<Rightarrow> seq_run \<Rightarrow> seq_run" where
  "add_note k ok r = r\<lparr>sr_notes := sr_notes r @ [Note k ok]\<rparr>"

section \<open>Waiting\<close>

text \<open>\<open>_wait\<close>: in slices of half a second, watching the cancel and the deadline.\<close>

partial_function (option) wait_loop :: "'w seq_ops \<Rightarrow> rat \<Rightarrow> rat \<Rightarrow> 'w \<Rightarrow> (stop option \<times> 'w) option" where
  "wait_loop ops deadline end' w =
     (let (c, w) = so_cancelled ops w
      in if c then Some (Some Cancelled, w)
         else (let (now, w) = so_mono ops w
               in if end' - now \<le> 0 then Some (None, w)
                  else (let (now2, w) = so_mono ops w
                        in if deadline - now2 \<le> 0 then Some (Some PastDuration, w)
                           else wait_loop ops deadline end' (so_sleep ops (min (1/2) (end' - now)) w))))"

definition seq_wait :: "'w seq_ops \<Rightarrow> rat \<Rightarrow> rat \<Rightarrow> 'w \<Rightarrow> (stop option \<times> 'w) option" where
  "seq_wait ops deadline seconds w = (let (now, w) = so_mono ops w in wait_loop ops deadline (now + seconds) w)"

text \<open>\<open>_truth\<close>: None for a missing value; what is no text raises before it is a formula.\<close>

definition seq_truth :: "'w seq_ops \<Rightarrow> json \<Rightarrow> 'w \<Rightarrow> (unit + bool option) \<times> 'w" where
  "seq_truth ops x w =
     (case x of
        Leaf (VStr s) \<Rightarrow>
          (let (ctx, w) = so_read ops w
           in (case so_tree ops s of
                 None \<Rightarrow> Inl ()
               | Some t \<Rightarrow> (case fst (evaluate_tree ctx t None) of
                     Inr v \<Rightarrow> Inr (Some (truth v)) | Inl e \<Rightarrow> if e = Missing then Inr None else Inl ()), w))
      | _ \<Rightarrow> (Inl (), w))"

definition goes_on :: "step \<Rightarrow> bool" where
  "goes_on s = (get_or s ''else'' (Leaf (VStr ''abort'')) = Leaf (VStr ''continue''))"

partial_function (option) until_loop :: "'w seq_ops \<Rightarrow> rat \<Rightarrow> nat \<Rightarrow> step \<Rightarrow> rat \<Rightarrow> 'w \<Rightarrow> (stop option \<times> 'w) option" where
  "until_loop ops deadline i s end' w =
     (case seq_truth ops (get_or s ''wait_until'' null) w of
        (Inl u, w) \<Rightarrow> Some (Some Raised, w)
      | (Inr t, w) \<Rightarrow>
          if t = Some True then Some (None, w)
          else (let (now, w) = so_mono ops w
                in if end' \<le> now then Some (if goes_on s then None else Some (NotTrueInTime i), w)
                   else (let (now2, w) = so_mono ops w
                         in Option.bind (seq_wait ops deadline (min 1 (max 0 (end' - now2))) w) (\<lambda>(st, w).
                              if st = None then until_loop ops deadline i s end' w else Some (st, w)))))"

section \<open>A command of a run\<close>

fun evaluate_all :: "(json \<Rightarrow> string) \<Rightarrow> (string, pyval) dict \<Rightarrow> (string, json) dict \<Rightarrow> cmd_exn + (string, pyval) dict" where
  "evaluate_all rep ps [] = Inr []"
| "evaluate_all rep ps ((k, v) # kvs) = ebind (evaluate rep ps v) (\<lambda>x. ebind (evaluate_all rep ps kvs) (\<lambda>r. Inr ((k, x) # r)))"

definition override_for :: "rat \<Rightarrow> int" where
  "override_for left = max 1 (py_trunc (min left MAX_DURATION_S))"

text \<open>\<open>status in ('success', 'unverified', 'dry_run')\<close>\<close>

definition good_status :: "string option \<Rightarrow> bool" where
  "good_status st = (st \<in> {Some ''success'', Some ''unverified'', Some ''dry_run''})"

text \<open>\<open>_command\<close>: whether it went through; None when it raises.\<close>

definition seq_command :: "'w seq_ops \<Rightarrow> rat \<Rightarrow> step \<Rightarrow> seq_run \<Rightarrow> 'w \<Rightarrow> bool option \<times> seq_run \<times> 'w" where
  "seq_command ops deadline s r w =
     (case dict_get s ''command'' of
        Some (DictE c) \<Rightarrow>
          (case ebind (dict_items (get_or c ''params'' null)) (evaluate_all (so_text ops) (sr_params r)) of
             Inl e \<Rightarrow> (if e = ExprErr \<or> e = TypErr then Some False else None, r, w)
           | Inr ps \<Rightarrow>
               (let (ps, w) = (if sr_dry r then (ps, w)
                               else let (now, w) = so_mono ops w in (dict_set ''override_s'' (VInt (override_for (deadline - now))) ps, w))
                in (case (dict_get c ''device'', dict_get c ''name'') of
                      (Some d, Some n) \<Rightarrow>
                        (let ca = \<lparr> ca_device = json_text (so_text ops) d, ca_name = json_text (so_text ops) n, ca_params = ps, ca_dry = sr_dry r \<rparr>;
                             (a, w) = so_run ops ca w;
                             ok = (case a of Some st \<Rightarrow> good_status st | None \<Rightarrow> False)
                         in (map_option good_status a, r\<lparr>sr_calls := sr_calls r @ [(ca, ok)]\<rparr>, w))
                    | _ \<Rightarrow> (None, r, w))))
      | _ \<Rightarrow> (None, r, w))"

section \<open>The run\<close>

text \<open>
  One step of \<open>_execute\<close> after the cancel and the deadline were looked at: None to go on, or
  why the run stops.
\<close>

definition wait_step :: "'w seq_ops \<Rightarrow> step \<Rightarrow> json \<Rightarrow> seq_run \<Rightarrow> 'w \<Rightarrow> (stop option \<times> seq_run \<times> 'w) option" where
  "wait_step ops s j r w =
     (if sr_dry r then Some (None, add_note ''wait'' True r, w)
      else (case json_float j of
              Inl e \<Rightarrow> Some (Some Raised, r, w)
            | Inr q \<Rightarrow> Option.bind (seq_wait ops (sr_deadline r) q w) (\<lambda>(st, w).
                Some (st, if st = None then add_note ''wait'' True r else r, w))))"

definition until_step :: "'w seq_ops \<Rightarrow> nat \<Rightarrow> step \<Rightarrow> json \<Rightarrow> seq_run \<Rightarrow> 'w \<Rightarrow> (stop option \<times> seq_run \<times> 'w) option" where
  "until_step ops i s j r w =
     (if sr_dry r
      then (case seq_truth ops j w of
              (Inl u, w) \<Rightarrow> Some (Some Raised, r, w) | (Inr t, w) \<Rightarrow> Some (None, add_note ''wait_until'' True r, w))
      else (let (now, w) = so_mono ops w
            in (case dict_get s ''timeout_s'' of
                  None \<Rightarrow> Some (Some Raised, r, w)
                | Some tj \<Rightarrow>
                    (case json_float tj of
                       Inl e \<Rightarrow> Some (Some Raised, r, w)
                     | Inr q \<Rightarrow> Option.bind (until_loop ops (sr_deadline r) i s (now + q) w) (\<lambda>(st, w).
                         Some (st, if st = None then add_note ''wait_until'' True r else r, w))))))"

definition check_here :: "'w seq_ops \<Rightarrow> nat \<Rightarrow> step \<Rightarrow> seq_run \<Rightarrow> 'w \<Rightarrow> (stop option \<times> seq_run \<times> 'w) option" where
  "check_here ops i s r w =
     (case dict_get s ''check'' of
        None \<Rightarrow> Some (Some Raised, r, w)
      | Some x \<Rightarrow>
          (case seq_truth ops x w of
             (Inl u, w) \<Rightarrow> Some (Some Raised, r, w)
           | (Inr t, w) \<Rightarrow>
               Some (if t \<noteq> Some True \<and> get_or s ''else'' (Leaf (VStr ''abort'')) = Leaf (VStr ''abort'') \<and> \<not> sr_dry r
                     then Some (NotTrue i) else None,
                     add_note ''check'' (t = Some True) r, w)))"

definition command_step :: "'w seq_ops \<Rightarrow> nat \<Rightarrow> step \<Rightarrow> seq_run \<Rightarrow> 'w \<Rightarrow> (stop option \<times> seq_run \<times> 'w) option" where
  "command_step ops i s r w =
     (case seq_command ops (sr_deadline r) s r w of
        (None, r, w) \<Rightarrow> Some (Some Raised, r, w)
      | (Some ok, r, w) \<Rightarrow> Some (if ok then None else Some (StepFailed i), add_note ''command'' ok r, w))"

definition do_step :: "'w seq_ops \<Rightarrow> nat \<Rightarrow> step \<Rightarrow> seq_run \<Rightarrow> 'w \<Rightarrow> (stop option \<times> seq_run \<times> 'w) option" where
  "do_step ops i s r w =
     (if dict_get s ''command'' \<noteq> None then command_step ops i s r w
      else (case dict_get s ''wait_s'' of
              Some j \<Rightarrow> wait_step ops s j r w
            | None \<Rightarrow> (case dict_get s ''wait_until'' of
                Some j \<Rightarrow> until_step ops i s j r w
              | None \<Rightarrow> check_here ops i s r w)))"

fun do_steps :: "'w seq_ops \<Rightarrow> nat \<Rightarrow> step list \<Rightarrow> seq_run \<Rightarrow> 'w \<Rightarrow> (stop option \<times> seq_run \<times> 'w) option" where
  "do_steps ops i [] r w = Some (None, r, w)"
| "do_steps ops i (s # ss) r w =
     (let r = r\<lparr>sr_step := i\<rparr>; (c, w) = so_cancelled ops w
      in if c then Some (Some Cancelled, r, w)
         else (let (now, w) = so_mono ops w
               in if sr_deadline r - now \<le> 0 then Some (Some PastDuration, r, w)
                  else Option.bind (do_step ops i s r w) (\<lambda>(st, r, w).
                         if st = None then do_steps ops (Suc i) ss r w else Some (st, r, w))))"

text \<open>The undo: every command of it, each with two minutes of its own; False when one raises.\<close>

fun undo_steps :: "'w seq_ops \<Rightarrow> step list \<Rightarrow> seq_run \<Rightarrow> 'w \<Rightarrow> bool \<times> seq_run \<times> 'w" where
  "undo_steps ops [] r w = (True, r, w)"
| "undo_steps ops (s # ss) r w =
     (let (now, w) = so_mono ops w
      in (case seq_command ops (now + 120) s r w of
            (None, r, w) \<Rightarrow> (False, r, w)
          | (Some ok, r, w) \<Rightarrow> undo_steps ops ss (add_note ''on_abort'' ok r) w))"

definition end_status :: "seq_run \<Rightarrow> stop option \<Rightarrow> run_status" where
  "end_status r st = (case st of None \<Rightarrow> if sr_dry r then Dry else Done | Some Cancelled \<Rightarrow> CancelledRun | Some _ \<Rightarrow> Aborted)"

text \<open>\<open>_execute\<close> up to its entry in the record of runs; False when it raises on the way.\<close>

definition execute :: "'w seq_ops \<Rightarrow> sequence \<Rightarrow> seq_run \<Rightarrow> 'w \<Rightarrow> (bool \<times> seq_run \<times> 'w) option" where
  "execute ops sq r w =
     Option.bind (do_steps ops 0 (sq_steps sq) r w) (\<lambda>(st, r, w).
       let final = end_status r st
       in if final \<in> {CancelledRun, Aborted} \<and> sq_on_abort sq \<noteq> [] \<and> \<not> sr_dry r
          then (let (ok, r, w) = undo_steps ops (sq_on_abort sq) (r\<lparr>sr_status := Undoing, sr_reason := st\<rparr>) w
                in Some (ok, if ok then r\<lparr>sr_status := final\<rparr> else r, w))
          else Some (True, r\<lparr>sr_status := final, sr_reason := st\<rparr>, w))"

section \<open>The runner\<close>

record runner =
  rn_running :: "(string, seq_run) dict"
  rn_runs :: "(string, seq_run list) dict"

text \<open>\<open>devices()\<close>; None when a command step names none.\<close>

definition seq_devices :: "sequence \<Rightarrow> json list option" where
  "seq_devices sq =
     (let ds = map (\<lambda>s. case dict_get s ''command'' of Some (DictE c) \<Rightarrow> dict_get c ''device'' | _ \<Rightarrow> None)
                 (filter (\<lambda>s. dict_get s ''command'' \<noteq> None) (sq_steps sq @ sq_on_abort sq))
      in if None \<in> set ds then None else Some (remdups (map the ds)))"

datatype busy = AlreadyRunning | DeviceBusy string

fun busy_device :: "json list \<Rightarrow> (string, seq_run) dict \<Rightarrow> busy option" where
  "busy_device mine [] = None"
| "busy_device mine ((oid, r) # rs) = (if set mine \<inter> set (sr_devices r) \<noteq> {} then Some (DeviceBusy oid) else busy_device mine rs)"

definition busy_with :: "sequence \<Rightarrow> json list \<Rightarrow> runner \<Rightarrow> busy option" where
  "busy_with sq mine rn =
     (if dict_get (rn_running rn) (sq_id sq) \<noteq> None then Some AlreadyRunning else busy_device mine (rn_running rn))"

text \<open>\<open>start\<close> takes the lock twice: once to look, once to enter.\<close>

datatype refusal = Unprocessable | Standby | Conflict busy

definition shell :: "sequence \<Rightarrow> command" where
  "shell sq = \<lparr> cd_params = sq_params sq, cd_guard = [], cd_writes = [], cd_settle = 1, cd_verify = [], cd_alias = None, cd_channel = [], cd_on = [] \<rparr>"

definition admit :: "bool \<Rightarrow> bool \<Rightarrow> sequence \<Rightarrow> json list \<Rightarrow> (string, pyval) dict \<Rightarrow> runner \<Rightarrow> refusal + (string, pyval) dict" where
  "admit wire dry sq mine params rn =
     (case normalize_params (shell sq) params of
        Inl e \<Rightarrow> Inl Unprocessable
      | Inr nps \<Rightarrow>
          if dry then Inr nps
          else if \<not> wire then Inl Standby
          else (case busy_with sq mine rn of Some b \<Rightarrow> Inl (Conflict b) | None \<Rightarrow> Inr nps))"

definition new_run :: "sequence \<Rightarrow> json list \<Rightarrow> bool \<Rightarrow> (string, pyval) dict \<Rightarrow> rat \<Rightarrow> seq_run" where
  "new_run sq mine dry nps now = \<lparr> sr_params = nps, sr_dry = dry, sr_status = Running, sr_step = 0, sr_notes = [], sr_devices = mine,
     sr_deadline = now + sq_max_duration sq, sr_reason = None, sr_calls = [] \<rparr>"

definition enter_run :: "string \<Rightarrow> seq_run \<Rightarrow> runner \<Rightarrow> runner" where
  "enter_run sid r rn = rn\<lparr>rn_running := dict_set sid r (rn_running rn)\<rparr>"

text \<open>A run that ended leaves, and is the newest of the twenty kept.\<close>

definition leave_run :: "string \<Rightarrow> seq_run \<Rightarrow> runner \<Rightarrow> runner" where
  "leave_run sid r rn =
     (if sr_dry r then rn
      else rn\<lparr>rn_running := dict_del sid (rn_running rn),
              rn_runs := dict_set sid (take 20 (r # (case dict_get (rn_runs rn) sid of Some rs \<Rightarrow> rs | None \<Rightarrow> []))) (rn_runs rn)\<rparr>)"

section \<open>A run ends\<close>

text \<open>
  A world whose monotonic clock never goes back, whose \<open>clk\<close> is between two readings what
  the readings say, and whose sleep lasts at least as long as it was asked to.
\<close>

definition steady :: "'w seq_ops \<Rightarrow> ('w \<Rightarrow> rat) \<Rightarrow> bool" where
  "steady ops clk \<longleftrightarrow>
     (\<forall>w. clk w \<le> fst (so_mono ops w) \<and> fst (so_mono ops w) \<le> clk (snd (so_mono ops w)))
   \<and> (\<forall>s w. 0 \<le> s \<longrightarrow> clk w + s \<le> clk (so_sleep ops s w))
   \<and> (\<forall>w. clk w \<le> clk (snd (so_cancelled ops w))) \<and> (\<forall>w. clk w \<le> clk (snd (so_read ops w)))
   \<and> (\<forall>c w. clk w \<le> clk (snd (so_run ops c w)))"

lemma steady_mono: "steady ops clk \<Longrightarrow> so_mono ops w = (t, w') \<Longrightarrow> clk w \<le> t \<and> t \<le> clk w'"
  unfolding steady_def by (metis fst_conv snd_conv)

lemma steady_cancelled: "steady ops clk \<Longrightarrow> so_cancelled ops w = (c, w') \<Longrightarrow> clk w \<le> clk w'"
  unfolding steady_def by (metis snd_conv)

lemma steady_sleep: "steady ops clk \<Longrightarrow> 0 \<le> s \<Longrightarrow> clk w + s \<le> clk (so_sleep ops s w)"
  unfolding steady_def by blast

lemma steady_run: "steady ops clk \<Longrightarrow> so_run ops c w = (a, w') \<Longrightarrow> clk w \<le> clk w'"
  unfolding steady_def by (metis snd_conv)

lemma steady_truth: "steady ops clk \<Longrightarrow> seq_truth ops x w = (v, w') \<Longrightarrow> clk w \<le> clk w'"
  unfolding steady_def seq_truth_def by (auto split: json.splits pyval.splits prod.splits) (metis snd_conv)

text \<open>What is left of a wait, in slices.\<close>

definition slices :: "rat \<Rightarrow> rat \<Rightarrow> rat \<Rightarrow> nat" where
  "slices q e t = nat \<lceil>(e - t) * q\<rceil>"

lemma slices_less:
  assumes "0 < q" "t \<le> t1" "0 < e - t1" "t1 + min (1 / q) (e - t1) \<le> t2"
  shows "slices q e t2 < slices q e t"
proof -
  have "0 < (e - t) * q" using assms by simp
  have le: "(e - t2) * q \<le> (e - t1) * q - min 1 ((e - t1) * q)"
  proof -
    have "(e - t2) * q \<le> (e - t1 - min (1 / q) (e - t1)) * q" using assms by (intro mult_right_mono) auto
    also have "\<dots> = (e - t1) * q - min (1 / q) (e - t1) * q" by (simp add: algebra_simps)
    also have "min (1 / q) (e - t1) * q = min 1 ((e - t1) * q)" using assms(1) by (simp add: min_def field_simps)
    finally show ?thesis .
  qed
  have ge: "(e - t1) * q \<le> (e - t) * q" using assms by (intro mult_right_mono) auto
  have pos: "0 < (e - t1) * q" using assms by simp
  show ?thesis
  proof (cases "(e - t1) * q \<le> 1")
    case True
    then have "(e - t2) * q \<le> 0" using le by simp
    then have "slices q e t2 = 0" by (simp add: slices_def)
    moreover have "0 < slices q e t" using pos ge by (simp add: slices_def)
    ultimately show ?thesis by simp
  next
    case False
    then have "(e - t2) * q \<le> (e - t) * q - 1" using le ge by simp
    then have "\<lceil>(e - t2) * q\<rceil> \<le> \<lceil>(e - t) * q\<rceil> - 1" by (metis ceiling_diff_one ceiling_mono)
    moreover have "1 \<le> \<lceil>(e - t) * q\<rceil>" using pos ge by linarith
    ultimately show ?thesis unfolding slices_def by linarith
  qed
qed

lemma wait_loop_ends:
  assumes "steady ops clk"
  shows "\<exists>st w'. wait_loop ops d e w = Some (st, w') \<and> clk w \<le> clk w' \<and> (st = None \<longrightarrow> e \<le> clk w')"
proof (induction "slices 2 e (clk w)" arbitrary: w rule: less_induct)
  case less
  obtain c w1 where c: "so_cancelled ops w = (c, w1)" by fastforce
  obtain t w2 where t: "so_mono ops w1 = (t, w2)" by fastforce
  obtain u w3 where u: "so_mono ops w2 = (u, w3)" by fastforce
  note ord = steady_cancelled [OF assms c] steady_mono [OF assms t] steady_mono [OF assms u]
  show ?case
  proof (cases "c \<or> e - t \<le> 0 \<or> d - u \<le> 0")
    case True
    then show ?thesis using c t u ord by (auto simp: wait_loop.simps Let_def)
  next
    case False
    let ?w = "so_sleep ops (min (1/2) (e - t)) w3"
    have sl: "clk w3 + min (1/2) (e - t) \<le> clk ?w" using assms False by (intro steady_sleep) auto
    have "slices 2 e (clk ?w) < slices 2 e (clk w)"
      using ord sl False by (intro slices_less [of 2 "clk w" t e "clk ?w"]) auto
    from less [OF this] obtain st w' where "wait_loop ops d e ?w = Some (st, w')" "clk ?w \<le> clk w'" "st = None \<longrightarrow> e \<le> clk w'" by blast
    moreover have "wait_loop ops d e w = wait_loop ops d e ?w"
      using False by (subst wait_loop.simps) (simp add: c t u not_le del: min_less_iff_conj)
    moreover have "clk w \<le> clk ?w" using ord sl False by auto
    ultimately show ?thesis by force
  qed
qed

lemma seq_wait_ends:
  assumes "steady ops clk"
  shows "\<exists>st w'. seq_wait ops d s w = Some (st, w') \<and> clk w \<le> clk w' \<and> (st = None \<longrightarrow> clk w + s \<le> clk w')"
proof -
  obtain t w1 where t: "so_mono ops w = (t, w1)" by fastforce
  from wait_loop_ends [OF assms] obtain st w' where "wait_loop ops d (t + s) w1 = Some (st, w')" "clk w1 \<le> clk w'" "st = None \<longrightarrow> t + s \<le> clk w'" by blast
  then show ?thesis using t steady_mono [OF assms t] by (auto simp: seq_wait_def)
qed

lemma until_loop_ends:
  assumes "steady ops clk"
  shows "\<exists>st w'. until_loop ops d i s e w = Some (st, w') \<and> clk w \<le> clk w'"
proof (induction "slices 1 e (clk w)" arbitrary: w rule: less_induct)
  case less
  obtain v w1 where v: "seq_truth ops (get_or s ''wait_until'' null) w = (v, w1)" by fastforce
  obtain t w2 where t: "so_mono ops w1 = (t, w2)" by fastforce
  obtain u w3 where u: "so_mono ops w2 = (u, w3)" by fastforce
  note ord = steady_truth [OF assms v] steady_mono [OF assms t] steady_mono [OF assms u]
  show ?case
  proof (cases "(\<exists>x. v = Inl x) \<or> v = Inr (Some True) \<or> e \<le> t")
    case True
    then show ?thesis using v t u ord by (cases v) (auto simp: until_loop.simps Let_def)
  next
    case False
    from seq_wait_ends [OF assms, of d "min 1 (max 0 (e - u))" w3] obtain st w4 where
      wt: "seq_wait ops d (min 1 (max 0 (e - u))) w3 = Some (st, w4)" "clk w3 \<le> clk w4" "st = None \<longrightarrow> clk w3 + min 1 (max 0 (e - u)) \<le> clk w4" by blast
    have unf: "until_loop ops d i s e w = (if st = None then until_loop ops d i s e w4 else Some (st, w4))"
      using False by (subst until_loop.simps) (auto simp: v t u wt split: sum.splits)
    show ?thesis
    proof (cases st)
      case None
      have "slices 1 e (clk w4) < slices 1 e (clk w)"
      proof (cases "u < e")
        case True
        then show ?thesis using ord wt None by (intro slices_less [of 1 "clk w" u e "clk w4"]) auto
      next
        case ge: False
        then have "slices 1 e (clk w4) = 0" using ord wt by (auto simp: slices_def)
        moreover have "0 < slices 1 e (clk w)" using ord False by (auto simp: slices_def)
        ultimately show ?thesis by simp
      qed
      from less [OF this] obtain st' w' where "until_loop ops d i s e w4 = Some (st', w')" "clk w4 \<le> clk w'" by blast
      then show ?thesis using unf None ord wt(2) by auto
    next
      case (Some x)
      then show ?thesis using unf ord wt(2) by auto
    qed
  qed
qed

lemma seq_command_clk:
  assumes "steady ops clk" "seq_command ops d s r w = (a, r', w')"
  shows "clk w \<le> clk w'"
proof -
  obtain now w1 where n: "so_mono ops w = (now, w1)" by fastforce
  have "clk w \<le> clk w1" using steady_mono [OF assms(1) n] by linarith
  then show ?thesis using assms(2) n steady_run [OF assms(1)]
    by (fastforce simp: seq_command_def Let_def split: option.splits json.splits sum.splits prod.splits if_splits)
qed

definition goes_forward :: "('w \<Rightarrow> rat) \<Rightarrow> 'w \<Rightarrow> (stop option \<times> seq_run \<times> 'w) option \<Rightarrow> bool" where
  "goes_forward clk w res = (\<exists>st r' w'. res = Some (st, r', w') \<and> clk w \<le> clk w')"

lemma goes_forwardI [intro]: "res = Some (st, r', w') \<Longrightarrow> clk w \<le> clk w' \<Longrightarrow> goes_forward clk w res"
  by (auto simp: goes_forward_def)

lemma do_step_ends:
  assumes "steady ops clk"
  shows "goes_forward clk w (do_step ops i s r w)"
proof -
  have cmd: "goes_forward clk w (command_step ops i s r w)"
  proof -
    obtain a r1 w1 where a: "seq_command ops (sr_deadline r) s r w = (a, r1, w1)" by (metis prod.exhaust)
    from seq_command_clk [OF assms this] show ?thesis by (cases a) (auto simp: command_step_def a goes_forward_def)
  qed
  have chk: "goes_forward clk w (check_here ops i s r w)"
    using steady_truth [OF assms] by (fastforce simp: check_here_def goes_forward_def split: option.split prod.split sum.split)
  have wt: "goes_forward clk w (wait_step ops s j r w)" for j
  proof (cases "\<exists>q. \<not> sr_dry r \<and> json_float j = Inr q")
    case True
    then obtain q where q: "\<not> sr_dry r" "json_float j = Inr q" by blast
    from seq_wait_ends [OF assms, of "sr_deadline r" q w] obtain st w' where "seq_wait ops (sr_deadline r) q w = Some (st, w')" "clk w \<le> clk w'" by blast
    then show ?thesis using q by (auto simp: wait_step_def goes_forward_def)
  next
    case False
    then show ?thesis by (auto simp: wait_step_def goes_forward_def split: sum.split)
  qed
  have ut: "goes_forward clk w (until_step ops i s j r w)" for j
  proof (cases "sr_dry r")
    case True
    then show ?thesis using steady_truth [OF assms] by (fastforce simp: until_step_def goes_forward_def split: prod.split sum.split)
  next
    case False
    obtain now w1 where n: "so_mono ops w = (now, w1)" by fastforce
    note le = steady_mono [OF assms n]
    show ?thesis
    proof (cases "\<exists>tj q. dict_get s ''timeout_s'' = Some tj \<and> json_float tj = Inr q")
      case True
      then obtain tj q where q: "dict_get s ''timeout_s'' = Some tj" "json_float tj = Inr q" by blast
      from until_loop_ends [OF assms, of "sr_deadline r" i s "now + q" w1] obtain st w' where
        "until_loop ops (sr_deadline r) i s (now + q) w1 = Some (st, w')" "clk w1 \<le> clk w'" by blast
      then show ?thesis using q n False le by (auto simp: until_step_def goes_forward_def)
    next
      case none: False
      then show ?thesis using n False le by (auto simp: until_step_def goes_forward_def split: option.split sum.split)
    qed
  qed
  show ?thesis using cmd chk wt ut by (simp add: do_step_def split: option.split)
qed

lemma do_steps_ends:
  assumes "steady ops clk"
  shows "goes_forward clk w (do_steps ops i ss r w)"
proof (induction ss arbitrary: i r w)
  case Nil
  then show ?case by (auto simp: goes_forward_def)
next
  case (Cons s ss)
  let ?r = "r\<lparr>sr_step := i\<rparr>"
  obtain c w1 where c: "so_cancelled ops w = (c, w1)" by fastforce
  obtain t w2 where t: "so_mono ops w1 = (t, w2)" by fastforce
  note ord = steady_cancelled [OF assms c] steady_mono [OF assms t]
  from do_step_ends [OF assms, of w2 i s ?r] obtain st r3 w3 where d: "do_step ops i s ?r w2 = Some (st, r3, w3)" "clk w2 \<le> clk w3"
    by (auto simp: goes_forward_def)
  have "goes_forward clk w3 (do_steps ops (Suc i) ss r3 w3)" by (rule Cons.IH)
  then obtain st4 r4 w4 where "do_steps ops (Suc i) ss r3 w3 = Some (st4, r4, w4)" "clk w3 \<le> clk w4" by (auto simp: goes_forward_def)
  then show ?case using c t d ord by (cases c; cases "sr_deadline r - t \<le> 0"; cases st) (auto simp: goes_forward_def Let_def)
qed

lemma undo_steps_clk:
  assumes "steady ops clk"
  shows "undo_steps ops ss r w = (ok, r', w') \<Longrightarrow> clk w \<le> clk w'"
proof (induction ss arbitrary: r w)
  case (Cons s ss)
  obtain t w1 where t: "so_mono ops w = (t, w1)" by fastforce
  obtain a r2 w2 where a: "seq_command ops (t + 120) s r w1 = (a, r2, w2)" by (metis prod.exhaust)
  have "clk w \<le> clk w2" using steady_mono [OF assms t] seq_command_clk [OF assms a] by linarith
  then show ?case using Cons a t by (cases a) (auto, fastforce)
qed simp

text \<open>
  C13 (termination): A run ends: if the clock does not go back and sleep lasts at least as long
  as asked, the waits and the whole run return, and unless a command of the undo raises, the
  run has one of its final statuses.
\<close>

theorem sequence_ends:
  assumes "steady ops clk"
  shows "\<exists>ok r' w'. execute ops sq r w = Some (ok, r', w') \<and> clk w \<le> clk w'
    \<and> (ok \<longrightarrow> sr_status r' \<in> {Done, Dry, CancelledRun, Aborted})"
proof -
  from do_steps_ends [OF assms, of w 0 "sq_steps sq" r] obtain st r1 w1 where d: "do_steps ops 0 (sq_steps sq) r w = Some (st, r1, w1)" "clk w \<le> clk w1"
    by (auto simp: goes_forward_def)
  have fin: "end_status r1 st \<in> {Done, Dry, CancelledRun, Aborted}" by (auto simp: end_status_def split: option.split stop.split)
  let ?r = "r1\<lparr>sr_status := Undoing, sr_reason := st\<rparr>"
  obtain ok r2 w2 where u: "undo_steps ops (sq_on_abort sq) ?r w1 = (ok, r2, w2)" by (metis prod.exhaust)
  have "clk w \<le> clk w2" using undo_steps_clk [OF assms u] d(2) by linarith
  then show ?thesis using d u fin by (simp add: execute_def Let_def) blast
qed

section \<open>The calls of a run\<close>

text \<open>
  What a step asks of the write path, were it reached: device, command and parameters. None
  for a step that is no command, or whose parameters do not evaluate.
\<close>

definition target :: "(json \<Rightarrow> string) \<Rightarrow> (string, pyval) dict \<Rightarrow> step \<Rightarrow> (string \<times> string \<times> (string, pyval) dict) option" where
  "target rep ps s =
     (case dict_get s ''command'' of
        Some (DictE c) \<Rightarrow>
          (case (ebind (dict_items (get_or c ''params'' null)) (evaluate_all rep ps), dict_get c ''device'', dict_get c ''name'') of
             (Inr v, Some d, Some n) \<Rightarrow> Some (json_text rep d, json_text rep n, dict_del ''override_s'' v)
           | _ \<Rightarrow> None)
      | _ \<Rightarrow> None)"

definition targets :: "(json \<Rightarrow> string) \<Rightarrow> (string, pyval) dict \<Rightarrow> step list \<Rightarrow> (string \<times> string \<times> (string, pyval) dict) list" where
  "targets rep ps ss = List.map_filter (target rep ps) ss"

lemma targets_simps [simp]:
  "targets rep ps [] = []" "targets rep ps (s # ss) = (case target rep ps s of Some t \<Rightarrow> t # targets rep ps ss | None \<Rightarrow> targets rep ps ss)"
  by (simp_all add: targets_def List.map_filter_simps split: option.split)

definition call_id :: "call \<times> bool \<Rightarrow> string \<times> string \<times> (string, pyval) dict" where
  "call_id c = (ca_device (fst c), ca_name (fst c), dict_del ''override_s'' (ca_params (fst c)))"

text \<open>A call of a dry run is a dry one; every other one holds its channel for one second to an hour.\<close>

definition call_fits :: "bool \<Rightarrow> call \<times> bool \<Rightarrow> bool" where
  "call_fits dry c = (ca_dry (fst c) = dry
     \<and> (\<not> dry \<longrightarrow> (\<exists>n. dict_get (ca_params (fst c)) ''override_s'' = Some (VInt n) \<and> 1 \<le> n \<and> n \<le> 3600)))"

lemma override_bounds: "1 \<le> override_for q" "override_for q \<le> 3600"
proof -
  have "py_trunc (min q 3600) \<le> 3600" by (auto simp: py_trunc_def floor_le_iff ceiling_le_iff)
  then show "1 \<le> override_for q" "override_for q \<le> 3600" by (simp_all add: override_for_def MAX_DURATION_S_def)
qed

text \<open>What a part of a run adds to the journal.\<close>

definition adds :: "seq_run \<Rightarrow> seq_run \<Rightarrow> (call \<times> bool) list \<Rightarrow> bool" where
  "adds r r' new \<longleftrightarrow> sr_calls r' = sr_calls r @ new \<and> sr_params r' = sr_params r \<and> sr_dry r' = sr_dry r \<and> list_all (call_fits (sr_dry r)) new"

lemma adds_none [simp]: "adds r r []" by (simp add: adds_def)

lemma adds_trans: "adds r r1 a \<Longrightarrow> adds r1 r2 b \<Longrightarrow> adds r r2 (a @ b)" by (auto simp: adds_def)

lemma adds_same [simp]: "adds r (add_note k ok r') new = adds r r' new" "adds r (r'\<lparr>sr_step := i\<rparr>) new = adds r r' new"
  "adds (r\<lparr>sr_step := i\<rparr>) r' new = adds r r' new" "adds r (r'\<lparr>sr_status := x\<rparr>) new = adds r r' new" "adds r (r'\<lparr>sr_reason := y\<rparr>) new = adds r r' new"
  "adds (r\<lparr>sr_status := x\<rparr>) r' new = adds r r' new" "adds (r\<lparr>sr_reason := y\<rparr>) r' new = adds r r' new"
  by (simp_all add: adds_def add_note_def)

lemma seq_command_calls:
  assumes "seq_command ops d s r w = (a, r', w')"
  shows "\<exists>new. adds r r' new \<and> (case target (so_text ops) (sr_params r) s of
      None \<Rightarrow> new = [] \<and> a \<noteq> Some True
    | Some tg \<Rightarrow> \<exists>c. new = [c] \<and> call_id c = tg \<and> (snd c \<longleftrightarrow> a = Some True))"
proof (cases "\<exists>c v dv nm. dict_get s ''command'' = Some (DictE c) \<and> ebind (dict_items (get_or c ''params'' null)) (evaluate_all (so_text ops) (sr_params r)) = Inr v
    \<and> dict_get c ''device'' = Some dv \<and> dict_get c ''name'' = Some nm")
  case True
  then obtain c v dv nm where c: "dict_get s ''command'' = Some (DictE c)"
    "ebind (dict_items (get_or c ''params'' null)) (evaluate_all (so_text ops) (sr_params r)) = Inr v"
    "dict_get c ''device'' = Some dv" "dict_get c ''name'' = Some nm" by blast
  obtain now w1 where n: "so_mono ops w = (now, w1)" by fastforce
  let ?v = "if sr_dry r then v else dict_set ''override_s'' (VInt (override_for (d - now))) v"
  let ?ca = "\<lparr> ca_device = json_text (so_text ops) dv, ca_name = json_text (so_text ops) nm, ca_params = ?v, ca_dry = sr_dry r \<rparr>"
  obtain b w2 where b: "so_run ops ?ca (if sr_dry r then w else w1) = (b, w2)" by fastforce
  have r: "a = map_option good_status b" "r' = r\<lparr>sr_calls := sr_calls r @ [(?ca, case b of Some st \<Rightarrow> good_status st | None \<Rightarrow> False)]\<rparr>"
    using assms c n b by (cases "sr_dry r"; simp add: seq_command_def)+
  let ?ok = "case b of Some st \<Rightarrow> good_status st | None \<Rightarrow> False"
  have A: "adds r r' [(?ca, ?ok)]" using r(2) override_bounds by (simp add: adds_def call_fits_def dict_simps)
  have T: "target (so_text ops) (sr_params r) s = Some (call_id (?ca, ?ok))"
    using c by (simp add: target_def call_id_def delete_update_same)
  have B: "snd (?ca, ?ok) \<longleftrightarrow> a = Some True" using r(1) by (auto split: option.split)
  show ?thesis unfolding T option.case by (intro exI conjI, rule A, rule refl, rule refl, rule B)
next
  case False
  then have "target (so_text ops) (sr_params r) s = None" by (auto simp: target_def split: option.split json.split sum.split)
  moreover have "r' = r \<and> a \<noteq> Some True"
    using assms False by (auto simp: seq_command_def Let_def split: option.splits json.splits sum.splits prod.splits if_splits)
  ultimately show ?thesis by (auto intro!: exI [of _ "[]"])
qed

lemma do_step_calls:
  assumes "do_step ops i s r w = Some (st, r', w')"
  shows "\<exists>new. adds r r' new \<and> (case target (so_text ops) (sr_params r) s of
      None \<Rightarrow> new = []
    | Some tg \<Rightarrow> \<exists>c. new = [c] \<and> call_id c = tg \<and> (snd c \<longleftrightarrow> st = None))"
proof (cases "dict_get s ''command''")
  case None
  then have "target (so_text ops) (sr_params r) s = None" by (simp add: target_def)
  moreover have "adds r r' []"
    using assms None
    by (auto simp: do_step_def wait_step_def until_step_def check_here_def Let_def bind_eq_Some_conv
        split: option.splits if_splits prod.splits sum.splits)
  ultimately show ?thesis by auto
next
  case (Some j)
  obtain a r1 w1 where a: "seq_command ops (sr_deadline r) s r w = (a, r1, w1)" by (metis prod.exhaust)
  then have st: "st = None \<longleftrightarrow> a = Some True" using assms Some
    by (cases a) (auto simp: do_step_def command_step_def split: if_splits)
  have same: "adds r r' new \<longleftrightarrow> adds r r1 new" for new using a assms Some
    by (cases a) (auto simp: do_step_def command_step_def split: if_splits)
  show ?thesis using seq_command_calls [OF a] unfolding st same by (auto split: option.splits)
qed

text \<open>The journal is the beginning of the calls the steps ask for, each but the last gone well.\<close>

definition runs_along :: "(call \<times> bool) list \<Rightarrow> (string \<times> string \<times> (string, pyval) dict) list \<Rightarrow> bool \<Rightarrow> bool" where
  "runs_along new ts fin = (prefix (map call_id new) ts \<and> list_all snd (butlast new)
     \<and> (fin \<longrightarrow> map call_id new = ts \<and> list_all snd new))"

lemma do_steps_calls:
  "do_steps ops i ss r w = Some (st, r', w') \<Longrightarrow>
     \<exists>new. adds r r' new \<and> runs_along new (targets (so_text ops) (sr_params r) ss) (st = None)"
proof (induction ss arbitrary: i r w)
  case Nil
  then show ?case by (auto simp: runs_along_def intro!: exI [of _ "[]"])
next
  case (Cons s ss)
  let ?r = "r\<lparr>sr_step := i\<rparr>"
  obtain c w1 where c: "so_cancelled ops w = (c, w1)" by fastforce
  obtain t w2 where t: "so_mono ops w1 = (t, w2)" by fastforce
  show ?case
  proof (cases "c \<or> sr_deadline r \<le> t")
    case True
    then have "st \<noteq> None" "r' = ?r" using Cons.prems c t by (auto simp: Let_def split: if_splits)
    then show ?thesis by (auto simp: runs_along_def intro!: exI [of _ "[]"])
  next
    case False
    then obtain st1 r1 w3 where d: "do_step ops i s ?r w2 = Some (st1, r1, w3)"
      and rest: "(if st1 = None then do_steps ops (Suc i) ss r1 w3 else Some (st1, r1, w3)) = Some (st, r', w')"
      using Cons.prems c t by (auto simp: Let_def bind_eq_Some_conv split: if_splits)
    obtain n1 where n1: "adds r r1 n1" "case target (so_text ops) (sr_params r) s of None \<Rightarrow> n1 = [] | Some tg \<Rightarrow> \<exists>c. n1 = [c] \<and> call_id c = tg \<and> (snd c \<longleftrightarrow> st1 = None)"
      using do_step_calls [OF d] by auto
    show ?thesis
    proof (cases "st1 = None")
      case True
      with rest have "do_steps ops (Suc i) ss r1 w3 = Some (st, r', w')" by simp
      from Cons.IH [OF this] n1(1) obtain n2 where n2: "adds r1 r' n2" "runs_along n2 (targets (so_text ops) (sr_params r) ss) (st = None)"
        by (auto simp: adds_def)
      have "runs_along (n1 @ n2) (targets (so_text ops) (sr_params r) (s # ss)) (st = None)"
        using n1(2) n2(2) True by (cases n2) (auto simp: runs_along_def split: option.splits)
      then show ?thesis using adds_trans [OF n1(1) n2(1)] by blast
    next
      case False
      then have "st \<noteq> None" "r' = r1" using rest by auto
      moreover have "runs_along n1 (targets (so_text ops) (sr_params r) (s # ss)) False"
        using n1(2) by (auto simp: runs_along_def split: option.splits)
      ultimately show ?thesis using n1(1) by auto
    qed
  qed
qed

lemma undo_steps_calls:
  "undo_steps ops ss r w = (ok, r', w') \<Longrightarrow>
     \<exists>new. adds r r' new \<and> prefix (map call_id new) (targets (so_text ops) (sr_params r) ss)
       \<and> (ok \<longrightarrow> map call_id new = targets (so_text ops) (sr_params r) ss)"
proof (induction ss arbitrary: r w)
  case Nil
  then show ?case by (auto intro!: exI [of _ "[]"])
next
  case (Cons s ss)
  obtain t w1 where t: "so_mono ops w = (t, w1)" by fastforce
  obtain a r1 w2 where a: "seq_command ops (t + 120) s r w1 = (a, r1, w2)" by (metis prod.exhaust)
  obtain n1 where n1: "adds r r1 n1" "case target (so_text ops) (sr_params r) s of None \<Rightarrow> n1 = [] | Some tg \<Rightarrow> \<exists>c. n1 = [c] \<and> call_id c = tg"
    using seq_command_calls [OF a] by (auto split: option.splits)
  show ?case
  proof (cases a)
    case None
    then have "r' = r1" "\<not> ok" using Cons.prems t a by auto
    then show ?thesis using n1 by (auto split: option.splits)
  next
    case (Some b)
    then have "undo_steps ops ss (add_note ''on_abort'' b r1) w2 = (ok, r', w')" using Cons.prems t a by simp
    from Cons.IH [OF this] obtain n2 where n2: "adds (add_note ''on_abort'' b r1) r' n2"
      "prefix (map call_id n2) (targets (so_text ops) (sr_params r1) ss)" "ok \<longrightarrow> map call_id n2 = targets (so_text ops) (sr_params r1) ss"
      by (auto simp: add_note_def)
    have p: "sr_params r1 = sr_params r" using n1(1) by (simp add: adds_def)
    have "adds r r' (n1 @ n2)" using n1(1) n2(1) by (auto simp: adds_def add_note_def)
    moreover have "prefix (map call_id (n1 @ n2)) (targets (so_text ops) (sr_params r) (s # ss)) \<and> (ok \<longrightarrow> map call_id (n1 @ n2) = targets (so_text ops) (sr_params r) (s # ss))"
      using n1(2) n2(2,3) p by (auto split: option.splits)
    ultimately show ?thesis by blast
  qed
qed


section \<open>A dry run\<close>

lemma unslept_fields: "so_mono (ops\<lparr>so_sleep := f\<rparr>) = so_mono ops" "so_text (ops\<lparr>so_sleep := f\<rparr>) = so_text ops"
  "so_run (ops\<lparr>so_sleep := f\<rparr>) = so_run ops" "so_read (ops\<lparr>so_sleep := f\<rparr>) = so_read ops" "so_tree (ops\<lparr>so_sleep := f\<rparr>) = so_tree ops"
  by simp_all

lemma unslept_command: "seq_command (ops\<lparr>so_sleep := f\<rparr>) = seq_command ops"
  unfolding fun_eq_iff seq_command_def unslept_fields by simp

lemma unslept_truth: "seq_truth (ops\<lparr>so_sleep := f\<rparr>) = seq_truth ops"
  unfolding fun_eq_iff seq_truth_def unslept_fields by simp

lemma unslept_step: "sr_dry r \<Longrightarrow> do_step (ops\<lparr>so_sleep := f\<rparr>) i s r w = do_step ops i s r w"
  by (simp add: do_step_def command_step_def wait_step_def until_step_def check_here_def unslept_command unslept_truth split: option.split)

lemma unslept_steps: "sr_dry r \<Longrightarrow> do_steps (ops\<lparr>so_sleep := f\<rparr>) i ss r w = do_steps ops i ss r w"
proof (induction ss arbitrary: i r w)
  case (Cons s ss)
  let ?r = "r\<lparr>sr_step := i\<rparr>"
  have step: "do_step (ops\<lparr>so_sleep := f\<rparr>) i s ?r w2 = do_step ops i s ?r w2" for w2 using Cons.prems by (intro unslept_step) simp
  have dry: "sr_dry r1" if "do_step ops i s ?r w2 = Some (st, r1, w3)" for w2 st r1 w3
    using do_step_calls [OF that] Cons.prems by (auto simp: adds_def)
  have rest: "Option.bind (do_step ops i s ?r w2) (\<lambda>(st, r, w). if st = None then do_steps (ops\<lparr>so_sleep := f\<rparr>) (Suc i) ss r w else Some (st, r, w))
    = Option.bind (do_step ops i s ?r w2) (\<lambda>(st, r, w). if st = None then do_steps ops (Suc i) ss r w else Some (st, r, w))" for w2
    using dry Cons.IH by (cases "do_step ops i s ?r w2") auto
  show ?case by (simp add: step rest Let_def split: prod.split)
qed simp

text \<open>
  A dry run only plans: every call it makes is a dry one, it undoes nothing, and
  it never sleeps, so its outcome is the same whatever sleeping would do.
\<close>

theorem dry_run_only_plans:
  assumes "sr_dry r" and "sr_calls r = []"
  shows "execute (ops\<lparr>so_sleep := f\<rparr>) sq r w = execute ops sq r w
    \<and> (case execute ops sq r w of Some (ok, r', w') \<Rightarrow> ok \<and> sr_dry r' \<and> list_all (\<lambda>(c, went). ca_dry c) (sr_calls r') | None \<Rightarrow> True)"
proof
  have dry: "sr_dry r1" and calls: "list_all (\<lambda>(c, went). ca_dry c) (sr_calls r1)" if d: "do_steps ops 0 (sq_steps sq) r w = Some (st, r1, w1)" for st r1 w1
    using do_steps_calls [OF d] assms by (auto simp: adds_def call_fits_def list_all_iff)
  show "execute (ops\<lparr>so_sleep := f\<rparr>) sq r w = execute ops sq r w"
  proof (cases "do_steps ops 0 (sq_steps sq) r w")
    case (Some x)
    obtain st r1 w1 where x: "x = (st, r1, w1)" by (cases x)
    then have "sr_dry r1" using dry Some by blast
    have "do_steps (ops\<lparr>so_sleep := f\<rparr>) 0 (sq_steps sq) r w = Some (st, r1, w1)" by (rule trans [OF unslept_steps [OF assms(1)]]) (simp add: Some x)
    then show ?thesis using Some x \<open>sr_dry r1\<close> by (simp add: execute_def Let_def)
  qed (simp add: execute_def unslept_steps [OF assms(1)])
  show "case execute ops sq r w of Some (ok, r', w') \<Rightarrow> ok \<and> sr_dry r' \<and> list_all (\<lambda>(c, went). ca_dry c) (sr_calls r') | None \<Rightarrow> True"
    using dry calls by (cases "do_steps ops 0 (sq_steps sq) r w") (auto simp: execute_def Let_def)
qed

section \<open>One run per sequence and per device\<close>

text \<open>The runs that are on have names of their own, and no device in common.\<close>

definition apart :: "runner \<Rightarrow> bool" where
  "apart rn \<longleftrightarrow> dict_ok (rn_running rn)
     \<and> (\<forall>a r b s. (a, r) \<in> set (rn_running rn) \<longrightarrow> (b, s) \<in> set (rn_running rn) \<longrightarrow> a \<noteq> b \<longrightarrow> set (sr_devices r) \<inter> set (sr_devices s) = {})"

text \<open>A runner whose starts look and enter without another start in between.\<close>

definition idle_runner :: runner where
  "idle_runner = \<lparr> rn_running = [], rn_runs = [] \<rparr>"

inductive serial :: "runner \<Rightarrow> bool" where
  serial_idle: "serial idle_runner"
| serial_start: "serial rn \<Longrightarrow> seq_devices sq = Some mine \<Longrightarrow> admit wire False sq mine ps rn = Inr nps \<Longrightarrow>
    serial (enter_run (sq_id sq) (new_run sq mine False nps now) rn)"
| serial_leave: "serial rn \<Longrightarrow> serial (leave_run sid r rn)"

lemma busy_device_free: "busy_device mine rs = None \<Longrightarrow> (b, s) \<in> set rs \<Longrightarrow> set mine \<inter> set (sr_devices s) = {}"
  by (induction mine rs rule: busy_device.induct) (auto split: if_splits)

lemma dict_set_new: "k \<notin> fst ` set d \<Longrightarrow> dict_set k v d = d @ [(k, v)]"
  by (induction d) auto

lemma apart_enter:
  assumes "apart rn" "admit wire False sq mine ps rn = Inr nps"
  shows "apart (enter_run (sq_id sq) (new_run sq mine False nps now) rn)"
proof -
  have b: "busy_with sq mine rn = None" using assms(2) by (auto simp: admit_def split: sum.splits if_splits option.splits)
  then have new: "dict_get (rn_running rn) (sq_id sq) = None" and free: "busy_device mine (rn_running rn) = None"
    by (auto simp: busy_with_def split: if_splits)
  then have n: "sq_id sq \<notin> fst ` set (rn_running rn)" by (simp add: map_of_eq_None_iff)
  then have u: "dict_set (sq_id sq) (new_run sq mine False nps now) (rn_running rn) = rn_running rn @ [(sq_id sq, new_run sq mine False nps now)]"
    by (rule dict_set_new)
  have d: "sr_devices (new_run sq mine False nps now) = mine" by (simp add: new_run_def)
  show ?thesis using assms(1) n busy_device_free [OF free] unfolding apart_def enter_run_def
    by (auto simp: u d)
qed

lemma apart_leave:
  assumes "apart rn"
  shows "apart (leave_run sid r rn)"
proof (cases "sr_dry r")
  case False
  have "set (dict_del sid (rn_running rn)) \<subseteq> set (rn_running rn)" by (auto simp: AList.delete_eq)
  then show ?thesis using assms False unfolding apart_def leave_run_def by (simp add: dict_ok_del) blast
qed (simp add: leave_run_def assms)

text \<open>
  C38 (invariant): As long as no two starts overlap, one sequence has at most one run and two
  sequences that run have no device in common.
\<close>

theorem serial_starts_keep_apart:
  assumes "serial rn"
  shows "apart rn"
  using assms
proof induction
  case serial_idle
  show ?case by (simp add: apart_def idle_runner_def)
next
  case (serial_start rn sq mine wire ps nps now)
  then show ?case by (intro apart_enter)
next
  case (serial_leave rn sid r)
  then show ?case by (intro apart_leave)
qed

definition on_step :: "string \<Rightarrow> step" where
  "on_step d = [(''command'', DictE [(''device'', Leaf (VStr d)), (''name'', Leaf (VStr ''on''))])]"

definition one_device :: "string \<Rightarrow> sequence" where
  "one_device sid = \<lparr> sq_id = sid, sq_params = [], sq_steps = [on_step ''pump''], sq_on_abort = [on_step ''pump''], sq_max_duration = 60 \<rparr>"

definition pump_run :: "string \<Rightarrow> rat \<Rightarrow> seq_run" where
  "pump_run sid now = new_run (one_device sid) [Leaf (VStr ''pump'')] False [] now"

text \<open>
  The look and the entry of a start are two turns of the lock. Two starts that
  both look before either enters are both let in: two sequences then run on one device, and of
  two runs of one sequence the first that ends takes the other off the list of what runs.
\<close>

theorem racing_starts_share_device:
  "admit True False (one_device ''fill'') [Leaf (VStr ''pump'')] [] idle_runner = Inr []
   \<and> admit True False (one_device ''flush'') [Leaf (VStr ''pump'')] [] idle_runner = Inr []
   \<and> \<not> apart (enter_run ''flush'' (pump_run ''flush'' 1) (enter_run ''fill'' (pump_run ''fill'' 0) idle_runner))
   \<and> rn_running (leave_run ''fill'' (pump_run ''fill'' 0) (enter_run ''fill'' (pump_run ''fill'' 1) (enter_run ''fill'' (pump_run ''fill'' 0) idle_runner))) = []"
proof -
  let ?rn = "enter_run ''flush'' (pump_run ''flush'' 1) (enter_run ''fill'' (pump_run ''fill'' 0) idle_runner)"
  have "(''fill'', pump_run ''fill'' 0) \<in> set (rn_running ?rn)" "(''flush'', pump_run ''flush'' 1) \<in> set (rn_running ?rn)"
    by (simp_all add: idle_runner_def enter_run_def)
  moreover have "sr_devices (pump_run sid t) = [Leaf (VStr ''pump'')]" for sid t by (simp add: pump_run_def new_run_def)
  ultimately have "\<not> apart ?rn" unfolding apart_def by force
  then show ?thesis unfolding idle_runner_def
    by (simp add: admit_def normalize_params_def shell_def one_device_def known_names_def busy_with_def enter_run_def leave_run_def
        pump_run_def new_run_def)
qed

section \<open>A checked definition\<close>

text \<open>What a checked step is: its one kind, and its fields there and within bounds.\<close>

definition ready_command :: "seq_facts \<Rightarrow> json \<Rightarrow> bool" where
  "ready_command sf j = (\<exists>c dv nm ps offered. j = DictE c \<and> dict_get c ''device'' = Some dv \<and> dict_get c ''name'' = Some (Leaf (VStr nm))
     \<and> dict_items (get_or c ''params'' null) = Inr ps \<and> sf_devices sf (json_text (sf_text sf) dv) = Some offered \<and> nm \<in> set offered)"

definition seconds_ok :: "json \<Rightarrow> bool" where
  "seconds_ok j = (\<exists>q. json_float j = Inr q \<and> 0 < q \<and> q \<le> 3600)"

definition step_ready :: "seq_facts \<Rightarrow> step \<Rightarrow> bool" where
  "step_ready sf s = (\<exists>k j. kinds_of s = [k] \<and> dict_get s k = Some j
     \<and> (k = ''command'' \<and> ready_command sf j \<or> k = ''wait_s'' \<and> seconds_ok j
        \<or> k = ''wait_until'' \<and> (\<exists>tj. dict_get s ''timeout_s'' = Some tj \<and> seconds_ok tj) \<or> k = ''check''))"

lemma within_wait_ok: "within_wait j \<Longrightarrow> seconds_ok j"
  by (auto simp: within_wait_def seconds_ok_def json_num_def MAX_WAIT_S_def split: option.splits json.splits pyval.splits sum.splits)

lemma within_wait_get: "within_wait (get_or s k null) \<Longrightarrow> \<exists>j. dict_get s k = Some j \<and> seconds_ok j"
  using within_wait_ok by (auto simp: get_or_def within_wait_def json_num_def null_def split: option.splits)

lemma json_num_true:
  assumes "json_num j = Some q" "1 \<le> q"
  shows "json_float j = Inr q \<and> json_true j"
proof -
  have "py_float_of_string [] = None" by code_simp
  then have "s \<noteq> []" if "py_float_of_string s = Some q" for s using that by auto
  then show ?thesis using assms by (cases j; cases "case j of Leaf v \<Rightarrow> v") (auto simp: json_num_def split: option.splits)
qed

lemma json_true_get: "json_true (get_or d k null) \<Longrightarrow> \<exists>j. dict_get d k = Some j"
  by (auto simp: get_or_def null_def split: option.splits)

lemma check_command_ready:
  assumes "check_command sf sample pl j = Inr []"
  shows "ready_command sf j"
proof -
  obtain c where c: "j = DictE c" using assms by (auto simp: check_command_def split: json.splits)
  have t: "json_true (get_or c ''device'' null)" "json_true (get_or c ''name'' null)"
    using assms c by (auto simp: check_command_def split: if_splits)
  obtain dv where dv: "dict_get c ''device'' = Some dv" using json_true_get [OF t(1)] by blast
  obtain nj where nj: "dict_get c ''name'' = Some nj" using json_true_get [OF t(2)] by blast
  obtain ps where ps: "dict_items (get_or c ''params'' null) = Inr ps"
    using assms c t by (auto simp: check_command_def ebind_Inr)
  obtain offered where o': "sf_devices sf (json_text (sf_text sf) dv) = Some offered" "nj \<in> set (map (\<lambda>n. Leaf (VStr n)) offered)"
    using assms c t dv nj by (auto simp: check_command_def ebind_Inr get_or_def split: option.splits if_splits)
  then show ?thesis using c dv nj ps by (auto simp: ready_command_def)
qed

lemma check_step_ready:
  assumes "check_step sf sample only pl j = Inr []"
  shows "\<exists>s. j = DictE s \<and> step_ready sf s \<and> (only \<longrightarrow> kinds_of s = [''command''])"
proof -
  obtain s where s: "j = DictE s" using assms by (auto simp: check_step_def split: json.splits)
  obtain k where k: "kinds_of s = [k]" using assms s by (auto simp: check_step_def split: list.splits)
  have "k \<in> set (kinds_of s)" using k by simp
  then obtain x where x: "dict_get s k = Some x" "k \<in> set STEP_KINDS" by (auto simp: kinds_of_def)
  have kinds: "k = ''command'' \<or> k = ''wait_s'' \<or> k = ''wait_until'' \<or> k = ''check''" using x(2) by (auto simp: STEP_KINDS_def)
  have g: "get_or s k null = x" using x(1) by (simp add: get_or_def)
  have o: "only \<longrightarrow> k = ''command''" using assms s k by (auto simp: check_step_def split: if_splits)
  consider "k = ''command''" | "k = ''wait_s''" | "k = ''wait_until''" | "k = ''check''" using kinds by blast
  then have "step_ready sf s"
  proof cases
    case 1
    then have "check_command sf sample pl x = Inr []" using assms s k g by (simp add: check_step_def)
    from check_command_ready [OF this] show ?thesis using 1 k x(1) by (auto simp: step_ready_def)
  next
    case 2
    then have "within_wait x" using assms s k g by (auto simp: check_step_def split: if_splits)
    from within_wait_ok [OF this] show ?thesis using 2 k x(1) by (auto simp: step_ready_def)
  next
    case 3
    then have "within_wait (get_or s ''timeout_s'' null)" using assms s k g by (auto simp: check_step_def check_expr_def Let_def split: if_splits)
    from within_wait_get [OF this] show ?thesis using 3 k x(1) by (auto simp: step_ready_def)
  next
    case 4
    then show ?thesis using k x(1) by (auto simp: step_ready_def)
  qed
  then show ?thesis using s o k by blast
qed

lemma check_steps_ready:
  "check_steps sf sample only pl i js = Inr [] \<Longrightarrow>
     \<exists>ss. js = map DictE ss \<and> list_all (step_ready sf) ss \<and> (only \<longrightarrow> list_all (\<lambda>s. kinds_of s = [''command'']) ss)"
proof (induction js arbitrary: i)
  case (Cons j js)
  then have "check_step sf sample only (pl i) j = Inr []" "check_steps sf sample only pl (Suc i) js = Inr []"
    by (auto simp: ebind_Inr)
  from check_step_ready [OF this(1)] Cons.IH [OF this(2)] obtain s ss where
    "j = DictE s" "step_ready sf s" "only \<longrightarrow> kinds_of s = [''command'']"
    "js = map DictE ss" "list_all (step_ready sf) ss" "only \<longrightarrow> list_all (\<lambda>s. kinds_of s = [''command'']) ss" by blast
  then show ?case by (intro exI [of _ "s # ss"]) auto
qed simp

lemma only_dicts_map [simp]: "only_dicts (map DictE ss) = ss"
  by (induction ss) (simp_all add: only_dicts_def List.map_filter_simps)


section \<open>Runs\<close>

declare wait_loop.simps [code]
declare until_loop.simps [code]

definition calm_ctx :: eval_ctx where
  "calm_ctx = \<lparr> cx_env = \<lparr> ev_pi = 3, ev_e = 2, ev_sqrt = id, ev_exp = id, ev_pow = (\<lambda>x y. x), ev_cpow = (\<lambda>x y. x), ev_hypot = (\<lambda>x y. x),
     ev_strmod = (\<lambda>s v. None), ev_hour = 11, ev_minute = 30, ev_second = 0, ev_weekday = 1, ev_day = 5, ev_month = 6, ev_mono = 100 \<rparr>,
     cx_resolve = (\<lambda>_. VInt 1), cx_prev = None, cx_dt = 0, cx_stale = None, cx_fresh_stale = None, cx_age = None,
     cx_sun = (\<lambda>_. None), cx_attr = (\<lambda>_ _ _. VNone), cx_rule_stats = (\<lambda>_ _. VNone) \<rparr>"

text \<open>A world that is its clock; the valve does not take its command.\<close>

definition calm :: "rat seq_ops" where
  "calm = \<lparr> so_mono = (\<lambda>w. (w, w)), so_sleep = (\<lambda>s w. w + s), so_cancelled = (\<lambda>w. (False, w)), so_tree = (\<lambda>_. Some (Name ''x'')),
     so_read = (\<lambda>w. (calm_ctx, w)), so_run = (\<lambda>c w. (Some (Some (if ca_device c = ''valve'' then ''mismatch'' else ''success'')), w)), so_text = (\<lambda>_. []) \<rparr>"

lemma calm_steady: "steady calm id"
  by (simp add: steady_def calm_def)

definition share_of :: "string \<Rightarrow> json" where
  "share_of n = DictE [(''/'', ListE [Leaf (VInt 100), Leaf (VStr (''${'' @ n @ ''}''))])]"

definition off_step :: "string \<Rightarrow> json \<Rightarrow> step" where
  "off_step d v = [(''command'', DictE [(''device'', Leaf (VStr d)), (''name'', Leaf (VStr ''off'')), (''params'', DictE [(''value'', v)])])]"

definition drain_doc :: "(string, json) dict" where
  "drain_doc = [(''id'', Leaf (VStr ''drain'')), (''params'', DictE [(''n'', DictE [(''default'', Leaf (VInt 1))])]),
     (''steps'', ListE [DictE (on_step ''pump''), DictE [(''wait_s'', Leaf (VInt 2))], DictE (on_step ''valve'')]),
     (''on_abort'', ListE [DictE (off_step ''pump'' (share_of ''n'')), DictE (off_step ''valve'' (Leaf (VInt 0)))])]"

definition drain_params :: "(string, param_def) dict" where
  "drain_params = [(''n'', plain_param\<lparr>pd_default := VInt 1\<rparr>)]"

definition drain :: sequence where
  "drain = \<lparr> sq_id = ''drain'', sq_params = drain_params, sq_steps = [on_step ''pump'', [(''wait_s'', Leaf (VInt 2))], on_step ''valve''],
     sq_on_abort = [off_step ''pump'' (share_of ''n''), off_step ''valve'' (Leaf (VInt 0))], sq_max_duration = 600 \<rparr>"

definition drain_facts :: seq_facts where
  "drain_facts = \<lparr> sf_devices = (\<lambda>d. Some [''on'', ''off'']), sf_valid = (\<lambda>_. True), sf_text = (\<lambda>_. []) \<rparr>"

definition drain_devices :: "json list" where "drain_devices = [Leaf (VStr ''pump''), Leaf (VStr ''valve'')]"

definition drain_run :: "bool \<Rightarrow> int \<Rightarrow> seq_run" where
  "drain_run dry n = new_run drain drain_devices dry [(''n'', VInt n)] 0"

definition on_call :: "string \<Rightarrow> int \<Rightarrow> call" where
  "on_call d s = \<lparr> ca_device = d, ca_name = ''on'', ca_params = [(''override_s'', VInt s)], ca_dry = False \<rparr>"

definition off_call :: "string \<Rightarrow> pyval \<Rightarrow> call" where
  "off_call d v = \<lparr> ca_device = d, ca_name = ''off'', ca_params = [(''value'', v), (''override_s'', VInt 120)], ca_dry = False \<rparr>"

lemma drain_ok: "validate_sequence drain_facts (DictE drain_doc) = Inr []" "parse_sequence (sf_text drain_facts) drain_params drain_doc = Inr drain"
  "seq_devices drain = Some drain_devices"
  by code_simp+

lemma drain_runs: "execute calm drain (drain_run False 2) 0 =
    Some (True, (drain_run False 2)\<lparr>sr_status := Aborted, sr_step := 2, sr_reason := Some (StepFailed 2),
       sr_notes := [Note ''command'' True, Note ''wait'' True, Note ''command'' False, Note ''on_abort'' True, Note ''on_abort'' False],
       sr_calls := [(on_call ''pump'' 600, True), (on_call ''valve'' 598, False), (off_call ''pump'' (VFloat 50), True), (off_call ''valve'' (VInt 0), False)]\<rparr>, 2)"
  by code_simp

lemma drain_strands: "execute calm drain (drain_run False 0) 0 =
    Some (False, (drain_run False 0)\<lparr>sr_status := Undoing, sr_step := 2, sr_reason := Some (StepFailed 2),
       sr_notes := [Note ''command'' True, Note ''wait'' True, Note ''command'' False],
       sr_calls := [(on_call ''pump'' 600, True), (on_call ''valve'' 598, False)]\<rparr>, 2)"
  by code_simp


theorem sequence_ends_witness:
  "\<exists>ok r' w'. execute calm drain (drain_run False 2) 0 = Some (ok, r', w') \<and> 0 \<le> w' \<and> (ok \<longrightarrow> sr_status r' \<in> {Done, Dry, CancelledRun, Aborted})"
  using sequence_ends [OF calm_steady, of drain "drain_run False 2" 0] by simp


theorem dry_run_only_plans_witness:
  "execute (calm\<lparr>so_sleep := \<lambda>s w. w + 1000\<rparr>) drain (drain_run True 2) 0 = execute calm drain (drain_run True 2) 0"
  using dry_run_only_plans [where r = "drain_run True 2" and ops = calm and f = "\<lambda>s w. w + 1000" and sq = drain and w = 0] by (simp add: drain_run_def new_run_def)

theorem serial_starts_keep_apart_witness:
  "apart (enter_run ''fill'' (pump_run ''fill'' 7) idle_runner)"
proof -
  have "seq_devices (one_device ''fill'') = Some [Leaf (VStr ''pump'')]" by code_simp
  moreover have "admit True False (one_device ''fill'') [Leaf (VStr ''pump'')] [] idle_runner = Inr []"
    by (simp add: admit_def normalize_params_def shell_def one_device_def known_names_def busy_with_def idle_runner_def)
  ultimately have "serial (enter_run (sq_id (one_device ''fill'')) (new_run (one_device ''fill'') [Leaf (VStr ''pump'')] False [] 7) idle_runner)"
    by (intro serial_start serial_idle)
  then show ?thesis using serial_starts_keep_apart by (simp add: one_device_def pump_run_def)
qed


end
