(* ===== verification/RuleMachine.thy ===== *)
theory RuleMachine
  imports CommandDefs
begin

text \<open>
  The state machine of a rule (\<open>multibus/rules.py\<close>): what a rule is, the samples it is fed and
  the decision on each. The interval clock and the wall clock are arguments, as in the code;
  the channel's referee, the local calendar and the first unit of a group are the
  environment. A decision carries its action, state, want and whether something changed, not
  its sentence.
\<close>

section \<open>Rules\<close>

type_synonym params = "(string, pyval) dict"

datatype rule_kind = StepsRule | ConditionRule | TrimRule | ScheduleRule

datatype stale_mode = HoldWant | AskSafe | AskValue rat

record rstep =
  sp_at :: rat
  sp_value :: rat
  sp_label :: string
  sp_fast :: bool

record timing =
  tm_debounce :: int
  tm_min_interval :: rat
  tm_reassert :: rat
  tm_for :: rat
  tm_min_on :: rat
  tm_min_off :: rat
  tm_max_on :: rat
  tm_max_starts :: int
  tm_boot_wait :: rat
  tm_urgent_retries :: int

text \<open>An entry of a schedule: ISO days, the minute of the day, and the parameters or the value.\<close>

record entry =
  en_days :: "nat list"
  en_minute :: nat
  en_at :: string
  en_label :: string
  en_params :: "params option"
  en_value :: "rat option"

text \<open>
  \<open>RuleDef\<close>. The limits, the bands and the step of a trim rule are numbers, as
  \<open>validate_rule_def\<close> requires of one.
\<close>

record rule_def =
  rd_armed :: bool
  rd_kind :: rule_kind
  rd_valid_min :: "rat option"
  rd_valid_max :: "rat option"
  rd_max_step :: "rat option"
  rd_stale_after :: rat
  rd_steps :: "rstep list"
  rd_release_below :: "rat option"
  rd_normal :: "params option"
  rd_params :: params
  rd_release :: bool
  rd_then :: "params option"
  rd_otherwise :: "params option"
  rd_above :: rat
  rd_below :: rat
  rd_step :: rat
  rd_gain :: "rat option"
  rd_vmin :: rat
  rd_vmax :: rat
  rd_start :: "rat option"
  rd_off :: "rat option"
  rd_schedule :: "entry list"
  rd_timing :: timing
  rd_on_stale :: stale_mode
  rd_resume_on_boot :: bool
  rd_param :: string
  rd_safe_params :: params
  rd_tolerance :: rat
  rd_readback :: bool

definition NORMAL :: string where "NORMAL = ''normal''"
definition STALE :: string where "STALE = ''stale''"
definition URGENT_RETRY_GAP_S :: rat where "URGENT_RETRY_GAP_S = 5"
definition DRIFT_HELD_WARN_S :: rat where "DRIFT_HELD_WARN_S = 300"

definition onoff :: "timing \<Rightarrow> bool" where
  "onoff t = (tm_min_on t \<noteq> 0 \<or> tm_min_off t \<noteq> 0 \<or> tm_max_on t \<noteq> 0 \<or> tm_max_starts t \<noteq> 0)"

text \<open>\<open>_f\<close> and \<open>_num\<close>: a finite number, or None.\<close>

definition num_of :: "pyval \<Rightarrow> rat option" where
  "num_of v = (case py_float v of Inr q \<Rightarrow> Some q | Inl e \<Rightarrow> None)"

text \<open>\<open>d.get(k)\<close>, and \<open>isinstance(want.get(p), (int, float))\<close> with the number.\<close>

definition get_val :: "params \<Rightarrow> string \<Rightarrow> pyval" where
  "get_val w p = (case dict_get w p of Some v \<Rightarrow> v | None \<Rightarrow> VNone)"

definition param_num :: "params \<Rightarrow> string \<Rightarrow> rat option" where
  "param_num w p = num_or_bool (get_val w p)"

definition off_value :: "rule_def \<Rightarrow> rat option" where
  "off_value r =
     (case rd_off r of
        Some q \<Rightarrow> Some q
      | None \<Rightarrow>
          (let rest = (if rd_kind r = ConditionRule then rd_otherwise r else if rd_kind r = StepsRule then rd_normal r else None)
           in num_of (get_val (case rest of Some w \<Rightarrow> w | None \<Rightarrow> []) (rd_param r))))"

text \<open>\<open>==\<close> of dictionaries, and of what may be None.\<close>

fun val_eq :: "pyval option \<Rightarrow> pyval option \<Rightarrow> bool" where
  "val_eq (Some a) (Some b) = py_eq a b"
| "val_eq None None = True"
| "val_eq _ _ = False"

definition same_params :: "params \<Rightarrow> params \<Rightarrow> bool" where
  "same_params a b = list_all (\<lambda>k. val_eq (dict_get a k) (dict_get b k)) (map fst a @ map fst b)"

fun same_want :: "params option \<Rightarrow> params option \<Rightarrow> bool" where
  "same_want (Some a) (Some b) = same_params a b"
| "same_want None None = True"
| "same_want _ _ = False"

section \<open>The state\<close>

datatype action = Run | Reassert | ShadowRun | ShadowReassert | Hold | StaleNow | Idle | Ignored | Sweep | Yield

record decision =
  de_action :: action
  de_state :: string
  de_want :: "params option"
  de_changed :: bool

datatype signal = Sig pyval | Pair pyval pyval

text \<open>What a send overwrote, and what it left (\<open>undo['post']\<close>).\<close>

record sent_fields =
  sf_last_cmd :: "rat option"
  sf_commanded :: "params option"
  sf_confirmed :: bool
  sf_urgent :: bool
  sf_sent_want :: "params option"
  sf_sent_urgent :: bool
  sf_retry :: bool
  sf_resends :: nat

record undo =
  un_pre :: sent_fields
  un_post :: sent_fields
  un_start :: "rat option"
  un_day :: "string option"
  un_on :: "(rat option \<times> rat option) option"
  un_off :: "(rat option \<times> rat option) option"
  un_drift :: "rat option"

record rstate =
  rs_state :: string
  rs_want :: "params option"
  rs_since :: "rat option"
  rs_commanded :: "params option"
  rs_confirmed :: bool
  rs_last_cmd :: "rat option"
  rs_pending :: bool
  rs_deb_target :: "(string \<times> params) option"
  rs_deb_count :: int
  rs_deb_sample :: "rat option"
  rs_deb_since :: "rat option"
  rs_last_valid :: "rat option"
  rs_ignored :: nat
  rs_stale_since :: "rat option"
  rs_clamp :: "(rat \<times> rat option) option"
  rs_paused_until :: "rat option"
  rs_failures :: nat
  rs_drift_since :: "rat option"
  rs_pre_stale :: "(string \<times> params option) option"
  rs_base :: "params option"
  rs_accepted :: "rat option"
  rs_suspect :: "rat option"
  rs_sample :: "rat option"
  rs_guarded :: nat
  rs_wall :: rat
  rs_urgent :: bool
  rs_trim :: "rat option"
  rs_trim_dir :: int
  rs_trim_count :: int
  rs_trim_since :: "rat option"
  rs_on_since :: "rat option"
  rs_off_since :: "rat option"
  rs_starts :: "rat list"
  rs_rest_until :: "rat option"
  rs_on_today :: rat
  rs_on_total :: rat
  rs_starts_today :: nat
  rs_day :: "string option"
  rs_acc :: "rat option"
  rs_forced :: "(params \<times> rat) option"
  rs_yielding_to :: "string option"
  rs_born :: "rat option"
  rs_boot_unknown :: bool
  rs_sent_urgent :: bool
  rs_sent_want :: "params option"
  rs_resends :: nat
  rs_retry :: bool
  rs_send_no :: nat
  rs_last_undo :: "undo option"
  rs_pace :: bool
  rs_held_s :: "rat option"
  rs_held_long :: nat
  rs_held_since :: "rat option"
  rs_drift_tick :: bool

definition new_rule_state :: rstate where
  "new_rule_state = \<lparr> rs_state = NORMAL, rs_want = None, rs_since = None, rs_commanded = None, rs_confirmed = False, rs_last_cmd = None,
     rs_pending = False, rs_deb_target = None, rs_deb_count = 0, rs_deb_sample = None, rs_deb_since = None, rs_last_valid = None,
     rs_ignored = 0, rs_stale_since = None, rs_clamp = None, rs_paused_until = None, rs_failures = 0, rs_drift_since = None,
     rs_pre_stale = None, rs_base = None, rs_accepted = None, rs_suspect = None, rs_sample = None, rs_guarded = 0, rs_wall = 0,
     rs_urgent = False, rs_trim = None, rs_trim_dir = 0, rs_trim_count = 0, rs_trim_since = None, rs_on_since = None,
     rs_off_since = None, rs_starts = [], rs_rest_until = None, rs_on_today = 0, rs_on_total = 0, rs_starts_today = 0, rs_day = None,
     rs_acc = None, rs_forced = None, rs_yielding_to = None, rs_born = None, rs_boot_unknown = False, rs_sent_urgent = False,
     rs_sent_want = None, rs_resends = 0, rs_retry = False, rs_send_no = 0, rs_last_undo = None, rs_pace = False, rs_held_s = None,
     rs_held_long = 0, rs_held_since = None, rs_drift_tick = False \<rparr>"

text \<open>
  The referee's answer to a want: another rule drives the channel, or its pace holds the
  write; None lets it through. \<open>ge_lead\<close> is what the first unit of a group has (its want, its
  trim value and its state) for the units after it.
\<close>

datatype gate_answer = YieldTo string | PaceHolds

record rule_env =
  ge_gate :: "(params \<Rightarrow> bool \<Rightarrow> gate_answer option) option"
  ge_day :: "rat \<Rightarrow> string"
  ge_local :: "rat \<Rightarrow> nat \<times> rat"
  ge_lead :: "(params \<times> rat \<times> string) option option"

record sample =
  sa_signal :: signal
  sa_age :: "rat option"
  sa_actual :: pyval
  sa_actual_age :: "rat option"
  sa_actual_stale :: "rat option"
  sa_ts :: "rat option"
  sa_wall :: "rat option"

section \<open>On and off\<close>

definition is_on :: "rule_def \<Rightarrow> params option \<Rightarrow> bool option" where
  "is_on r w =
     (case (off_value r, if w = None \<or> w = Some [] then None else num_of (get_val (the w) (rd_param r))) of
        (Some off, Some v) \<Rightarrow> Some (1 / 1000000000 < \<bar>v - off\<bar>)
      | _ \<Rightarrow> None)"

definition drop_starts :: "rat \<Rightarrow> rstate \<Rightarrow> rstate" where
  "drop_starts now s = s\<lparr>rs_starts := dropWhile (\<lambda>t. 3600 \<le> now - t) (rs_starts s)\<rparr>"

definition starts_last_h :: "rat \<Rightarrow> rstate \<Rightarrow> nat \<times> rstate" where
  "starts_last_h now s = (let s = drop_starts now s in (length (rs_starts s), s))"

definition accumulate :: "rule_env \<Rightarrow> rule_def \<Rightarrow> rat \<Rightarrow> rstate \<Rightarrow> rstate" where
  "accumulate ge r now s =
     (let day = (if rs_wall s \<noteq> 0 then Some (ge_day ge (rs_wall s)) else None);
          s = (if day \<noteq> None \<and> the day \<noteq> [] \<and> day \<noteq> rs_day s
               then (if rs_day s \<noteq> None then s\<lparr>rs_on_today := 0, rs_starts_today := 0, rs_day := day\<rparr> else s\<lparr>rs_day := day\<rparr>) else s);
          s = (case rs_acc s of
                 Some a \<Rightarrow> if is_on r (rs_commanded s) = Some True
                           then (let dt = max 0 (min (now - a) 3600) in s\<lparr>rs_on_today := rs_on_today s + dt, rs_on_total := rs_on_total s + dt\<rparr>)
                           else s
               | None \<Rightarrow> s)
      in s\<lparr>rs_acc := Some now\<rparr>)"

definition note_sent :: "rule_def \<Rightarrow> rat \<Rightarrow> params option \<Rightarrow> rstate \<Rightarrow> rstate" where
  "note_sent r now w s =
     (let was = is_on r (rs_commanded s); on = is_on r w
      in if on = Some True \<and> was \<noteq> Some True
         then s\<lparr>rs_on_since := Some now, rs_off_since := None, rs_starts := rs_starts s @ [now], rs_starts_today := Suc (rs_starts_today s)\<rparr>
         else if on = Some False \<and> was \<noteq> Some False then s\<lparr>rs_off_since := Some now, rs_on_since := None\<rparr>
         else s)"

text \<open>Has less than \<open>gap\<close> passed since a mark?\<close>

definition since_less :: "rat \<Rightarrow> rat option \<Rightarrow> rat \<Rightarrow> bool" where
  "since_less now mark gap = (case mark of Some t \<Rightarrow> now - t < gap | None \<Rightarrow> False)"

text \<open>\<open>_onoff_hold\<close>: must a pending start or stop wait for a timer?\<close>

definition onoff_hold :: "rule_def \<Rightarrow> rat \<Rightarrow> rstate \<Rightarrow> bool \<times> rstate" where
  "onoff_hold r now s =
     (let t = rd_timing r; was = is_on r (rs_commanded s); on = is_on r (rs_want s)
      in if \<not> onoff t \<or> on = None \<or> was = None \<or> on = was then (False, s)
         else if on = Some False then (tm_min_on t \<noteq> 0 \<and> since_less now (rs_on_since s) (tm_min_on t), s)
         else if case rs_rest_until s of Some u \<Rightarrow> now < u | None \<Rightarrow> False then (True, s)
         else if tm_min_off t \<noteq> 0 \<and> since_less now (rs_off_since s) (tm_min_off t) then (True, s)
         else if tm_max_starts t \<noteq> 0 then (let (n, s) = starts_last_h now s in (tm_max_starts t \<le> int n, s))
         else (False, s))"

section \<open>Wants\<close>

definition want_for :: "rule_def \<Rightarrow> params option \<Rightarrow> params option" where
  "want_for r base = map_option (\<lambda>b. fold (\<lambda>(k, v). dict_set k v) b (rd_params r)) base"

definition cap_want :: "rule_def \<Rightarrow> rat \<Rightarrow> params \<Rightarrow> params" where
  "cap_want r hi w = (case param_num w (rd_param r) of Some q \<Rightarrow> if hi < q then dict_set (rd_param r) (VFloat hi) w else w | None \<Rightarrow> w)"

text \<open>\<open>_apply_clamp\<close>: an expired ceiling is lifted, but not into a signal that is still high.\<close>

definition apply_clamp :: "rule_def \<Rightarrow> params option \<Rightarrow> rat \<Rightarrow> rat option \<Rightarrow> rstate \<Rightarrow> params option \<times> rstate" where
  "apply_clamp r want wall sig s =
     (case (rs_clamp s, want) of
        (Some (hi, expires), Some w) \<Rightarrow>
          if (case expires of Some e \<Rightarrow> e \<le> wall | None \<Rightarrow> False)
             \<and> (rd_kind r \<noteq> StepsRule \<or> (case (sig, rd_release_below r) of (Some v, Some rb) \<Rightarrow> v < rb | _ \<Rightarrow> True))
          then (want, s\<lparr>rs_clamp := None\<rparr>)
          else (Some (cap_want r hi w), s)
      | _ \<Rightarrow> (want, s))"

definition stamp :: "rstate \<Rightarrow> rat \<Rightarrow> rat" where
  "stamp s now = (if rs_wall s \<noteq> 0 then rs_wall s else now)"

definition transition :: "string \<Rightarrow> params option \<Rightarrow> rat \<Rightarrow> rstate \<Rightarrow> bool \<times> rstate" where
  "transition st w now s =
     (if st \<noteq> rs_state s \<or> \<not> same_want w (rs_want s)
      then (True, s\<lparr>rs_state := st, rs_want := w, rs_since := Some (stamp s now),
                    rs_pending := (rs_pending s \<or> \<not> same_want w (rs_commanded s))\<rparr>)
      else (False, s))"

definition relabel :: "string \<Rightarrow> rat \<Rightarrow> rstate \<Rightarrow> bool \<times> rstate" where
  "relabel l now s = (if l = rs_state s then (False, s) else (True, s\<lparr>rs_state := l, rs_since := Some (stamp s now)\<rparr>))"

definition decide :: "action \<Rightarrow> bool \<Rightarrow> rstate \<Rightarrow> decision" where
  "decide a changed s = \<lparr> de_action = a, de_state = rs_state s, de_want = rs_want s, de_changed = changed \<rparr>"

section \<open>Sending\<close>

definition nonempty :: "params option \<Rightarrow> params option" where
  "nonempty w = (if w = Some [] then None else w)"

definition sent_fields_of :: "rstate \<Rightarrow> sent_fields" where
  "sent_fields_of s = \<lparr> sf_last_cmd = rs_last_cmd s, sf_commanded = rs_commanded s, sf_confirmed = rs_confirmed s, sf_urgent = rs_urgent s,
     sf_sent_want = rs_sent_want s, sf_sent_urgent = rs_sent_urgent s, sf_retry = rs_retry s, sf_resends = rs_resends s \<rparr>"

definition moved_mark :: "rat option \<Rightarrow> rat option \<Rightarrow> (rat option \<times> rat option) option" where
  "moved_mark pre post = (if pre = post then None else Some (pre, post))"

definition mark_sent :: "rule_def \<Rightarrow> rat \<Rightarrow> rstate \<Rightarrow> rstate" where
  "mark_sent r now s =
     (let s1 = s\<lparr>rs_resends := (if same_want (rs_want s) (rs_sent_want s) then rs_resends s else 0),
                 rs_sent_urgent := rs_urgent s, rs_sent_want := nonempty (rs_want s), rs_retry := False\<rparr>
      in (note_sent r now (rs_want s) s1)\<lparr>rs_pending := False, rs_commanded := nonempty (rs_want s), rs_confirmed := False,
            rs_last_cmd := Some now, rs_urgent := False\<rparr>)"

definition undo_of :: "rat \<Rightarrow> rstate \<Rightarrow> rstate \<Rightarrow> undo" where
  "undo_of now s s2 = \<lparr> un_pre = sent_fields_of s, un_post = sent_fields_of s2,
     un_start = (if length (rs_starts s) < length (rs_starts s2) then Some now else None), un_day = rs_day s,
     un_on = moved_mark (rs_on_since s) (rs_on_since s2), un_off = moved_mark (rs_off_since s) (rs_off_since s2), un_drift = None \<rparr>"

definition shadow_of :: "rule_def \<Rightarrow> action \<Rightarrow> action" where
  "shadow_of r a = (if rd_armed r then a else if a = Run then ShadowRun else ShadowReassert)"

definition send :: "rule_def \<Rightarrow> rat \<Rightarrow> action \<Rightarrow> bool \<Rightarrow> rstate \<Rightarrow> decision \<times> rstate" where
  "send r now a changed s =
     (let s2 = mark_sent r now s; s3 = s2\<lparr>rs_send_no := Suc (rs_send_no s2), rs_last_undo := Some (undo_of now s s2)\<rparr>
      in (decide (shadow_of r a) changed s3, s3))"

text \<open>\<open>unsend\<close>: a field goes back only while it holds what the send left in it.\<close>

definition restore_mark :: "(rat option \<times> rat option) option \<Rightarrow> rat option \<Rightarrow> rat option" where
  "restore_mark u cur = (case u of Some (pre, post) \<Rightarrow> if cur = post then pre else cur | None \<Rightarrow> cur)"

definition unsend :: "undo \<Rightarrow> rstate \<Rightarrow> rstate" where
  "unsend u s =
     (let pre = un_pre u; post = un_post u;
          both = same_want (rs_commanded s) (sf_commanded post) \<and> rs_confirmed s = sf_confirmed post;
          s = s\<lparr>rs_commanded := (if both then sf_commanded pre else rs_commanded s),
                rs_confirmed := (if both then sf_confirmed pre else rs_confirmed s),
                rs_last_cmd := (if rs_last_cmd s = sf_last_cmd post then sf_last_cmd pre else rs_last_cmd s),
                rs_urgent := (if rs_urgent s = sf_urgent post then sf_urgent pre else rs_urgent s),
                rs_sent_want := (if same_want (rs_sent_want s) (sf_sent_want post) then sf_sent_want pre else rs_sent_want s),
                rs_sent_urgent := (if rs_sent_urgent s = sf_sent_urgent post then sf_sent_urgent pre else rs_sent_urgent s),
                rs_retry := (if rs_retry s = sf_retry post then sf_retry pre else rs_retry s),
                rs_resends := (if rs_resends s = sf_resends post then sf_resends pre else rs_resends s)\<rparr>;
          s = (case un_start u of
                 Some t \<Rightarrow> s\<lparr>rs_starts := remove1 t (rs_starts s),
                             rs_starts_today := (if rs_day s = un_day u then rs_starts_today s - 1 else rs_starts_today s)\<rparr>
               | None \<Rightarrow> s);
          s = s\<lparr>rs_on_since := restore_mark (un_on u) (rs_on_since s), rs_off_since := restore_mark (un_off u) (rs_off_since s),
                rs_drift_since := (if un_drift u \<noteq> None \<and> rs_drift_since s = None then un_drift u else rs_drift_since s)\<rparr>
      in s\<lparr>rs_pending := (rs_want s \<noteq> None \<and> \<not> (rs_confirmed s \<and> same_want (rs_commanded s) (rs_want s)))\<rparr>)"

text \<open>\<open>rearm_urgent\<close>: an urgent want that did not get through is sent again as urgent.\<close>

definition rearm_urgent :: "rule_def \<Rightarrow> bool \<Rightarrow> rstate \<Rightarrow> bool \<times> rstate" where
  "rearm_urgent r queued s =
     (let n = tm_urgent_retries (rd_timing r)
      in if n = 0 \<or> \<not> rs_sent_urgent s \<or> rs_want s = None \<or> \<not> same_want (rs_want s) (rs_sent_want s) \<or> (n \<le> int (rs_resends s) \<and> \<not> queued)
         then (False, s)
         else (True, s\<lparr>rs_resends := (if queued then rs_resends s else Suc (rs_resends s)), rs_urgent := True, rs_retry := True, rs_pending := True\<rparr>))"

section \<open>One tick's act\<close>

definition emergency_want :: "rule_def \<Rightarrow> rstate \<Rightarrow> bool" where
  "emergency_want r s =
     (if rs_state s = ''forced'' then False
      else if rs_rest_until s \<noteq> None then True
      else if rs_state s = STALE then rd_on_stale r \<noteq> HoldWant
      else rd_kind r = StepsRule \<and> list_ex (\<lambda>p. sp_fast p \<and> sp_label p = rs_state s) (rd_steps r))"

definition drift_unheld :: "rstate \<Rightarrow> rstate" where
  "drift_unheld s = s\<lparr>rs_held_since := None, rs_held_s := None\<rparr>"

definition ask_gate :: "rule_env \<Rightarrow> rstate \<Rightarrow> bool \<Rightarrow> gate_answer option" where
  "ask_gate ge s urgent = (case (ge_gate ge, rs_want s) of (Some g, Some w) \<Rightarrow> g w urgent | _ \<Rightarrow> None)"

definition pace_hold :: "rule_env \<Rightarrow> rule_def \<Rightarrow> rat \<Rightarrow> rstate \<Rightarrow> bool \<times> rstate" where
  "pace_hold ge r now s =
     (if rs_pace s \<and> \<not> emergency_want r s \<and> ask_gate ge s False = Some PaceHolds
      then (let since = (case rs_held_since s of Some t \<Rightarrow> t | None \<Rightarrow> now);
                was = (case rs_held_s s of Some q \<Rightarrow> q | None \<Rightarrow> 0); held = now - since
            in (True, s\<lparr>rs_held_since := Some since, rs_held_s := Some held,
                        rs_held_long := (if was < DRIFT_HELD_WARN_S \<and> DRIFT_HELD_WARN_S \<le> held then Suc (rs_held_long s) else rs_held_long s)\<rparr>))
      else (False, drift_unheld s))"

text \<open>\<open>_boot_wait\<close>: a NORMAL want waits for the first read-back after a restart.\<close>

definition boot_wait :: "rule_def \<Rightarrow> rat \<Rightarrow> bool \<Rightarrow> pyval \<Rightarrow> rstate \<Rightarrow> bool" where
  "boot_wait r now fresh actual s =
     (let b = tm_boot_wait (rd_timing r)
      in if b = 0 \<or> rs_urgent s \<or> rs_state s \<noteq> NORMAL \<or> rs_commanded s \<noteq> None \<or> rs_last_cmd s \<noteq> None \<or> rs_born s = None \<or> rs_clamp s \<noteq> None
         then False
         else if fresh \<and> num_of actual \<noteq> None then False
         else now - the (rs_born s) < b)"

definition is_fresh :: "pyval \<Rightarrow> rat option \<Rightarrow> rat option \<Rightarrow> bool" where
  "is_fresh actual age stale = (actual \<noteq> VNone \<and> (case (age, stale) of (Some a, Some m) \<Rightarrow> a \<le> m | _ \<Rightarrow> True))"

text \<open>Does the read-back hold the want's parameter, within the tolerance?\<close>

definition holds_want :: "rule_def \<Rightarrow> pyval \<Rightarrow> params \<Rightarrow> bool" where
  "holds_want r actual w = (case (param_num w (rd_param r), num_of actual) of (Some q, Some a) \<Rightarrow> \<bar>a - q\<bar> \<le> rd_tolerance r | _ \<Rightarrow> False)"

definition rate_limited :: "rule_def \<Rightarrow> rat \<Rightarrow> rstate \<Rightarrow> bool" where
  "rate_limited r now s = (0 < tm_min_interval (rd_timing r) \<and> since_less now (rs_last_cmd s) (tm_min_interval (rd_timing r)))"

text \<open>A want that was not sent yet; \<open>g\<close> is the referee's answer and \<open>quiet\<close> the action said when nothing is sent.\<close>

definition act_pending :: "rule_env \<Rightarrow> rule_def \<Rightarrow> rat \<Rightarrow> gate_answer option \<Rightarrow> action option \<Rightarrow> bool \<Rightarrow> pyval \<Rightarrow> bool \<Rightarrow> params \<Rightarrow> rstate \<Rightarrow> decision \<times> rstate" where
  "act_pending ge r now g quiet fresh actual changed w s =
     (if fresh \<and> holds_want r actual w
      then (let s = (note_sent r now (rs_want s) s)\<lparr>rs_pending := False, rs_commanded := Some w, rs_confirmed := True\<rparr>
            in (decide (case quiet of Some a \<Rightarrow> a | None \<Rightarrow> Idle) changed s, s))
      else if boot_wait r now fresh actual s then (decide Sweep changed s, s)
      else (let (timer, s) = (if rs_urgent s then (False, s) else onoff_hold r now s);
                paced = (\<not> rs_urgent s \<and> g = Some PaceHolds \<and> \<not> (rs_pace s \<and> emergency_want r s))
            in if timer \<or> paced then (decide Hold changed s, s)
               else if rs_urgent s \<and> rs_retry s \<and> since_less now (rs_last_cmd s) URGENT_RETRY_GAP_S then (decide Hold changed s, s)
               else if \<not> rs_urgent s \<and> rate_limited r now s then (decide Hold changed s, s)
               else send r now Run changed s))"

text \<open>The closed loop: the read-back of what was sent.\<close>

definition act_drift :: "rule_env \<Rightarrow> rule_def \<Rightarrow> rat \<Rightarrow> bool \<Rightarrow> pyval \<Rightarrow> params \<Rightarrow> rstate \<Rightarrow> decision \<times> rstate" where
  "act_drift ge r now fresh actual w s =
     (if rs_commanded s = None \<or> param_num w (rd_param r) = None then (decide Idle False s, s)
      else if \<not> fresh \<or> num_of actual = None
      then (let s = drift_unheld (s\<lparr>rs_drift_since := None\<rparr>) in (decide Sweep False s, s))
      else if \<not> holds_want r actual w
      then (let since = (case rs_drift_since s of Some t \<Rightarrow> t | None \<Rightarrow> now); s = s\<lparr>rs_drift_tick := True, rs_drift_since := Some since\<rparr>
            in if 0 < tm_reassert (rd_timing r) \<and> tm_reassert (rd_timing r) \<le> now - since
               then (if rate_limited r now s then (decide Hold False s, s)
                     else (let (held, s) = pace_hold ge r now s
                           in if held then (decide Hold False s, s)
                              else (let (d, s) = send r now Reassert False (s\<lparr>rs_drift_since := None\<rparr>)
                                    in (d, s\<lparr>rs_last_undo := map_option (\<lambda>u. u\<lparr>un_drift := Some since\<rparr>) (rs_last_undo s)\<rparr>))))
               else (decide Idle False s, s))
      else (let s = drift_unheld (s\<lparr>rs_drift_since := None\<rparr>) in (decide Idle False s, s)))"

definition act_body :: "rule_env \<Rightarrow> rule_def \<Rightarrow> rat \<Rightarrow> action option \<Rightarrow> pyval \<Rightarrow> rat option \<Rightarrow> rat option \<Rightarrow> bool \<Rightarrow> rstate \<Rightarrow> decision \<times> rstate" where
  "act_body ge r now quiet actual age stale changed s =
     (if (case rs_paused_until s of Some p \<Rightarrow> stamp s now < p | None \<Rightarrow> False) then (decide Hold changed s, s)
      else (case rs_want s of
              None \<Rightarrow>
                (let s = s\<lparr>rs_yielding_to := None\<rparr>
                 in if tm_boot_wait (rd_timing r) \<noteq> 0 \<and> rs_boot_unknown s \<and> rs_commanded s = None \<and> rs_last_cmd s = None
                    then (decide Sweep changed s, s) else (decide (case quiet of Some a \<Rightarrow> a | None \<Rightarrow> Idle) changed s, s))
            | Some w \<Rightarrow>
                (case ask_gate ge s (rs_urgent s) of
                   Some (YieldTo who) \<Rightarrow> (let s = s\<lparr>rs_pending := True, rs_yielding_to := Some who\<rparr> in (decide Yield changed s, s))
                 | g \<Rightarrow>
                     (let s = s\<lparr>rs_yielding_to := None\<rparr>; fresh = is_fresh actual age stale
                      in if rs_pending s then act_pending ge r now g quiet fresh actual changed w s
                         else (case quiet of
                                 Some a \<Rightarrow> (decide a changed s, s)
                               | None \<Rightarrow> act_drift ge r now fresh actual w s)))))"

definition act :: "rule_env \<Rightarrow> rule_def \<Rightarrow> rat \<Rightarrow> action option \<Rightarrow> pyval \<Rightarrow> rat option \<Rightarrow> rat option \<Rightarrow> bool \<Rightarrow> rstate \<Rightarrow> decision \<times> rstate" where
  "act ge r now quiet actual age stale changed s =
     (let (d, s) = act_body ge r now quiet actual age stale changed (s\<lparr>rs_drift_tick := False\<rparr>)
      in (d, if rs_drift_tick s then s else drift_unheld s))"

section \<open>Schedules\<close>

definition DAYS :: "string list" where "DAYS = [''Mon'', ''Tue'', ''Wed'', ''Thu'', ''Fri'', ''Sat'', ''Sun'']"

definition day_name :: "nat \<Rightarrow> string" where
  "day_name d = DAYS ! (d - 1)"

fun day_runs :: "nat option \<Rightarrow> nat list \<Rightarrow> string list" where
  "day_runs start [] = []"
| "day_runs start (d # ds) =
     (let a = (case start of Some x \<Rightarrow> x | None \<Rightarrow> d)
      in if ds = [] \<or> hd ds \<noteq> d + 1 then (if a = d then day_name d else day_name a @ ''-'' @ day_name d) # day_runs None ds
         else day_runs (Some a) ds)"

fun join_comma :: "string list \<Rightarrow> string" where
  "join_comma [] = []"
| "join_comma [x] = x"
| "join_comma (x # xs) = x @ '','' @ join_comma xs"

definition days_text :: "nat list \<Rightarrow> string" where
  "days_text days = (if days = [1, 2, 3, 4, 5, 6, 7] then ''every day'' else join_comma (day_runs None days))"

text \<open>\<open>current_entry\<close>: the latest entry of a day that was reached, the days back from now, a week of them.\<close>

definition day_entry :: "entry list \<Rightarrow> nat \<Rightarrow> rat option \<Rightarrow> entry option" where
  "day_entry es d until =
     fold (\<lambda>e best. if d \<in> set (en_days e) \<and> (case until of Some t \<Rightarrow> of_nat (60 * en_minute e) \<le> t | None \<Rightarrow> True)
             \<and> (case best of Some b \<Rightarrow> en_minute b < en_minute e | None \<Rightarrow> True) then Some e else best) es None"

definition weekday_back :: "nat \<Rightarrow> nat \<Rightarrow> nat" where
  "weekday_back d k = (d + 13 - k mod 7) mod 7 + 1"

fun first_some :: "'a option list \<Rightarrow> 'a option" where
  "first_some [] = None"
| "first_some (x # xs) = (case x of Some y \<Rightarrow> Some y | None \<Rightarrow> first_some xs)"

definition current_entry :: "entry list \<Rightarrow> nat \<times> rat \<Rightarrow> entry option" where
  "current_entry es now = first_some (map (\<lambda>k. day_entry es (weekday_back (fst now) k) (if k = 0 then Some (snd now) else None)) [0..<8])"

section \<open>What the signal asks for\<close>

fun signal_num :: "signal \<Rightarrow> rat option" where
  "signal_num (Sig v) = num_of v"
| "signal_num (Pair a b) = None"

fun signal_true :: "signal \<Rightarrow> bool" where
  "signal_true (Sig v) = truthy v"
| "signal_true (Pair a b) = True"

definition ask :: "rule_def \<Rightarrow> rat \<Rightarrow> params" where
  "ask r q = [(rd_param r, VFloat q)]"

definition reached_step :: "rstep list \<Rightarrow> rat \<Rightarrow> rstep option" where
  "reached_step ps v = fold (\<lambda>p best. if sp_at p \<le> v then Some p else best) ps None"

definition held_step :: "rule_def \<Rightarrow> rat \<Rightarrow> rstep option" where
  "held_step r q = find (\<lambda>p. \<bar>q - sp_value p\<bar> \<le> rd_tolerance r) (rev (rd_steps r))"

definition desired :: "rule_def \<Rightarrow> rat \<Rightarrow> pyval \<Rightarrow> rstate \<Rightarrow> (string \<times> params option \<times> bool) \<times> rstate" where
  "desired r v actual s0 =
     (let s = s0\<lparr>rs_boot_unknown := False\<rparr>; normal = (NORMAL, rd_normal r, False)
      in case reached_step (rd_steps r) v of
           Some p \<Rightarrow> ((sp_label p, Some (ask r (sp_value p)), sp_fast p), s)
         | None \<Rightarrow>
             if (case rd_release_below r of Some rb \<Rightarrow> v < rb | None \<Rightarrow> True) then (normal, s)
             else if rs_base s = None \<and> rs_want s = None
             then (case num_of actual of
                     None \<Rightarrow> ((NORMAL, None, False), s\<lparr>rs_boot_unknown := True\<rparr>)
                   | Some q \<Rightarrow> (case held_step r q of Some p \<Rightarrow> ((sp_label p, Some (ask r (sp_value p)), False), s) | None \<Rightarrow> (normal, s)))
             else if rs_base s = None \<or> rs_state s = NORMAL then (normal, s)
             else ((rs_state s, rs_base s, False), s))"

definition latched :: "rstate \<Rightarrow> bool option" where
  "latched s = (if rs_state s = ''true'' then Some True else if rs_state s = ''false'' then Some False else None)"

definition rule_truth :: "rule_def \<Rightarrow> signal \<Rightarrow> rstate \<Rightarrow> bool option" where
  "rule_truth r sig s =
     (case sig of
        Sig v \<Rightarrow> Some (truthy v)
      | Pair a b \<Rightarrow>
          if \<not> rd_release r then Some True
          else (let on = truthy a; off = truthy b
                in if on \<and> off then latched s
                   else (case latched s of Some True \<Rightarrow> Some (\<not> off) | Some False \<Rightarrow> Some on
                         | None \<Rightarrow> if on then Some True else if off then Some False else None)))"

definition schedule_desired :: "rule_env \<Rightarrow> rule_def \<Rightarrow> signal \<Rightarrow> rstate \<Rightarrow> string \<times> params option" where
  "schedule_desired ge r sig s =
     (if \<not> signal_true sig
      then (''off (when is false)'', Some [(rd_param r, case rd_off r of Some q \<Rightarrow> VFloat q | None \<Rightarrow> VNone)])
      else (case current_entry (rd_schedule r) (ge_local ge (rs_wall s)) of
              None \<Rightarrow> (NORMAL, None)
            | Some e \<Rightarrow>
                (if en_label e \<noteq> [] then en_label e else days_text (en_days e) @ '' '' @ en_at e,
                 case en_params e of Some ps \<Rightarrow> Some ps | None \<Rightarrow> map_option (ask r) (en_value e))))"

definition condition_desired :: "rule_def \<Rightarrow> signal \<Rightarrow> rstate \<Rightarrow> string \<times> params option" where
  "condition_desired r sig s =
     (case rule_truth r sig s of
        None \<Rightarrow> (rs_state s, rs_base s)
      | Some b \<Rightarrow> (if b then ''true'' else ''false'', if b then rd_then r else rd_otherwise r))"

text \<open>\<open>_resume\<close>: after a restart, a device that holds a step's value is at that step.\<close>

definition resume :: "rule_def \<Rightarrow> rat \<Rightarrow> rat option \<Rightarrow> rstate \<Rightarrow> rstate" where
  "resume r now held s =
     (case held of
        None \<Rightarrow> s
      | Some q \<Rightarrow>
          if rs_base s \<noteq> None \<or> rs_want s \<noteq> None \<or> rs_commanded s \<noteq> None \<or> rs_last_cmd s \<noteq> None then s
          else (case held_step r q of
                  None \<Rightarrow> s
                | Some p \<Rightarrow>
                    (let s = s\<lparr>rs_base := Some (ask r (sp_value p))\<rparr>; (c, s) = transition (sp_label p) (want_for r (rs_base s)) now s
                     in s\<lparr>rs_pending := False, rs_commanded := rs_want s, rs_confirmed := True\<rparr>)))"

section \<open>The plausibility of a sample\<close>

text \<open>\<open>_guard\<close>: is the sample held back?\<close>

definition guard_sample :: "rule_def \<Rightarrow> rat option \<Rightarrow> bool \<Rightarrow> rstate \<Rightarrow> bool \<times> rstate" where
  "guard_sample r v new s =
     (case (v, rd_max_step r) of
        (Some x, Some ms) \<Rightarrow>
          if ms \<le> 0 then (False, s)
          else if \<not> new then (rs_suspect s \<noteq> None, s)
          else if case rs_accepted s of Some a \<Rightarrow> \<bar>x - a\<bar> \<le> ms | None \<Rightarrow> True then (False, s\<lparr>rs_accepted := Some x, rs_suspect := None\<rparr>)
          else if case rs_suspect s of Some a \<Rightarrow> \<bar>x - a\<bar> \<le> ms | None \<Rightarrow> False then (False, s\<lparr>rs_accepted := Some x, rs_suspect := None\<rparr>)
          else (True, s\<lparr>rs_suspect := Some x, rs_guarded := Suc (rs_guarded s)\<rparr>)
      | _ \<Rightarrow> (False, s))"

definition is_numeric_kind :: "rule_def \<Rightarrow> bool" where
  "is_numeric_kind r = (rd_kind r = StepsRule \<or> rd_kind r = TrimRule)"

definition valid_sample :: "rule_def \<Rightarrow> signal \<Rightarrow> bool" where
  "valid_sample r sig =
     (sig \<noteq> Sig VNone \<and> (is_numeric_kind r \<longrightarrow>
        (case signal_num sig of
           None \<Rightarrow> False
         | Some v \<Rightarrow> (case rd_valid_min r of Some lo \<Rightarrow> lo \<le> v | None \<Rightarrow> True) \<and> (case rd_valid_max r of Some hi \<Rightarrow> v \<le> hi | None \<Rightarrow> True))))"

section \<open>Rest, force and trim\<close>

text \<open>\<open>_rest\<close>: after \<open>max_on_s\<close> on, stop and rest; None lets the evaluation go on.\<close>

definition start_rest :: "rule_def \<Rightarrow> rat \<Rightarrow> rstate \<Rightarrow> rstate" where
  "start_rest r now s0 =
     (let s = s0\<lparr>rs_rest_until := Some (now + tm_min_off (rd_timing r)), rs_trim := None, rs_deb_target := None, rs_deb_count := 0, rs_trim_count := 0\<rparr>;
          (c, s) = transition ''resting'' (want_for r (Some [(rd_param r, case off_value r of Some q \<Rightarrow> VFloat q | None \<Rightarrow> VNone)])) now s
      in s\<lparr>rs_urgent := True\<rparr>)"

definition rest :: "rule_env \<Rightarrow> rule_def \<Rightarrow> rat \<Rightarrow> sample \<Rightarrow> rstate \<Rightarrow> decision option \<times> rstate" where
  "rest ge r now sa s0 =
     (let s = (if (case rs_rest_until s0 of Some u \<Rightarrow> u \<le> now | None \<Rightarrow> False) then s0\<lparr>rs_rest_until := None\<rparr> else s0);
          go = act ge r now None (sa_actual sa) (sa_actual_age sa) (sa_actual_stale sa)
      in if rs_rest_until s = None \<and> tm_max_on (rd_timing r) \<noteq> 0 \<and> rs_on_since s \<noteq> None \<and> is_on r (rs_commanded s) = Some True
            \<and> tm_max_on (rd_timing r) \<le> now - the (rs_on_since s)
         then (let (d, s) = go True (start_rest r now s) in (Some d, s))
         else if rs_rest_until s \<noteq> None
         then (if rs_pending s then (let (d, s) = go False s in (Some d, s)) else (Some (decide Hold False s), s))
         else (None, s))"

definition end_force :: "rstate \<Rightarrow> rstate" where
  "end_force s = s\<lparr>rs_forced := None, rs_deb_target := None, rs_deb_count := 0, rs_trim := None, rs_trim_count := 0,
     rs_state := (if rs_state s = ''forced'' then NORMAL else rs_state s)\<rparr>"

definition force :: "params \<Rightarrow> rat option \<Rightarrow> rstate \<Rightarrow> rstate" where
  "force ps until s = (case until of
     Some u \<Rightarrow> if u \<noteq> 0 then s\<lparr>rs_forced := Some (ps, u)\<rparr> else end_force s
   | None \<Rightarrow> end_force s)"

definition forced_eval :: "rule_env \<Rightarrow> rule_def \<Rightarrow> rat \<Rightarrow> sample \<Rightarrow> params \<times> rat \<Rightarrow> rstate \<Rightarrow> decision option \<times> rstate" where
  "forced_eval ge r now sa f s =
     (if snd f \<le> rs_wall s then (None, end_force s)
      else (let (w, s) = apply_clamp r (want_for r (Some (fst f))) (rs_wall s) None s;
                (changed, s) = transition ''forced'' w now s;
                (d, s) = act ge r now None (sa_actual sa) (sa_actual_age sa) (sa_actual_stale sa) changed s
            in (Some d, s)))"

definition trim_seed :: "rule_def \<Rightarrow> rat option \<Rightarrow> rat" where
  "trim_seed r actual =
     (let rest = (case rd_off r of Some o' \<Rightarrow> o' | None \<Rightarrow> (case rd_start r of Some q \<Rightarrow> q | None \<Rightarrow> rd_vmin r))
      in case actual of
           None \<Rightarrow> rest
         | Some a \<Rightarrow>
             if (case rd_off r of Some o' \<Rightarrow> \<bar>a - o'\<bar> \<le> rd_tolerance r | None \<Rightarrow> False) then the (rd_off r)
             else if rd_vmin r - rd_tolerance r \<le> a \<and> a \<le> rd_vmax r + rd_tolerance r then min (max a (rd_vmin r)) (rd_vmax r)
             else rest)"

definition trim_next :: "rule_def \<Rightarrow> rat \<Rightarrow> rat \<Rightarrow> int \<Rightarrow> rat" where
  "trim_next r cur v dir =
     (if (case rd_off r of Some o' \<Rightarrow> cur \<le> o' | None \<Rightarrow> False)
      then (if 0 < dir then (case rd_start r of Some q \<Rightarrow> q | None \<Rightarrow> rd_vmin r) else cur)
      else (let delta = (case rd_gain r of
                  None \<Rightarrow> rd_step r * of_int dir
                | Some g \<Rightarrow> max (- rd_step r) (min (rd_step r) (g * (v - (if 0 < dir then rd_above r else rd_below r)))))
            in if dir < 0 \<and> rd_off r \<noteq> None \<and> cur \<le> rd_vmin r then the (rd_off r)
               else py_round_dec (min (max (cur + delta) (rd_vmin r)) (rd_vmax r)) 6))"

definition trim_label :: "rule_def \<Rightarrow> rat \<Rightarrow> int \<Rightarrow> bool \<Rightarrow> string" where
  "trim_label r x dir moved =
     (if (case rd_off r of Some o' \<Rightarrow> x \<le> o' | None \<Rightarrow> False) then ''off''
      else if \<not> moved \<and> 0 < dir then ''at max'' else if \<not> moved \<and> dir < 0 then ''at min''
      else if dir = 1 then ''raising'' else if dir = - 1 then ''lowering'' else ''holding'')"

definition trim_direction :: "rule_def \<Rightarrow> rat \<Rightarrow> int" where
  "trim_direction r v = (if rd_above r < v then 1 else if v < rd_below r then - 1 else 0)"

definition trim_follow :: "rule_env \<Rightarrow> rule_def \<Rightarrow> rat \<Rightarrow> sample \<Rightarrow> (params \<times> rat \<times> string) option \<Rightarrow> rstate \<Rightarrow> decision \<times> rstate" where
  "trim_follow ge r now sa lead s =
     (let go = act ge r now None (sa_actual sa) (sa_actual_age sa) (sa_actual_stale sa)
      in case lead of
           None \<Rightarrow> go False s
         | Some (w, x, st) \<Rightarrow> (let (changed, s) = transition st (Some w) now (s\<lparr>rs_trim := Some x\<rparr>) in go changed s))"

text \<open>One adjustment, once the debounce and the rate limit let it.\<close>

definition trim_adjust :: "rule_env \<Rightarrow> rule_def \<Rightarrow> rat \<Rightarrow> rat \<Rightarrow> int \<Rightarrow> sample \<Rightarrow> rat option \<Rightarrow> rat \<Rightarrow> rstate \<Rightarrow> decision \<times> rstate" where
  "trim_adjust ge r now v dir sa held x s0 =
     (let go = act ge r now None (sa_actual sa) (sa_actual_age sa) (sa_actual_stale sa);
          cur = (if \<not> rd_armed r \<and> held \<noteq> None then trim_seed r held else x);
          (w, s) = apply_clamp r (want_for r (Some (ask r (trim_next r cur v dir)))) (rs_wall s0) None (s0\<lparr>rs_trim_count := 0\<rparr>);
          new = (case param_num (case w of Some p \<Rightarrow> p | None \<Rightarrow> []) (rd_param r) of Some q \<Rightarrow> q | None \<Rightarrow> cur);
          moved = (1 / 1000000000 < \<bar>new - cur\<bar>); s = s\<lparr>rs_trim := Some new\<rparr>; label = trim_label r new dir moved
      in if \<not> moved \<and> rs_want s \<noteq> None then (let (c, s) = relabel label now s in go c s)
         else (let before = rs_state s; (c, s) = transition label w now s in go (label \<noteq> before) s))"

definition trim_move :: "rule_env \<Rightarrow> rule_def \<Rightarrow> rat \<Rightarrow> rat \<Rightarrow> bool \<Rightarrow> sample \<Rightarrow> rat option \<Rightarrow> rat \<Rightarrow> rstate \<Rightarrow> decision \<times> rstate" where
  "trim_move ge r now v new sa held x s =
     (let go = act ge r now None (sa_actual sa) (sa_actual_age sa) (sa_actual_stale sa); dir = trim_direction r v
      in if dir = 0
         then (let (c, s) = relabel (trim_label r x 0 True) now (s\<lparr>rs_trim_dir := 0, rs_trim_count := 0, rs_trim_since := None\<rparr>) in go c s)
         else (let s = (if dir \<noteq> rs_trim_dir s then s\<lparr>rs_trim_dir := dir, rs_trim_count := 1, rs_trim_since := Some now\<rparr>
                        else if new then s\<lparr>rs_trim_count := rs_trim_count s + 1\<rparr> else s);
                   waited = now - (case rs_trim_since s of Some t \<Rightarrow> t | None \<Rightarrow> now)
               in if rs_trim_count s < tm_debounce (rd_timing r) \<or> waited < tm_for (rd_timing r)
                  then act ge r now (Some Hold) (sa_actual sa) None None False s
                  else if rs_pending s then go False s
                  else if rate_limited r now s then (decide Hold False s, s)
                  else trim_adjust ge r now v dir sa held x s))"

definition trim_eval :: "rule_env \<Rightarrow> rule_def \<Rightarrow> rat \<Rightarrow> rat \<Rightarrow> bool \<Rightarrow> sample \<Rightarrow> rstate \<Rightarrow> decision \<times> rstate" where
  "trim_eval ge r now v new sa s =
     (case ge_lead ge of
        Some lead \<Rightarrow> trim_follow ge r now sa lead s
      | None \<Rightarrow>
          (let held = num_of (sa_actual sa)
           in case rs_trim s of
                Some x \<Rightarrow> trim_move ge r now v new sa held x s
              | None \<Rightarrow>
                  if held = None \<and> rd_readback r then act ge r now (Some Hold) (sa_actual sa) (sa_actual_age sa) (sa_actual_stale sa) False s
                  else (let x = trim_seed r held in trim_move ge r now v new sa held x (s\<lparr>rs_trim := Some x\<rparr>))))"

section \<open>The evaluation\<close>

definition sample_stamp :: "rat \<Rightarrow> sample \<Rightarrow> rat" where
  "sample_stamp now sa = (case sa_ts sa of Some t \<Rightarrow> t | None \<Rightarrow> (case sa_age sa of Some a \<Rightarrow> now - a | None \<Rightarrow> now))"

definition differs :: "rat option \<Rightarrow> rat \<Rightarrow> bool" where
  "differs old t = (case old of None \<Rightarrow> True | Some u \<Rightarrow> 1 / 1000000 < \<bar>t - u\<bar>)"

text \<open>A blind rule: what it asks for, under the ceiling, whose expiry is not judged meanwhile.\<close>

definition stale_want :: "rule_def \<Rightarrow> rstate \<Rightarrow> params option" where
  "stale_want r s =
     (let w = (case rd_on_stale r of HoldWant \<Rightarrow> rs_want s | AskSafe \<Rightarrow> want_for r (Some (rd_safe_params r))
               | AskValue q \<Rightarrow> want_for r (Some (ask r q)))
      in case (w, rs_clamp s) of (Some p, Some (hi, e)) \<Rightarrow> Some (cap_want r hi p) | _ \<Rightarrow> w)"

definition stale_eval :: "rule_env \<Rightarrow> rule_def \<Rightarrow> rat \<Rightarrow> sample \<Rightarrow> rstate \<Rightarrow> decision \<times> rstate" where
  "stale_eval ge r now sa s =
     (if rs_state s \<noteq> STALE
      then (let (c, s1) = transition STALE (stale_want r s) now (s\<lparr>rs_pre_stale := Some (rs_state s, rs_want s), rs_stale_since := Some now\<rparr>);
                s2 = s1\<lparr>rs_urgent := (rd_on_stale r \<noteq> HoldWant), rs_deb_target := None, rs_deb_count := 0\<rparr>
            in act ge r now (Some StaleNow) (sa_actual sa) (sa_actual_age sa) (sa_actual_stale sa) True s2)
      else act ge r now (Some StaleNow) (sa_actual sa) None None False s)"

text \<open>What the rule asks for now: label, parameters and whether at once.\<close>

definition rule_desired :: "rule_env \<Rightarrow> rule_def \<Rightarrow> sample \<Rightarrow> rstate \<Rightarrow> (string \<times> params option \<times> bool) \<times> rstate" where
  "rule_desired ge r sa s =
     (case rd_kind r of
        StepsRule \<Rightarrow> desired r (case signal_num (sa_signal sa) of Some v \<Rightarrow> v | None \<Rightarrow> 0) (sa_actual sa) s
      | ScheduleRule \<Rightarrow> (let (l, b) = schedule_desired ge r (sa_signal sa) s in ((l, b, False), s))
      | _ \<Rightarrow> (let (l, b) = condition_desired r (sa_signal sa) s in ((l, b, False), s)))"

definition same_key :: "(string \<times> params) option \<Rightarrow> string \<Rightarrow> params option \<Rightarrow> bool" where
  "same_key k st w = (case k of Some (l, p) \<Rightarrow> l = st \<and> same_params p (case w of Some q \<Rightarrow> q | None \<Rightarrow> []) | None \<Rightarrow> False)"

text \<open>One more distinct sample that asks for the same, or the first of them.\<close>

definition count_sample :: "rat \<Rightarrow> rat \<Rightarrow> bool \<Rightarrow> string \<Rightarrow> params option \<Rightarrow> rstate \<Rightarrow> rstate" where
  "count_sample now ts new st w s =
     (if \<not> same_key (rs_deb_target s) st w
      then s\<lparr>rs_deb_target := Some (st, case w of Some q \<Rightarrow> q | None \<Rightarrow> []), rs_deb_count := 1, rs_deb_sample := Some ts, rs_deb_since := Some now\<rparr>
      else if new \<or> differs (rs_deb_sample s) ts
      then s\<lparr>rs_deb_count := rs_deb_count s + 1, rs_deb_sample := Some ts\<rparr>
      else s)"

definition adopt :: "string \<Rightarrow> params option \<Rightarrow> params option \<Rightarrow> bool \<Rightarrow> rat \<Rightarrow> rstate \<Rightarrow> bool \<times> rstate" where
  "adopt st w base urgent now s =
     (let (c, s) = transition st w now (s\<lparr>rs_deb_target := None, rs_deb_count := 0, rs_base := base\<rparr>) in (c, s\<lparr>rs_urgent := urgent\<rparr>))"

definition settle_want :: "rule_env \<Rightarrow> rule_def \<Rightarrow> rat \<Rightarrow> sample \<Rightarrow> rat \<Rightarrow> bool \<Rightarrow> string \<Rightarrow> params option \<Rightarrow> params option \<Rightarrow> bool \<Rightarrow> rstate
    \<Rightarrow> decision \<times> rstate" where
  "settle_want ge r now sa ts new st w base fast s0 =
     (let go = act ge r now None (sa_actual sa) (sa_actual_age sa) (sa_actual_stale sa);
          hold = act ge r now (Some Hold) (sa_actual sa) None None False
      in if st = rs_state s0 \<and> same_want w (rs_want s0) then go False (s0\<lparr>rs_deb_target := None, rs_deb_count := 0\<rparr>)
         else if fast \<or> (w = None \<and> rs_want s0 = None) then (let (c, s) = adopt st w base fast now s0 in go c s)
         else (let s = count_sample now ts new st w s0; waited = now - (case rs_deb_since s of Some t \<Rightarrow> t | None \<Rightarrow> now)
               in if tm_debounce (rd_timing r) \<le> rs_deb_count s \<and> waited < tm_for (rd_timing r) then hold s
                  else if tm_debounce (rd_timing r) \<le> rs_deb_count s then (let (c, s) = adopt st w base False now s in go c s)
                  else hold s))"

text \<open>The evaluation of a valid sample that was not held back, out of a rest.\<close>

definition live_eval :: "rule_env \<Rightarrow> rule_def \<Rightarrow> rat \<Rightarrow> sample \<Rightarrow> rat \<Rightarrow> bool \<Rightarrow> rstate \<Rightarrow> decision \<times> rstate" where
  "live_eval ge r now sa ts new s0 =
     (let s = (if rs_state s0 = STALE
               then s0\<lparr>rs_state := (case rs_pre_stale s0 of Some (l, w) \<Rightarrow> l | None \<Rightarrow> NORMAL),
                       rs_trim := (if rd_kind r = TrimRule \<and> rd_on_stale r \<noteq> HoldWant then None else rs_trim s0)\<rparr>
               else s0)
      in if rd_kind r = TrimRule
         then trim_eval ge r now (case signal_num (sa_signal sa) of Some v \<Rightarrow> v | None \<Rightarrow> 0) new sa s
         else (let s = (if rd_resume_on_boot r \<and> rd_kind r = StepsRule
                        then resume r now (if is_fresh (sa_actual sa) (sa_actual_age sa) (sa_actual_stale sa) then num_of (sa_actual sa) else None) s
                        else s);
                   ((st, base, fast), s) = rule_desired ge r sa s;
                   (w, s) = apply_clamp r (want_for r base) (rs_wall s) (if rd_kind r = StepsRule then signal_num (sa_signal sa) else None) s
               in settle_want ge r now sa ts new st w base fast s))"

definition judge_sample :: "rule_env \<Rightarrow> rule_def \<Rightarrow> rat \<Rightarrow> sample \<Rightarrow> rat \<Rightarrow> bool \<Rightarrow> rstate \<Rightarrow> decision \<times> rstate" where
  "judge_sample ge r now sa ts new s0 =
     (let valid = valid_sample r (sa_signal sa);
          s = (if valid \<and> sa_age sa \<noteq> None then s0\<lparr>rs_last_valid := Some (now - the (sa_age sa))\<rparr>
               else if \<not> valid then s0\<lparr>rs_ignored := Suc (rs_ignored s0)\<rparr> else s0)
      in if (case rs_last_valid s of None \<Rightarrow> True | Some t \<Rightarrow> rd_stale_after r < now - t) then stale_eval ge r now sa s
         else if \<not> valid then (decide Ignored False s, s)
         else (case rest ge r now sa (s\<lparr>rs_stale_since := None\<rparr>) of
                 (Some d, s) \<Rightarrow> (d, s)
               | (None, s) \<Rightarrow>
                   (case (if is_numeric_kind r then guard_sample r (signal_num (sa_signal sa)) new s else (False, s)) of
                      (True, s) \<Rightarrow> (decide Ignored False s, s)
                    | (False, s) \<Rightarrow> live_eval ge r now sa ts new s)))"

definition begin_tick :: "rule_env \<Rightarrow> rule_def \<Rightarrow> rat \<Rightarrow> sample \<Rightarrow> rstate \<Rightarrow> rstate" where
  "begin_tick ge r now sa s =
     accumulate ge r now (s\<lparr>rs_wall := (case sa_wall sa of Some w \<Rightarrow> w | None \<Rightarrow> now), rs_born := Some (case rs_born s of Some b \<Rightarrow> b | None \<Rightarrow> now)\<rparr>)"

definition after_force :: "rule_env \<Rightarrow> rule_def \<Rightarrow> rat \<Rightarrow> sample \<Rightarrow> rstate \<Rightarrow> decision \<times> rstate" where
  "after_force ge r now sa s =
     (let ts = sample_stamp now sa in judge_sample ge r now sa ts (differs (rs_sample s) ts) (s\<lparr>rs_sample := Some ts\<rparr>))"

definition evaluate :: "rule_env \<Rightarrow> rule_def \<Rightarrow> rat \<Rightarrow> sample \<Rightarrow> rstate \<Rightarrow> decision \<times> rstate" where
  "evaluate ge r now sa s0 =
     (let s = begin_tick ge r now sa s0
      in case rs_forced s of
           None \<Rightarrow> after_force ge r now sa s
         | Some f \<Rightarrow> (case forced_eval ge r now sa f s of (Some d, s) \<Rightarrow> (d, s) | (None, s) \<Rightarrow> after_force ge r now sa s))"

section \<open>Public knobs\<close>

definition set_clamp :: "rat \<Rightarrow> rat option \<Rightarrow> rstate \<Rightarrow> rstate" where
  "set_clamp hi expires s = s\<lparr>rs_clamp := Some (hi, expires)\<rparr>"

definition clear_clamp :: "rstate \<Rightarrow> rstate" where
  "clear_clamp s = s\<lparr>rs_clamp := None\<rparr>"

definition note_result :: "bool \<Rightarrow> rstate \<Rightarrow> rstate" where
  "note_result ok s = s\<lparr>rs_failures := (if ok then 0 else Suc (rs_failures s))\<rparr>"

definition preview_trim :: "rule_def \<Rightarrow> rat \<Rightarrow> rat option \<Rightarrow> rstate \<Rightarrow> string \<times> params" where
  "preview_trim r v actual s =
     (let cur = (case rs_trim s of Some x \<Rightarrow> x | None \<Rightarrow> trim_seed r actual); dir = trim_direction r v
      in if dir = 0 then (trim_label r cur 0 True, ask r cur)
         else (let new = trim_next r cur v dir in (trim_label r new dir (1 / 1000000000 < \<bar>new - cur\<bar>), ask r new)))"

text \<open>The counters a restart keeps: today's only while it is the same day.\<close>

record saved_counters =
  sv_total :: rat
  sv_today :: rat
  sv_starts :: nat
  sv_day :: "string option"

definition save_counters :: "rstate \<Rightarrow> saved_counters option" where
  "save_counters s =
     (if rs_on_total s = 0 \<and> rs_on_today s = 0 \<and> rs_starts_today s = 0 then None
      else Some \<lparr> sv_total = py_round_dec (rs_on_total s) 1, sv_today = py_round_dec (rs_on_today s) 1, sv_starts = rs_starts_today s, sv_day = rs_day s \<rparr>)"

definition restore_counters :: "saved_counters \<Rightarrow> string option \<Rightarrow> rstate \<Rightarrow> rstate" where
  "restore_counters sv today s0 =
     (let s = s0\<lparr>rs_on_total := sv_total sv\<rparr>
      in (if sv_day sv \<noteq> None \<and> sv_day sv \<noteq> Some [] \<and> sv_day sv = today then s\<lparr>rs_on_today := sv_today sv, rs_starts_today := sv_starts sv\<rparr> else s)
         \<lparr>rs_day := today\<rparr>)"

end
