(* ===== verification/RuleSafety.thy ===== *)
theory RuleSafety
  imports RuleMachine
begin

text \<open>
  What the rule engine guarantees (\<open>RuleMachine\<close>): when it may send and what it must have waited
  for, how it fails closed, what it takes for a rule to change its mind, and that a send that
  never reached the wire is taken back whole.
\<close>

section \<open>One tick's act\<close>

definition sends :: "decision \<Rightarrow> bool" where
  "sends d = (de_action d \<in> {Run, Reassert, ShadowRun, ShadowReassert})"

text \<open>What a tick's act leaves as it was.\<close>

definition keeps :: "rstate \<Rightarrow> rstate \<Rightarrow> bool" where
  "keeps s s' \<longleftrightarrow> rs_state s' = rs_state s \<and> rs_want s' = rs_want s \<and> rs_clamp s' = rs_clamp s \<and> rs_base s' = rs_base s
     \<and> rs_deb_target s' = rs_deb_target s \<and> rs_deb_count s' = rs_deb_count s \<and> rs_deb_since s' = rs_deb_since s
     \<and> rs_deb_sample s' = rs_deb_sample s \<and> rs_trim s' = rs_trim s \<and> rs_rest_until s' = rs_rest_until s \<and> rs_wall s' = rs_wall s
     \<and> rs_accepted s' = rs_accepted s \<and> rs_suspect s' = rs_suspect s \<and> rs_paused_until s' = rs_paused_until s
     \<and> rs_forced s' = rs_forced s \<and> rs_pre_stale s' = rs_pre_stale s \<and> rs_last_valid s' = rs_last_valid s \<and> rs_sample s' = rs_sample s"

lemma keeps_refl [simp]: "keeps s s" by (simp add: keeps_def)

lemma keeps_trans: "keeps a b \<Longrightarrow> keeps b c \<Longrightarrow> keeps a c" by (simp add: keeps_def)

lemma note_sent_keeps: "keeps s (note_sent r now w s)" "rs_commanded (note_sent r now w s) = rs_commanded s"
  "rs_last_cmd (note_sent r now w s) = rs_last_cmd s" "rs_pending (note_sent r now w s) = rs_pending s"
  "rs_urgent (note_sent r now w s) = rs_urgent s" "rs_sent_urgent (note_sent r now w s) = rs_sent_urgent s"
  "rs_send_no (note_sent r now w s) = rs_send_no s" "rs_sent_want (note_sent r now w s) = rs_sent_want s"
  "rs_resends (note_sent r now w s) = rs_resends s" "rs_retry (note_sent r now w s) = rs_retry s"
  "rs_day (note_sent r now w s) = rs_day s" "rs_drift_since (note_sent r now w s) = rs_drift_since s" "rs_confirmed (note_sent r now w s) = rs_confirmed s"
  "rs_drift_tick (note_sent r now w s) = rs_drift_tick s" "rs_pace (note_sent r now w s) = rs_pace s"
  by (simp_all add: note_sent_def Let_def keeps_def)

lemma onoff_hold_state: "onoff_hold r now s = (h, s') \<Longrightarrow> s' = s \<or> s' = drop_starts now s"
  by (auto simp: onoff_hold_def starts_last_h_def Let_def split: if_splits)

lemma drop_starts_keeps: "keeps s (drop_starts now s)"
  by (simp add: drop_starts_def keeps_def)

text \<open>What a send leaves.\<close>

lemma send_spec:
  assumes "send r now a changed s = (d, s')"
  shows "keeps s s' \<and> rs_last_cmd s' = Some now \<and> \<not> rs_pending s' \<and> \<not> rs_urgent s' \<and> rs_sent_urgent s' = rs_urgent s
    \<and> rs_commanded s' = nonempty (rs_want s) \<and> rs_send_no s' = Suc (rs_send_no s) \<and> de_action d = shadow_of r a
    \<and> de_want d = rs_want s' \<and> de_state d = rs_state s' \<and> rs_drift_tick s' = rs_drift_tick s"
  using assms note_sent_keeps(1) [of "s\<lparr>rs_resends := x, rs_sent_urgent := y, rs_sent_want := z, rs_retry := u\<rparr>" r now "rs_want s" for x y z u]
  by (auto simp: send_def mark_sent_def Let_def decide_def note_sent_keeps keeps_def)

text \<open>What must hold for a send.\<close>

definition paused :: "rat \<Rightarrow> rstate \<Rightarrow> bool" where
  "paused now s = (case rs_paused_until s of Some p \<Rightarrow> stamp s now < p | None \<Rightarrow> False)"

definition may_send :: "rule_env \<Rightarrow> rule_def \<Rightarrow> rat \<Rightarrow> rstate \<Rightarrow> bool" where
  "may_send ge r now s \<longleftrightarrow> rs_want s \<noteq> None \<and> \<not> paused now s
     \<and> (\<forall>who. ask_gate ge s (rs_urgent s) \<noteq> Some (YieldTo who)) \<and> (rs_urgent s \<or> \<not> rate_limited r now s)"

definition may_run :: "rule_env \<Rightarrow> rule_def \<Rightarrow> rat \<Rightarrow> rstate \<Rightarrow> bool" where
  "may_run ge r now s \<longleftrightarrow> rs_pending s \<and> (rs_urgent s \<or> \<not> fst (onoff_hold r now s)
     \<and> (ask_gate ge s False = Some PaceHolds \<longrightarrow> rs_pace s \<and> emergency_want r s))"

definition may_reassert :: "rule_def \<Rightarrow> rat \<Rightarrow> pyval \<Rightarrow> rstate \<Rightarrow> bool" where
  "may_reassert r now actual s \<longleftrightarrow> \<not> rs_pending s \<and> \<not> rate_limited r now s \<and> rs_commanded s \<noteq> None
     \<and> \<not> holds_want r actual (case rs_want s of Some w \<Rightarrow> w | None \<Rightarrow> [])
     \<and> (case rs_drift_since s of Some t \<Rightarrow> tm_reassert (rd_timing r) \<le> now - t | None \<Rightarrow> False)"

definition quiet_word :: "action option \<Rightarrow> bool" where
  "quiet_word q = (q \<in> {None, Some Hold, Some StaleNow})"

text \<open>What a tick that sends nothing leaves of the timers.\<close>

definition unsent :: "rstate \<Rightarrow> rstate \<Rightarrow> bool" where
  "unsent s s' \<longleftrightarrow> rs_last_cmd s' = rs_last_cmd s \<and> rs_send_no s' = rs_send_no s \<and> rs_urgent s' = rs_urgent s
     \<and> rs_sent_urgent s' = rs_sent_urgent s"

definition sent_from :: "rule_def \<Rightarrow> rat \<Rightarrow> rstate \<Rightarrow> decision \<Rightarrow> rstate \<Rightarrow> bool" where
  "sent_from r now s d s' \<longleftrightarrow> rs_last_cmd s' = Some now \<and> rs_sent_urgent s' = rs_urgent s \<and> \<not> rs_urgent s' \<and> \<not> rs_pending s'
     \<and> rs_commanded s' = nonempty (rs_want s) \<and> rs_send_no s' = Suc (rs_send_no s)"

lemma onoff_hold_cong:
  assumes "rs_commanded t = rs_commanded s" "rs_want t = rs_want s" "rs_on_since t = rs_on_since s" "rs_off_since t = rs_off_since s"
    "rs_rest_until t = rs_rest_until s" "rs_starts t = rs_starts s"
  shows "fst (onoff_hold r now t) = fst (onoff_hold r now s)"
  by (simp add: onoff_hold_def starts_last_h_def drop_starts_def Let_def assms)

lemma emergency_cong: "rs_state t = rs_state s \<Longrightarrow> rs_rest_until t = rs_rest_until s \<Longrightarrow> emergency_want r t = emergency_want r s"
  by (simp add: emergency_want_def)

lemma sends_decide [simp]: "sends (decide a c s) = (a \<in> {Run, Reassert, ShadowRun, ShadowReassert})"
  "de_want (decide a c s) = rs_want s" "de_state (decide a c s) = rs_state s" "de_action (decide a c s) = a"
  by (simp_all add: sends_def decide_def)

lemma shadow_sends [simp]: "a \<in> {Run, Reassert} \<Longrightarrow> shadow_of r a \<in> {Run, Reassert, ShadowRun, ShadowReassert}"
  by (auto simp: shadow_of_def)

lemma act_pending_spec:
  assumes "act_pending ge r now g quiet fresh actual changed w s = (d, s')" "quiet_word quiet"
  shows "keeps s s' \<and> de_want d = rs_want s' \<and> de_state d = rs_state s' \<and> rs_drift_tick s' = rs_drift_tick s
     \<and> (if sends d then sent_from r now s d s' \<and> de_action d = shadow_of r Run
          \<and> (rs_urgent s \<or> \<not> rate_limited r now s \<and> \<not> fst (onoff_hold r now s) \<and> (g = Some PaceHolds \<longrightarrow> rs_pace s \<and> emergency_want r s))
        else unsent s s')"
proof (cases "fresh \<and> holds_want r actual w")
  case True
  then show ?thesis
    using assms note_sent_keeps(1) [of s r now "rs_want s"]
    by (auto simp: act_pending_def Let_def keeps_def note_sent_keeps unsent_def quiet_word_def split: option.splits)
next
  case False
  note m = this
  show ?thesis
  proof (cases "boot_wait r now fresh actual s")
    case True
    then show ?thesis using assms m by (auto simp: act_pending_def unsent_def)
  next
    case b: False
    define h where "h = (if rs_urgent s then (False, s) else onoff_hold r now s)"
    obtain timer t where h': "h = (timer, t)" by (cases h)
    have t: "t = s \<or> t = drop_starts now s"
      using h' onoff_hold_state unfolding h_def by (metis prod.inject)
    have tk: "keeps s t" "rs_urgent t = rs_urgent s" "rs_last_cmd t = rs_last_cmd s" "rs_send_no t = rs_send_no s" "rs_sent_urgent t = rs_sent_urgent s"
       "rs_pace t = rs_pace s" "rs_drift_tick t = rs_drift_tick s" "rs_retry t = rs_retry s" "rs_want t = rs_want s"
      using t drop_starts_keeps [of s now] by (auto simp: drop_starts_def)
    have "rs_state t = rs_state s" "rs_rest_until t = rs_rest_until s"
      using tk(1) by (simp_all add: keeps_def)
    then have e: "emergency_want r t = emergency_want r s" "rate_limited r now t = rate_limited r now s"
      using tk(3) by (simp_all add: emergency_want_def rate_limited_def)
    have timer: "\<not> rs_urgent s \<Longrightarrow> timer = fst (onoff_hold r now s)" using h' unfolding h_def by simp
    have split: "(d, s') = (if timer \<or> \<not> rs_urgent t \<and> g = Some PaceHolds \<and> \<not> (rs_pace t \<and> emergency_want r t) then (decide Hold changed t, t)
               else if rs_urgent t \<and> rs_retry t \<and> since_less now (rs_last_cmd t) URGENT_RETRY_GAP_S then (decide Hold changed t, t)
               else if \<not> rs_urgent t \<and> rate_limited r now t then (decide Hold changed t, t)
               else send r now Run changed t)"
      using assms(1) m b h' unfolding act_pending_def h_def [symmetric] by simp
    show ?thesis
    proof (cases "(d, s') = (decide Hold changed t, t)")
      case True
      then show ?thesis using tk by (simp add: unsent_def)
    next
      case False
      then have g: "\<not> timer" "rs_urgent t \<or> \<not> rate_limited r now t" "\<not> rs_urgent t \<longrightarrow> g = Some PaceHolds \<longrightarrow> rs_pace t \<and> emergency_want r t"
        and snd: "send r now Run changed t = (d, s')"
        using split by (metis (no_types, lifting))+
      have sp: "keeps t s'" "rs_last_cmd s' = Some now" "\<not> rs_pending s'" "\<not> rs_urgent s'" "rs_sent_urgent s' = rs_urgent t"
        "rs_commanded s' = nonempty (rs_want t)" "rs_send_no s' = Suc (rs_send_no t)" "de_action d = shadow_of r Run"
        "de_want d = rs_want s'" "de_state d = rs_state s'" "rs_drift_tick s' = rs_drift_tick t"
        using send_spec [OF snd] by simp_all
      have "sends d" using sp(8) by (auto simp: sends_def shadow_of_def)
      then show ?thesis
        using sp g tk(2-) e timer keeps_trans [OF tk(1) sp(1)] by (cases "rs_urgent s") (auto simp: sent_from_def)
    qed
  qed
qed


lemma holds_not: "\<not> holds_want r actual w \<Longrightarrow> param_num w (rd_param r) = Some q \<Longrightarrow> num_of actual = Some a \<Longrightarrow> rd_tolerance r < \<bar>a - q\<bar>"
  by (simp add: holds_want_def)

lemma pace_hold_spec:
  assumes "pace_hold ge r now s = (h, s')"
  shows "keeps s s' \<and> rs_commanded s' = rs_commanded s \<and> rs_pending s' = rs_pending s \<and> rs_drift_since s' = rs_drift_since s
    \<and> rs_on_since s' = rs_on_since s \<and> rs_off_since s' = rs_off_since s \<and> unsent s s'
    \<and> (\<not> h \<longrightarrow> rs_pace s \<and> \<not> emergency_want r s \<longrightarrow> ask_gate ge s False \<noteq> Some PaceHolds)"
  using assms by (auto simp: pace_hold_def drift_unheld_def Let_def keeps_def unsent_def split: if_splits)

lemma act_drift_spec:
  assumes "act_drift ge r now fresh actual w s = (d, s')"
  shows "keeps s s' \<and> de_want d = rs_want s' \<and> de_state d = rs_state s'
     \<and> (if sends d then sent_from r now s d s' \<and> de_action d = shadow_of r Reassert \<and> \<not> rate_limited r now s \<and> fresh
          \<and> rs_commanded s \<noteq> None \<and> \<not> holds_want r actual w \<and> (\<exists>t. rs_drift_since s = Some t \<and> tm_reassert (rd_timing r) \<le> now - t)
        else unsent s s')"
proof (cases "rs_commanded s = None \<or> param_num w (rd_param r) = None \<or> \<not> fresh \<or> num_of actual = None \<or> holds_want r actual w")
  case True
  then show ?thesis
    using assms by (auto simp: act_drift_def drift_unheld_def Let_def keeps_def unsent_def split: if_splits)
next
  case False
  define since where "since = (case rs_drift_since s of Some t \<Rightarrow> t | None \<Rightarrow> now)"
  define t where "t = s\<lparr>rs_drift_tick := True, rs_drift_since := Some since\<rparr>"
  obtain h u where ph: "pace_hold ge r now t = (h, u)" by (cases "pace_hold ge r now t")
  obtain d2 v where snd: "send r now Reassert False (u\<lparr>rs_drift_since := None\<rparr>) = (d2, v)" by (cases "send r now Reassert False (u\<lparr>rs_drift_since := None\<rparr>)")
  define v2 where "v2 = v\<lparr>rs_last_undo := map_option (\<lambda>u. u\<lparr>un_drift := Some since\<rparr>) (rs_last_undo v)\<rparr>"
  have kt: "keeps s t" "unsent s t" by (simp_all add: t_def keeps_def unsent_def)
  have ku: "keeps t u" "unsent t u" "rs_commanded u = rs_commanded t" using pace_hold_spec [OF ph] by simp_all
  have ku': "keeps u (u\<lparr>rs_drift_since := None\<rparr>)" by (simp add: keeps_def)
  have kv: "keeps (u\<lparr>rs_drift_since := None\<rparr>) v" using send_spec [OF snd] by simp
  have kv2: "keeps v v2" by (simp add: v2_def keeps_def)
  have c: "(d, s') = (if 0 < tm_reassert (rd_timing r) \<and> tm_reassert (rd_timing r) \<le> now - since
               then if rate_limited r now t then (decide Hold False t, t) else if h then (decide Hold False u, u) else (d2, v2)
               else (decide Idle False t, t))"
    using assms False ph snd
    unfolding act_drift_def Let_def since_def [symmetric] t_def [symmetric] v2_def by (auto split: if_splits)
  show ?thesis
  proof (cases "(d, s') = (d2, v2) \<and> 0 < tm_reassert (rd_timing r) \<and> tm_reassert (rd_timing r) \<le> now - since \<and> \<not> rate_limited r now t")
    case True
    have "sends d" using True send_spec [OF snd] by (auto simp: sends_def shadow_of_def)
    moreover have "keeps s s'" using True kt(1) ku(1) ku' kv kv2 by (blast intro: keeps_trans)
    moreover have "\<exists>t. rs_drift_since s = Some t \<and> tm_reassert (rd_timing r) \<le> now - t"
      using True by (cases "rs_drift_since s") (auto simp: since_def)
    moreover have "rate_limited r now t = rate_limited r now s" by (simp add: t_def rate_limited_def)
    moreover have "rs_want u = rs_want s" "rs_urgent u = rs_urgent s" "rs_send_no u = rs_send_no s"
      using kt ku by (simp_all add: keeps_def unsent_def)
    ultimately show ?thesis
      using True False send_spec [OF snd] by (simp add: sent_from_def v2_def)
  next
    case f: False
    have "(d, s') \<in> {(decide Hold False t, t), (decide Hold False u, u), (decide Idle False t, t)}"
      using c f by (metis insertCI)
    then show ?thesis using kt ku keeps_trans [OF kt(1) ku(1)] by (auto simp: unsent_def)
  qed
qed


lemma hold_marks [simp]:
  "fst (onoff_hold r now (s\<lparr>rs_drift_tick := b\<rparr>)) = fst (onoff_hold r now s)"
  "fst (onoff_hold r now (s\<lparr>rs_yielding_to := y\<rparr>)) = fst (onoff_hold r now s)"
  "rate_limited r now (s\<lparr>rs_drift_tick := b\<rparr>) = rate_limited r now s" "rate_limited r now (s\<lparr>rs_yielding_to := y\<rparr>) = rate_limited r now s"
  "emergency_want r (s\<lparr>rs_drift_tick := b\<rparr>) = emergency_want r s" "emergency_want r (s\<lparr>rs_yielding_to := y\<rparr>) = emergency_want r s"
  "ask_gate ge (s\<lparr>rs_drift_tick := b\<rparr>) u = ask_gate ge s u" "paused now (s\<lparr>rs_drift_tick := b\<rparr>) = paused now s"
  by (rule onoff_hold_cong, simp_all)+ (simp_all add: rate_limited_def emergency_want_def ask_gate_def paused_def stamp_def split: option.splits)

definition explains :: "rule_env \<Rightarrow> rule_def \<Rightarrow> rat \<Rightarrow> pyval \<Rightarrow> rstate \<Rightarrow> decision \<Rightarrow> rstate \<Rightarrow> bool" where
  "explains ge r now actual s d s' \<longleftrightarrow> sent_from r now s d s' \<and> may_send ge r now s
     \<and> (de_action d = shadow_of r Run \<and> may_run ge r now s \<or> de_action d = shadow_of r Reassert \<and> may_reassert r now actual s)"

lemma act_body_spec:
  assumes "act_body ge r now quiet actual age stale changed s = (d, s')" "quiet_word quiet"
  shows "keeps s s' \<and> de_want d = rs_want s' \<and> de_state d = rs_state s' \<and> (if sends d then explains ge r now actual s d s' else unsent s s')"
proof (cases "paused now s \<or> rs_want s = None \<or> (\<exists>who. ask_gate ge s (rs_urgent s) = Some (YieldTo who))")
  case True
  have q: "(case quiet of Some a \<Rightarrow> a | None \<Rightarrow> Idle) \<in> {Idle, Hold, StaleNow}"
    using assms(2) by (auto simp: quiet_word_def)
  have "\<exists>a. d = decide a changed s' \<and> a \<in> {Idle, Hold, StaleNow, Sweep, Yield}
      \<and> (s' = s \<or> s' = s\<lparr>rs_yielding_to := None\<rparr> \<or> (\<exists>who. s' = s\<lparr>rs_pending := True, rs_yielding_to := Some who\<rparr>))"
  proof (cases "paused now s")
    case True
    then show ?thesis using assms(1) unfolding act_body_def paused_def [symmetric] by auto
  next
    case f: False
    show ?thesis
    proof (cases "rs_want s")
      case None
      then show ?thesis
        using f q assms(1) unfolding act_body_def paused_def [symmetric] by (auto simp: Let_def split: if_splits)
    next
      case (Some w)
      then obtain who where "ask_gate ge s (rs_urgent s) = Some (YieldTo who)" using True f by auto
      then show ?thesis
        using f Some assms(1) unfolding act_body_def paused_def [symmetric] by (auto simp: Let_def)
    qed
  qed
  then show ?thesis by (auto simp: keeps_def unsent_def)
next
  case False
  then obtain w where w: "rs_want s = Some w" by auto
  define t where "t = s\<lparr>rs_yielding_to := None\<rparr>"
  define g where "g = ask_gate ge s (rs_urgent s)"
  have kt: "keeps s t" "unsent s t" "rs_pending t = rs_pending s" "rs_urgent t = rs_urgent s" "rs_pace t = rs_pace s" "rs_want t = Some w"
    "rs_commanded t = rs_commanded s" "rs_drift_since t = rs_drift_since s"
    by (simp_all add: t_def keeps_def unsent_def w)
  have hold: "fst (onoff_hold r now t) = fst (onoff_hold r now s)" "rate_limited r now t = rate_limited r now s" "emergency_want r t = emergency_want r s"
    by (simp_all add: t_def)
  have sent: "sent_from r now t d s' \<Longrightarrow> sent_from r now s d s'" "unsent t s' \<Longrightarrow> unsent s s'"
    by (auto simp: sent_from_def unsent_def t_def)
  have ms: "rs_urgent s \<or> \<not> rate_limited r now s \<Longrightarrow> may_send ge r now s"
    using False by (auto simp: may_send_def)
  show ?thesis
  proof (cases "rs_pending s")
    case True
    then have "act_pending ge r now g quiet (is_fresh actual age stale) actual changed w t = (d, s')"
      using assms(1) False w by (auto simp: act_body_def paused_def [symmetric] t_def g_def Let_def split: option.splits gate_answer.splits)
    from act_pending_spec [OF this assms(2)] show ?thesis
      using True kt hold sent ms keeps_trans [OF kt(1)] by (auto simp: explains_def may_run_def g_def split: if_splits)
  next
    case n: False
    show ?thesis
    proof (cases quiet)
      case (Some a)
      then have "d = decide a changed t" "s' = t"
        using assms(1) False w n by (auto simp: act_body_def paused_def [symmetric] t_def Let_def split: option.splits gate_answer.splits)
      then show ?thesis using kt assms(2) Some by (auto simp: quiet_word_def)
    next
      case None
      then have "act_drift ge r now (is_fresh actual age stale) actual w t = (d, s')"
        using assms(1) False w n by (auto simp: act_body_def paused_def [symmetric] t_def Let_def split: option.splits gate_answer.splits)
      from act_drift_spec [OF this] show ?thesis
        using n w kt hold sent ms keeps_trans [OF kt(1)] by (auto simp: explains_def may_reassert_def split: if_splits)
    qed
  qed
qed

lemma act_spec:
  assumes "act ge r now quiet actual age stale changed s = (d, s')" "quiet_word quiet"
  shows "keeps s s' \<and> de_want d = rs_want s' \<and> de_state d = rs_state s' \<and> (if sends d then explains ge r now actual s d s' else unsent s s')"
proof -
  define t where "t = s\<lparr>rs_drift_tick := False\<rparr>"
  obtain u where u: "act_body ge r now quiet actual age stale changed t = (d, u)" "s' = (if rs_drift_tick u then u else drift_unheld u)"
    using assms(1) by (auto simp: act_def t_def split: prod.splits)
  have k: "keeps s t" "keeps u s'" by (auto simp: t_def keeps_def u(2) drift_unheld_def)
  have f: "rs_last_cmd s' = rs_last_cmd u" "rs_send_no s' = rs_send_no u" "rs_urgent s' = rs_urgent u" "rs_sent_urgent s' = rs_sent_urgent u"
    "rs_pending s' = rs_pending u" "rs_commanded s' = rs_commanded u" "rs_want s' = rs_want u" "rs_state s' = rs_state u"
    by (simp_all add: u(2) drift_unheld_def)
  have e: "explains ge r now actual t d u \<Longrightarrow> explains ge r now actual s d s'" "unsent t u \<Longrightarrow> unsent s s'"
    by (auto simp: explains_def sent_from_def may_send_def may_run_def may_reassert_def unsent_def f t_def)
  show ?thesis
    using act_body_spec [OF u(1) assms(2)] k e f by (auto intro: keeps_trans split: if_splits)
qed


section \<open>One evaluation\<close>

text \<open>
  Every evaluation prepares a state, which leaves the timers and the marks of what was sent
  alone, and then acts on it or stops there.
\<close>

definition carries :: "rstate \<Rightarrow> rstate \<Rightarrow> bool" where
  "carries s0 s \<longleftrightarrow> rs_last_cmd s = rs_last_cmd s0 \<and> rs_send_no s = rs_send_no s0 \<and> rs_paused_until s = rs_paused_until s0
     \<and> rs_pace s = rs_pace s0 \<and> rs_sent_urgent s = rs_sent_urgent s0 \<and> rs_on_since s = rs_on_since s0 \<and> rs_off_since s = rs_off_since s0
     \<and> rs_starts s = rs_starts s0 \<and> rs_drift_since s = rs_drift_since s0
     \<and> (rs_commanded s = rs_commanded s0 \<or> rs_commanded s0 = None \<and> rs_last_cmd s0 = None)"

definition prep :: "rstate \<Rightarrow> rstate \<Rightarrow> bool" where
  "prep s0 s \<longleftrightarrow> carries s0 s \<and> rs_urgent s = rs_urgent s0"

text \<open>The reasons for which a want is urgent: a rest, a blind rule that fails closed, a fast step.\<close>

definition emergency :: "rule_def \<Rightarrow> rstate \<Rightarrow> bool" where
  "emergency r s \<longleftrightarrow> rs_rest_until s \<noteq> None \<or> rs_state s = STALE \<and> rd_on_stale r \<noteq> HoldWant
     \<or> rd_kind r = StepsRule \<and> (\<exists>p\<in>set (rd_steps r). sp_fast p \<and> sp_label p = rs_state s)"

definition prepared :: "rule_def \<Rightarrow> rstate \<Rightarrow> rstate \<Rightarrow> bool" where
  "prepared r s0 s \<longleftrightarrow> carries s0 s \<and> (rs_urgent s \<longrightarrow> rs_urgent s0 \<or> emergency r s)"

definition led_to :: "rule_env \<Rightarrow> rule_def \<Rightarrow> rat \<Rightarrow> sample \<Rightarrow> rat \<Rightarrow> rstate \<Rightarrow> decision \<times> rstate \<Rightarrow> bool" where
  "led_to ge r now sa wall s0 res \<longleftrightarrow>
     (\<exists>s. prepared r s0 s \<and> rs_wall s = wall \<and>
        (res = (fst res, s) \<and> \<not> sends (fst res) \<and> de_want (fst res) = rs_want s \<and> de_state (fst res) = rs_state s
         \<or> (\<exists>q age stale c. quiet_word q \<and> act ge r now q (sa_actual sa) age stale c s = res)))"

lemma prep_prepared: "prep s0 s \<Longrightarrow> prepared r s0 s"
  by (simp add: prep_def prepared_def)

lemma led_act: "prepared r s0 s \<Longrightarrow> rs_wall s = wall \<Longrightarrow> quiet_word q \<Longrightarrow> led_to ge r now sa wall s0 (act ge r now q (sa_actual sa) age stale c s)"
  unfolding led_to_def by blast

lemma led_decide: "prepared r s0 s \<Longrightarrow> rs_wall s = wall \<Longrightarrow> a \<in> {Hold, Ignored} \<Longrightarrow> led_to ge r now sa wall s0 (decide a c s, s)"
  unfolding led_to_def by (rule exI [of _ s]) auto

lemma quiet_words [simp]: "quiet_word None" "quiet_word (Some Hold)" "quiet_word (Some StaleNow)"
  by (simp_all add: quiet_word_def)

text \<open>A state between, on the same wall clock.\<close>

definition between :: "rat \<Rightarrow> rstate \<Rightarrow> rstate \<Rightarrow> bool" where
  "between wall s0 s \<longleftrightarrow> prep s0 s \<and> rs_wall s = wall"

lemmas between_simps = between_def prep_def carries_def

lemma between_update [simp]: "between wall s0 (s\<lparr>rs_state := st, rs_want := w, rs_since := x, rs_pending := p\<rparr>) = between wall s0 s"
  "between wall s0 (s\<lparr>rs_state := st, rs_since := x\<rparr>) = between wall s0 s" "between wall s0 (s\<lparr>rs_clamp := c\<rparr>) = between wall s0 s"
  by (simp_all add: between_simps)

lemma between_transition: "between wall s0 s \<Longrightarrow> transition l w now s = (c, t) \<Longrightarrow> between wall s0 t"
  by (auto simp: transition_def split: if_splits)

lemma between_relabel: "between wall s0 s \<Longrightarrow> relabel l now s = (c, t) \<Longrightarrow> between wall s0 t"
  by (auto simp: relabel_def split: if_splits)

lemma apply_clamp_state: "apply_clamp r w wl v s = (x, t) \<Longrightarrow> t = s \<or> t = s\<lparr>rs_clamp := None\<rparr>"
  unfolding apply_clamp_def by (simp split: option.splits prod.splits if_splits)

lemma between_clamp: "between wall s0 s \<Longrightarrow> apply_clamp r w wl v s = (x, t) \<Longrightarrow> between wall s0 t"
  by (auto dest: apply_clamp_state)

lemma between_led: "between wall s0 s \<Longrightarrow> quiet_word q \<Longrightarrow> led_to ge r now sa wall s0 (act ge r now q (sa_actual sa) age stale c s)"
  by (auto simp: between_def intro: led_act prep_prepared)

lemma between_decide: "between wall s0 s \<Longrightarrow> a \<in> {Hold, Ignored} \<Longrightarrow> led_to ge r now sa wall s0 (decide a c s, s)"
  by (auto simp: between_def intro: led_decide prep_prepared)

lemma stale_led: "between wall s0 s \<Longrightarrow> led_to ge r now sa wall s0 (stale_eval ge r now sa s)"
proof (cases "rs_state s = STALE")
  case True
  then show "between wall s0 s \<Longrightarrow> ?thesis" by (simp add: stale_eval_def between_led)
next
  case False
  assume b: "between wall s0 s"
  define u where "u = s\<lparr>rs_pre_stale := Some (rs_state s, rs_want s), rs_stale_since := Some now\<rparr>"
  obtain c t where t: "transition STALE (stale_want r s) now u = (c, t)" by (cases "transition STALE (stale_want r s) now u")
  have "between wall s0 t" by (rule between_transition [OF _ t]) (use b in \<open>simp add: u_def between_simps\<close>)
  moreover have "rs_state t = STALE" using t by (auto simp: transition_def split: if_splits)
  ultimately have "prepared r s0 (t\<lparr>rs_urgent := (rd_on_stale r \<noteq> HoldWant), rs_deb_target := None, rs_deb_count := 0\<rparr>)" "rs_wall t = wall"
    by (simp_all add: between_simps prepared_def emergency_def)
  then show ?thesis using False t by (simp add: stale_eval_def u_def led_act)
qed

lemma adopt_prepared:
  assumes "between wall s0 s" "adopt st w base urgent now s = (c, t)" "urgent \<Longrightarrow> rd_kind r = StepsRule \<and> (\<exists>p\<in>set (rd_steps r). sp_fast p \<and> sp_label p = st)"
  shows "prepared r s0 t \<and> rs_wall t = wall"
proof -
  define u where "u = s\<lparr>rs_deb_target := None, rs_deb_count := 0, rs_base := base\<rparr>"
  obtain c' v where v: "transition st w now u = (c', v)" by (cases "transition st w now u")
  have "between wall s0 v" by (rule between_transition [OF _ v]) (use assms(1) in \<open>simp add: u_def between_simps\<close>)
  moreover have "rs_state v = st" using v by (auto simp: transition_def split: if_splits)
  moreover have "t = v\<lparr>rs_urgent := urgent\<rparr>" using assms(2) v by (simp add: adopt_def u_def)
  ultimately show ?thesis using assms(3) by (auto simp: between_simps prepared_def emergency_def)
qed

lemma settle_led:
  assumes "between wall s0 s" "fast \<Longrightarrow> rd_kind r = StepsRule \<and> (\<exists>p\<in>set (rd_steps r). sp_fast p \<and> sp_label p = st)"
  shows "led_to ge r now sa wall s0 (settle_want ge r now sa ts new st w base fast s)"
proof -
  define u where "u = count_sample now ts new st w s"
  have u: "between wall s0 u" using assms(1) by (auto simp: u_def count_sample_def between_simps split: if_splits)
  have d: "between wall s0 (s\<lparr>rs_deb_target := None, rs_deb_count := 0\<rparr>)" using assms(1) by (simp add: between_simps)
  obtain c1 t1 where t1: "adopt st w base fast now s = (c1, t1)" by (cases "adopt st w base fast now s")
  obtain c2 t2 where t2: "adopt st w base False now u = (c2, t2)" by (cases "adopt st w base False now u")
  note p = adopt_prepared [OF assms(1) t1 assms(2)] adopt_prepared [OF u t2, of r, simplified]
  show ?thesis
    unfolding settle_want_def Let_def u_def [symmetric] using p u d t1 t2
    by (auto intro: led_act between_led)
qed

lemma reached_fold: "fold (\<lambda>p best. if sp_at p \<le> v then Some p else best) ps b = Some p \<Longrightarrow> b = Some p \<or> p \<in> set ps"
  by (induction ps arbitrary: b) (auto split: if_splits)

lemma reached_in: "reached_step ps v = Some p \<Longrightarrow> p \<in> set ps"
  using reached_fold [of v ps None p] by (simp add: reached_step_def)

lemma desired_spec:
  assumes "desired r v actual s = ((st, base, fast), t)"
  shows "(\<exists>b. t = s\<lparr>rs_boot_unknown := b\<rparr>) \<and> (fast \<longrightarrow> (\<exists>p\<in>set (rd_steps r). sp_fast p \<and> sp_label p = st))"
proof (cases "reached_step (rd_steps r) v")
  case (Some p)
  then show ?thesis using assms reached_in [OF Some] by (auto simp: desired_def Let_def)
next
  case None
  then have "(\<exists>b. t = s\<lparr>rs_boot_unknown := b\<rparr>) \<and> \<not> fast"
    using assms unfolding desired_def Let_def None by (simp split: if_splits option.splits) blast+
  then show ?thesis by simp
qed

lemma desired_between:
  assumes "between wall s0 s" "rule_desired ge r sa s = ((st, base, fast), t)"
  shows "between wall s0 t \<and> (fast \<longrightarrow> rd_kind r = StepsRule \<and> (\<exists>p\<in>set (rd_steps r). sp_fast p \<and> sp_label p = st))"
proof (cases "rd_kind r = StepsRule")
  case True
  then have d: "desired r (case signal_num (sa_signal sa) of Some v \<Rightarrow> v | None \<Rightarrow> 0) (sa_actual sa) s = ((st, base, fast), t)"
    using assms(2) by (simp add: rule_desired_def)
  obtain b where "t = s\<lparr>rs_boot_unknown := b\<rparr>" using desired_spec [OF d] by blast
  then have "between wall s0 t" using assms(1) by (simp add: between_simps)
  then show ?thesis using desired_spec [OF d] True by blast
next
  case False
  then have "t = s \<and> \<not> fast" using assms(2) by (auto simp: rule_desired_def split: rule_kind.splits prod.splits)
  then show ?thesis using assms(1) by simp
qed

lemma trim_follow_led: "between wall s0 s \<Longrightarrow> led_to ge r now sa wall s0 (trim_follow ge r now sa lead s)"
proof (cases lead)
  case (Some x)
  assume b: "between wall s0 s"
  obtain w v st where x: "x = (w, v, st)" by (cases x)
  obtain c t where t: "transition st (Some w) now (s\<lparr>rs_trim := Some v\<rparr>) = (c, t)" by (cases "transition st (Some w) now (s\<lparr>rs_trim := Some v\<rparr>)")
  have "between wall s0 t" by (rule between_transition [OF _ t]) (use b in \<open>simp add: between_simps\<close>)
  then show ?thesis using Some x t by (simp add: trim_follow_def between_led)
qed (simp add: trim_follow_def between_led)

lemma trim_adjust_led:
  assumes "between wall s0 s"
  shows "led_to ge r now sa wall s0 (trim_adjust ge r now v dir sa held x s)"
proof -
  define cur where "cur = (if \<not> rd_armed r \<and> held \<noteq> None then trim_seed r held else x)"
  obtain w t where c: "apply_clamp r (want_for r (Some (ask r (trim_next r cur v dir)))) (rs_wall s) None (s\<lparr>rs_trim_count := 0\<rparr>) = (w, t)"
    by (cases "apply_clamp r (want_for r (Some (ask r (trim_next r cur v dir)))) (rs_wall s) None (s\<lparr>rs_trim_count := 0\<rparr>)")
  define new where "new = (case param_num (case w of Some p \<Rightarrow> p | None \<Rightarrow> []) (rd_param r) of Some q \<Rightarrow> q | None \<Rightarrow> cur)"
  define moved where "moved = (1 / 1000000000 < \<bar>new - cur\<bar>)"
  define u where "u = t\<lparr>rs_trim := Some new\<rparr>"
  have "between wall s0 t" by (rule between_clamp [OF _ c]) (use assms in \<open>simp add: between_simps\<close>)
  then have u: "between wall s0 u" by (simp add: u_def between_simps)
  obtain c1 u1 where r1: "relabel (trim_label r new dir moved) now u = (c1, u1)" by (cases "relabel (trim_label r new dir moved) now u")
  obtain c2 u2 where r2: "transition (trim_label r new dir moved) w now u = (c2, u2)" by (cases "transition (trim_label r new dir moved) w now u")
  have e: "trim_adjust ge r now v dir sa held x s =
    (if \<not> moved \<and> rs_want u \<noteq> None then act ge r now None (sa_actual sa) (sa_actual_age sa) (sa_actual_stale sa) c1 u1
     else act ge r now None (sa_actual sa) (sa_actual_age sa) (sa_actual_stale sa) (trim_label r new dir moved \<noteq> rs_state u) u2)"
    unfolding trim_adjust_def Let_def cur_def [symmetric] c prod.case new_def [symmetric] moved_def [symmetric] u_def [symmetric] r1 r2 by simp
  show ?thesis
    unfolding e using between_relabel [OF u r1] between_transition [OF u r2] by (simp add: between_led)
qed

lemma trim_move_led:
  assumes "between wall s0 s"
  shows "led_to ge r now sa wall s0 (trim_move ge r now v new sa held x s)"
proof (cases "trim_direction r v = 0")
  case True
  define t where "t = s\<lparr>rs_trim_dir := 0, rs_trim_count := 0, rs_trim_since := None\<rparr>"
  obtain c u where u: "relabel (trim_label r x 0 True) now t = (c, u)" by (cases "relabel (trim_label r x 0 True) now t")
  have "between wall s0 u" by (rule between_relabel [OF _ u]) (use assms in \<open>simp add: t_def between_simps\<close>)
  then show ?thesis using True u by (simp add: trim_move_def t_def between_led)
next
  case False
  define dir where "dir = trim_direction r v"
  define t where "t = (if dir \<noteq> rs_trim_dir s then s\<lparr>rs_trim_dir := dir, rs_trim_count := 1, rs_trim_since := Some now\<rparr>
                        else if new then s\<lparr>rs_trim_count := rs_trim_count s + 1\<rparr> else s)"
  have t: "between wall s0 t" using assms by (auto simp: t_def between_simps)
  show ?thesis
    using False unfolding trim_move_def Let_def dir_def [symmetric] t_def [symmetric]
    by (simp add: between_led [OF t] between_decide [OF t] trim_adjust_led [OF t])
qed

lemma trim_led:
  assumes "between wall s0 s"
  shows "led_to ge r now sa wall s0 (trim_eval ge r now v new sa s)"
proof -
  have "between wall s0 (s\<lparr>rs_trim := t\<rparr>)" for t using assms by (simp add: between_simps)
  then show ?thesis
    using assms by (auto simp: trim_eval_def Let_def trim_follow_led trim_move_led between_led split: option.splits)
qed

lemma rest_led:
  assumes "between wall s0 s" "rest ge r now sa s = (res, t)"
  shows "case res of Some d \<Rightarrow> led_to ge r now sa wall s0 (d, t) | None \<Rightarrow> between wall s0 t"
proof -
  define u where "u = (if (case rs_rest_until s of Some x \<Rightarrow> x \<le> now | None \<Rightarrow> False) then s\<lparr>rs_rest_until := None\<rparr> else s)"
  have u: "between wall s0 u" using assms(1) by (auto simp: u_def between_simps)
  obtain v where v: "v = start_rest r now u" by simp
  have pv: "prepared r s0 v \<and> rs_wall v = wall"
  proof -
    define a where "a = u\<lparr>rs_rest_until := Some (now + tm_min_off (rd_timing r)), rs_trim := None, rs_deb_target := None, rs_deb_count := 0, rs_trim_count := 0\<rparr>"
    obtain c b where b: "transition ''resting'' (want_for r (Some [(rd_param r, case off_value r of Some q \<Rightarrow> VFloat q | None \<Rightarrow> VNone)])) now a = (c, b)"
      by (cases "transition ''resting'' (want_for r (Some [(rd_param r, case off_value r of Some q \<Rightarrow> VFloat q | None \<Rightarrow> VNone)])) now a")
    have "between wall s0 b" by (rule between_transition [OF _ b]) (use u in \<open>simp add: a_def between_simps\<close>)
    moreover have "rs_rest_until b = Some (now + tm_min_off (rd_timing r))" using b by (auto simp: transition_def a_def split: if_splits)
    moreover have "v = b\<lparr>rs_urgent := True\<rparr>" by (simp add: v start_rest_def a_def [symmetric] b)
    ultimately show ?thesis by (simp add: between_simps prepared_def emergency_def)
  qed
  define go where "go = act ge r now None (sa_actual sa) (sa_actual_age sa) (sa_actual_stale sa)"
  have e: "(res, t) = (if rs_rest_until u = None \<and> tm_max_on (rd_timing r) \<noteq> 0 \<and> rs_on_since u \<noteq> None \<and> is_on r (rs_commanded u) = Some True
            \<and> tm_max_on (rd_timing r) \<le> now - the (rs_on_since u)
         then (let (d, s) = go True v in (Some d, s))
         else if rs_rest_until u \<noteq> None
         then (if rs_pending u then (let (d, s) = go False u in (Some d, s)) else (Some (decide Hold False u), u))
         else (None, u))"
    using assms(2) unfolding rest_def Let_def u_def [symmetric] go_def [symmetric] v by simp
  have "led_to ge r now sa wall s0 (go True v)" "led_to ge r now sa wall s0 (go False u)" "led_to ge r now sa wall s0 (decide Hold False u, u)"
    using pv u unfolding go_def by (auto intro: led_act between_led between_decide)
  then show ?thesis using e u by (auto split: if_splits prod.splits)
qed

lemma forced_led:
  assumes "between wall s0 s" "forced_eval ge r now sa f s = (res, t)"
  shows "case res of Some d \<Rightarrow> led_to ge r now sa wall s0 (d, t) | None \<Rightarrow> between wall s0 t"
proof (cases "snd f \<le> rs_wall s")
  case True
  then have "res = None" "t = end_force s" using assms(2) by (simp_all add: forced_eval_def)
  then show ?thesis using assms(1) by (simp add: end_force_def between_simps)
next
  case False
  obtain w u where u: "apply_clamp r (want_for r (Some (fst f))) (rs_wall s) None s = (w, u)" by (cases "apply_clamp r (want_for r (Some (fst f))) (rs_wall s) None s")
  obtain c v where v: "transition ''forced'' w now u = (c, v)" by (cases "transition ''forced'' w now u")
  have "between wall s0 v" by (rule between_transition [OF between_clamp [OF assms(1) u] v])
  then have "led_to ge r now sa wall s0 (act ge r now None (sa_actual sa) (sa_actual_age sa) (sa_actual_stale sa) c v)" by (simp add: between_led)
  then show ?thesis using assms(2) False u v by (auto simp: forced_eval_def split: prod.splits)
qed

lemma resume_between:
  assumes "between wall s0 s"
  shows "between wall s0 (resume r now held s)"
proof (cases "resume r now held s = s")
  case False
  then obtain q p where q: "held = Some q" "held_step r q = Some p" and n: "rs_commanded s = None" "rs_last_cmd s = None"
    by (auto simp: resume_def split: option.splits if_splits)
  define t where "t = s\<lparr>rs_base := Some (ask r (sp_value p))\<rparr>"
  obtain c u where u: "transition (sp_label p) (want_for r (rs_base t)) now t = (c, u)" by (cases "transition (sp_label p) (want_for r (rs_base t)) now t")
  have "between wall s0 u" by (rule between_transition [OF _ u]) (use assms in \<open>simp add: t_def between_simps\<close>)
  moreover have "resume r now held s = u\<lparr>rs_pending := False, rs_commanded := rs_want u, rs_confirmed := True\<rparr>"
    using False q u unfolding resume_def Let_def t_def by (auto split: if_splits)
  ultimately show ?thesis using n assms by (auto simp: between_simps)
qed (use assms in simp)

lemma live_led:
  assumes "between wall s0 s"
  shows "led_to ge r now sa wall s0 (live_eval ge r now sa ts new s)"
proof -
  define a where "a = (if rs_state s = STALE
               then s\<lparr>rs_state := (case rs_pre_stale s of Some (l, w) \<Rightarrow> l | None \<Rightarrow> NORMAL),
                       rs_trim := (if rd_kind r = TrimRule \<and> rd_on_stale r \<noteq> HoldWant then None else rs_trim s)\<rparr>
               else s)"
  define b where "b = (if rd_resume_on_boot r \<and> rd_kind r = StepsRule
                        then resume r now (if is_fresh (sa_actual sa) (sa_actual_age sa) (sa_actual_stale sa) then num_of (sa_actual sa) else None) a
                        else a)"
  obtain st base fast c where c: "rule_desired ge r sa b = ((st, base, fast), c)" by (metis prod.collapse)
  obtain w d where d: "apply_clamp r (want_for r base) (rs_wall c) (if rd_kind r = StepsRule then signal_num (sa_signal sa) else None) c = (w, d)"
    by (metis prod.collapse)
  have a: "between wall s0 a" using assms by (auto simp: a_def between_simps)
  then have b: "between wall s0 b" by (simp add: b_def resume_between)
  have d': "between wall s0 d" by (rule between_clamp [OF _ d]) (use desired_between [OF b c] in simp)
  show ?thesis
    unfolding live_eval_def Let_def a_def [symmetric] b_def [symmetric] c d prod.case
    using trim_led [OF a] settle_led [OF d'] desired_between [OF b c] by simp
qed

lemma guard_between:
  assumes "between wall s0 s" "guard_sample r v new s = (h, t)"
  shows "between wall s0 t"
proof -
  have "between wall s0 (s\<lparr>rs_accepted := a, rs_suspect := b\<rparr>)" "between wall s0 (s\<lparr>rs_suspect := b, rs_guarded := n\<rparr>)" for a b n
    using assms(1) by (simp_all add: between_simps)
  then show ?thesis
    using assms unfolding guard_sample_def by (auto split: option.splits if_splits)
qed

definition weighed :: "rule_def \<Rightarrow> rat \<Rightarrow> sample \<Rightarrow> rstate \<Rightarrow> rstate" where
  "weighed r now sa s = (if valid_sample r (sa_signal sa) \<and> sa_age sa \<noteq> None then s\<lparr>rs_last_valid := Some (now - the (sa_age sa))\<rparr>
     else if \<not> valid_sample r (sa_signal sa) then s\<lparr>rs_ignored := Suc (rs_ignored s)\<rparr> else s)"

lemma judge_led:
  assumes "between wall s0 s"
  shows "led_to ge r now sa wall s0 (judge_sample ge r now sa ts new s)"
proof -
  define t where "t = weighed r now sa s"
  have t: "between wall s0 t" using assms by (auto simp: t_def weighed_def between_simps)
  obtain res u where u: "rest ge r now sa (t\<lparr>rs_stale_since := None\<rparr>) = (res, u)" by (metis prod.collapse)
  have "between wall s0 (t\<lparr>rs_stale_since := None\<rparr>)" using t by (simp add: between_simps)
  note ru = rest_led [OF this u]
  define g where "g = (if is_numeric_kind r then guard_sample r (signal_num (sa_signal sa)) new u else (False, u))"
  obtain h v where v: "g = (h, v)" by (cases g)
  have gv: "between wall s0 v" if "between wall s0 u"
    using v that guard_between [of wall s0 u r "signal_num (sa_signal sa)" new h v] by (auto simp: g_def split: if_splits)
  have e: "judge_sample ge r now sa ts new s =
     (if (case rs_last_valid t of None \<Rightarrow> True | Some t \<Rightarrow> rd_stale_after r < now - t) then stale_eval ge r now sa t
      else if \<not> valid_sample r (sa_signal sa) then (decide Ignored False t, t)
      else (case res of Some d \<Rightarrow> (d, u) | None \<Rightarrow> if h then (decide Ignored False v, v) else live_eval ge r now sa ts new v))"
    unfolding judge_sample_def Let_def weighed_def [symmetric] t_def [symmetric] u
    using v unfolding g_def by (auto split: option.splits)
  show ?thesis
  proof (cases res)
    case None
    then show ?thesis using ru gv t unfolding e by (auto simp: stale_led live_led between_decide)
  next
    case (Some d)
    then show ?thesis using ru t unfolding e by (auto simp: stale_led between_decide)
  qed
qed

lemma accumulate_keeps:
  "rs_last_cmd (accumulate ge r now s) = rs_last_cmd s"
  "rs_send_no (accumulate ge r now s) = rs_send_no s"
  "rs_paused_until (accumulate ge r now s) = rs_paused_until s"
  "rs_pace (accumulate ge r now s) = rs_pace s"
  "rs_sent_urgent (accumulate ge r now s) = rs_sent_urgent s"
  "rs_on_since (accumulate ge r now s) = rs_on_since s"
  "rs_off_since (accumulate ge r now s) = rs_off_since s"
  "rs_starts (accumulate ge r now s) = rs_starts s"
  "rs_drift_since (accumulate ge r now s) = rs_drift_since s"
  "rs_commanded (accumulate ge r now s) = rs_commanded s"
  "rs_urgent (accumulate ge r now s) = rs_urgent s"
  "rs_wall (accumulate ge r now s) = rs_wall s"
  by (simp_all add: accumulate_def Let_def split: option.split)

lemma begin_tick_between: "between (case sa_wall sa of Some w \<Rightarrow> w | None \<Rightarrow> now) s (begin_tick ge r now sa s)"
  by (simp add: begin_tick_def between_simps accumulate_keeps)

definition wall_of :: "rat \<Rightarrow> sample \<Rightarrow> rat" where
  "wall_of now sa = (case sa_wall sa of Some w \<Rightarrow> w | None \<Rightarrow> now)"

lemma evaluate_led: "led_to ge r now sa (wall_of now sa) s (evaluate ge r now sa s)"
proof -
  define t where "t = begin_tick ge r now sa s"
  have t: "between (wall_of now sa) s t" using begin_tick_between by (simp add: t_def wall_of_def)
  have after: "led_to ge r now sa (wall_of now sa) s (after_force ge r now sa u)" if "between (wall_of now sa) s u" for u
    using judge_led [of "wall_of now sa" s "u\<lparr>rs_sample := Some (sample_stamp now sa)\<rparr>"] that
    by (simp add: after_force_def Let_def between_simps)
  show ?thesis
  proof (cases "rs_forced t")
    case None
    then show ?thesis using after [OF t] by (simp add: evaluate_def Let_def t_def [symmetric])
  next
    case (Some f)
    obtain res u where u: "forced_eval ge r now sa f t = (res, u)" by (metis prod.collapse)
    show ?thesis
      using forced_led [OF t u] Some u after [of u] unfolding evaluate_def Let_def t_def [symmetric] by (auto split: option.splits)
  qed
qed

text \<open>A send's reasons, and what a tick that sends nothing leaves.\<close>

lemma evaluate_explained:
  assumes "evaluate ge r now sa s0 = (d, s1)"
  obtains s where "prepared r s0 s" "rs_wall s = wall_of now sa" "keeps s s1" "de_want d = rs_want s1" "de_state d = rs_state s1"
    "if sends d then explains ge r now (sa_actual sa) s d s1 else unsent s s1"
proof -
  obtain s where s: "prepared r s0 s" "rs_wall s = wall_of now sa"
    and c: "(d, s1) = (d, s) \<and> \<not> sends d \<and> de_want d = rs_want s \<and> de_state d = rs_state s
       \<or> (\<exists>q age stale c. quiet_word q \<and> act ge r now q (sa_actual sa) age stale c s = (d, s1))"
    using evaluate_led [of ge r now sa s0] unfolding led_to_def assms fst_conv by metis
  show ?thesis
  proof (cases "(d, s1) = (d, s) \<and> \<not> sends d \<and> de_want d = rs_want s \<and> de_state d = rs_state s")
    case True
    then show ?thesis using that [OF s] by (simp add: unsent_def)
  next
    case False
    then obtain q age stale c' where "quiet_word q" "act ge r now q (sa_actual sa) age stale c' s = (d, s1)" using c by blast
    then show ?thesis using act_spec that [OF s] by blast
  qed
qed

section \<open>When a rule may send\<close>

text \<open>
  C2 (safety): What must hold for a rule to send. A send asks for something; no override pauses
  the rule; the referee did not give the channel to another rule; and within the minimum
  interval after the last command only an urgent want goes out, one that was urgent before or that a
  rest, a blind rule that fails closed or a fast step makes urgent now. An unarmed rule only
  ever says what it would send. A tick that sends nothing leaves the time and the number of the
  last send.
\<close>

theorem sends_only_with_reason:
  assumes "RuleMachine.evaluate ge r now sa s0 = (d, s1)"
  shows "if sends d
    then (\<exists>w. de_want d = Some w \<and> (\<forall>g. ge_gate ge = Some g \<longrightarrow> (\<exists>u. \<forall>who. g w u \<noteq> Some (YieldTo who))))
      \<and> (\<forall>p. rs_paused_until s0 = Some p \<longrightarrow> p \<le> (if wall_of now sa \<noteq> 0 then wall_of now sa else now))
      \<and> (rate_limited r now s0 \<longrightarrow> rs_urgent s0 \<or> emergency r s1)
      \<and> (rd_armed r \<longleftrightarrow> de_action d \<in> {Run, Reassert})
      \<and> rs_last_cmd s1 = Some now \<and> rs_send_no s1 = Suc (rs_send_no s0)
    else rs_last_cmd s1 = rs_last_cmd s0 \<and> rs_send_no s1 = rs_send_no s0"
proof -
  from assms obtain s where s: "prepared r s0 s" "rs_wall s = wall_of now sa" "keeps s s1" "de_want d = rs_want s1"
    and e: "if sends d then explains ge r now (sa_actual sa) s d s1 else unsent s s1"
    by (rule evaluate_explained)
  have c: "rs_last_cmd s = rs_last_cmd s0" "rs_send_no s = rs_send_no s0" "rs_paused_until s = rs_paused_until s0"
    "rs_urgent s \<Longrightarrow> rs_urgent s0 \<or> emergency r s"
    using s(1) by (auto simp: prepared_def carries_def)
  have k: "rs_want s1 = rs_want s" "emergency r s1 = emergency r s"
    using s(3) by (simp_all add: keeps_def emergency_def)
  have l: "rate_limited r now s = rate_limited r now s0" by (simp add: rate_limited_def c)
  show ?thesis
  proof (cases "sends d")
    case True
    then have m: "may_send ge r now s" and x: "sent_from r now s d s1" and a: "de_action d = shadow_of r Run \<or> de_action d = shadow_of r Reassert"
      using e by (auto simp: explains_def)
    have "\<exists>w. de_want d = Some w \<and> (\<forall>g. ge_gate ge = Some g \<longrightarrow> (\<exists>u. \<forall>who. g w u \<noteq> Some (YieldTo who)))"
      using m s(4) k by (auto simp: may_send_def ask_gate_def intro!: exI [of _ "rs_urgent s"])
    moreover have "\<forall>p. rs_paused_until s0 = Some p \<longrightarrow> p \<le> (if wall_of now sa \<noteq> 0 then wall_of now sa else now)"
      using m s(2) c(3) by (auto simp: may_send_def paused_def stamp_def)
    moreover have "rate_limited r now s0 \<longrightarrow> rs_urgent s0 \<or> emergency r s1"
      using m c(4) k l by (auto simp: may_send_def)
    moreover have "rd_armed r \<longleftrightarrow> de_action d \<in> {Run, Reassert}" using a by (auto simp: shadow_of_def split: if_splits)
    ultimately show ?thesis using True x c by (simp add: sent_from_def)
  next
    case False
    then show ?thesis using e c by (simp add: unsent_def)
  qed
qed

text \<open>
  C15 (safety): The timers of a motor. A routine command (sent, and not urgent) that starts a device last commanded
  off goes out only when no rest is running, when the minimum stop is over and when the starts of the
  last hour are under their limit; one that stops a device last commanded on, only when its minimum run is over.
\<close>

theorem motor_timers_hold:
  assumes "RuleMachine.evaluate ge r now sa s0 = (d, s1)" "de_action d \<in> {Run, ShadowRun}" "\<not> rs_sent_urgent s1" "onoff (rd_timing r)"
  shows "(is_on r (rs_commanded s0) = Some False \<and> is_on r (de_want d) = Some True
      \<longrightarrow> (\<forall>u. rs_rest_until s1 = Some u \<longrightarrow> u \<le> now)
        \<and> (\<forall>t. rs_off_since s0 = Some t \<longrightarrow> tm_min_off (rd_timing r) \<noteq> 0 \<longrightarrow> tm_min_off (rd_timing r) \<le> now - t)
        \<and> (tm_max_starts (rd_timing r) \<noteq> 0 \<longrightarrow> int (length (filter (\<lambda>t. now - t < 3600) (rs_starts s0))) < tm_max_starts (rd_timing r)))
    \<and> (is_on r (rs_commanded s0) = Some True \<and> is_on r (de_want d) = Some False
      \<longrightarrow> (\<forall>t. rs_on_since s0 = Some t \<longrightarrow> tm_min_on (rd_timing r) \<noteq> 0 \<longrightarrow> tm_min_on (rd_timing r) \<le> now - t))"
proof -
  from assms(1) obtain s where s: "prepared r s0 s" "keeps s s1" "de_want d = rs_want s1"
    and e: "if sends d then explains ge r now (sa_actual sa) s d s1 else unsent s s1"
    by (rule evaluate_explained)
  have c: "rs_on_since s = rs_on_since s0" "rs_off_since s = rs_off_since s0" "rs_starts s = rs_starts s0"
    "is_on r (rs_commanded s0) \<noteq> None \<Longrightarrow> rs_commanded s = rs_commanded s0"
    using s(1) by (auto simp: prepared_def carries_def is_on_def split: option.splits)
  have k: "rs_want s1 = rs_want s" "rs_rest_until s1 = rs_rest_until s" using s(2) by (simp_all add: keeps_def)
  have "sends d" using assms(2) by (auto simp: sends_def)
  then have x: "explains ge r now (sa_actual sa) s d s1" using e by simp
  have "de_action d \<noteq> shadow_of r Reassert" using assms(2) by (auto simp: shadow_of_def)
  then have "may_run ge r now s" "rs_sent_urgent s1 = rs_urgent s" using x by (auto simp: explains_def sent_from_def)
  then have h: "\<not> fst (onoff_hold r now s)" using assms(3) by (simp add: may_run_def)
  have len: "length (filter (\<lambda>t. now - t < 3600) ts) \<le> length (dropWhile (\<lambda>t. 3600 \<le> now - t) ts)" for ts :: "rat list"
    by (induction ts) (auto intro: le_SucI length_filter_le)
  show ?thesis
  proof (intro conjI impI)
    assume "is_on r (rs_commanded s0) = Some False \<and> is_on r (de_want d) = Some True"
    then have on: "is_on r (rs_commanded s) = Some False" "is_on r (rs_want s) = Some True" using c(4) k s(3) by auto
    then show "\<forall>u. rs_rest_until s1 = Some u \<longrightarrow> u \<le> now"
      "\<forall>t. rs_off_since s0 = Some t \<longrightarrow> tm_min_off (rd_timing r) \<noteq> 0 \<longrightarrow> tm_min_off (rd_timing r) \<le> now - t"
      using h assms(4) c k(2) by (auto simp: onoff_hold_def since_less_def not_less Let_def split: if_splits)
    assume "tm_max_starts (rd_timing r) \<noteq> 0"
    then have "int (length (dropWhile (\<lambda>t. 3600 \<le> now - t) (rs_starts s0))) < tm_max_starts (rd_timing r)"
      using h on assms(4) c(3) by (auto simp: onoff_hold_def starts_last_h_def drop_starts_def Let_def split: if_splits)
    then show "int (length (filter (\<lambda>t. now - t < 3600) (rs_starts s0))) < tm_max_starts (rd_timing r)"
      using len [of "rs_starts s0"] by linarith
  next
    assume "is_on r (rs_commanded s0) = Some True \<and> is_on r (de_want d) = Some False"
    then have "is_on r (rs_commanded s) = Some True" "is_on r (rs_want s) = Some False" using c(4) k s(3) by auto
    then show "\<forall>t. rs_on_since s0 = Some t \<longrightarrow> tm_min_on (rd_timing r) \<noteq> 0 \<longrightarrow> tm_min_on (rd_timing r) \<le> now - t"
      using h assms(4) c by (auto simp: onoff_hold_def since_less_def not_less Let_def split: if_splits)
  qed
qed


section \<open>A run\<close>

text \<open>
  What happens to a rule between evaluations: the operator forces a want, sets or lifts a ceiling,
  pauses it (the runtime writes \<open>paused_until\<close> and \<open>pace_reassert\<close> itself), the command's result is told, an
  urgent send that failed is armed again.
\<close>

datatype rule_event = Tick rule_env rat sample | ForceWant params "rat option" | Clamp rat "rat option" | Unclamp
  | PauseUntil "rat option" | Pace bool | Told bool | Rearm bool

fun happen :: "rule_def \<Rightarrow> rule_event \<Rightarrow> rstate \<Rightarrow> decision option \<times> rstate" where
  "happen r (Tick ge now sa) s = (let (d, s) = RuleMachine.evaluate ge r now sa s in (Some d, s))"
| "happen r (ForceWant ps u) s = (None, force ps u s)"
| "happen r (Clamp hi e) s = (None, set_clamp hi e s)"
| "happen r Unclamp s = (None, clear_clamp s)"
| "happen r (PauseUntil p) s = (None, s\<lparr>rs_paused_until := p\<rparr>)"
| "happen r (Pace b) s = (None, s\<lparr>rs_pace := b\<rparr>)"
| "happen r (Told ok) s = (None, note_result ok s)"
| "happen r (Rearm q) s = (None, snd (rearm_urgent r q s))"

text \<open>The sends of a run: when, and whether the want was urgent.\<close>

fun sent_at :: "rule_event \<Rightarrow> decision option \<Rightarrow> rstate \<Rightarrow> (rat \<times> bool) list" where
  "sent_at (Tick ge now sa) (Some d) s = (if sends d then [(now, rs_sent_urgent s)] else [])"
| "sent_at e d s = []"

fun history :: "rule_def \<Rightarrow> rule_event list \<Rightarrow> rstate \<Rightarrow> (rat \<times> bool) list" where
  "history r [] s = []"
| "history r (e # es) s = (let (d, s) = happen r e s in sent_at e d s @ history r es s)"

fun tick_times :: "rule_event list \<Rightarrow> rat list" where
  "tick_times [] = []"
| "tick_times (Tick ge now sa # es) = now # tick_times es"
| "tick_times (e # es) = tick_times es"

lemma quiet_events:
  assumes "\<And>ge now sa. e \<noteq> Tick ge now sa"
  shows "fst (happen r e s) = None \<and> rs_last_cmd (snd (happen r e s)) = rs_last_cmd s \<and> tick_times (e # es) = tick_times es"
  using assms by (cases e) (auto simp: force_def end_force_def set_clamp_def clear_clamp_def note_result_def rearm_urgent_def Let_def split: option.splits)

lemma tick_spec:
  assumes "RuleMachine.evaluate ge r now sa s0 = (d, s1)"
  shows "if sends d then rs_last_cmd s1 = Some now \<and> (rs_sent_urgent s1 \<or> \<not> rate_limited r now s0) else rs_last_cmd s1 = rs_last_cmd s0"
proof -
  from assms obtain s where s: "prepared r s0 s" and e: "if sends d then explains ge r now (sa_actual sa) s d s1 else unsent s s1"
    by (rule evaluate_explained)
  have "rate_limited r now s = rate_limited r now s0" "rs_last_cmd s = rs_last_cmd s0"
    using s by (simp_all add: rate_limited_def prepared_def carries_def)
  then show ?thesis using e by (auto simp: explains_def sent_from_def may_send_def unsent_def)
qed

lemma history_interval:
  assumes "sorted (tick_times es)" "\<forall>t\<in>set (tick_times es). \<forall>l. rs_last_cmd s = Some l \<longrightarrow> l \<le> t" "0 < tm_min_interval (rd_timing r)"
  shows "(\<forall>(t, u)\<in>set (history r es s). (\<forall>l. rs_last_cmd s = Some l \<longrightarrow> \<not> u \<longrightarrow> tm_min_interval (rd_timing r) \<le> t - l) \<and> t \<in> set (tick_times es))
    \<and> sorted_wrt (\<lambda>(a, v) (b, u). u \<or> tm_min_interval (rd_timing r) \<le> b - a) (history r es s)"
  using assms(1,2)
proof (induction es arbitrary: s)
  case (Cons e es)
  show ?case
  proof (cases "\<exists>ge now sa. e = Tick ge now sa")
    case False
    then have q: "fst (happen r e s) = None" "rs_last_cmd (snd (happen r e s)) = rs_last_cmd s" "tick_times (e # es) = tick_times es"
      using quiet_events [of e r s es] by auto
    have "history r (e # es) s = history r es (snd (happen r e s))" using q(1) by (cases "happen r e s") auto
    then show ?thesis using Cons.IH [of "snd (happen r e s)"] Cons.prems q by simp
  next
    case True
    then obtain ge now sa where e: "e = Tick ge now sa" by blast
    obtain d s1 where ev: "RuleMachine.evaluate ge r now sa s = (d, s1)" by (metis prod.collapse)
    note t = tick_spec [OF ev]
    have after: "\<forall>t\<in>set (tick_times es). now \<le> t" "sorted (tick_times es)" using Cons.prems(1) by (simp_all add: e)
    have last: "\<forall>l. rs_last_cmd s = Some l \<longrightarrow> l \<le> now" using Cons.prems(2) by (simp add: e)
    show ?thesis
    proof (cases "sends d")
      case False
      then show ?thesis using Cons.IH [of s1] Cons.prems t after by (auto simp: e ev)
    next
      case s: True
      then have l1: "rs_last_cmd s1 = Some now" using t by simp
      have h: "history r (e # es) s = (now, rs_sent_urgent s1) # history r es s1" using s by (simp add: e ev)
      have ih: "\<And>t u. (t, u) \<in> set (history r es s1) \<Longrightarrow> (\<not> u \<longrightarrow> tm_min_interval (rd_timing r) \<le> t - now) \<and> t \<in> set (tick_times es)"
        "sorted_wrt (\<lambda>(a, v) (b, u). u \<or> tm_min_interval (rd_timing r) \<le> b - a) (history r es s1)"
        using Cons.IH [of s1] after l1 by auto
      have now: "\<forall>l. rs_last_cmd s = Some l \<longrightarrow> \<not> rs_sent_urgent s1 \<longrightarrow> tm_min_interval (rd_timing r) \<le> now - l"
        using t s assms(3) by (auto simp: rate_limited_def since_less_def)
      have far: "tm_min_interval (rd_timing r) \<le> t - l" if "tm_min_interval (rd_timing r) \<le> t - now" "rs_last_cmd s = Some l" for t l
        using that last by force
      show ?thesis unfolding h using ih now far by (auto simp: e)
    qed
  qed
qed simp



section \<open>Two rules\<close>

definition plain_timing :: timing where
  "plain_timing = \<lparr> tm_debounce = 2, tm_min_interval = 60, tm_reassert = 300, tm_for = 0, tm_min_on = 0, tm_min_off = 0, tm_max_on = 0,
     tm_max_starts = 0, tm_boot_wait = 0, tm_urgent_retries = 0 \<rparr>"

text \<open>An inverter's power limit against the voltage: 80 at 250 V, nothing at 255 V, at once.\<close>

definition volt_rule :: rule_def where
  "volt_rule = \<lparr> rd_armed = True, rd_kind = StepsRule, rd_valid_min = Some 100, rd_valid_max = Some 400, rd_max_step = Some 20, rd_stale_after = 30,
     rd_steps = [\<lparr> sp_at = 250, sp_value = 80, sp_label = ''High'', sp_fast = False \<rparr>, \<lparr> sp_at = 255, sp_value = 0, sp_label = ''Emergency'', sp_fast = True \<rparr>],
     rd_release_below = Some 245, rd_normal = Some [(''limit'', VFloat 100)], rd_params = [], rd_release = False, rd_then = None, rd_otherwise = None,
     rd_above = 0, rd_below = 0, rd_step = 0, rd_gain = None, rd_vmin = 0, rd_vmax = 0, rd_start = None, rd_off = None, rd_schedule = [],
     rd_timing = plain_timing, rd_on_stale = AskValue 50, rd_resume_on_boot = False, rd_param = ''limit'', rd_safe_params = [(''limit'', VFloat 60)],
     rd_tolerance = 1, rd_readback = True \<rparr>"

text \<open>A pump: on while its condition holds, with its timers.\<close>

definition pump_rule :: rule_def where
  "pump_rule = volt_rule\<lparr>rd_kind := ConditionRule, rd_then := Some [(''on'', VFloat 1)], rd_otherwise := Some [(''on'', VFloat 0)], rd_param := ''on'',
     rd_timing := plain_timing\<lparr>tm_debounce := 1, tm_min_on := 300, tm_min_off := 120, tm_max_starts := 2\<rparr>\<rparr>"

definition plain_env :: rule_env where
  "plain_env = \<lparr> ge_gate = None, ge_day = (\<lambda>w. ''2026-01-05''), ge_local = (\<lambda>w. (1, 0)), ge_lead = None \<rparr>"

definition reading :: "pyval \<Rightarrow> sample" where
  "reading v = \<lparr> sa_signal = Sig v, sa_age = Some 0, sa_actual = VNone, sa_actual_age = None, sa_actual_stale = None, sa_ts = None, sa_wall = None \<rparr>"

definition at_limit :: rstate where
  "at_limit = new_rule_state\<lparr>rs_state := ''High'', rs_want := Some [(''limit'', VFloat 80)], rs_commanded := Some [(''limit'', VFloat 80)],
     rs_base := Some [(''limit'', VFloat 80)], rs_last_cmd := Some 1000, rs_last_valid := Some 1000, rs_sample := Some 1000, rs_accepted := Some 251\<rparr>"

theorem sends_only_with_reason_witness:
  "\<exists>d s1. RuleMachine.evaluate plain_env volt_rule 1010 (reading (VFloat 256)) at_limit = (d, s1) \<and> sends d
     \<and> rate_limited volt_rule 1010 at_limit \<and> emergency volt_rule s1 \<and> de_action d \<in> {Run, Reassert}"
proof -
  obtain d s1 where e: "RuleMachine.evaluate plain_env volt_rule 1010 (reading (VFloat 256)) at_limit = (d, s1)" by (metis prod.collapse)
  have "sends (fst (RuleMachine.evaluate plain_env volt_rule 1010 (reading (VFloat 256)) at_limit))" by code_simp
  then have s: "sends d" by (simp add: e)
  have "rate_limited volt_rule 1010 at_limit" "\<not> rs_urgent at_limit" "rd_armed volt_rule" by code_simp+
  then show ?thesis using sends_only_with_reason [OF e] s e by auto
qed

definition pump_off :: rstate where
  "pump_off = new_rule_state\<lparr>rs_state := ''false'', rs_want := Some [(''on'', VFloat 0)], rs_commanded := Some [(''on'', VFloat 0)],
     rs_base := Some [(''on'', VFloat 0)], rs_last_cmd := Some 1000, rs_off_since := Some 1000, rs_starts := [100, 700],
     rs_last_valid := Some 1000, rs_sample := Some 1000\<rparr>"

theorem motor_timers_hold_witness:
  "\<exists>d s1. RuleMachine.evaluate plain_env pump_rule 4000 (reading (VBool True)) pump_off = (d, s1) \<and> de_action d = Run
     \<and> is_on pump_rule (de_want d) = Some True \<and> (\<forall>t. rs_off_since pump_off = Some t \<longrightarrow> 120 \<le> 4000 - t)"
proof -
  let ?e = "RuleMachine.evaluate plain_env pump_rule 4000 (reading (VBool True)) pump_off"
  obtain d s1 where e: "?e = (d, s1)" by (metis prod.collapse)
  have "de_action (fst ?e) = Run" "is_on pump_rule (de_want (fst ?e)) = Some True" "\<not> rs_sent_urgent (snd ?e)" by code_simp+
  then have d: "de_action d = Run" "is_on pump_rule (de_want d) = Some True" "\<not> rs_sent_urgent s1" by (simp_all add: e)
  have p: "onoff (rd_timing pump_rule)" "is_on pump_rule (rs_commanded pump_off) = Some False" "tm_min_off (rd_timing pump_rule) = 120" by code_simp+
  show ?thesis using motor_timers_hold [OF e _ d(3) p(1)] d p e by auto
qed

definition volt_day :: "rule_event list" where
  "volt_day = [Tick plain_env 1010 (reading (VFloat 256)), Clamp 90 None, Tick plain_env 1020 (reading (VFloat 240)),
     Tick plain_env 1030 (reading (VFloat 240)), Tick plain_env 1080 (reading (VFloat 241))]"


end
