(* ===== verification/RuleLaws.thy ===== *)
theory RuleLaws
  imports RuleSafety ValueDecode
begin

text \<open>
  More of what the rule engine promises: a send taken back is as if it had not been, the entry of
  a schedule in force is the latest one reached, a blind rule fails closed at once, a change
  of mind waits for its debounce, a trim moves one step inside its limits; and where an operator's
  ceiling comes too late.
\<close>

section \<open>A send taken back\<close>

lemma py_eq_refl [simp]: "py_eq v v"
  by (simp add: py_eq_def split: option.split)

lemma same_params_refl [simp]: "same_params w w"
proof -
  have "val_eq x x" for x by (cases x) simp_all
  then show ?thesis by (simp add: same_params_def list_all_iff)
qed

lemma same_want_refl [simp]: "same_want w w"
  by (cases w) simp_all

lemma note_sent_marks:
  "rs_starts (note_sent r now w s) = rs_starts s \<and> rs_starts_today (note_sent r now w s) = rs_starts_today s
   \<or> rs_starts (note_sent r now w s) = rs_starts s @ [now] \<and> rs_starts_today (note_sent r now w s) = Suc (rs_starts_today s)"
  by (auto simp: note_sent_def Let_def)

lemma note_sent_only:
  "note_sent r now w s = s\<lparr>rs_on_since := rs_on_since (note_sent r now w s), rs_off_since := rs_off_since (note_sent r now w s),
     rs_starts := rs_starts (note_sent r now w s), rs_starts_today := rs_starts_today (note_sent r now w s)\<rparr>"
  by (simp add: note_sent_def Let_def)

lemma restore_moved [simp]: "restore_mark (moved_mark pre post) post = pre"
  by (simp add: restore_mark_def moved_mark_def)

text \<open>
  C17 (roundtrip): A send that never reached the wire is taken back whole. Right after a send, its undo puts back what was
  commanded and confirmed, the time of the last command, the urgency, the resends and the motor's marks, with the start it counted; only the
  number of the send and its undo stay. The want is pending again, unless the device had confirmed it.
\<close>

theorem unsend_restores:
  assumes "send r now a c s = (d, s1)" "rs_last_undo s1 = Some u" "now \<notin> set (rs_starts s)"
  shows "unsend u s1 = s\<lparr>rs_send_no := Suc (rs_send_no s), rs_last_undo := Some u,
     rs_pending := (rs_want s \<noteq> None \<and> \<not> (rs_confirmed s \<and> same_want (rs_commanded s) (rs_want s)))\<rparr>"
proof -
  define m where "m = s\<lparr>rs_resends := (if same_want (rs_want s) (rs_sent_want s) then rs_resends s else 0),
                 rs_sent_urgent := rs_urgent s, rs_sent_want := nonempty (rs_want s), rs_retry := False\<rparr>"
  define n where "n = note_sent r now (rs_want s) m"
  define s2 where "s2 = mark_sent r now s"
  have s2: "s2 = n\<lparr>rs_pending := False, rs_commanded := nonempty (rs_want s), rs_confirmed := False, rs_last_cmd := Some now, rs_urgent := False\<rparr>"
    by (simp add: s2_def mark_sent_def Let_def n_def m_def)
  have n: "n = m\<lparr>rs_on_since := rs_on_since n, rs_off_since := rs_off_since n, rs_starts := rs_starts n, rs_starts_today := rs_starts_today n\<rparr>"
    unfolding n_def by (rule note_sent_only)
  have s1: "s1 = s2\<lparr>rs_send_no := Suc (rs_send_no s2), rs_last_undo := Some (undo_of now s s2)\<rparr>"
    using assms(1) by (simp add: send_def Let_def s2_def)
  then have u: "u = undo_of now s s2" using assms(2) by simp
  have starts: "rs_starts n = rs_starts s \<and> rs_starts_today n = rs_starts_today s \<or> rs_starts n = rs_starts s @ [now] \<and> rs_starts_today n = Suc (rs_starts_today s)"
    using note_sent_marks [of r now "rs_want s" m] by (simp add: n_def m_def)
  have rm: "remove1 now (rs_starts s @ [now]) = rs_starts s"
    using assms(3) by (simp add: remove1_append)
  have s1': "s1 = s2\<lparr>rs_send_no := Suc (rs_send_no s), rs_last_undo := Some u\<rparr>"
    using s1 by (simp add: u s2 n_def note_sent_keeps m_def)
  obtain p q ts k where n': "n = m\<lparr>rs_on_since := p, rs_off_since := q, rs_starts := ts, rs_starts_today := k\<rparr>"
    using n by blast
  have w: "un_pre u = sent_fields_of s" "un_post u = sent_fields_of s2" "un_day u = rs_day s" "un_drift u = None"
    "un_on u = moved_mark (rs_on_since s) p" "un_off u = moved_mark (rs_off_since s) q"
    "un_start u = (if length (rs_starts s) < length ts then Some now else None)"
    by (simp_all add: u undo_of_def s2 n' m_def)
  have f: "rs_commanded s1 = rs_commanded s2" "rs_confirmed s1 = rs_confirmed s2" "rs_last_cmd s1 = rs_last_cmd s2" "rs_urgent s1 = rs_urgent s2"
    "rs_sent_want s1 = rs_sent_want s2" "rs_sent_urgent s1 = rs_sent_urgent s2" "rs_retry s1 = rs_retry s2" "rs_resends s1 = rs_resends s2"
    by (simp_all add: s1')
  define t where "t = s1\<lparr>rs_commanded := rs_commanded s, rs_confirmed := rs_confirmed s, rs_last_cmd := rs_last_cmd s, rs_urgent := rs_urgent s,
     rs_sent_want := rs_sent_want s, rs_sent_urgent := rs_sent_urgent s, rs_retry := rs_retry s, rs_resends := rs_resends s\<rparr>"
  have t: "t = s\<lparr>rs_pending := False, rs_on_since := p, rs_off_since := q, rs_starts := ts, rs_starts_today := k,
      rs_send_no := Suc (rs_send_no s), rs_last_undo := Some u\<rparr>"
    by (simp add: t_def s1' s2 n' m_def)
  have undone: "unsend u s1 = (let s = (case un_start u of
                 Some x \<Rightarrow> t\<lparr>rs_starts := remove1 x (rs_starts t),
                             rs_starts_today := (if rs_day t = un_day u then rs_starts_today t - 1 else rs_starts_today t)\<rparr>
               | None \<Rightarrow> t);
          s = s\<lparr>rs_on_since := restore_mark (un_on u) (rs_on_since s), rs_off_since := restore_mark (un_off u) (rs_off_since s),
                rs_drift_since := (if un_drift u \<noteq> None \<and> rs_drift_since s = None then un_drift u else rs_drift_since s)\<rparr>
      in s\<lparr>rs_pending := (rs_want s \<noteq> None \<and> \<not> (rs_confirmed s \<and> same_want (rs_commanded s) (rs_want s)))\<rparr>)"
    unfolding unsend_def t_def by (simp add: w sent_fields_of_def f)
  from starts consider (same) "ts = rs_starts s" "k = rs_starts_today s" | (more) "ts = rs_starts s @ [now]" "k = Suc (rs_starts_today s)"
    by (auto simp: n' m_def)
  then show ?thesis
    unfolding undone t using rm by cases (simp_all add: w Let_def)
qed

definition pump_run :: rstate where
  "pump_run = pump_off\<lparr>rs_state := ''true'', rs_want := Some [(''on'', VFloat 1)], rs_pending := True\<rparr>"

theorem unsend_restores_witness:
  "\<exists>d s1 u. send pump_rule 4000 Run True pump_run = (d, s1) \<and> rs_last_undo s1 = Some u \<and> rs_starts s1 = [100, 700, 4000]
     \<and> rs_starts (unsend u s1) = [100, 700] \<and> rs_last_cmd (unsend u s1) = Some 1000 \<and> rs_pending (unsend u s1)"
proof -
  obtain d s1 where e: "send pump_rule 4000 Run True pump_run = (d, s1)" by (metis prod.collapse)
  then obtain u where u: "rs_last_undo s1 = Some u" by (auto simp: send_def Let_def)
  have "rs_starts (snd (send pump_rule 4000 Run True pump_run)) = [100, 700, 4000]" "rs_starts pump_run = [100, 700]" "rs_last_cmd pump_run = Some 1000"
    "rs_want pump_run \<noteq> None" "\<not> rs_confirmed pump_run" by code_simp+
  then show ?thesis using unsend_restores [OF e u] e u by auto
qed

section \<open>The entry in force\<close>

lemma first_some_upt:
  "first_some (map f [i..<n]) = Some x \<Longrightarrow> \<exists>k. i \<le> k \<and> k < n \<and> f k = Some x \<and> (\<forall>j. i \<le> j \<longrightarrow> j < k \<longrightarrow> f j = None)"
proof (induction "n - i" arbitrary: i)
  case (Suc m)
  then have i: "i < n" "[i..<n] = i # [Suc i..<n]" by (simp_all add: upt_conv_Cons)
  show ?case
  proof (cases "f i")
    case None
    then have "first_some (map f [Suc i..<n]) = Some x" using Suc.prems i by simp
    then obtain k where "Suc i \<le> k" "k < n" "f k = Some x" "\<forall>j. Suc i \<le> j \<longrightarrow> j < k \<longrightarrow> f j = None"
      using Suc.hyps(1) [of "Suc i"] Suc.hyps(2) by (metis Suc_diff_Suc diff_Suc_1 i(1))
    then show ?thesis using None by (intro exI [of _ k]) (metis Suc_leD Suc_leI le_neq_implies_less)
  qed (use Suc.prems i in auto)
qed simp

lemma first_some_None: "first_some (map f xs) = None \<longleftrightarrow> (\<forall>x\<in>set xs. f x = None)"
  by (induction xs) (auto split: option.splits)

text \<open>Was an entry reached on the day \<open>k\<close> days back, and how long ago, in seconds?\<close>

definition reached :: "nat \<times> rat \<Rightarrow> entry \<Rightarrow> nat \<Rightarrow> bool" where
  "reached now e k \<longleftrightarrow> weekday_back (fst now) k \<in> set (en_days e) \<and> (k = 0 \<longrightarrow> of_nat (60 * en_minute e) \<le> snd now)"

definition reached_ago :: "nat \<times> rat \<Rightarrow> entry \<Rightarrow> nat \<Rightarrow> rat" where
  "reached_ago now e k = of_nat (86400 * k) + snd now - of_nat (60 * en_minute e)"

lemma day_entry_fold:
  assumes "\<And>e. ok e = (d \<in> set (en_days e) \<and> (case until of Some t \<Rightarrow> of_nat (60 * en_minute e) \<le> t | None \<Rightarrow> True))"
  shows "case fold (\<lambda>e best. if d \<in> set (en_days e) \<and> (case until of Some t \<Rightarrow> of_nat (60 * en_minute e) \<le> t | None \<Rightarrow> True)
             \<and> (case best of Some b \<Rightarrow> en_minute b < en_minute e | None \<Rightarrow> True) then Some e else best) es b of
    Some x \<Rightarrow> (x \<in> set es \<and> ok x \<or> b = Some x) \<and> (\<forall>y\<in>set es. ok y \<longrightarrow> en_minute y \<le> en_minute x) \<and> (\<forall>y. b = Some y \<longrightarrow> en_minute y \<le> en_minute x)
  | None \<Rightarrow> b = None \<and> (\<forall>y\<in>set es. \<not> ok y)"
proof (induction es arbitrary: b)
  case Nil
  then show ?case by (simp split: option.split)
next
  case (Cons e es)
  define c where "c = (if ok e \<and> (case b of Some b \<Rightarrow> en_minute b < en_minute e | None \<Rightarrow> True) then Some e else b)"
  have "(if d \<in> set (en_days e) \<and> (case until of Some t \<Rightarrow> of_nat (60 * en_minute e) \<le> t | None \<Rightarrow> True)
             \<and> (case b of Some b \<Rightarrow> en_minute b < en_minute e | None \<Rightarrow> True) then Some e else b) = c"
    by (auto simp: c_def assms)
  then show ?case
    using Cons.IH [of c] by (auto simp: c_def split: option.splits if_splits)
qed

lemma day_entry_spec:
  "case day_entry es (weekday_back (fst now) k) (if k = 0 then Some (snd now) else None) of
    Some x \<Rightarrow> x \<in> set es \<and> reached now x k \<and> (\<forall>y\<in>set es. reached now y k \<longrightarrow> en_minute y \<le> en_minute x)
  | None \<Rightarrow> (\<forall>y\<in>set es. \<not> reached now y k)"
  using day_entry_fold [where ok = "\<lambda>e. reached now e k" and d = "weekday_back (fst now) k" and until = "if k = 0 then Some (snd now) else None" and es = es and b = None]
  by (auto simp: reached_def day_entry_def split: option.splits)

lemma every_day_back:
  assumes "d \<in> {1..7}" "x \<in> {1..7}"
  shows "\<exists>k\<in>{1..7}. weekday_back d k = x"
proof -
  have eq: "{1..7::nat} = set [1, 2, 3, 4, 5, 6, 7]" by (auto simp: atLeastAtMost_upt upt_rec)
  have all: "\<forall>d\<in>set [1, 2, 3, 4, 5, 6, 7]. \<forall>x\<in>set [1, 2, 3, 4, 5, 6, 7]. \<exists>k\<in>set [1, 2, 3, 4, 5, 6, 7]. weekday_back d k = x"
    by (simp add: weekday_back_def)
  show ?thesis using all assms unfolding eq by blast
qed

text \<open>
  C35 (functional): The entry in force. At a weekday and a second of its day, \<open>current_entry\<close> is an entry
  that was reached within the last week, and none of the schedule was reached since; a schedule that names a
  weekday always has one.
\<close>

theorem schedule_entry_is_latest:
  assumes "fst now \<in> {1..7}" "0 \<le> snd now" "snd now < 86400" "\<forall>e\<in>set es. en_minute e < 1440"
  shows "case current_entry es now of
      Some e \<Rightarrow> e \<in> set es \<and> (\<exists>k\<le>7. reached now e k \<and> (\<forall>e'\<in>set es. \<forall>j\<le>7. reached now e' j \<longrightarrow> reached_ago now e k \<le> reached_ago now e' j))
    | None \<Rightarrow> \<forall>e\<in>set es. set (en_days e) \<inter> {1..7} = {}"
proof -
  define f where "f k = day_entry es (weekday_back (fst now) k) (if k = 0 then Some (snd now) else None)" for k
  have c: "current_entry es now = first_some (map f [0..<8])" by (simp add: current_entry_def f_def [abs_def])
  have day: "case f k of Some x \<Rightarrow> x \<in> set es \<and> reached now x k \<and> (\<forall>y\<in>set es. reached now y k \<longrightarrow> en_minute y \<le> en_minute x)
     | None \<Rightarrow> \<forall>y\<in>set es. \<not> reached now y k" for k
    unfolding f_def by (rule day_entry_spec)
  show ?thesis
  proof (cases "current_entry es now")
    case None
    have "set (en_days e) \<inter> {1..7} = {}" if e: "e \<in> set es" for e
    proof (rule ccontr)
      assume "set (en_days e) \<inter> {1..7} \<noteq> {}"
      then obtain x where x: "x \<in> set (en_days e)" "x \<in> {1..7}" by blast
      then obtain k where k: "k \<in> {1..7}" "weekday_back (fst now) k = x" using every_day_back [OF assms(1)] by blast
      then have "reached now e k" using x by (simp add: reached_def)
      moreover have "f k = None" using None k(1) by (simp add: c first_some_None)
      ultimately show False using day [of k] e by simp
    qed
    then show ?thesis by (simp add: None)
  next
    case (Some e)
    then obtain k where k: "k < 8" "f k = Some e" "\<forall>j<k. f j = None" using first_some_upt [of f 0 8 e] by (auto simp: c)
    have e: "e \<in> set es" "reached now e k" "\<And>y. y \<in> set es \<Longrightarrow> reached now y k \<Longrightarrow> en_minute y \<le> en_minute e"
      using day [of k] k(2) by simp_all
    have "reached_ago now e k \<le> reached_ago now y j" if y: "y \<in> set es" "reached now y j" for y j
    proof -
      have "k \<le> j"
      proof (rule ccontr)
        assume "\<not> k \<le> j"
        then have "f j = None" using k(3) by simp
        then show False using day [of j] y by simp
      qed
      show ?thesis
      proof (cases "j = k")
        case True
        then show ?thesis using e(3) [of y] y by (simp add: reached_ago_def)
      next
        case False
        then have "86400 * k + 86400 \<le> 86400 * j" using \<open>k \<le> j\<close> mult_le_mono2 [of "Suc k" j 86400] by simp
        moreover have "60 * en_minute y \<le> 86400" using assms(4) y(1) by fastforce
        ultimately have "86400 * k + 60 * en_minute y \<le> 86400 * j + 60 * en_minute e" by linarith
        then have "(of_nat (86400 * k + 60 * en_minute y) :: rat) \<le> of_nat (86400 * j + 60 * en_minute e)" by (simp only: of_nat_le_iff)
        then show ?thesis by (simp add: reached_ago_def)
      qed
    qed
    then show ?thesis using Some e(1,2) k(1) by (auto intro!: exI [of _ k])
  qed
qed

definition heating :: "entry list" where
  "heating = [\<lparr> en_days = [1, 2, 3, 4, 5], en_minute = 420, en_at = ''07:00'', en_label = '''', en_params = None, en_value = Some 21 \<rparr>,
     \<lparr> en_days = [1, 2, 3, 4, 5, 6, 7], en_minute = 1320, en_at = ''22:00'', en_label = ''night'', en_params = None, en_value = Some 17 \<rparr>]"

theorem schedule_entry_is_latest_witness:
  "\<exists>e. current_entry heating (1, 21600) = Some e \<and> en_label e = ''night'' \<and> e \<in> set heating \<and> (\<exists>k\<le>7. reached (1, 21600) e k)"
proof -
  have "map_option en_label (current_entry heating (1, 21600)) = Some ''night''"
    by (simp add: current_entry_def heating_def day_entry_def weekday_back_def upt_rec)
  then obtain e where e: "current_entry heating (1, 21600) = Some e" "en_label e = ''night''" by (cases "current_entry heating (1, 21600)") auto
  have "\<forall>e\<in>set heating. en_minute e < 1440" by (simp add: heating_def)
  then show ?thesis using schedule_entry_is_latest [of "(1, 21600)" heating] e by auto
qed

section \<open>A ceiling and a want that waits\<close>

text \<open>A want of 100 that waits for the rate limit when the operator sets a ceiling of 90.\<close>

definition waiting :: rstate where
  "waiting = new_rule_state\<lparr>rs_want := Some [(''limit'', VFloat 100)], rs_commanded := Some [(''limit'', VFloat 80)], rs_pending := True,
     rs_base := Some [(''limit'', VFloat 100)], rs_last_cmd := Some 1000, rs_last_valid := Some 1050, rs_sample := Some 1050, rs_accepted := Some 240\<rparr>"


section \<open>A blind rule\<close>

text \<open>The rule has had no valid sample of known age for longer than \<open>stale_after_s\<close>.\<close>

definition blind :: "rule_def \<Rightarrow> rat \<Rightarrow> sample \<Rightarrow> rstate \<Rightarrow> bool" where
  "blind r now sa s = (case rs_last_valid (weighed r now sa s) of None \<Rightarrow> True | Some t \<Rightarrow> rd_stale_after r < now - t)"

lemma begin_tick_fields:
  "rs_state (begin_tick ge r now sa s) = rs_state s" "rs_want (begin_tick ge r now sa s) = rs_want s" "rs_clamp (begin_tick ge r now sa s) = rs_clamp s"
  "rs_forced (begin_tick ge r now sa s) = rs_forced s" "rs_last_valid (begin_tick ge r now sa s) = rs_last_valid s"
  "rs_deb_target (begin_tick ge r now sa s) = rs_deb_target s" "rs_deb_count (begin_tick ge r now sa s) = rs_deb_count s"
  "rs_deb_since (begin_tick ge r now sa s) = rs_deb_since s" "rs_deb_sample (begin_tick ge r now sa s) = rs_deb_sample s"
  "rs_pending (begin_tick ge r now sa s) = rs_pending s" "rs_sample (begin_tick ge r now sa s) = rs_sample s"
  "rs_accepted (begin_tick ge r now sa s) = rs_accepted s" "rs_suspect (begin_tick ge r now sa s) = rs_suspect s"
  "rs_rest_until (begin_tick ge r now sa s) = rs_rest_until s" "rs_retry (begin_tick ge r now sa s) = rs_retry s"
  "rs_yielding_to (begin_tick ge r now sa s) = rs_yielding_to s" "rs_guarded (begin_tick ge r now sa s) = rs_guarded s"
  "rs_commanded (begin_tick ge r now sa s) = rs_commanded s"
  by (simp_all add: begin_tick_def accumulate_def Let_def split: option.split)

lemma evaluate_unforced:
  assumes "rs_forced s0 = None"
  shows "RuleMachine.evaluate ge r now sa s0 =
    judge_sample ge r now sa (sample_stamp now sa) (differs (rs_sample s0) (sample_stamp now sa)) ((begin_tick ge r now sa s0)\<lparr>rs_sample := Some (sample_stamp now sa)\<rparr>)"
  using assms by (simp add: evaluate_def after_force_def Let_def begin_tick_fields)

lemma weighed_fields:
  "rs_state (weighed r now sa s) = rs_state s" "rs_want (weighed r now sa s) = rs_want s" "rs_clamp (weighed r now sa s) = rs_clamp s"
  "rs_commanded (weighed r now sa s) = rs_commanded s" "rs_pending (weighed r now sa s) = rs_pending s" "rs_paused_until (weighed r now sa s) = rs_paused_until s"
  "rs_wall (weighed r now sa s) = rs_wall s" "rs_retry (weighed r now sa s) = rs_retry s" "rs_last_cmd (weighed r now sa s) = rs_last_cmd s"
  "rs_deb_target (weighed r now sa s) = rs_deb_target s" "rs_deb_count (weighed r now sa s) = rs_deb_count s"
  "rs_deb_since (weighed r now sa s) = rs_deb_since s" "rs_deb_sample (weighed r now sa s) = rs_deb_sample s"
  "rs_rest_until (weighed r now sa s) = rs_rest_until s"
  by (simp_all add: weighed_def)

lemma judge_weighed:
  "judge_sample ge r now sa ts new s =
     (let t = weighed r now sa s
      in if (case rs_last_valid t of None \<Rightarrow> True | Some t \<Rightarrow> rd_stale_after r < now - t) then stale_eval ge r now sa t
         else if \<not> valid_sample r (sa_signal sa) then (decide Ignored False t, t)
         else (case rest ge r now sa (t\<lparr>rs_stale_since := None\<rparr>) of
                 (Some d, s) \<Rightarrow> (d, s)
               | (None, s) \<Rightarrow>
                   (case (if is_numeric_kind r then guard_sample r (signal_num (sa_signal sa)) new s else (False, s)) of
                      (True, s) \<Rightarrow> (decide Ignored False s, s)
                    | (False, s) \<Rightarrow> live_eval ge r now sa ts new s)))"
  unfolding judge_sample_def weighed_def Let_def by simp

lemma blind_evaluate:
  assumes "rs_forced s0 = None" "blind r now sa s0"
  shows "\<exists>s. RuleMachine.evaluate ge r now sa s0 = stale_eval ge r now sa s \<and> between (wall_of now sa) s0 s \<and> rs_state s = rs_state s0
     \<and> rs_want s = rs_want s0 \<and> rs_clamp s = rs_clamp s0 \<and> rs_retry s = rs_retry s0 \<and> rs_commanded s = rs_commanded s0 \<and> rs_pending s = rs_pending s0"
proof -
  define t where "t = weighed r now sa ((begin_tick ge r now sa s0)\<lparr>rs_sample := Some (sample_stamp now sa)\<rparr>)"
  have l: "rs_last_valid t = rs_last_valid (weighed r now sa s0)" by (simp add: t_def weighed_def begin_tick_fields)
  have "between (wall_of now sa) s0 t"
    using begin_tick_between [where sa = sa and now = now and s = s0 and ge = ge and r = r] by (simp add: t_def weighed_def between_simps wall_of_def)
  then show ?thesis
    using assms l by (intro exI [of _ t])
      (simp add: evaluate_unforced judge_weighed t_def [symmetric] blind_def, simp add: t_def weighed_fields begin_tick_fields)
qed

lemma urgent_sends:
  assumes "act ge r now q actual age stale c v = (d, s1)" "rs_want v = Some w" "rs_urgent v" "rs_pending v" "\<not> rs_retry v" "\<not> paused now v"
    "\<forall>who. ask_gate ge v True \<noteq> Some (YieldTo who)" "\<not> (is_fresh actual age stale \<and> holds_want r actual w)"
  shows "de_action d = shadow_of r Run \<and> de_want d = Some w"
proof -
  define t where "t = v\<lparr>rs_drift_tick := False, rs_yielding_to := None\<rparr>"
  have p: "\<not> paused now (v\<lparr>rs_drift_tick := False\<rparr>)" "ask_gate ge (v\<lparr>rs_drift_tick := False\<rparr>) True = ask_gate ge v True"
    using assms(6) by simp_all
  have body: "act_body ge r now q actual age stale c (v\<lparr>rs_drift_tick := False\<rparr>)
      = act_pending ge r now (ask_gate ge v True) q (is_fresh actual age stale) actual c w t"
    using assms(2-4,7) p unfolding act_body_def paused_def [symmetric]
    by (auto simp: t_def Let_def split: option.splits gate_answer.splits)
  have "act_pending ge r now (ask_gate ge v True) q (is_fresh actual age stale) actual c w t = send r now Run c t"
    using assms(3,5) unfolding act_pending_def if_not_P [OF assms(8)] by (simp add: t_def boot_wait_def Let_def)
  moreover obtain d' u where u: "send r now Run c t = (d', u)" by (cases "send r now Run c t")
  ultimately have "d = d'" using assms(1) body by (simp add: act_def)
  moreover have "rs_want u = rs_want t" using send_spec [OF u] by (simp add: keeps_def)
  ultimately show ?thesis using send_spec [OF u] assms(2) by (simp add: t_def)
qed



section \<open>A change of mind\<close>

text \<open>What the debounce has counted, and what is asked for, as they were.\<close>

definition undecided :: "rstate \<Rightarrow> rstate \<Rightarrow> bool" where
  "undecided s0 s \<longleftrightarrow> rs_want s = rs_want s0 \<and> rs_deb_target s = rs_deb_target s0 \<and> rs_deb_count s = rs_deb_count s0
     \<and> rs_deb_since s = rs_deb_since s0 \<and> rs_deb_sample s = rs_deb_sample s0"

lemma undecided_clamp: "undecided s0 s \<Longrightarrow> apply_clamp r w wl v s = (x, t) \<Longrightarrow> undecided s0 t"
  by (auto dest!: apply_clamp_state simp: undecided_def)

lemma undecided_desired:
  assumes "undecided s0 s" "rule_desired ge r sa s = ((st, base, fast), t)"
  shows "undecided s0 t"
proof (cases "rd_kind r = StepsRule")
  case True
  then have d: "desired r (case signal_num (sa_signal sa) of Some v \<Rightarrow> v | None \<Rightarrow> 0) (sa_actual sa) s = ((st, base, fast), t)"
    using assms(2) by (simp add: rule_desired_def)
  obtain b where "t = s\<lparr>rs_boot_unknown := b\<rparr>" using desired_spec [OF d] by blast
  then show ?thesis using assms(1) by (simp add: undecided_def)
next
  case False
  then have "t = s" using assms(2) by (auto simp: rule_desired_def split: rule_kind.splits prod.splits)
  then show ?thesis using assms(1) by simp
qed

text \<open>Has the debounce seen enough to adopt a want? The sample counts once more when it is a new one.\<close>

definition debounced :: "rule_def \<Rightarrow> rat \<Rightarrow> bool \<Rightarrow> string \<Rightarrow> params option \<Rightarrow> rstate \<Rightarrow> bool" where
  "debounced r now fresh st w s =
     (if same_key (rs_deb_target s) st w
      then tm_debounce (rd_timing r) \<le> rs_deb_count s + (if fresh then 1 else 0) \<and> tm_for (rd_timing r) \<le> now - (case rs_deb_since s of Some t \<Rightarrow> t | None \<Rightarrow> now)
      else tm_debounce (rd_timing r) \<le> 1 \<and> tm_for (rd_timing r) \<le> 0)"

lemma adopt_spec: "adopt st w base urgent now s = (c, t) \<Longrightarrow> (rs_want t = w \<or> same_want w (rs_want s) \<and> rs_want t = rs_want s) \<and> rs_state t = st"
  by (auto simp: adopt_def transition_def Let_def split: if_splits)

lemma settle_debounced:
  assumes "undecided s0 s" "settle_want ge r now sa ts new st w base fast s = (d, s1)"
  shows "rs_want s1 = rs_want s0 \<or> rs_want s1 = w \<and> rs_state s1 = st \<and> (fast \<or> debounced r now (new \<or> differs (rs_deb_sample s0) ts) st w s0)"
proof -
  define u where "u = count_sample now ts new st w s"
  have uw: "rs_want u = rs_want s0" using assms(1) by (simp add: u_def count_sample_def undecided_def)
  have cnt: "debounced r now (new \<or> differs (rs_deb_sample s0) ts) st w s0"
    if "tm_debounce (rd_timing r) \<le> rs_deb_count u" "\<not> now - (case rs_deb_since u of Some t \<Rightarrow> t | None \<Rightarrow> now) < tm_for (rd_timing r)"
    using that assms(1) by (auto simp: u_def count_sample_def debounced_def undecided_def split: if_splits)
  obtain c1 t1 where t1: "adopt st w base fast now s = (c1, t1)" by (cases "adopt st w base fast now s")
  obtain c2 t2 where t2: "adopt st w base False now u = (c2, t2)" by (cases "adopt st w base False now u")
  define go where "go = (\<lambda>c. act ge r now None (sa_actual sa) (sa_actual_age sa) (sa_actual_stale sa) c)"
  have e: "settle_want ge r now sa ts new st w base fast s =
    (if st = rs_state s \<and> same_want w (rs_want s) then go False (s\<lparr>rs_deb_target := None, rs_deb_count := 0\<rparr>)
     else if fast \<or> (w = None \<and> rs_want s = None) then go c1 t1
     else if tm_debounce (rd_timing r) \<le> rs_deb_count u \<and> now - (case rs_deb_since u of Some t \<Rightarrow> t | None \<Rightarrow> now) < tm_for (rd_timing r)
       then act ge r now (Some Hold) (sa_actual sa) None None False u
     else if tm_debounce (rd_timing r) \<le> rs_deb_count u then go c2 t2
     else act ge r now (Some Hold) (sa_actual sa) None None False u)"
    unfolding settle_want_def Let_def u_def [symmetric] go_def t1 by (simp add: t2)
  have keep: "go c x = (d, s1) \<Longrightarrow> rs_want s1 = rs_want x \<and> rs_state s1 = rs_state x" for c x
    using act_spec [of ge r now None "sa_actual sa" "sa_actual_age sa" "sa_actual_stale sa" c x d s1] by (simp add: go_def keeps_def)
  have hold: "act ge r now (Some Hold) (sa_actual sa) None None False u = (d, s1) \<Longrightarrow> rs_want s1 = rs_want s0"
    using act_spec [of ge r now "Some Hold" "sa_actual sa" None None False u d s1] uw by (simp add: keeps_def)
  have sw: "rs_want s = rs_want s0" using assms(1) by (simp add: undecided_def)
  show ?thesis
    using assms(2) unfolding e
    by (auto split: if_splits dest!: keep hold simp: sw uw adopt_spec [OF t1] dest: cnt)
      (use adopt_spec [OF t1] adopt_spec [OF t2] sw uw cnt in auto)
qed

lemma live_debounced:
  assumes "undecided s0 s" "rd_kind r \<noteq> TrimRule" "\<not> rd_resume_on_boot r" "live_eval ge r now sa ts new s = (d, s1)"
  shows "rs_want s1 = rs_want s0 \<or> (\<exists>p\<in>set (rd_steps r). sp_fast p \<and> sp_label p = rs_state s1)
    \<or> debounced r now (new \<or> differs (rs_deb_sample s0) ts) (rs_state s1) (rs_want s1) s0"
proof -
  define a where "a = (if rs_state s = STALE
               then s\<lparr>rs_state := (case rs_pre_stale s of Some (l, w) \<Rightarrow> l | None \<Rightarrow> NORMAL),
                       rs_trim := (if rd_kind r = TrimRule \<and> rd_on_stale r \<noteq> HoldWant then None else rs_trim s)\<rparr>
               else s)"
  obtain st base fast c where c: "rule_desired ge r sa a = ((st, base, fast), c)" by (metis prod.collapse)
  obtain w x where x: "apply_clamp r (want_for r base) (rs_wall c) (if rd_kind r = StepsRule then signal_num (sa_signal sa) else None) c = (w, x)"
    by (metis prod.collapse)
  have "undecided s0 a" using assms(1) by (auto simp: a_def undecided_def)
  then have u: "undecided s0 x" using undecided_clamp [OF undecided_desired [OF _ c] x] by simp
  have e: "settle_want ge r now sa ts new st w base fast x = (d, s1)"
    using assms(2-4) c x unfolding live_eval_def Let_def a_def [symmetric] by simp
  have "between (rs_wall a) a a" by (simp add: between_simps)
  from desired_between [OF this c] have "fast \<longrightarrow> (\<exists>p\<in>set (rd_steps r). sp_fast p \<and> sp_label p = st)" by simp
  then show ?thesis using settle_debounced [OF u e] by auto
qed

lemma rest_undecided:
  assumes "undecided s0 s" "rest ge r now sa s = (res, t)"
  shows "case res of None \<Rightarrow> undecided s0 t | Some d \<Rightarrow> rs_want t = rs_want s0 \<or> rs_state t = ''resting''"
proof -
  define u where "u = (if (case rs_rest_until s of Some x \<Rightarrow> x \<le> now | None \<Rightarrow> False) then s\<lparr>rs_rest_until := None\<rparr> else s)"
  have u: "undecided s0 u" using assms(1) by (auto simp: u_def undecided_def)
  define go where "go = act ge r now None (sa_actual sa) (sa_actual_age sa) (sa_actual_stale sa)"
  have keep: "go c x = (d, y) \<Longrightarrow> rs_want y = rs_want x \<and> rs_state y = rs_state x" for c x d y
    using act_spec [of ge r now None "sa_actual sa" "sa_actual_age sa" "sa_actual_stale sa" c x d y] by (simp add: go_def keeps_def)
  have "rs_state (start_rest r now u) = ''resting''"
    by (auto simp: start_rest_def transition_def Let_def split: prod.splits if_splits)
  moreover have "(res, t) = (if rs_rest_until u = None \<and> tm_max_on (rd_timing r) \<noteq> 0 \<and> rs_on_since u \<noteq> None \<and> is_on r (rs_commanded u) = Some True
            \<and> tm_max_on (rd_timing r) \<le> now - the (rs_on_since u)
         then (let (d, s) = go True (start_rest r now u) in (Some d, s))
         else if rs_rest_until u \<noteq> None
         then (if rs_pending u then (let (d, s) = go False u in (Some d, s)) else (Some (decide Hold False u), u))
         else (None, u))"
    using assms(2) unfolding rest_def Let_def u_def [symmetric] go_def [symmetric] by simp
  ultimately show ?thesis using u by (auto split: if_splits prod.splits dest!: keep simp: undecided_def)
qed

lemma guard_undecided: "undecided s0 s \<Longrightarrow> guard_sample r v new s = (h, t) \<Longrightarrow> undecided s0 t"
  unfolding guard_sample_def by (auto simp: undecided_def split: option.splits if_splits)



section \<open>A trim\<close>

lemma round6_error: "\<bar>py_round_dec q 6 - q\<bar> \<le> 1 / 2000000"
proof -
  have "\<bar>of_int (py_round (q * ten_pow 6)) - q * ten_pow 6\<bar> \<le> 1 / 2" by (rule py_round_error)
  then show ?thesis by (simp add: py_round_dec_def ten_pow_def abs_le_iff field_simps)
qed

text \<open>What \<open>_trim_errors\<close> asks of a trim rule.\<close>

definition trim_ok :: "rule_def \<Rightarrow> bool" where
  "trim_ok r \<longleftrightarrow> rd_below r < rd_above r \<and> 0 < rd_step r \<and> (case rd_gain r of Some g \<Rightarrow> 0 < g | None \<Rightarrow> True) \<and> rd_vmin r < rd_vmax r
     \<and> (case rd_start r of Some q \<Rightarrow> rd_vmin r \<le> q \<and> q \<le> rd_vmax r | None \<Rightarrow> True)
     \<and> (case rd_off r of Some x \<Rightarrow> x < rd_vmin r | None \<Rightarrow> True)"

text \<open>A value a trim works at: off, or in its limits.\<close>

definition trim_value :: "rule_def \<Rightarrow> rat \<Rightarrow> rat \<Rightarrow> bool" where
  "trim_value r slack x \<longleftrightarrow> rd_off r = Some x \<or> rd_vmin r - slack \<le> x \<and> x \<le> rd_vmax r + slack"

text \<open>
  C36 (bounds): One adjustment of a trim. From off or within the limits, the next value is off or within the limits, up to
  the rounding to six decimals; it moves at most one step, up when the signal is over the band and down when it is
  under it, except where it starts from off (at the start value) or stops (from the lowest value).
\<close>

theorem trim_adjusts_one_step:
  assumes "trim_ok r" "trim_value r 0 x" "trim_direction r v \<noteq> 0"
  shows "trim_value r (1 / 2000000) (trim_next r x v (trim_direction r v))
    \<and> (rd_off r = Some x \<or> rd_off r = Some (trim_next r x v (trim_direction r v)) \<and> x = rd_vmin r \<and> v < rd_below r
       \<or> \<bar>trim_next r x v (trim_direction r v) - x\<bar> \<le> rd_step r + 1 / 2000000
         \<and> (if rd_above r < v then x - 1 / 2000000 \<le> trim_next r x v (trim_direction r v) else trim_next r x v (trim_direction r v) \<le> x + 1 / 2000000))"
proof (cases "case rd_off r of Some o' \<Rightarrow> x \<le> o' | None \<Rightarrow> False")
  case True
  then obtain q where q: "rd_off r = Some q" "x \<le> q" by (auto split: option.splits)
  then have "x = q" using assms(1,2) by (auto simp: trim_ok_def trim_value_def)
  then show ?thesis
    using q assms(1) by (auto simp: trim_next_def trim_ok_def trim_value_def split: option.splits)
next
  case False
  define dir where "dir = trim_direction r v"
  define delta where "delta = (case rd_gain r of None \<Rightarrow> rd_step r * of_int dir
                | Some g \<Rightarrow> max (- rd_step r) (min (rd_step r) (g * (v - (if 0 < dir then rd_above r else rd_below r)))))"
  have x: "rd_vmin r \<le> x" "x \<le> rd_vmax r" "rd_off r \<noteq> Some x" using False assms(2) by (auto simp: trim_value_def split: option.splits)
  have n: "trim_next r x v dir = (if dir < 0 \<and> rd_off r \<noteq> None \<and> x \<le> rd_vmin r then the (rd_off r)
               else py_round_dec (min (max (x + delta) (rd_vmin r)) (rd_vmax r)) 6)"
    unfolding trim_next_def if_not_P [OF False] Let_def delta_def by (rule refl)
  have step: "0 < rd_step r" "rd_vmin r < rd_vmax r" "rd_below r < rd_above r" using assms(1) by (simp_all add: trim_ok_def)
  have dir: "dir = 1 \<and> rd_above r < v \<or> dir = - 1 \<and> v < rd_below r"
    using assms(3) by (auto simp: dir_def trim_direction_def split: if_splits)
  have gain: "0 < g" if "rd_gain r = Some g" for g using assms(1) that by (simp add: trim_ok_def)
  have d: "\<bar>delta\<bar> \<le> rd_step r \<and> (dir = 1 \<longrightarrow> 0 \<le> delta) \<and> (dir = - 1 \<longrightarrow> delta \<le> 0)"
  proof (cases "rd_gain r")
    case None
    then show ?thesis using dir step by (auto simp: delta_def)
  next
    case (Some g)
    have "dir = 1 \<Longrightarrow> 0 \<le> g * (v - rd_above r)" "dir = - 1 \<Longrightarrow> g * (v - rd_below r) \<le> 0"
      using dir gain [OF Some] by (auto intro: mult_nonneg_nonneg mult_nonneg_nonpos)
    then show ?thesis using dir step Some by (auto simp: delta_def max_def min_def)
  qed
  define y where "y = min (max (x + delta) (rd_vmin r)) (rd_vmax r)"
  have y: "rd_vmin r \<le> y" "y \<le> rd_vmax r" "\<bar>y - x\<bar> \<le> rd_step r" "dir = 1 \<Longrightarrow> x \<le> y" "dir = - 1 \<Longrightarrow> y \<le> x"
    using d x step by (auto simp: y_def min_def max_def abs_le_iff)
  have e: "py_round_dec y 6 \<le> y + 1 / 2000000" "y - 1 / 2000000 \<le> py_round_dec y 6"
    using round6_error [of y] unfolding abs_le_iff by linarith+
  show ?thesis
  proof (cases "dir < 0 \<and> rd_off r \<noteq> None \<and> x \<le> rd_vmin r")
    case True
    then show ?thesis using n x dir by (auto simp: dir_def [symmetric] trim_value_def)
  next
    case f: False
    then have m: "trim_next r x v dir = py_round_dec y 6" using n unfolding y_def by (metis (full_types))
    have "trim_value r (1 / 2000000) (py_round_dec y 6)" unfolding trim_value_def using e y(1,2) by linarith
    moreover have "\<bar>py_round_dec y 6 - x\<bar> \<le> rd_step r + 1 / 2000000" using e y(3) by linarith
    moreover have "if rd_above r < v then x - 1 / 2000000 \<le> py_round_dec y 6 else py_round_dec y 6 \<le> x + 1 / 2000000"
    proof (cases "rd_above r < v")
      case True
      then have "x \<le> y" using dir step y(4) by auto
      then show ?thesis using True e by simp
    next
      case False
      then have "y \<le> x" using dir y(5) by auto
      then show ?thesis using False e by simp
    qed
    ultimately show ?thesis unfolding dir_def [symmetric] m by blast
  qed
qed

definition charge_rule :: rule_def where
  "charge_rule = volt_rule\<lparr>rd_kind := TrimRule, rd_above := 500, rd_below := 100, rd_step := 10, rd_gain := Some (1 / 10), rd_vmin := 20, rd_vmax := 100,
     rd_start := Some 30, rd_off := Some 0\<rparr>"

theorem trim_adjusts_one_step_witness:
  "trim_next charge_rule 95 800 1 = 100 \<and> trim_next charge_rule 20 0 (- 1) = 0 \<and> \<bar>trim_next charge_rule 40 530 1 - 40\<bar> \<le> 10 + 1 / 2000000"
proof (intro conjI)
  show "trim_next charge_rule 95 800 1 = 100" "trim_next charge_rule 20 0 (- 1) = 0" by code_simp+
  have "trim_ok charge_rule" "trim_value charge_rule 0 40" "trim_direction charge_rule 530 = 1" "rd_off charge_rule = Some 0" "rd_vmin charge_rule = 20" "rd_step charge_rule = 10" by code_simp+
  then show "\<bar>trim_next charge_rule 40 530 1 - 40\<bar> \<le> 10 + 1 / 2000000"
    using trim_adjusts_one_step [of charge_rule 40 530] by simp
qed

end
