(* ===== verification/Spec2Isabelle.thy ===== *)
theory Spec2Isabelle
  imports TapClient SeplosBus CanSignal CommandDispatch WriteLease FieldArbiter ChannelArbiter ThresholdEngine ModbusPolling BusClaims FormulaSafety MqttRun Sequences RuleLaws
begin

text \<open>
  Verification development for the multi-bus gateway, the Python package
  \<open>src/multibus\<close>: a process that reads meters, inverters and batteries over Modbus, RTU
  listening, CAN, Seplos ASCII and MQTT, corrects what it reads, publishes it, raises alerts
  on it and writes commands back to the devices.

  \<^bold>\<open>How the parts work together.\<close> Words and bytes come in from a bus
  (polled by \<open>modbus_client.py\<close>, overheard by \<open>rtu_tap.py\<close> and
  \<open>seplos_v2.py\<close>, framed by CAN, or as JSON over MQTT). \<open>register_parser.py\<close> and
  \<open>can_signal.py\<close> turn them into raw numbers, \<open>value_decode.py\<close> corrects these with the
  filters of \<open>counter_filter.py\<close>, and the value goes to the store under the key of
  \<open>config.py\<close>. Where several sources can give one field \<open>source_arbiter.py\<close> picks.
  \<open>threshold_engine.py\<close> and the formulas of \<open>expressions.py\<close> read the store.
  In the other direction a command (\<open>commands.py\<close>) goes through the referee of its
  channel (\<open>arbiter.py\<close>) and the dispatcher (\<open>command_dispatch.py\<close>), is planned,
  encoded (\<open>encoder.py\<close>), written and read back, and a lease
  (\<open>write_lease.py\<close>) takes it back when nobody renews it. \<open>bus_claims.py\<close> keeps a wire
  from having two masters.

  \<^bold>\<open>Theories and sources.\<close>
  \<^item> \<open>Prelude\<close>: Python values, dictionaries, text, parsed JSON, errors and the
    simplification sets that every component uses. \<open>ByteStream\<close>: the locale of a
    frame splitter, with independence of how the bytes are chunked.
  \<^item> \<open>RegisterCodec\<close> (\<open>register_parser.py\<close>, \<open>encoder.py\<close>), \<open>RegisterKeys\<close>
    (\<open>config.py\<close>), \<open>CounterFilter\<close> (\<open>counter_filter.py\<close>), \<open>ValueDecode\<close>
    (\<open>value_decode.py\<close>), \<open>CanSignal\<close> (\<open>can_signal.py\<close>): values on the wire and back. The
    locale \<open>word_codec\<close> is interpreted on the one, two and four word layouts, the locale
    \<open>value_filter\<close> on both filters.
  \<^item> \<open>RtuTap\<close>, \<open>TapClient\<close> (\<open>rtu_tap.py\<close>), \<open>SeplosFrames\<close>,
    \<open>SeplosMap\<close>, \<open>SeplosBus\<close> (\<open>seplos_v2.py\<close>): the listeners, with the
    splitters as interpretations of \<open>stream_splitter\<close>.
  \<^item> \<open>ModbusPolling\<close> (\<open>modbus_client.py\<close>): the wire meter, the turns of an endpoint
    and the batching of registers. \<open>BusClaims\<close> (\<open>bus_claims.py\<close>).
  \<^item> \<open>FieldArbiter\<close> (\<open>source_arbiter.py\<close>), \<open>ChannelArbiter\<close>
    (\<open>arbiter.py\<close>), \<open>ThresholdEngine\<close> (\<open>threshold_engine.py\<close>).
  \<^item> \<open>ExprValues\<close>, \<open>Expressions\<close>, \<open>FormulaSafety\<close>
    (\<open>expressions.py\<close>, \<open>clock.py\<close>): formulas, from the tree of Python's own parser on.
  \<^item> \<open>CommandDispatch\<close> (\<open>command_dispatch.py\<close>): lanes, slots and workers; the locale
    \<open>work_pool\<close> states a queue of work, \<open>lane_invariant\<close> what every step of the
    dispatcher keeps. \<open>WriteLease\<close> (\<open>write_lease.py\<close>).
  \<^item> \<open>CommandDefs\<close>, \<open>CommandPlan\<close>, \<open>CommandRun\<close> (\<open>commands.py\<close>): expressions,
    parameters and channels; frames and read blocks; the run over a connection.
    \<open>JsonPath\<close> (\<open>http_client.py\<close>), \<open>MqttInput\<close> (\<open>mqtt_input.py\<close>) and
    \<open>MqttRun\<close> (\<open>commands.py\<close>): the MQTT source and the run through it.

  \<^bold>\<open>Conventions.\<close> A float is an exact rational and text is ASCII. An object is a
  record and a method a function from the object before to the object after. A dictionary is
  an association list in insertion order. What one holds a lock for is one step; threads are
  the interleavings of steps. The clock, the operating system, the broker, the JSON parser,
  the mathematical functions of the library and the callbacks of other components are
  arguments. Exceptions are values: an error type beside the result, or \<open>None\<close>. A
  connection is a pair of functions over the state of the device, and a run over it keeps the
  log of what went over the wire; the statements about runs speak of that log.

  \<^bold>\<open>What the lemmas show.\<close> The codecs invert each other up to the documented
  saturation. The splitters find the same frames however the bytes arrive, and a delivered
  window always answers the request that was pending. The filters let a counter fall only
  after confirmation. The dispatcher tells every command its end exactly once, keeps the
  order of one device and serves every waiting device; it refines a queue with replacement.
  A lease ends only by being cleared or by its safe value being written, and an expired one is
  reverted. The channel referee never starts the equipment more often or sooner than its
  protection allows. A validated formula never leaves with an exception the engine does not
  catch, and its value depends only on the fields it names. The verdict of a command tells
  exactly what was written or published, nothing is written unless every guard held in the
  same run, and a success means a reading taken afterwards met every check; the frames carry
  the declared writes and the blocks cover every register within the limit. Over MQTT no
  command is published where the gateway listens, and a retained value never counts as new.

  \<^bold>\<open>Bounds and fuel.\<close> The union-find of the command channels is a
  \<open>partial_function\<close> in the option monad; it is shown to return on every forest the
  grouping builds. The delivery of held MQTT messages recurses as deep as there are held
  messages, plus two, which the proofs of that theory use as its bound. Every other loop is
  structural or has a measure.

  \<^bold>\<open>Not modelled.\<close> Sockets, serial ports, the polling and listening threads,
  the broker connection and the databases the values are sent to are I/O around the modelled
  operations. The web API, discovery, authentication, auditing and snapshots are glue over
  libraries. Configuration documents are mostly reshaped YAML. The sentences shown to people
  are constructors that carry what a sentence would name. Merged and linked meters, virtual
  meters, rules and sequences are components of their own that this development does not
  reach yet. Rounding of floats, infinities and NaN are outside the model except where a wire
  format produces them.
\<close>

end
